(* ===== verification/Prelude.thy ===== *)
theory Prelude
  imports Main "HOL-Library.Word" "HOL-Library.AList"
begin

text \<open>
  Shared vocabulary of the development: the machine types of the driver's C++ code, the
  named collections the component proofs draw on, and generic facts on bytes inside words
  and on lists.

  An N-bit C++ integer is an N-bit word: signed values are read with \<open>sint\<close>, an arithmetic
  shift is \<open>signed_drop_bit\<close>, a logical one \<open>drop_bit\<close>, and \<open>static_cast\<close> between integer
  types of the same or a smaller width is \<open>ucast\<close>.
\<close>

unbundle bit_operations_syntax

type_synonym byte = "8 word"
type_synonym u8 = "8 word"
type_synonym i8 = "8 word"
type_synonym u16 = "16 word"
type_synonym i16 = "16 word"
type_synonym u32 = "32 word"
type_synonym i32 = "32 word"
type_synonym u64 = "64 word"
type_synonym i64 = "64 word"
type_synonym size_t = "64 word"

named_theorems codec \<open>decoding what an encoder produced\<close>
named_theorems codec_length \<open>number of bytes an encoder produces\<close>
named_theorems byte_simps \<open>bits of a word assembled from its bytes\<close>

subsection \<open>Bytes of a word\<close>

lemma bit_byte_at [byte_simps]:
  "bit (push_bit k (ucast (ucast (drop_bit k v) :: byte)) :: 'a::len word) n \<longleftrightarrow>
     k \<le> n \<and> n < k + 8 \<and> bit (v :: 'a word) n"
  by (auto simp: bit_simps dest: bit_imp_le_length)

lemma bit_byte_at_0 [byte_simps]:
  "bit (ucast (ucast v :: byte) :: 'a::len word) n \<longleftrightarrow> n < 8 \<and> bit (v :: 'a word) n"
  by (auto simp: bit_simps dest: bit_imp_le_length)

declare bit_or_iff [byte_simps]

text \<open>The byte cut out of an arithmetic shift is the byte cut out of the logical one, as long
  as the byte lies inside the word.\<close>

lemma byte_of_signed_shift [simp]:
  "k + 8 \<le> LENGTH('a) \<Longrightarrow>
     (ucast (signed_drop_bit k (v :: 'a::len word)) :: byte) = ucast (drop_bit k v)"
  by (rule bit_word_eqI) (auto simp: bit_simps)

lemma ff_eq_mask: "(0xFF :: 'a::len word) = mask 8"
  by (simp add: mask_eq_exp_minus_1)

lemma byte_of_mask [simp]:
  "(ucast ((v :: 'a::len word) AND 0xFF) :: byte) = ucast v"
  unfolding ff_eq_mask
  by (rule bit_word_eqI) (auto simp: bit_simps dest: bit_imp_le_length)

lemma byte_and_ff [simp]: "(b :: byte) AND 0xFF = b"
proof -
  have "(0xFF :: byte) = - 1" by simp
  then show ?thesis by (metis and.right_neutral)
qed

lemma of_nat_word_nat [simp]: "n < 2 ^ LENGTH('a) \<Longrightarrow> unat (of_nat n :: 'a::len word) = n"
  by (simp add: unat_of_nat take_bit_nat_eq_self)

lemma unat_exp [simp]: "i < LENGTH('a) \<Longrightarrow> unat (2 ^ i :: 'a::len word) = 2 ^ i"
proof -
  assume "i < LENGTH('a)"
  then have "unat (of_nat (2 ^ i) :: 'a word) = 2 ^ i" by (intro of_nat_word_nat) simp
  then show ?thesis by simp
qed

lemma unat_ucast_up [simp]:
  "LENGTH('a) \<le> LENGTH('b) \<Longrightarrow> unat (ucast (w :: 'a::len word) :: 'b::len word) = unat w"
proof -
  assume le: "LENGTH('a) \<le> LENGTH('b)"
  have "unat w < 2 ^ LENGTH('a)" by (rule unsigned_less)
  also have "\<dots> \<le> 2 ^ LENGTH('b)" using le by (intro power_increasing) auto
  finally show ?thesis by (simp add: unsigned_ucast_eq take_bit_nat_eq_self)
qed

lemma unat_ucast_mod: "unat (ucast (w :: 'a::len word) :: 'b::len word) = unat w mod 2 ^ LENGTH('b)"
  by (simp add: unsigned_ucast_eq take_bit_eq_mod)

lemma unat_drop_bit_div: "unat (drop_bit n (w :: 'a::len word)) = unat w div 2 ^ n"
  by (simp only: unat_drop_bit_eq) (simp add: drop_bit_eq_div)

lemma unat_minus_of_nat:
  "k \<le> unat (w :: 'a::len word) \<Longrightarrow> unat (w - of_nat k) = unat w - k"
proof -
  assume k: "k \<le> unat w"
  have "k < 2 ^ LENGTH('a)" by (rule le_less_trans [OF k]) (rule unsigned_less)
  then have "unat (of_nat k :: 'a word) = k" by simp
  then show ?thesis using k by (simp add: unat_sub word_le_nat_alt)
qed

text \<open>A non-negative signed value keeps its value when it is widened.\<close>

lemma unat_scast_nonneg:
  "LENGTH('a) \<le> LENGTH('b) \<Longrightarrow> 0 \<le> sint (w :: 'a::len word) \<Longrightarrow>
     unat (scast w :: 'b::len word) = nat (sint w)"
proof -
  assume le: "LENGTH('a) \<le> LENGTH('b)" and nn: "0 \<le> sint w"
  have "sint w < 2 ^ (LENGTH('a) - 1)" using sint_less [of w] by simp
  also have "(2::int) ^ (LENGTH('a) - 1) \<le> 2 ^ LENGTH('b)" using le by (intro power_increasing) auto
  finally have less: "sint w < 2 ^ LENGTH('b)" .
  have "(scast w :: 'b word) = of_int (sint w)" by simp
  then have "uint (scast w :: 'b word) = sint w mod 2 ^ LENGTH('b)" by (metis uint_word_of_int)
  then have "uint (scast w :: 'b word) = sint w" using nn less by simp
  then show ?thesis by (simp flip: nat_uint_eq)
qed

lemma sint_of_nat_small:
  "n < 2 ^ (LENGTH('a) - 1) \<Longrightarrow> sint (of_nat n :: 'a::len word) = int n"
proof -
  assume "n < 2 ^ (LENGTH('a) - 1)"
  then have "int n < 2 ^ (LENGTH('a) - 1)" by (metis of_nat_less_iff of_nat_numeral of_nat_power)
  moreover have "- (2 ^ (LENGTH('a) - 1)) \<le> int n" by (rule order_trans [of _ 0]) auto
  ultimately show ?thesis by (simp add: signed_of_nat signed_take_bit_int_eq_self)
qed

subsection \<open>Lists\<close>

lemma take_append_drop [simp]: "n = length xs \<Longrightarrow> take n (xs @ ys) = xs"
  by simp

lemma drop_append_length [simp]: "n = length xs \<Longrightarrow> drop n (xs @ ys) = ys"
  by simp

lemma distinct_map_filter_subset: "distinct (map f xs) \<Longrightarrow> distinct (map f (filter P xs))"
  by (induction xs) auto

text \<open>Keys of an association list.\<close>

lemma keys_delete: "fst ` set (AList.delete k al) = fst ` set al - {k}"
  by (auto simp: AList.delete_eq image_iff)

end
