(* ===== verification/Serialization.thy ===== *)
theory Serialization
  imports Prelude
begin

text \<open>
  The primitive big-endian codec of \<open>serialization.hpp\<close>. An encoder writes through a
  \<open>char*\<close> and returns the advanced pointer: here it gives the bytes written. A decoder reads
  through a \<open>const char*\<close> and returns the advanced pointer: here it takes the bytes readable
  from the pointer and gives the value and the bytes that follow, or \<open>None\<close> where the C++ code
  would read past the end of the memory it was given (it does not check by itself).
\<close>

subsection \<open>Single bytes\<close>

definition encode_byte :: "u8 \<Rightarrow> byte list" where
  "encode_byte value = [value]"

definition decode_byte :: "byte list \<Rightarrow> (u8 \<times> byte list) option" where
  "decode_byte input = (if length input < 1 then None else Some (input ! 0, drop 1 input))"

definition encode_int8 :: "i8 \<Rightarrow> byte list" where
  "encode_int8 value = [value]"

definition decode_int8 :: "byte list \<Rightarrow> (i8 \<times> byte list) option" where
  "decode_int8 input = (if length input < 1 then None else Some (input ! 0, drop 1 input))"

subsection \<open>16, 32 and 64 bit integers\<close>

definition encode_uint16 :: "u16 \<Rightarrow> byte list" where
  "encode_uint16 value = [ucast (drop_bit 8 value), ucast (drop_bit 0 value)]"

definition decode_uint16 :: "byte list \<Rightarrow> (u16 \<times> byte list) option" where
  "decode_uint16 input =
     (if length input < 2 then None
      else Some (push_bit 0 (ucast (input ! 1)) OR push_bit 8 (ucast (input ! 0)),
                 drop 2 input))"

definition encode_int16 :: "i16 \<Rightarrow> byte list" where
  "encode_int16 value = [ucast (signed_drop_bit 8 value), ucast (signed_drop_bit 0 value)]"

definition decode_int16 :: "byte list \<Rightarrow> (i16 \<times> byte list) option" where
  "decode_int16 input =
     (if length input < 2 then None
      else Some (push_bit 0 (ucast (input ! 1)) OR push_bit 8 (ucast (input ! 0)),
                 drop 2 input))"

definition encode_uint32 :: "u32 \<Rightarrow> byte list" where
  "encode_uint32 value =
     [ucast (drop_bit 24 value), ucast (drop_bit 16 value),
      ucast (drop_bit 8 value), ucast (drop_bit 0 value)]"

definition decode_uint32 :: "byte list \<Rightarrow> (u32 \<times> byte list) option" where
  "decode_uint32 input =
     (if length input < 4 then None
      else Some (push_bit 0 (ucast (input ! 3)) OR push_bit 8 (ucast (input ! 2)) OR
                 push_bit 16 (ucast (input ! 1)) OR push_bit 24 (ucast (input ! 0)),
                 drop 4 input))"

definition encode_int32 :: "i32 \<Rightarrow> byte list" where
  "encode_int32 value =
     [ucast (signed_drop_bit 24 value), ucast (signed_drop_bit 16 value),
      ucast (signed_drop_bit 8 value), ucast (signed_drop_bit 0 value)]"

definition decode_int32 :: "byte list \<Rightarrow> (i32 \<times> byte list) option" where
  "decode_int32 input =
     (if length input < 4 then None
      else Some (push_bit 0 (ucast (input ! 3)) OR push_bit 8 (ucast (input ! 2)) OR
                 push_bit 16 (ucast (input ! 1)) OR push_bit 24 (ucast (input ! 0)),
                 drop 4 input))"

definition encode_int64 :: "i64 \<Rightarrow> byte list" where
  "encode_int64 value =
     [ucast (signed_drop_bit 56 value), ucast (signed_drop_bit 48 value),
      ucast (signed_drop_bit 40 value), ucast (signed_drop_bit 32 value),
      ucast (signed_drop_bit 24 value), ucast (signed_drop_bit 16 value),
      ucast (signed_drop_bit 8 value), ucast (signed_drop_bit 0 value)]"

definition decode_int64 :: "byte list \<Rightarrow> (i64 \<times> byte list) option" where
  "decode_int64 input =
     (if length input < 8 then None
      else Some (push_bit 0 (ucast (input ! 7)) OR push_bit 8 (ucast (input ! 6)) OR
                 push_bit 16 (ucast (input ! 5)) OR push_bit 24 (ucast (input ! 4)) OR
                 push_bit 32 (ucast (input ! 3)) OR push_bit 40 (ucast (input ! 2)) OR
                 push_bit 48 (ucast (input ! 1)) OR push_bit 56 (ucast (input ! 0)),
                 drop 8 input))"

text \<open>Floating-point values travel as their IEEE 754 bit pattern: \<open>copy_cast\<close> is a
  \<open>memcpy\<close>, so a \<open>float\<close> is its 32 bits and a \<open>double\<close> its 64 bits.\<close>

definition encode_float :: "32 word \<Rightarrow> byte list" where
  "encode_float value = encode_int32 value"

definition decode_float :: "byte list \<Rightarrow> (32 word \<times> byte list) option" where
  "decode_float input = decode_int32 input"

definition encode_double :: "64 word \<Rightarrow> byte list" where
  "encode_double value = encode_int64 value"

definition decode_double :: "byte list \<Rightarrow> (64 word \<times> byte list) option" where
  "decode_double input = decode_int64 input"

subsection \<open>UUIDs\<close>

record cass_uuid =
  time_and_version :: u64
  clock_seq_and_node :: u64

text \<open>The loop \<open>for (i = 0; i < 8; ++i) output[15 - i] = low byte; value >>= 8\<close> writes
  backwards, so each round puts its byte in front of those already written.\<close>

primrec write_be :: "nat \<Rightarrow> u64 \<Rightarrow> byte list \<Rightarrow> byte list" where
  "write_be 0 node written = written"
| "write_be (Suc i) node written =
     write_be i (drop_bit 8 node) (ucast (node AND 0xFF) # written)"

definition encode_uuid :: "cass_uuid \<Rightarrow> byte list" where
  "encode_uuid uuid =
     (let t0 = time_and_version uuid; t1 = drop_bit 8 t0; t2 = drop_bit 8 t1;
          t3 = drop_bit 8 t2; t4 = drop_bit 8 t3; t5 = drop_bit 8 t4;
          t6 = drop_bit 8 t5; t7 = drop_bit 8 t6
      in [ucast (t3 AND 0xFF), ucast (t2 AND 0xFF), ucast (t1 AND 0xFF), ucast (t0 AND 0xFF),
          ucast (t5 AND 0xFF), ucast (t4 AND 0xFF),
          ucast (t7 AND 0xFF), ucast (t6 AND 0xFF)]
         @ write_be 8 (clock_seq_and_node uuid) [])"

definition decode_uuid :: "byte list \<Rightarrow> (cass_uuid \<times> byte list) option" where
  "decode_uuid input =
     (if length input < 16 then None
      else Some
        (\<lparr>time_and_version =
            ucast (input ! 3) OR push_bit 8 (ucast (input ! 2)) OR
            push_bit 16 (ucast (input ! 1)) OR push_bit 24 (ucast (input ! 0)) OR
            push_bit 32 (ucast (input ! 5)) OR push_bit 40 (ucast (input ! 4)) OR
            push_bit 48 (ucast (input ! 7)) OR push_bit 56 (ucast (input ! 6)),
          clock_seq_and_node =
            foldl (\<lambda>acc i. acc OR push_bit (8 * i) (ucast (input ! (15 - i)))) 0 [0..<8]\<rparr>,
         drop 16 input))"

subsection \<open>Collection sizes and zig-zag numbers\<close>

definition decode_size :: "int \<Rightarrow> byte list \<Rightarrow> (i32 \<times> byte list) option" where
  "decode_size protocol_version input =
     (if protocol_version \<ge> 3 then decode_int32 input
      else map_option (\<lambda>(temp, pos). (ucast temp, pos)) (decode_uint16 input))"

definition decode_zig_zag :: "u64 \<Rightarrow> i64" where
  "decode_zig_zag n = drop_bit 1 n XOR (- (n AND 1))"

definition encode_zig_zag :: "i64 \<Rightarrow> u64" where
  "encode_zig_zag n = push_bit 1 n XOR signed_drop_bit 63 n"

subsection \<open>Lengths\<close>

lemma length_encoders [codec_length, simp]:
  "length (encode_byte b) = 1" "length (encode_int8 i) = 1"
  "length (encode_uint16 u) = 2" "length (encode_int16 s) = 2"
  "length (encode_uint32 v) = 4" "length (encode_int32 w) = 4"
  "length (encode_int64 l) = 8" "length (encode_float f) = 4" "length (encode_double d) = 8"
  by (simp_all add: encode_byte_def encode_int8_def encode_uint16_def encode_int16_def
      encode_uint32_def encode_int32_def encode_int64_def encode_float_def encode_double_def)

lemma length_write_be: "length (write_be n node written) = n + length written"
  by (induction n arbitrary: node written) auto

lemma length_encode_uuid [codec_length, simp]: "length (encode_uuid u) = 16"
  by (simp add: encode_uuid_def Let_def length_write_be)

subsection \<open>Round trips\<close>

lemma decode_encode_byte [codec, simp]:
  "decode_byte (encode_byte v @ rest) = Some (v, rest)"
  "decode_int8 (encode_int8 v @ rest) = Some (v, rest)"
  by (simp_all add: decode_byte_def encode_byte_def decode_int8_def encode_int8_def)

lemma decode_encode_uint16 [codec, simp]:
  "decode_uint16 (encode_uint16 v @ rest) = Some (v, rest)"
proof -
  have "ucast (ucast v :: byte) OR push_bit 8 (ucast (ucast (drop_bit 8 v) :: byte)) = v"
    by (rule bit_word_eqI) (simp only: byte_simps, auto)
  then show ?thesis by (simp add: decode_uint16_def encode_uint16_def)
qed

lemma decode_encode_int16 [codec, simp]:
  "decode_int16 (encode_int16 v @ rest) = Some (v, rest)"
proof -
  have "ucast (ucast v :: byte) OR push_bit 8 (ucast (ucast (drop_bit 8 v) :: byte)) = v"
    by (rule bit_word_eqI) (simp only: byte_simps, auto)
  then show ?thesis by (simp add: decode_int16_def encode_int16_def)
qed

lemma four_bytes:
  "ucast (ucast v :: byte) OR push_bit 8 (ucast (ucast (drop_bit 8 v) :: byte)) OR
   push_bit 16 (ucast (ucast (drop_bit 16 v) :: byte)) OR
   push_bit 24 (ucast (ucast (drop_bit 24 v) :: byte)) = (v :: 32 word)"
  by (rule bit_word_eqI) (simp only: byte_simps, auto)

lemma decode_encode_uint32 [codec, simp]:
  "decode_uint32 (encode_uint32 v @ rest) = Some (v, rest)"
  by (simp add: decode_uint32_def encode_uint32_def four_bytes)

lemma decode_encode_int32 [codec, simp]:
  "decode_int32 (encode_int32 v @ rest) = Some (v, rest)"
  by (simp add: decode_int32_def encode_int32_def four_bytes)

lemma eight_bytes:
  "ucast (ucast v :: byte) OR push_bit 8 (ucast (ucast (drop_bit 8 v) :: byte)) OR
   push_bit 16 (ucast (ucast (drop_bit 16 v) :: byte)) OR
   push_bit 24 (ucast (ucast (drop_bit 24 v) :: byte)) OR
   push_bit 32 (ucast (ucast (drop_bit 32 v) :: byte)) OR
   push_bit 40 (ucast (ucast (drop_bit 40 v) :: byte)) OR
   push_bit 48 (ucast (ucast (drop_bit 48 v) :: byte)) OR
   push_bit 56 (ucast (ucast (drop_bit 56 v) :: byte)) = (v :: 64 word)"
  by (rule bit_word_eqI) (simp only: byte_simps, auto)

lemma decode_encode_int64 [codec, simp]:
  "decode_int64 (encode_int64 v @ rest) = Some (v, rest)"
  by (simp add: decode_int64_def encode_int64_def eight_bytes)

lemma decode_encode_floating [codec, simp]:
  "decode_float (encode_float f @ rest) = Some (f, rest)"
  "decode_double (encode_double d @ rest) = Some (d, rest)"
  by (simp_all add: decode_float_def encode_float_def decode_double_def encode_double_def)

lemma write_be_8:
  "write_be 8 node [] =
     [ucast (drop_bit 56 node), ucast (drop_bit 48 node), ucast (drop_bit 40 node),
      ucast (drop_bit 32 node), ucast (drop_bit 24 node), ucast (drop_bit 16 node),
      ucast (drop_bit 8 node), ucast node]"
proof -
  have "(8 :: nat) = Suc (Suc (Suc (Suc (Suc (Suc (Suc (Suc 0)))))))" by simp
  then have "write_be 8 node [] =
     write_be (Suc (Suc (Suc (Suc (Suc (Suc (Suc (Suc 0)))))))) node []" by metis
  also have "\<dots> = [ucast (drop_bit 56 node), ucast (drop_bit 48 node), ucast (drop_bit 40 node),
      ucast (drop_bit 32 node), ucast (drop_bit 24 node), ucast (drop_bit 16 node),
      ucast (drop_bit 8 node), ucast node]"
    by (simp only: write_be.simps drop_bit_drop_bit byte_of_mask) simp
  finally show ?thesis .
qed

lemma decode_encode_uuid [codec, simp]:
  "decode_uuid (encode_uuid u @ rest) = Some (u, rest)"
proof -
  have idx: "[0..<8] = [0, 1, 2, 3, 4, 5, 6, 7 :: nat]" by (simp add: upt_rec)
  show ?thesis
    by (cases u) (simp add: decode_uuid_def encode_uuid_def Let_def idx write_be_8
        drop_bit_drop_bit eight_bytes or.assoc)
qed

subsection \<open>Zig-zag numbers\<close>

lemma minus_and_1: "- ((n::64 word) AND 1) = (if bit n 0 then - 1 else 0)"
  by (simp add: and_one_eq mod_2_eq_odd bit_0)

lemma sign_fill: "signed_drop_bit 63 (n :: 64 word) = (if bit n 63 then - 1 else 0)"
proof (rule bit_word_eqI)
  fix i assume "i < LENGTH(64)"
  then show "bit (signed_drop_bit 63 n) i = bit (if bit n 63 then - 1 else 0 :: 64 word) i"
    by (cases i) (auto simp: bit_simps)
qed

lemma no_bit_64 [simp]: "\<not> bit (n :: 64 word) 64"
  by (auto dest: bit_imp_le_length)

lemma bit_decode_zig_zag:
  "bit (decode_zig_zag n) i \<longleftrightarrow> i < 64 \<and> (bit n (Suc i) \<noteq> bit n 0)"
  by (auto simp: decode_zig_zag_def bit_xor_iff minus_and_1 bit_drop_bit_eq dest: bit_imp_le_length)

lemma bit_encode_zig_zag_0: "bit (encode_zig_zag n) 0 \<longleftrightarrow> bit n 63"
  unfolding encode_zig_zag_def bit_xor_iff sign_fill bit_push_bit_iff by simp

lemma bit_encode_zig_zag_Suc:
  "bit (encode_zig_zag n) (Suc i) \<longleftrightarrow> i < 63 \<and> (bit n i \<noteq> bit n 63)"
  unfolding encode_zig_zag_def bit_xor_iff sign_fill bit_push_bit_iff by auto

lemma decode_encode_zig_zag [codec, simp]: "decode_zig_zag (encode_zig_zag n) = n"
proof (rule bit_word_eqI)
  fix i assume "i < LENGTH(64)"
  then have "i < 63 \<or> i = 63" by auto
  then show "bit (decode_zig_zag (encode_zig_zag n)) i = bit n i"
    by (auto simp: bit_decode_zig_zag bit_encode_zig_zag_0 bit_encode_zig_zag_Suc)
qed

lemma encode_decode_zig_zag: "encode_zig_zag (decode_zig_zag n) = n"
proof (rule bit_word_eqI)
  fix i assume "i < LENGTH(64)"
  then show "bit (encode_zig_zag (decode_zig_zag n)) i = bit n i"
    by (cases i) (auto simp: bit_decode_zig_zag bit_encode_zig_zag_0 bit_encode_zig_zag_Suc)
qed

lemma sint_neg_iff_bit_63: "bit (n :: 64 word) 63 \<longleftrightarrow> sint n < 0"
  using bit_last_iff [of n] by simp

lemma uint_encode_zig_zag:
  "uint (encode_zig_zag n) = (if 0 \<le> sint n then 2 * sint n else - 2 * sint n - 1)"
proof -
  let ?z = "if 0 \<le> sint n then 2 * sint n else - 2 * sint n - 1"
  have "encode_zig_zag n = (if 0 \<le> sint n then 2 * n else - (2 * n) - 1)"
    using sint_neg_iff_bit_63 [of n]
    by (auto simp: encode_zig_zag_def sign_fill push_bit_eq_mult not_eq_complement mult.commute)
  also have "\<dots> = of_int ?z" by simp
  finally have "uint (encode_zig_zag n) = ?z mod 2 ^ 64" by (simp add: uint_word_of_int)
  moreover have "0 \<le> ?z" by simp
  moreover have "?z < 2 ^ 64" using sint_less [of n] sint_greater_eq [of n] by auto
  ultimately show ?thesis by simp
qed

subsection \<open>The interface of a fixed-width codec\<close>

text \<open>What the response decoder relies on for every primitive: a value occupies \<open>width\<close>
  bytes, decoding inverts encoding and leaves the following bytes alone, and decoding succeeds
  as soon as the bytes are there, advancing by exactly \<open>width\<close>.\<close>

locale fixed_codec =
  fixes enc :: "'a \<Rightarrow> byte list"
    and dec :: "byte list \<Rightarrow> ('a \<times> byte list) option"
    and width :: nat
  assumes width_pos: "0 < width" and width_small: "width \<le> 16"
    and enc_length: "length (enc v) = width"
    and dec_enc: "dec (enc v @ rest) = Some (v, rest)"
    and dec_short: "length input < width \<Longrightarrow> dec input = None"
    and dec_enough: "width \<le> length input \<Longrightarrow> \<exists>v. dec input = Some (v, drop width input)"
begin

lemma dec_Some: "dec input = Some (v, rest) \<Longrightarrow> width \<le> length input \<and> rest = drop width input"
  using dec_short [of input] dec_enough [of input] by (cases "length input < width") auto

lemma enc_inj: "enc v = enc w \<Longrightarrow> v = w"
  using dec_enc [of v "[]"] dec_enc [of w "[]"] by simp

text \<open>A stream of encoded values decodes back, value by value.\<close>

lemma dec_stream: "dec (concat (map enc (v # vs)) @ rest) = Some (v, concat (map enc vs) @ rest)"
  using dec_enc [of v "concat (map enc vs) @ rest"] by simp

end

lemma decoders_short:
  "length input < 2 \<Longrightarrow> decode_uint16 input = None"
  "length input < 2 \<Longrightarrow> decode_int16 input = None"
  "length input < 4 \<Longrightarrow> decode_uint32 input = None"
  "length input < 4 \<Longrightarrow> decode_int32 input = None"
  "length input < 8 \<Longrightarrow> decode_int64 input = None"
  "length input < 4 \<Longrightarrow> decode_float input = None"
  "length input < 8 \<Longrightarrow> decode_double input = None"
  "length input < 16 \<Longrightarrow> decode_uuid input = None"
  by (simp_all add: decode_uint16_def decode_int16_def decode_uint32_def decode_int32_def
      decode_int64_def decode_float_def decode_double_def decode_uuid_def)

lemma decoders_enough:
  "2 \<le> length input \<Longrightarrow> \<exists>v. decode_uint16 input = Some (v, drop 2 input)"
  "2 \<le> length input \<Longrightarrow> \<exists>v. decode_int16 input = Some (v, drop 2 input)"
  "4 \<le> length input \<Longrightarrow> \<exists>v. decode_uint32 input = Some (v, drop 4 input)"
  "4 \<le> length input \<Longrightarrow> \<exists>v. decode_int32 input = Some (v, drop 4 input)"
  "8 \<le> length input \<Longrightarrow> \<exists>v. decode_int64 input = Some (v, drop 8 input)"
  "4 \<le> length input \<Longrightarrow> \<exists>v. decode_float input = Some (v, drop 4 input)"
  "8 \<le> length input \<Longrightarrow> \<exists>v. decode_double input = Some (v, drop 8 input)"
  "16 \<le> length input \<Longrightarrow> \<exists>v. decode_uuid input = Some (v, drop 16 input)"
  by (simp_all add: decode_uint16_def decode_int16_def decode_uint32_def decode_int32_def
      decode_int64_def decode_float_def decode_double_def decode_uuid_def)

interpretation byte_codec: fixed_codec encode_byte decode_byte 1
  by unfold_locales (auto simp: decode_byte_def encode_byte_def)

interpretation int8_codec: fixed_codec encode_int8 decode_int8 1
  by unfold_locales (auto simp: decode_int8_def encode_int8_def)

interpretation uint16_codec: fixed_codec encode_uint16 decode_uint16 2
  by unfold_locales (simp_all add: decoders_short decoders_enough)

interpretation int16_codec: fixed_codec encode_int16 decode_int16 2
  by unfold_locales (simp_all add: decoders_short decoders_enough)

interpretation uint32_codec: fixed_codec encode_uint32 decode_uint32 4
  by unfold_locales (simp_all add: decoders_short decoders_enough)

interpretation int32_codec: fixed_codec encode_int32 decode_int32 4
  by unfold_locales (simp_all add: decoders_short decoders_enough)

interpretation int64_codec: fixed_codec encode_int64 decode_int64 8
  by unfold_locales (simp_all add: decoders_short decoders_enough)

interpretation float_codec: fixed_codec encode_float decode_float 4
  by unfold_locales (simp_all add: decoders_short decoders_enough)

interpretation double_codec: fixed_codec encode_double decode_double 8
  by unfold_locales (simp_all add: decoders_short decoders_enough)

interpretation uuid_codec: fixed_codec encode_uuid decode_uuid 16
  by unfold_locales (simp_all add: decoders_short decoders_enough)

subsection \<open>Properties\<close>

text \<open>Zig-zag encoding is a bijection of the 64-bit integers, inverted by the decoder, and sends
  the signed value \<open>n\<close> to \<open>2 n\<close> or, when it is negative, to \<open>- 2 n - 1\<close>: values of small
  magnitude get small codes.\<close>

theorem zig_zag_bijection:
  "decode_zig_zag (encode_zig_zag n) = n \<and> encode_zig_zag (decode_zig_zag m) = m \<and>
   uint (encode_zig_zag n) = (if 0 \<le> sint n then 2 * sint n else - 2 * sint n - 1)"
  by (intro conjI decode_encode_zig_zag encode_decode_zig_zag uint_encode_zig_zag)

end
