(* ===== verification/Utils.thy ===== *)
theory Utils
  imports Prelude
begin

text \<open>
  The helpers of \<open>utils.hpp\<close> and \<open>utils.cpp\<close>: bit counting and the size of a variable-length
  integer, the next power of two, and the string helpers for contact-point lists and CQL
  identifiers. Strings are lists of (8-bit) characters, as \<open>std::string\<close>.
\<close>

subsection \<open>Leading zeros and vint sizes\<close>

text \<open>\<open>__builtin_clzll\<close>: the zero bits above the highest set bit, scanning down from bit
  \<open>n - 1\<close>.\<close>

primrec clz_below :: "nat \<Rightarrow> 64 word \<Rightarrow> nat" where
  "clz_below 0 v = 0"
| "clz_below (Suc n) v = (if bit v n then 0 else Suc (clz_below n v))"

definition num_leading_zeros :: "i64 \<Rightarrow> nat" where
  "num_leading_zeros value = (if value = 0 then 64 else clz_below 64 value)"

definition vint_size :: "i64 \<Rightarrow> nat" where
  "vint_size value =
     (let magnitude = num_leading_zeros (value OR 1)
      in if magnitude \<noteq> 0 then 9 - ((magnitude - 1) div 7) else 9)"

subsection \<open>The next power of two\<close>

text \<open>The loop \<open>while (next < num) next = 1 << i++\<close>; a shift by 64 or more is undefined in
  C++, which is the result \<open>None\<close>.\<close>

function next_pow_2_loop :: "nat \<Rightarrow> size_t \<Rightarrow> size_t \<Rightarrow> size_t option" where
  "next_pow_2_loop i next num =
     (if next < num
      then (if 64 \<le> i then None else next_pow_2_loop (Suc i) (push_bit i 1) num)
      else Some next)"
  by pat_completeness auto
termination
  by (relation "measure (\<lambda>(i, next, num). 64 - i)") auto

declare next_pow_2_loop.simps [simp del]

definition next_pow_2 :: "size_t \<Rightarrow> size_t option" where
  "next_pow_2 num = next_pow_2_loop 0 2 num"

subsection \<open>Contact point lists\<close>

definition isspace :: "char \<Rightarrow> bool" where
  "isspace c \<longleftrightarrow> of_char c \<in> {9, 10, 11, 12, 13, 32 :: nat}"

definition trim :: "string \<Rightarrow> string" where
  "trim str = rev (dropWhile isspace (rev (dropWhile isspace str)))"

text \<open>\<open>std::getline(stream, token, delimiter)\<close> until the stream is at its end: the last call
  reads what follows the last delimiter.\<close>

fun getlines :: "char \<Rightarrow> string \<Rightarrow> string \<Rightarrow> string list" where
  "getlines delimiter token [] = [token]"
| "getlines delimiter token (c # str) =
     (if c = delimiter then token # getlines delimiter [] str
      else getlines delimiter (token @ [c]) str)"

definition explode :: "string \<Rightarrow> char \<Rightarrow> string list" where
  "explode str delimiter = filter (\<lambda>t. t \<noteq> []) (map trim (getlines delimiter [] str))"

subsection \<open>CQL identifiers\<close>

definition is_digit_char :: "char \<Rightarrow> bool" where
  "is_digit_char c \<longleftrightarrow> 48 \<le> (of_char c :: nat) \<and> (of_char c :: nat) \<le> 57"

definition is_lower_char :: "char \<Rightarrow> bool" where
  "is_lower_char c \<longleftrightarrow> 97 \<le> (of_char c :: nat) \<and> (of_char c :: nat) \<le> 122"

definition is_upper_char :: "char \<Rightarrow> bool" where
  "is_upper_char c \<longleftrightarrow> 65 \<le> (of_char c :: nat) \<and> (of_char c :: nat) \<le> 90"

definition is_word_char :: "char \<Rightarrow> bool" where
  "is_word_char c \<longleftrightarrow> is_lower_char c \<or> is_upper_char c \<or> is_digit_char c \<or> c = CHR ''_''"

definition is_lower_word_char :: "char \<Rightarrow> bool" where
  "is_lower_word_char c \<longleftrightarrow> is_lower_char c \<or> is_digit_char c \<or> c = CHR ''_''"

definition is_valid_cql_id :: "string \<Rightarrow> bool" where
  "is_valid_cql_id str = list_all is_word_char str"

definition is_valid_lower_cql_id :: "string \<Rightarrow> bool" where
  "is_valid_lower_cql_id str =
     (if str = [] \<or> \<not> is_lower_word_char (str ! 0) then False
      else if length str > 1 then list_all is_lower_word_char (drop 1 str) else True)"

definition tolower :: "char \<Rightarrow> char" where
  "tolower c = (if is_upper_char c then char_of (of_char c + 32 :: nat) else c)"

definition iequals :: "string \<Rightarrow> string \<Rightarrow> bool" where
  "iequals a b \<longleftrightarrow> map tolower a = map tolower b"

primrec quote_chars :: "string \<Rightarrow> string" where
  "quote_chars [] = []"
| "quote_chars (c # cs) =
     (if c = CHR 0x22 then [CHR 0x22, CHR 0x22] else [c]) @ quote_chars cs"

definition quote_id :: "string \<Rightarrow> string" where
  "quote_id str = [CHR 0x22] @ quote_chars str @ [CHR 0x22]"

definition escape_id :: "string \<Rightarrow> string" where
  "escape_id str = (if is_valid_lower_cql_id str then str else quote_id str)"

definition to_cql_id :: "string \<Rightarrow> string" where
  "to_cql_id str =
     (if is_valid_cql_id str then map tolower str
      else if length str > 2 \<and> str ! 0 = CHR 0x22 \<and> str ! (length str - 1) = CHR 0x22
      then drop 1 (take (length str - 1) str)
      else str)"

subsection \<open>Counting leading zeros\<close>

lemma clz_below_le: "clz_below n v \<le> n"
  by (induction n) auto

lemma clz_below_zero_bits: "n - clz_below n v \<le> i \<Longrightarrow> i < n \<Longrightarrow> \<not> bit v i"
proof (induction n)
  case (Suc n)
  then show ?case
    by (cases "i = n") (auto split: if_splits)
qed simp

lemma clz_below_top_bit: "clz_below n v < n \<Longrightarrow> bit v (n - Suc (clz_below n v))"
  by (induction n) auto

lemma clz_below_eqI:
  assumes "k \<le> n" "\<And>i. n - k \<le> i \<Longrightarrow> i < n \<Longrightarrow> \<not> bit v i"
    and "k < n \<Longrightarrow> bit v (n - Suc k)"
  shows "clz_below n v = k"
proof -
  have "\<not> k < clz_below n v"
    using assms(1,3) clz_below_zero_bits [of n v "n - Suc k"] clz_below_le [of n v] by auto
  moreover have "\<not> clz_below n v < k"
    using assms(1,2) clz_below_top_bit [of n v] by (auto simp: Suc_leI)
  ultimately show ?thesis by simp
qed

text \<open>The two facts that characterise the count: nothing is set above, and the bit right below
  the zeros is set unless the word is zero.\<close>

lemma num_leading_zeros_eqI:
  assumes "k \<le> 64" "\<And>i. 64 - k \<le> i \<Longrightarrow> i < 64 \<Longrightarrow> \<not> bit v i"
    and "k < 64 \<Longrightarrow> bit v (63 - k)"
  shows "num_leading_zeros v = k"
proof (cases "v = 0")
  case True
  then show ?thesis using assms(1,3) by (cases "k = 64") (auto simp: num_leading_zeros_def)
next
  case False
  then show ?thesis using clz_below_eqI [of k 64 v] assms
    by (simp add: num_leading_zeros_def)
qed

lemma num_leading_zeros_le: "num_leading_zeros v \<le> 64"
  using clz_below_le [of 64 v] by (simp add: num_leading_zeros_def)

lemma word_less_exp_bits:
  "(\<And>i. n \<le> i \<Longrightarrow> i < LENGTH('a) \<Longrightarrow> \<not> bit (v :: 'a::len word) i) \<Longrightarrow> uint v < 2 ^ n"
  by (metis bit_imp_le_length bit_uint_iff linorder_not_le not_le_imp_less
      bit_take_bit_iff bit_eqI take_bit_int_less_exp)

lemma uint_less_num_leading_zeros: "uint v < 2 ^ (64 - num_leading_zeros v)"
proof -
  have "\<not> bit v i" if "64 - num_leading_zeros v \<le> i" "i < 64" for i
    using that clz_below_zero_bits [of 64 v i] by (auto simp: num_leading_zeros_def split: if_splits)
  then show ?thesis by (intro word_less_exp_bits) simp
qed

subsection \<open>Vint sizes\<close>

lemma uint_ge_bit: "bit (v :: 'a::len word) i \<Longrightarrow> 2 ^ i \<le> uint v"
proof -
  assume b: "bit v i"
  have "take_bit i (uint v) \<noteq> uint v"
  proof
    assume "take_bit i (uint v) = uint v"
    then have "\<not> bit (uint v) i" by (metis bit_take_bit_iff less_irrefl)
    then show False using b by (simp add: bit_uint_iff bit_imp_le_length)
  qed
  then show ?thesis by (metis linorder_not_less take_bit_int_eq_self uint_ge_0)
qed

lemma vint_magnitude:
  fixes v :: i64
  defines "m \<equiv> num_leading_zeros (v OR 1)"
  shows "m \<le> 63" "uint v < 2 ^ (64 - m)" "m < 63 \<Longrightarrow> 2 ^ (63 - m) \<le> uint v"
proof -
  have nz: "v OR 1 \<noteq> 0" by (metis bit_or_iff bit_0 bit_0_eq bot_apply bot_bool_def odd_one bit_1_0)
  have top: "m < 64 \<Longrightarrow> bit (v OR 1) (63 - m)"
    using clz_below_top_bit [of 64 "v OR 1"] nz by (simp add: m_def num_leading_zeros_def)
  have lo: "bit (v OR 1) 0" by (simp add: bit_or_iff)
  show m63: "m \<le> 63"
    using clz_below_zero_bits [of 64 "v OR 1" 0] lo nz
    by (force simp: m_def num_leading_zeros_def)
  have "uint v \<le> uint (v OR 1)"
    by (simp add: unsigned_or_eq or_greater_eq)
  then show "uint v < 2 ^ (64 - m)"
    using uint_less_num_leading_zeros [of "v OR 1"] m_def by simp
  assume "m < 63"
  then have "bit v (63 - m)" using top by (auto simp: bit_or_iff bit_1_iff)
  then show "2 ^ (63 - m) \<le> uint v" by (rule uint_ge_bit)
qed

lemma vint_size_bounds: "1 \<le> vint_size v" "vint_size v \<le> 9"
  using vint_magnitude(1) [of v] by (auto simp: vint_size_def Let_def)

lemma vint_size_fits:
  assumes "vint_size v \<le> 8"
  shows "uint v < 2 ^ (7 * vint_size v)"
proof -
  let ?m = "num_leading_zeros (v OR 1)"
  have "64 - ?m \<le> 7 * vint_size v"
    using assms vint_magnitude(1) [of v] by (auto simp: vint_size_def Let_def split: if_splits)
  then have "(2::int) ^ (64 - ?m) \<le> 2 ^ (7 * vint_size v)" by simp
  then show ?thesis using vint_magnitude(2) [of v] by linarith
qed

lemma vint_size_minimal:
  assumes "2 \<le> vint_size v"
  shows "2 ^ (7 * (vint_size v - 1)) \<le> uint v"
proof -
  let ?m = "num_leading_zeros (v OR 1)"
  have m: "7 * (vint_size v - 1) \<le> 63 - ?m" "?m < 63"
    using assms vint_magnitude(1) [of v] by (auto simp: vint_size_def Let_def split: if_splits)
  then have "(2::int) ^ (7 * (vint_size v - 1)) \<le> 2 ^ (63 - ?m)" by simp
  then show ?thesis using vint_magnitude(3) [of v] m(2) by linarith
qed

subsection \<open>The next power of two is found\<close>

lemma next_pow_2_loop_exact:
  assumes "i \<le> j" "j \<le> 63" "next < num" "num \<le> push_bit j 1"
    "\<And>l. i \<le> l \<Longrightarrow> l < j \<Longrightarrow> push_bit l 1 < num"
  shows "next_pow_2_loop i next num = Some (push_bit j 1)"
  using assms
proof (induction "j - i" arbitrary: i "next")
  case 0
  then have "i = j" by simp
  moreover have "next_pow_2_loop (Suc j) (push_bit j 1) num = Some (push_bit j 1)"
    using "0.prems" by (subst next_pow_2_loop.simps) (simp add: leD)
  ultimately show ?case using "0.prems" by (subst next_pow_2_loop.simps) simp
next
  case (Suc d)
  then have "next_pow_2_loop (Suc i) (push_bit i 1) num = Some (push_bit j 1)"
    by (intro Suc.hyps(1)) auto
  then show ?case using Suc.prems by (subst next_pow_2_loop.simps) simp
qed

lemma next_pow_2_None:
  assumes "2 ^ 63 < unat num"
  shows "next_pow_2 num = None"
proof -
  have gt: "push_bit i 1 < num" if "i \<le> 63" for i
  proof -
    have "(2::nat) ^ i \<le> 2 ^ 63" using that by (intro power_increasing) auto
    then show ?thesis using assms that
      by (simp add: word_less_nat_alt)
  qed
  have loop: "next_pow_2_loop i next num = None" if "next < num" "i \<le> 64" for i "next"
    using that
  proof (induction "64 - i" arbitrary: i "next")
    case 0
    then show ?case by (subst next_pow_2_loop.simps) simp
  next
    case (Suc d)
    then have "next_pow_2_loop (Suc i) (push_bit i 1) num = None"
      by (intro Suc.hyps(1) gt) auto
    then show ?case using Suc.prems by (subst next_pow_2_loop.simps) simp
  qed
  have "(2 :: size_t) < num" using gt [of 1] by simp
  then show ?thesis by (simp add: next_pow_2_def loop)
qed

lemma next_pow_2_Some:
  assumes "unat num \<le> 2 ^ 63"
  shows "\<exists>k \<le> 63. next_pow_2 num = Some (2 ^ k) \<and> unat num \<le> 2 ^ k \<and>
    (2 < unat num \<longrightarrow> 2 ^ k < 2 * unat num)"
proof (cases "unat num \<le> 2")
  case True
  then have "\<not> 2 < num" by (simp add: word_less_nat_alt)
  then have "next_pow_2 num = Some (2 ^ 1)"
    by (simp add: next_pow_2_def next_pow_2_loop.simps)
  with True show ?thesis by (intro exI [of _ 1]) auto
next
  case False
  define k where "k = (LEAST k. unat num \<le> 2 ^ k)"
  have k: "unat num \<le> 2 ^ k" unfolding k_def by (rule LeastI) (rule assms)
  have k63: "k \<le> 63" unfolding k_def by (rule Least_le) (rule assms)
  have below: "2 ^ l < unat num" if "l < k" for l
    using not_less_Least [of l "\<lambda>k. unat num \<le> 2 ^ k"] that by (simp add: k_def)
  have pw: "unat (push_bit l 1 :: size_t) = 2 ^ l" if "l \<le> 63" for l
    using that by simp
  have "next_pow_2_loop 0 2 num = Some (push_bit k 1)"
    using False k k63 below
    by (intro next_pow_2_loop_exact) (auto simp: word_less_nat_alt word_le_nat_alt)
  then have "next_pow_2 num = Some (2 ^ k)" by (simp add: next_pow_2_def)
  moreover have "k \<noteq> 0" using k False by (intro notI) simp
  then have "2 ^ k < 2 * unat num"
    using below [of "k - 1"] by (cases k) auto
  ultimately show ?thesis using k k63 by blast
qed

subsection \<open>Splitting lists\<close>

text \<open>The inverse of splitting: the tokens with the delimiter between them.\<close>

primrec join_with :: "char \<Rightarrow> string list \<Rightarrow> string" where
  "join_with d [] = []"
| "join_with d (t # ts) = (if ts = [] then t else t @ d # join_with d ts)"

lemma getlines_no_delimiter:
  "d \<notin> set str \<Longrightarrow> getlines d token str = [token @ str]"
  by (induction str arbitrary: token) auto

lemma getlines_append:
  "d \<notin> set s \<Longrightarrow> getlines d token (s @ d # str) = (token @ s) # getlines d [] str"
  by (induction s arbitrary: token) auto

lemma getlines_tokens: "t \<in> set (getlines d token str) \<Longrightarrow> d \<notin> set token \<Longrightarrow> d \<notin> set t"
  by (induction d token str rule: getlines.induct) (auto split: if_splits)

lemma getlines_join:
  "\<forall>t \<in> set ts. d \<notin> set t \<Longrightarrow> ts \<noteq> [] \<Longrightarrow> getlines d [] (join_with d ts) = ts"
  by (induction ts) (auto simp: getlines_no_delimiter getlines_append)

lemma explode_join:
  assumes "\<forall>t \<in> set ts. d \<notin> set t \<and> trim t = t \<and> t \<noteq> []"
  shows "explode (join_with d ts) d = ts"
proof (cases "ts = []")
  case False
  have "map trim ts = ts" using assms by (intro map_idI) auto
  then show ?thesis using assms False
    by (simp add: explode_def getlines_join filter_id_conv)
qed (simp add: explode_def trim_def)

lemma explode_tokens: "t \<in> set (explode str d) \<Longrightarrow> d \<notin> set t \<and> t \<noteq> []"
proof -
  assume "t \<in> set (explode str d)"
  then obtain u where u: "u \<in> set (getlines d [] str)" "t = trim u" "t \<noteq> []"
    by (auto simp: explode_def)
  have "set (trim u) \<subseteq> set u"
    by (auto simp: trim_def dest!: set_dropWhileD)
  with getlines_tokens [OF u(1)] u(2,3) show ?thesis by auto
qed

subsection \<open>Quoting identifiers\<close>

lemma quote_chars_id: "CHR 0x22 \<notin> set str \<Longrightarrow> quote_chars str = str"
  by (induction str) auto

lemma valid_lower_list_all: "is_valid_lower_cql_id str \<Longrightarrow> list_all is_lower_word_char str"
  by (cases str) (auto simp: is_valid_lower_cql_id_def split: if_splits)

lemma tolower_lower: "is_lower_word_char c \<Longrightarrow> tolower c = c"
  by (auto simp: is_lower_word_char_def tolower_def is_lower_char_def is_upper_char_def is_digit_char_def)

lemma quote_not_word: "\<not> is_word_char (CHR 0x22)"
  by (simp add: is_word_char_def is_lower_char_def is_upper_char_def is_digit_char_def)

lemma to_cql_id_escape_id:
  assumes "str \<noteq> []" "CHR 0x22 \<notin> set str"
  shows "to_cql_id (escape_id str) = str"
proof (cases "is_valid_lower_cql_id str")
  case True
  from valid_lower_list_all [OF True] have "list_all is_lower_word_char str" .
  moreover from this have "is_valid_cql_id str"
    by (auto simp: is_valid_cql_id_def list_all_iff is_lower_word_char_def is_word_char_def)
  ultimately show ?thesis using True
    by (auto simp: escape_id_def to_cql_id_def list_all_iff tolower_lower intro!: map_idI)
next
  case False
  then show ?thesis using assms
    by (simp add: escape_id_def quote_id_def quote_chars_id to_cql_id_def is_valid_cql_id_def
        quote_not_word nth_append)
qed

subsection \<open>Properties\<close>

text \<open>\<open>vint_size\<close> is between 1 and 9, the value fits in the seven payload bits per byte it
  allots (nine bytes hold any value), and one byte less would not hold it.\<close>

theorem vint_size_is_least:
  "1 \<le> vint_size v \<and> vint_size v \<le> 9 \<and>
   uint v < (if vint_size v = 9 then 2 ^ 64 else 2 ^ (7 * vint_size v)) \<and>
   (vint_size v = 1 \<or> 2 ^ (7 * (vint_size v - 1)) \<le> uint v)"
proof -
  have "uint v < 2 ^ 64" using uint_lt2p [of v] by simp
  moreover have "vint_size v \<noteq> 9 \<Longrightarrow> uint v < 2 ^ (7 * vint_size v)"
    using vint_size_fits [of v] vint_size_bounds [of v] by simp
  moreover have "vint_size v \<noteq> 1 \<Longrightarrow> 2 ^ (7 * (vint_size v - 1)) \<le> uint v"
    using vint_size_minimal [of v] vint_size_bounds [of v] by simp
  ultimately show ?thesis using vint_size_bounds [of v] by auto
qed

text \<open>\<open>next_pow_2\<close> returns a power of two that is at least its argument and, beyond two, less
  than twice it; its loop runs into an undefined shift exactly for arguments above \<open>2 ^ 63\<close>.\<close>

theorem next_pow_2_correct:
  "case next_pow_2 num of
     None \<Rightarrow> 2 ^ 63 < unat num
   | Some p \<Rightarrow> unat num \<le> unat p \<and> (2 < unat num \<longrightarrow> unat p < 2 * unat num) \<and>
       (\<exists>k \<le> 63. p = 2 ^ k)"
proof (cases "2 ^ 63 < unat num")
  case True
  then show ?thesis using next_pow_2_None [OF True] by simp
next
  case False
  then obtain k where "k \<le> 63" "next_pow_2 num = Some (2 ^ k)" "unat num \<le> 2 ^ k"
    "2 < unat num \<longrightarrow> 2 ^ k < 2 * unat num"
    using next_pow_2_Some [of num] by auto
  then show ?thesis by auto
qed

theorem next_pow_2_correct_witness:
  "\<exists>p. next_pow_2 5 = Some p \<and> 5 \<le> unat p \<and> unat p < 10"
  using next_pow_2_correct [of 5] by (auto split: option.splits)

text \<open>Splitting a comma-separated list gives back the elements that were joined, and no element
  it produces is empty or contains the delimiter.\<close>

theorem explode_inverts_join:
  assumes "\<forall>t \<in> set ts. d \<notin> set t \<and> trim t = t \<and> t \<noteq> []"
  shows "explode (join_with d ts) d = ts \<and> (\<forall>str. \<forall>t \<in> set (explode str d). d \<notin> set t \<and> t \<noteq> [])"
  using explode_join [OF assms] explode_tokens by blast

theorem explode_inverts_join_witness:
  "explode (join_with CHR '','' [''10.0.0.1'', ''host b'']) CHR '','' = [''10.0.0.1'', ''host b'']"
  using explode_inverts_join [of "[''10.0.0.1'', ''host b'']" "CHR '',''"]
  by (simp add: trim_def isspace_def)

text \<open>The identifier form used for lookups undoes the escaping used in CQL, for every identifier
  without a double quote.\<close>

theorem cql_id_round_trip:
  assumes "str \<noteq> []" "CHR 0x22 \<notin> set str"
  shows "to_cql_id (escape_id str) = str"
  by (rule to_cql_id_escape_id [OF assms])

theorem cql_id_round_trip_witness:
  "to_cql_id (escape_id ''My Table'') = ''My Table'' \<and> escape_id ''My Table'' \<noteq> ''My Table''"
  using cql_id_round_trip [of "''My Table''"]
  by (simp add: escape_id_def is_valid_lower_cql_id_def is_lower_word_char_def is_lower_char_def
      is_digit_char_def quote_id_def)

end
