(* ===== verification/Encode.thy ===== *)
theory Encode
  imports Serialization Utils "HOL-Library.Monad_Syntax"
begin

text \<open>
  The write side of the codec: \<open>Buffer\<close> (\<open>buffer.hpp\<close>), the overloads of \<open>encode\<close> and
  \<open>encode_with_length\<close> (\<open>encode.hpp\<close>) and the variable-length integers of a duration
  (\<open>encode.cpp\<close>).

  A buffer is the list of its cells, \<open>None\<close> for a cell that was allocated and not yet written:
  the constructor allocates without initialising. A write outside the buffer (the failing
  \<open>assert\<close>) or a read past the source it copies from is \<open>None\<close>. Small buffers live inside the
  object and large ones in a shared allocation; the contents are the same.
\<close>

subsection \<open>Buffer\<close>

type_synonym buffer = "byte option list"

definition Buffer_of_size :: "nat \<Rightarrow> buffer" where
  "Buffer_of_size sz = replicate sz None"

definition Buffer_of_data :: "byte list \<Rightarrow> nat \<Rightarrow> buffer option" where
  "Buffer_of_data data sz = (if sz \<le> length data then Some (map Some (take sz data)) else None)"

definition Buffer_copy :: "buffer \<Rightarrow> nat \<Rightarrow> byte list \<Rightarrow> nat \<Rightarrow> (buffer \<times> nat) option" where
  "Buffer_copy buf offset value sz =
     (if offset + sz \<le> length buf \<and> sz \<le> length value
      then Some (take offset buf @ map Some (take sz value) @ drop (offset + sz) buf, offset + sz)
      else None)"

abbreviation Buffer_put :: "buffer \<Rightarrow> nat \<Rightarrow> byte list \<Rightarrow> (buffer \<times> nat) option" where
  "Buffer_put buf offset bytes \<equiv> Buffer_copy buf offset bytes (length bytes)"

definition Buffer_encode_byte :: "buffer \<Rightarrow> nat \<Rightarrow> u8 \<Rightarrow> (buffer \<times> nat) option" where
  "Buffer_encode_byte buf offset value = Buffer_put buf offset (encode_byte value)"

definition Buffer_encode_int8 :: "buffer \<Rightarrow> nat \<Rightarrow> i8 \<Rightarrow> (buffer \<times> nat) option" where
  "Buffer_encode_int8 buf offset value = Buffer_put buf offset (encode_int8 value)"

definition Buffer_encode_int16 :: "buffer \<Rightarrow> nat \<Rightarrow> i16 \<Rightarrow> (buffer \<times> nat) option" where
  "Buffer_encode_int16 buf offset value = Buffer_put buf offset (encode_int16 value)"

definition Buffer_encode_uint16 :: "buffer \<Rightarrow> nat \<Rightarrow> u16 \<Rightarrow> (buffer \<times> nat) option" where
  "Buffer_encode_uint16 buf offset value = Buffer_put buf offset (encode_uint16 value)"

definition Buffer_encode_int32 :: "buffer \<Rightarrow> nat \<Rightarrow> i32 \<Rightarrow> (buffer \<times> nat) option" where
  "Buffer_encode_int32 buf offset value = Buffer_put buf offset (encode_int32 value)"

definition Buffer_encode_uint32 :: "buffer \<Rightarrow> nat \<Rightarrow> u32 \<Rightarrow> (buffer \<times> nat) option" where
  "Buffer_encode_uint32 buf offset value = Buffer_put buf offset (encode_uint32 value)"

definition Buffer_encode_int64 :: "buffer \<Rightarrow> nat \<Rightarrow> i64 \<Rightarrow> (buffer \<times> nat) option" where
  "Buffer_encode_int64 buf offset value = Buffer_put buf offset (encode_int64 value)"

definition Buffer_encode_float :: "buffer \<Rightarrow> nat \<Rightarrow> 32 word \<Rightarrow> (buffer \<times> nat) option" where
  "Buffer_encode_float buf offset value = Buffer_put buf offset (encode_float value)"

definition Buffer_encode_double :: "buffer \<Rightarrow> nat \<Rightarrow> 64 word \<Rightarrow> (buffer \<times> nat) option" where
  "Buffer_encode_double buf offset value = Buffer_put buf offset (encode_double value)"

definition Buffer_encode_uuid :: "buffer \<Rightarrow> nat \<Rightarrow> cass_uuid \<Rightarrow> (buffer \<times> nat) option" where
  "Buffer_encode_uuid buf offset value = Buffer_put buf offset (encode_uuid value)"

definition Buffer_encode_long_string ::
    "buffer \<Rightarrow> nat \<Rightarrow> byte list \<Rightarrow> i32 \<Rightarrow> (buffer \<times> nat) option" where
  "Buffer_encode_long_string buf offset value sz =
     do { (buf, pos) \<leftarrow> Buffer_encode_int32 buf offset sz;
          Buffer_copy buf pos value (unat (scast sz :: size_t)) }"

definition Buffer_encode_bytes ::
    "buffer \<Rightarrow> nat \<Rightarrow> byte list \<Rightarrow> i32 \<Rightarrow> (buffer \<times> nat) option" where
  "Buffer_encode_bytes buf offset value sz =
     do { (buf, pos) \<leftarrow> Buffer_encode_int32 buf offset sz;
          if sint sz > 0 then Buffer_copy buf pos value (unat (scast sz :: size_t))
          else Some (buf, pos) }"

definition Buffer_encode_string ::
    "buffer \<Rightarrow> nat \<Rightarrow> byte list \<Rightarrow> u16 \<Rightarrow> (buffer \<times> nat) option" where
  "Buffer_encode_string buf offset value sz =
     do { (buf, pos) \<leftarrow> Buffer_encode_uint16 buf offset sz;
          Buffer_copy buf pos value (unat sz) }"

fun Buffer_encode_strings ::
    "buffer \<Rightarrow> nat \<Rightarrow> byte list list \<Rightarrow> (buffer \<times> nat) option" where
  "Buffer_encode_strings buf pos [] = Some (buf, pos)"
| "Buffer_encode_strings buf pos (s # strings) =
     do { (buf, pos) \<leftarrow> Buffer_encode_string buf pos s (of_nat (length s));
          Buffer_encode_strings buf pos strings }"

definition Buffer_encode_string_list ::
    "buffer \<Rightarrow> nat \<Rightarrow> byte list list \<Rightarrow> (buffer \<times> nat) option" where
  "Buffer_encode_string_list buf offset value =
     do { (buf, pos) \<leftarrow> Buffer_encode_uint16 buf offset (of_nat (length value));
          Buffer_encode_strings buf pos value }"

text \<open>A \<open>Map<String, String>\<close> is visited in key order: it is its sorted list of entries.\<close>

fun Buffer_encode_entries ::
    "buffer \<Rightarrow> nat \<Rightarrow> (byte list \<times> byte list) list \<Rightarrow> (buffer \<times> nat) option" where
  "Buffer_encode_entries buf pos [] = Some (buf, pos)"
| "Buffer_encode_entries buf pos ((k, v) # entries) =
     do { (buf, pos) \<leftarrow> Buffer_encode_string buf pos k (of_nat (length k));
          (buf, pos) \<leftarrow> Buffer_encode_string buf pos v (of_nat (length v));
          Buffer_encode_entries buf pos entries }"

definition Buffer_encode_string_map ::
    "buffer \<Rightarrow> nat \<Rightarrow> (byte list \<times> byte list) list \<Rightarrow> (buffer \<times> nat) option" where
  "Buffer_encode_string_map buf offset value =
     do { (buf, pos) \<leftarrow> Buffer_encode_uint16 buf offset (of_nat (length value));
          Buffer_encode_entries buf pos value }"

subsection \<open>Variable-length integers and durations\<close>

definition encode_vint :: "u64 \<Rightarrow> nat \<Rightarrow> byte list" where
  "encode_vint value value_size =
     (if value_size = 1 then [ucast value]
      else case write_be value_size value [] of
             [] \<Rightarrow> []
           | first # rest \<Rightarrow> (first OR NOT (drop_bit (value_size - 1) 0xFF)) # rest)"

record cass_duration =
  months :: i32
  days :: i32
  nanos :: i64

fun encode_vints :: "buffer \<Rightarrow> nat \<Rightarrow> (u64 \<times> nat) list \<Rightarrow> (buffer \<times> nat) option" where
  "encode_vints buf cur_byte [] = Some (buf, cur_byte)"
| "encode_vints buf cur_byte ((zigzag, vsize) # rest) =
     do { (buf, cur_byte) \<leftarrow> Buffer_put buf cur_byte (encode_vint zigzag vsize);
          encode_vints buf cur_byte rest }"

definition encode_internal :: "cass_duration \<Rightarrow> bool \<Rightarrow> buffer option" where
  "encode_internal value with_length =
     (let zigzag_values = [encode_zig_zag (scast (months value)),
                           encode_zig_zag (scast (days value)),
                           encode_zig_zag (nanos value)];
          vint_sizes = map vint_size zigzag_values;
          data_size = sum_list vint_sizes;
          buf = Buffer_of_size (if with_length then 4 + data_size else data_size)
      in do { (buf, pos) \<leftarrow> (if with_length then Buffer_encode_int32 buf 0 (of_nat data_size)
                            else Some (buf, 0));
              (buf, pos) \<leftarrow> encode_vints buf pos (zip zigzag_values vint_sizes);
              Some buf })"

subsection \<open>Values\<close>

text \<open>One constructor per overload. A \<open>CassInet\<close> is its 16-byte array and the number of bytes
  in use; a \<open>CassDecimal\<close> is its scale and the bytes of the unscaled varint.\<close>

datatype cass_value =
    CInt8 i8 | CInt16 i16 | CInt32 i32 | CUInt32 u32 | CInt64 i64
  | CFloat "32 word" | CDouble "64 word" | CBool bool
  | CString "byte list" | CBytes "byte list" | CCustom "byte list"
  | CUuid cass_uuid | CInet "byte list" u8 | CDecimal "byte list" i32
  | CDuration cass_duration

definition encode_with_length_null :: "buffer option" where
  "encode_with_length_null = map_option fst (Buffer_encode_int32 (Buffer_of_size 4) 0 (- 1))"

definition encode_with_length_unset :: "buffer option" where
  "encode_with_length_unset = map_option fst (Buffer_encode_int32 (Buffer_of_size 4) 0 (- 2))"

fun encode_with_length :: "cass_value \<Rightarrow> buffer option" where
  "encode_with_length (CInt8 v) =
     do { (buf, pos) \<leftarrow> Buffer_encode_int32 (Buffer_of_size (4 + 1)) 0 1;
          (buf, pos) \<leftarrow> Buffer_encode_int8 buf pos v; Some buf }"
| "encode_with_length (CInt16 v) =
     do { (buf, pos) \<leftarrow> Buffer_encode_int32 (Buffer_of_size (4 + 2)) 0 2;
          (buf, pos) \<leftarrow> Buffer_encode_int16 buf pos v; Some buf }"
| "encode_with_length (CInt32 v) =
     do { (buf, pos) \<leftarrow> Buffer_encode_int32 (Buffer_of_size (4 + 4)) 0 4;
          (buf, pos) \<leftarrow> Buffer_encode_int32 buf pos v; Some buf }"
| "encode_with_length (CUInt32 v) =
     do { (buf, pos) \<leftarrow> Buffer_encode_int32 (Buffer_of_size (4 + 4)) 0 4;
          (buf, pos) \<leftarrow> Buffer_encode_uint32 buf pos v; Some buf }"
| "encode_with_length (CInt64 v) =
     do { (buf, pos) \<leftarrow> Buffer_encode_int32 (Buffer_of_size (4 + 8)) 0 8;
          (buf, pos) \<leftarrow> Buffer_encode_int64 buf pos v; Some buf }"
| "encode_with_length (CFloat v) =
     do { (buf, pos) \<leftarrow> Buffer_encode_int32 (Buffer_of_size (4 + 4)) 0 4;
          (buf, pos) \<leftarrow> Buffer_encode_float buf pos v; Some buf }"
| "encode_with_length (CDouble v) =
     do { (buf, pos) \<leftarrow> Buffer_encode_int32 (Buffer_of_size (4 + 8)) 0 8;
          (buf, pos) \<leftarrow> Buffer_encode_double buf pos v; Some buf }"
| "encode_with_length (CBool v) =
     do { (buf, pos) \<leftarrow> Buffer_encode_int32 (Buffer_of_size (4 + 1)) 0 1;
          (buf, pos) \<leftarrow> Buffer_encode_byte buf pos (if v then 1 else 0); Some buf }"
| "encode_with_length (CString v) =
     do { (buf, pos) \<leftarrow> Buffer_encode_int32 (Buffer_of_size (4 + length v)) 0 (of_nat (length v));
          (buf, pos) \<leftarrow> Buffer_copy buf pos v (length v); Some buf }"
| "encode_with_length (CBytes v) =
     do { (buf, pos) \<leftarrow> Buffer_encode_int32 (Buffer_of_size (4 + length v)) 0 (of_nat (length v));
          (buf, pos) \<leftarrow> Buffer_copy buf pos v (length v); Some buf }"
| "encode_with_length (CCustom v) =
     do { (buf, pos) \<leftarrow> Buffer_encode_int32 (Buffer_of_size (4 + length v)) 0 (of_nat (length v));
          (buf, pos) \<leftarrow> Buffer_copy buf pos v (length v); Some buf }"
| "encode_with_length (CUuid v) =
     do { (buf, pos) \<leftarrow> Buffer_encode_int32 (Buffer_of_size (4 + 16)) 0 16;
          (buf, pos) \<leftarrow> Buffer_encode_uuid buf pos v; Some buf }"
| "encode_with_length (CInet address address_length) =
     do { (buf, pos) \<leftarrow> Buffer_encode_int32 (Buffer_of_size (4 + unat address_length)) 0
                         (ucast address_length);
          (buf, pos) \<leftarrow> Buffer_copy buf pos address (unat address_length); Some buf }"
| "encode_with_length (CDecimal varint scale) =
     do { (buf, pos) \<leftarrow> Buffer_encode_int32 (Buffer_of_size (4 + 4 + length varint)) 0
                         (of_nat (4 + length varint));
          (buf, pos) \<leftarrow> Buffer_encode_int32 buf pos scale;
          (buf, pos) \<leftarrow> Buffer_copy buf pos varint (length varint); Some buf }"
| "encode_with_length (CDuration v) = encode_internal v True"

fun encode :: "cass_value \<Rightarrow> buffer option" where
  "encode (CInt8 v) = map_option fst (Buffer_encode_int8 (Buffer_of_size 1) 0 v)"
| "encode (CInt16 v) = map_option fst (Buffer_encode_int16 (Buffer_of_size 2) 0 v)"
| "encode (CInt32 v) = map_option fst (Buffer_encode_int32 (Buffer_of_size 4) 0 v)"
| "encode (CUInt32 v) = map_option fst (Buffer_encode_uint32 (Buffer_of_size 4) 0 v)"
| "encode (CInt64 v) = map_option fst (Buffer_encode_int64 (Buffer_of_size 8) 0 v)"
| "encode (CFloat v) = map_option fst (Buffer_encode_float (Buffer_of_size 4) 0 v)"
| "encode (CDouble v) = map_option fst (Buffer_encode_double (Buffer_of_size 8) 0 v)"
| "encode (CBool v) = map_option fst (Buffer_encode_byte (Buffer_of_size 1) 0 (if v then 1 else 0))"
| "encode (CString v) = map_option fst (Buffer_copy (Buffer_of_size (length v)) 0 v (length v))"
| "encode (CBytes v) = map_option fst (Buffer_copy (Buffer_of_size (length v)) 0 v (length v))"
| "encode (CCustom v) = map_option fst (Buffer_copy (Buffer_of_size (length v)) 0 v (length v))"
| "encode (CUuid v) = map_option fst (Buffer_encode_uuid (Buffer_of_size 16) 0 v)"
| "encode (CInet address address_length) =
     map_option fst (Buffer_copy (Buffer_of_size (unat address_length)) 0 address (unat address_length))"
| "encode (CDecimal varint scale) =
     do { (buf, pos) \<leftarrow> Buffer_encode_int32 (Buffer_of_size (4 + length varint)) 0 scale;
          (buf, pos) \<leftarrow> Buffer_copy buf pos varint (length varint); Some buf }"
| "encode (CDuration v) = encode_internal v False"

subsection \<open>Writing in sequence\<close>

definition filled_to :: "byte list \<Rightarrow> nat \<Rightarrow> buffer" where
  "filled_to xs n = map Some xs @ replicate n None"

lemma Buffer_of_size_filled: "Buffer_of_size n = filled_to [] n"
  by (simp add: Buffer_of_size_def filled_to_def)

lemma filled_to_full [simp]: "filled_to xs 0 = map Some xs"
  by (simp add: filled_to_def)

lemma Buffer_copy_filled:
  "sz \<le> n \<Longrightarrow> sz \<le> length v \<Longrightarrow> pos = length xs \<Longrightarrow>
     Buffer_copy (filled_to xs n) pos v sz = Some (filled_to (xs @ take sz v) (n - sz), pos + sz)"
  by (simp add: Buffer_copy_def filled_to_def)

lemmas Buffer_encode_defs =
  Buffer_encode_byte_def Buffer_encode_int8_def Buffer_encode_int16_def Buffer_encode_uint16_def
  Buffer_encode_int32_def Buffer_encode_uint32_def Buffer_encode_int64_def Buffer_encode_float_def
  Buffer_encode_double_def Buffer_encode_uuid_def

lemmas Buffer_write_simps = Buffer_encode_defs Buffer_of_size_filled Buffer_copy_filled

lemma length_encode_vint [codec_length, simp]: "1 \<le> n \<Longrightarrow> length (encode_vint v n) = n"
  using length_write_be [of n v "[]"]
  by (auto simp: encode_vint_def split: list.split)

lemma encode_vints_filled:
  assumes "\<forall>(v, s) \<in> set vs. 1 \<le> s" "sum_list (map snd vs) \<le> n"
  shows "encode_vints (filled_to xs n) (length xs) vs =
    Some (filled_to (xs @ concat (map (\<lambda>(v, s). encode_vint v s) vs)) (n - sum_list (map snd vs)),
          length xs + sum_list (map snd vs))"
  using assms
proof (induction vs arbitrary: xs n)
  case (Cons p vs)
  obtain v s where p: "p = (v, s)" by (cases p)
  have "encode_vints (filled_to (xs @ encode_vint v s) (n - s)) (length (xs @ encode_vint v s)) vs =
    Some (filled_to ((xs @ encode_vint v s) @ concat (map (\<lambda>(v, s). encode_vint v s) vs))
            (n - s - sum_list (map snd vs)), length (xs @ encode_vint v s) + sum_list (map snd vs))"
    using Cons.prems p by (intro Cons.IH) auto
  then show ?case using Cons.prems p by (simp add: Buffer_copy_filled add.assoc)
qed simp

subsection \<open>What the encoders produce\<close>

text \<open>The specification of the payload of a value, independent of how the buffer is laid
  out: the payload is what \<open>encode\<close> produces, and what \<open>encode_with_length\<close> produces
  after its four-byte length.\<close>

definition duration_zigzags :: "cass_duration \<Rightarrow> u64 list" where
  "duration_zigzags d = [encode_zig_zag (scast (months d)), encode_zig_zag (scast (days d)),
     encode_zig_zag (nanos d)]"

fun value_bytes :: "cass_value \<Rightarrow> byte list" where
  "value_bytes (CInt8 v) = encode_int8 v"
| "value_bytes (CInt16 v) = encode_int16 v"
| "value_bytes (CInt32 v) = encode_int32 v"
| "value_bytes (CUInt32 v) = encode_uint32 v"
| "value_bytes (CInt64 v) = encode_int64 v"
| "value_bytes (CFloat v) = encode_float v"
| "value_bytes (CDouble v) = encode_double v"
| "value_bytes (CBool v) = encode_byte (if v then 1 else 0)"
| "value_bytes (CString v) = v"
| "value_bytes (CBytes v) = v"
| "value_bytes (CCustom v) = v"
| "value_bytes (CUuid v) = encode_uuid v"
| "value_bytes (CInet address n) = take (unat n) address"
| "value_bytes (CDecimal varint scale) = encode_int32 scale @ varint"
| "value_bytes (CDuration d) = concat (map (\<lambda>z. encode_vint z (vint_size z)) (duration_zigzags d))"

fun wf_value :: "cass_value \<Rightarrow> bool" where
  "wf_value (CInet address n) = (length address = 16 \<and> unat n \<le> 16)"
| "wf_value _ = True"

lemma encode_internal_eq:
  "encode_internal d with_length =
     Some (map Some ((if with_length
       then encode_int32 (of_nat (length (value_bytes (CDuration d)))) else []) @
       value_bytes (CDuration d)))"
proof -
  let ?zs = "duration_zigzags d"
  have sizes: "\<forall>(v, s) \<in> set (zip ?zs (map vint_size ?zs)). 1 \<le> s"
    using vint_size_bounds(1) by (auto simp: in_set_zip)
  have len: "length (value_bytes (CDuration d)) = sum_list (map vint_size ?zs)"
    using vint_size_bounds(1) by (simp add: length_concat o_def)
  have z: "map snd (zip ?zs (map vint_size ?zs)) = map vint_size ?zs" by simp
  have c: "concat (map (\<lambda>(v, s). encode_vint v s) (zip ?zs (map vint_size ?zs))) =
      value_bytes (CDuration d)"
    by (simp add: duration_zigzags_def)
  have w: "encode_vints (filled_to xs (sum_list (map vint_size ?zs))) (length xs)
        (zip ?zs (map vint_size ?zs)) =
      Some (map Some (xs @ value_bytes (CDuration d)), length xs + sum_list (map vint_size ?zs))" for xs
    using encode_vints_filled [OF sizes, of "sum_list (map vint_size ?zs)" xs] z c by simp
  show ?thesis
  proof (cases with_length)
    case True
    then show ?thesis
      using w [of "encode_int32 (of_nat (sum_list (map vint_size ?zs)))"] len
      by (simp add: encode_internal_def Let_def Buffer_write_simps duration_zigzags_def)
  next
    case False
    then show ?thesis
      using w [of "[]"]
      by (simp add: encode_internal_def Let_def Buffer_of_size_filled duration_zigzags_def)
  qed
qed

lemma encode_eq: "wf_value v \<Longrightarrow> encode v = Some (map Some (value_bytes v))"
  by (cases v) (auto simp: Buffer_write_simps encode_internal_eq)

lemma encode_with_length_eq:
  "wf_value v \<Longrightarrow>
     encode_with_length v =
       Some (map Some (encode_int32 (of_nat (length (value_bytes v))) @ value_bytes v))"
  by (cases v) (auto simp: Buffer_write_simps encode_internal_eq min_absorb2)

lemma encode_null_unset:
  "encode_with_length_null = Some (map Some (encode_int32 (- 1)))"
  "encode_with_length_unset = Some (map Some (encode_int32 (- 2)))"
  by (simp_all add: encode_with_length_null_def encode_with_length_unset_def Buffer_write_simps)

end
