(* ===== verification/Decoder.thy ===== *)
theory Decoder
  imports Encode
begin

text \<open>
  The bounds-checked reader of server responses: \<open>Decoder\<close> (\<open>decoder.hpp\<close>, \<open>decoder.cpp\<close>).

  \<open>d_input\<close> is the memory readable from the decoder's pointer to the end of the allocation it
  points into, \<open>d_remaining\<close> the 64-bit count of bytes the decoder believes it may still read.
  A method that returns \<open>true\<close> with its output is \<open>Done\<close>, one that returns \<open>false\<close> is
  \<open>Rejected\<close> (keeping what was consumed before), a read outside the allocation is
  \<open>Out_of_bounds\<close> and \<open>std::length_error\<close> thrown by \<open>reserve\<close> is \<open>Length_error\<close>. Logging has no
  effect on the result and is left out; outputs of a method that returned \<open>false\<close> are not used
  by any caller and are not represented.
\<close>

record decoder =
  d_protocol_version :: int
  d_input :: "byte list"
  d_length :: size_t
  d_remaining :: size_t
  d_type :: string

named_theorems safe_intros \<open>readers that stay inside their buffer\<close>
named_theorems reads_intros \<open>readers that invert an encoding\<close>

datatype 'a outcome = Done 'a | Rejected | Out_of_bounds | Length_error

type_synonym 'a reader = "decoder \<Rightarrow> 'a outcome \<times> decoder"

subsection \<open>Sequencing\<close>

definition succeed :: "'a \<Rightarrow> 'a reader" where
  "succeed x d = (Done x, d)"

definition reject :: "'a reader" where
  "reject d = (Rejected, d)"

definition and_then :: "'a reader \<Rightarrow> ('a \<Rightarrow> 'b reader) \<Rightarrow> 'b reader" where
  "and_then m f d =
     (case m d of
        (Done x, d') \<Rightarrow> f x d'
      | (Rejected, d') \<Rightarrow> (Rejected, d')
      | (Out_of_bounds, d') \<Rightarrow> (Out_of_bounds, d')
      | (Length_error, d') \<Rightarrow> (Length_error, d'))"

primrec repeat_reader :: "nat \<Rightarrow> 'a reader \<Rightarrow> 'a list reader" where
  "repeat_reader 0 m = succeed []"
| "repeat_reader (Suc n) m =
     and_then m (\<lambda>x. and_then (repeat_reader n m) (\<lambda>xs. succeed (x # xs)))"

definition check_remaining :: "size_t \<Rightarrow> unit reader" where
  "check_remaining n d = (if d_remaining d < n then (Rejected, d) else (Done (), d))"

definition read_with :: "(byte list \<Rightarrow> ('a \<times> byte list) option) \<Rightarrow> size_t \<Rightarrow> 'a reader" where
  "read_with dec n d =
     (case dec (d_input d) of
        None \<Rightarrow> (Out_of_bounds, d)
      | Some (v, rest) \<Rightarrow> (Done v, d\<lparr>d_input := rest, d_remaining := d_remaining d - n\<rparr>))"

definition read_bytes :: "size_t \<Rightarrow> byte list reader" where
  "read_bytes n d =
     (if unat n \<le> length (d_input d)
      then (Done (take (unat n) (d_input d)),
            d\<lparr>d_input := drop (unat n) (d_input d), d_remaining := d_remaining d - n\<rparr>)
      else (Out_of_bounds, d))"

definition checked_read :: "(byte list \<Rightarrow> ('a \<times> byte list) option) \<Rightarrow> size_t \<Rightarrow> 'a reader" where
  "checked_read dec n = and_then (check_remaining n) (\<lambda>_. read_with dec n)"

definition checked_bytes :: "size_t \<Rightarrow> byte list reader" where
  "checked_bytes n = and_then (check_remaining n) (\<lambda>_. read_bytes n)"

definition peek_with ::
    "(byte list \<Rightarrow> ('a \<times> byte list) option) \<Rightarrow> size_t \<Rightarrow> decoder \<Rightarrow> 'a outcome" where
  "peek_with dec n d =
     (if d_remaining d < n then Rejected
      else case dec (d_input d) of None \<Rightarrow> Out_of_bounds | Some (v, _) \<Rightarrow> Done v)"

subsection \<open>Construction and whole-buffer views\<close>

definition Decoder_new :: "byte list \<Rightarrow> size_t \<Rightarrow> int \<Rightarrow> decoder" where
  "Decoder_new input len protocol_version =
     \<lparr>d_protocol_version = protocol_version, d_input = input, d_length = len, d_remaining = len,
      d_type = ''''\<rparr>"

definition Decoder_set_type :: "string \<Rightarrow> decoder \<Rightarrow> decoder" where
  "Decoder_set_type ty d = d\<lparr>d_type := ty\<rparr>"

definition Decoder_as_string :: "decoder \<Rightarrow> byte list outcome" where
  "Decoder_as_string d =
     (if unat (d_remaining d) \<le> length (d_input d)
      then Done (take (unat (d_remaining d)) (d_input d)) else Out_of_bounds)"

definition Decoder_as_vector :: "decoder \<Rightarrow> byte list outcome" where
  "Decoder_as_vector d =
     (if unat (d_remaining d) \<le> length (d_input d)
      then Done (take (unat (d_remaining d)) (d_input d) @ [0]) else Out_of_bounds)"

subsection \<open>Primitives\<close>

definition Decoder_decode_byte :: "u8 reader" where
  "Decoder_decode_byte = checked_read decode_byte 1"

definition Decoder_as_byte :: "decoder \<Rightarrow> u8 outcome" where
  "Decoder_as_byte = peek_with decode_byte 1"

definition Decoder_as_bool :: "decoder \<Rightarrow> bool outcome" where
  "Decoder_as_bool d = map_outcome (\<lambda>v. v \<noteq> 0) (Decoder_as_byte d)"

definition Decoder_decode_int8 :: "i8 reader" where
  "Decoder_decode_int8 = checked_read decode_int8 1"

definition Decoder_as_int8 :: "decoder \<Rightarrow> i8 outcome" where
  "Decoder_as_int8 = peek_with decode_int8 1"

definition Decoder_decode_uint16 :: "u16 reader" where
  "Decoder_decode_uint16 = checked_read decode_uint16 2"

definition Decoder_decode_int16 :: "i16 reader" where
  "Decoder_decode_int16 = checked_read decode_int16 2"

definition Decoder_as_int16 :: "decoder \<Rightarrow> i16 outcome" where
  "Decoder_as_int16 = peek_with decode_int16 2"

definition Decoder_decode_uint32 :: "u32 reader" where
  "Decoder_decode_uint32 = checked_read decode_uint32 4"

definition Decoder_as_uint32 :: "decoder \<Rightarrow> u32 outcome" where
  "Decoder_as_uint32 = peek_with decode_uint32 4"

definition Decoder_decode_int32 :: "i32 reader" where
  "Decoder_decode_int32 = checked_read decode_int32 4"

definition Decoder_as_int32 :: "decoder \<Rightarrow> i32 outcome" where
  "Decoder_as_int32 = peek_with decode_int32 4"

definition Decoder_decode_int64 :: "i64 reader" where
  "Decoder_decode_int64 = checked_read decode_int64 8"

definition Decoder_as_int64 :: "decoder \<Rightarrow> i64 outcome" where
  "Decoder_as_int64 = peek_with decode_int64 8"

definition Decoder_decode_float :: "32 word reader" where
  "Decoder_decode_float = checked_read decode_float 4"

definition Decoder_as_float :: "decoder \<Rightarrow> 32 word outcome" where
  "Decoder_as_float = peek_with decode_float 4"

definition Decoder_decode_double :: "64 word reader" where
  "Decoder_decode_double = checked_read decode_double 8"

definition Decoder_as_double :: "decoder \<Rightarrow> 64 word outcome" where
  "Decoder_as_double = peek_with decode_double 8"

definition Decoder_decode_uuid :: "cass_uuid reader" where
  "Decoder_decode_uuid = checked_read decode_uuid 16"

definition Decoder_as_uuid :: "decoder \<Rightarrow> cass_uuid outcome" where
  "Decoder_as_uuid = peek_with decode_uuid 16"

subsection \<open>Strings and bytes\<close>

definition Decoder_decode_string :: "byte list reader" where
  "Decoder_decode_string =
     and_then (checked_read decode_uint16 2)
       (\<lambda>string_size. checked_bytes (ucast string_size))"

definition Decoder_decode_long_string :: "byte list reader" where
  "Decoder_decode_long_string =
     and_then (checked_read decode_int32 4)
       (\<lambda>string_size. checked_bytes (scast string_size))"

text \<open>\<open>*output = NULL\<close> for a negative size is \<open>None\<close>.\<close>

definition Decoder_decode_bytes :: "byte list option reader" where
  "Decoder_decode_bytes =
     and_then (checked_read decode_int32 4)
       (\<lambda>bytes_size.
          if sint bytes_size < 0 then succeed None
          else and_then (checked_bytes (scast bytes_size)) (\<lambda>bs. succeed (Some bs)))"

subsection \<open>Internet addresses\<close>

text \<open>\<open>Address::from_inet\<close> is handed an uninitialised array of 16 bytes of which the first
  \<open>address_length\<close> were copied from the input; it is the parameter \<open>from_inet\<close>.\<close>

definition Decoder_decode_inet_address ::
    "(byte option list \<Rightarrow> u8 \<Rightarrow> i32 \<Rightarrow> 'addr option) \<Rightarrow> 'addr reader" where
  "Decoder_decode_inet_address from_inet =
     and_then (checked_read decode_byte 1)
       (\<lambda>address_length.
          if address_length > 16 then reject
          else and_then (checked_bytes (ucast address_length))
            (\<lambda>address. and_then (checked_read decode_int32 4)
               (\<lambda>port. case from_inet (filled_to address (16 - unat address_length))
                             address_length port of
                          None \<Rightarrow> reject | Some a \<Rightarrow> succeed a)))"

text \<open>A decoded \<open>CassInet\<close>: the bytes copied into \<open>address\<close> and \<open>address_length\<close>.\<close>

definition Decoder_decode_inet :: "(byte list \<times> u8) reader" where
  "Decoder_decode_inet =
     and_then (checked_read decode_byte 1)
       (\<lambda>address_length.
          if address_length > 16 then reject
          else and_then (checked_bytes (ucast address_length))
            (\<lambda>address. succeed (address, address_length)))"

definition Decoder_as_inet :: "i32 \<Rightarrow> decoder \<Rightarrow> (byte list \<times> u8) outcome" where
  "Decoder_as_inet len d =
     (let address_length = ucast len :: u8
      in if address_length > 16 then Rejected
         else if d_remaining d < ucast address_length then Rejected
         else if length (d_input d) < unat address_length then Out_of_bounds
         else Done (take (unat address_length) (d_input d), address_length))"

subsection \<open>Lists and maps of strings\<close>

definition map_insert_new :: "('k \<rightharpoonup> 'v) \<Rightarrow> 'k \<times> 'v \<Rightarrow> ('k \<rightharpoonup> 'v)" where
  "map_insert_new m kv = (case m (fst kv) of None \<Rightarrow> m(fst kv \<mapsto> snd kv) | Some _ \<Rightarrow> m)"

definition Decoder_decode_string_map :: "(byte list \<rightharpoonup> byte list) reader" where
  "Decoder_decode_string_map =
     and_then (checked_read decode_uint16 2)
       (\<lambda>pairs. and_then
          (repeat_reader (unat pairs)
             (and_then Decoder_decode_string
                (\<lambda>key. and_then Decoder_decode_string (\<lambda>value. succeed (key, value)))))
          (\<lambda>entries. succeed (foldl map_insert_new Map.empty entries)))"

definition Decoder_decode_stringlist :: "byte list list reader" where
  "Decoder_decode_stringlist =
     and_then (checked_read decode_uint16 2)
       (\<lambda>count. repeat_reader (unat count) Decoder_decode_string)"

text \<open>The \<open>const\<close> variant keeps its own position: \<open>total_read\<close> bytes from \<open>d_input\<close>.\<close>

fun as_stringlist_loop ::
    "nat \<Rightarrow> size_t \<Rightarrow> byte list \<Rightarrow> decoder \<Rightarrow> byte list list outcome" where
  "as_stringlist_loop 0 total_read pos d = Done []"
| "as_stringlist_loop (Suc count) total_read pos d =
     (let total_read = total_read + 2
      in if d_remaining d < total_read then Rejected
         else case decode_uint16 pos of
                None \<Rightarrow> Out_of_bounds
              | Some (string_size, pos) \<Rightarrow>
                  (let total_read = total_read + ucast string_size
                   in if d_remaining d < total_read then Rejected
                      else if length pos < unat string_size then Out_of_bounds
                      else map_outcome (\<lambda>strings. take (unat string_size) pos # strings)
                             (as_stringlist_loop count total_read (drop (unat string_size) pos) d)))"

definition Decoder_as_stringlist :: "decoder \<Rightarrow> byte list list outcome" where
  "Decoder_as_stringlist d =
     (if d_remaining d < 2 then Rejected
      else case decode_uint16 (d_input d) of
             None \<Rightarrow> Out_of_bounds
           | Some (count, pos) \<Rightarrow> as_stringlist_loop (unat count) 2 pos d)"

definition Decoder_decode_string_multimap :: "(byte list \<rightharpoonup> byte list list) reader" where
  "Decoder_decode_string_multimap =
     and_then (checked_read decode_uint16 2)
       (\<lambda>pairs. and_then
          (repeat_reader (unat pairs)
             (and_then Decoder_decode_string
                (\<lambda>key. and_then Decoder_decode_stringlist (\<lambda>value. succeed (key, value)))))
          (\<lambda>entries. succeed (foldl map_insert_new Map.empty entries)))"

text \<open>\<open>CASS_VALUE_TYPE_CUSTOM\<close> is 0; only then does a class name follow.\<close>

definition Decoder_decode_option :: "(u16 \<times> byte list option) reader" where
  "Decoder_decode_option =
     and_then (checked_read decode_uint16 2)
       (\<lambda>type. if type = 0
               then and_then Decoder_decode_string (\<lambda>class_name. succeed (type, Some class_name))
               else succeed (type, None))"

subsection \<open>Sizes, vints, decimals and durations\<close>

definition Decoder_decode_size :: "i32 reader" where
  "Decoder_decode_size d =
     (let bytes = (if d_protocol_version d < 3 then 2 else 4)
      in checked_read (decode_size (d_protocol_version d)) bytes d)"

definition vint_accumulate :: "u64 \<Rightarrow> byte list \<Rightarrow> u64" where
  "vint_accumulate output bytes =
     foldl (\<lambda>output vint_byte. push_bit 8 output OR ucast (vint_byte AND 0xFF)) output bytes"

definition Decoder_decode_vint :: "u64 reader" where
  "Decoder_decode_vint =
     and_then (checked_read decode_byte 1)
       (\<lambda>first_byte.
          if first_byte \<le> 127 then succeed (ucast first_byte)
          else let extra_bytes = num_leading_zeros (ucast (NOT first_byte AND 0xFF)) - 56
               in and_then (checked_bytes (of_nat extra_bytes))
                    (\<lambda>bytes. succeed (vint_accumulate
                       (ucast (first_byte AND drop_bit extra_bytes 0xFF)) bytes)))"

definition Decoder_as_decimal :: "decoder \<Rightarrow> (byte list \<times> i32) outcome" where
  "Decoder_as_decimal d =
     (if d_remaining d < 4 then Rejected
      else case decode_int32 (d_input d) of
             None \<Rightarrow> Out_of_bounds
           | Some (scale, pos) \<Rightarrow>
               if d_remaining d - 4 \<le> 0 then Rejected
               else if length pos < unat (d_remaining d - 4) then Out_of_bounds
               else Done (take (unat (d_remaining d - 4)) pos, scale))"

definition duration_reader :: "(i32 \<times> i32 \<times> i64) reader" where
  "duration_reader =
     and_then Decoder_decode_vint
       (\<lambda>m. and_then Decoder_decode_vint
         (\<lambda>dd. and_then Decoder_decode_vint
           (\<lambda>n. succeed (ucast (decode_zig_zag m), ucast (decode_zig_zag dd), decode_zig_zag n))))"

definition Decoder_as_duration :: "decoder \<Rightarrow> (i32 \<times> i32 \<times> i64) outcome" where
  "Decoder_as_duration d =
     fst (duration_reader (Decoder_new (d_input d) (d_remaining d) (d_protocol_version d)))"

subsection \<open>Payloads, failures, warnings\<close>

definition Decoder_decode_custom_payload :: "(byte list \<times> byte list option) list reader" where
  "Decoder_decode_custom_payload =
     and_then (checked_read decode_uint16 2)
       (\<lambda>count. repeat_reader (unat count)
          (and_then Decoder_decode_string
             (\<lambda>name. and_then Decoder_decode_bytes (\<lambda>value. succeed (name, value)))))"

text \<open>\<open>output.reserve(output_size)\<close> takes the count as an unsigned size: a negative count is
  beyond \<open>max_size()\<close> and throws. The loop itself runs while \<open>i < output_size\<close>.\<close>

definition Decoder_decode_failures :: "(((byte list \<times> u8) \<times> u16) list \<times> i32) reader" where
  "Decoder_decode_failures d =
     and_then (checked_read decode_int32 4)
       (\<lambda>output_size.
          if d_protocol_version d \<ge> 5
          then if sint output_size < 0 then (\<lambda>d. (Length_error, d))
               else and_then (repeat_reader (nat (sint output_size))
                      (and_then Decoder_decode_inet
                         (\<lambda>endpoint. and_then Decoder_decode_uint16
                            (\<lambda>failurecode. succeed (endpoint, failurecode)))))
                      (\<lambda>failures. succeed (failures, output_size))
          else succeed ([], output_size)) d"

datatype cass_write_type =
    CASS_WRITE_TYPE_SIMPLE | CASS_WRITE_TYPE_BATCH | CASS_WRITE_TYPE_UNLOGGED_BATCH
  | CASS_WRITE_TYPE_COUNTER | CASS_WRITE_TYPE_BATCH_LOG | CASS_WRITE_TYPE_CAS
  | CASS_WRITE_TYPE_UKNOWN

definition string_bytes :: "string \<Rightarrow> byte list" where
  "string_bytes s = map (of_nat \<circ> of_char) s"

definition write_type_of :: "byte list \<Rightarrow> cass_write_type option" where
  "write_type_of write_type =
     (if write_type = string_bytes ''SIMPLE'' then Some CASS_WRITE_TYPE_SIMPLE
      else if write_type = string_bytes ''BATCH'' then Some CASS_WRITE_TYPE_BATCH
      else if write_type = string_bytes ''UNLOGGED_BATCH'' then Some CASS_WRITE_TYPE_UNLOGGED_BATCH
      else if write_type = string_bytes ''COUNTER'' then Some CASS_WRITE_TYPE_COUNTER
      else if write_type = string_bytes ''BATCH_LOG'' then Some CASS_WRITE_TYPE_BATCH_LOG
      else if write_type = string_bytes ''CAS'' then Some CASS_WRITE_TYPE_CAS
      else None)"

definition Decoder_decode_write_type :: "cass_write_type reader" where
  "Decoder_decode_write_type =
     and_then Decoder_decode_string
       (\<lambda>write_type. case write_type_of write_type of None \<Rightarrow> reject | Some t \<Rightarrow> succeed t)"

definition Decoder_decode_warnings :: "byte list list reader" where
  "Decoder_decode_warnings =
     and_then (checked_read decode_uint16 2)
       (\<lambda>count. repeat_reader (unat count) Decoder_decode_string)"

subsection \<open>Values\<close>

datatype decoded_value =
    Null_value | Regular_value decoder | Collection_value i32 decoder

text \<open>The value's bytes are handed to a decoder of their own, for later. Nothing compares the
  size with \<open>d_remaining\<close>: both the pointer and the count move by it unconditionally.\<close>

definition Decoder_decode_value :: "bool \<Rightarrow> bool \<Rightarrow> decoded_value reader" where
  "Decoder_decode_value is_collection is_inside_collection =
     and_then (if is_inside_collection then Decoder_decode_size else Decoder_decode_int32)
       (\<lambda>sz d.
          if sint sz \<ge> 0
          then let n = scast sz :: size_t;
                   decoder = Decoder_new (d_input d) n (d_protocol_version d);
                   d' = d\<lparr>d_input := drop (unat n) (d_input d), d_remaining := d_remaining d - n\<rparr>
               in if is_collection
                  then case Decoder_decode_size decoder of
                         (Done count, decoder) \<Rightarrow> (Done (Collection_value count decoder), d')
                       | (Rejected, _) \<Rightarrow> (Rejected, d')
                       | (Out_of_bounds, _) \<Rightarrow> (Out_of_bounds, d')
                       | (Length_error, _) \<Rightarrow> (Length_error, d')
                  else (Done (Regular_value decoder), d')
          else (Done Null_value, d))"

subsection \<open>Staying inside the buffer\<close>

definition wf_decoder :: "decoder \<Rightarrow> bool" where
  "wf_decoder d \<longleftrightarrow> unat (d_remaining d) \<le> length (d_input d)"

definition advanced :: "decoder \<Rightarrow> nat \<Rightarrow> decoder" where
  "advanced d k = d\<lparr>d_input := drop k (d_input d), d_remaining := d_remaining d - of_nat k\<rparr>"

definition consumed :: "decoder \<Rightarrow> decoder \<Rightarrow> bool" where
  "consumed d d' \<longleftrightarrow> (\<exists>k \<le> unat (d_remaining d). d' = advanced d k)"

definition safe :: "'a reader \<Rightarrow> bool" where
  "safe m \<longleftrightarrow> (\<forall>d. wf_decoder d \<longrightarrow> fst (m d) \<noteq> Out_of_bounds \<and> consumed d (snd (m d)))"

lemma advanced_0 [simp]: "advanced d 0 = d"
  by (simp add: advanced_def)

lemma advanced_advanced: "advanced (advanced d j) k = advanced d (j + k)"
  by (simp add: advanced_def add.commute)

lemma d_protocol_version_advanced [simp]: "d_protocol_version (advanced d k) = d_protocol_version d"
  by (simp add: advanced_def)

lemma unat_remaining_advanced:
  "k \<le> unat (d_remaining d) \<Longrightarrow> unat (d_remaining (advanced d k)) = unat (d_remaining d) - k"
  by (simp add: advanced_def unat_minus_of_nat)

lemma consumed_refl [simp]: "consumed d d"
  unfolding consumed_def by (rule exI [of _ 0]) simp

lemma consumed_trans: "consumed d d' \<Longrightarrow> consumed d' d'' \<Longrightarrow> consumed d d''"
proof -
  assume "consumed d d'" "consumed d' d''"
  then obtain j k where "j \<le> unat (d_remaining d)" "d' = advanced d j"
    "k \<le> unat (d_remaining d')" "d'' = advanced d' k"
    by (auto simp: consumed_def)
  then show ?thesis unfolding consumed_def
    by (intro exI [of _ "j + k"]) (simp add: advanced_advanced unat_remaining_advanced)
qed

lemma consumed_wf: "consumed d d' \<Longrightarrow> wf_decoder d \<Longrightarrow> wf_decoder d'"
  by (auto simp: consumed_def wf_decoder_def unat_remaining_advanced) (simp add: advanced_def)

lemma safeI:
  "(\<And>d. wf_decoder d \<Longrightarrow> fst (m d) \<noteq> Out_of_bounds \<and> consumed d (snd (m d))) \<Longrightarrow> safe m"
  by (simp add: safe_def)

lemma safe_succeed [safe_intros]: "safe (succeed x)"
  by (simp add: safe_def succeed_def)

lemma safe_reject [safe_intros]: "safe reject"
  by (simp add: safe_def reject_def)

lemma safe_length_error [safe_intros]: "safe (\<lambda>d. (Length_error, d))"
  by (simp add: safe_def)

lemma safe_and_then [safe_intros]:
  assumes m: "safe m" and f: "\<And>x. safe (f x)"
  shows "safe (and_then m f)"
proof (rule safeI)
  fix d assume d: "wf_decoder d"
  obtain r d' where md: "m d = (r, d')" by (cases "m d")
  from m d md have r: "r \<noteq> Out_of_bounds" and c: "consumed d d'" by (auto simp: safe_def)
  from c d have d': "wf_decoder d'" by (rule consumed_wf)
  show "fst (and_then m f d) \<noteq> Out_of_bounds \<and> consumed d (snd (and_then m f d))"
    using r c d' f by (cases r) (auto simp: and_then_def md safe_def intro: consumed_trans)
qed

lemma safe_repeat [safe_intros]: "safe m \<Longrightarrow> safe (repeat_reader n m)"
  by (induction n) (auto intro: safe_intros)

lemma safe_if [safe_intros]: "safe m \<Longrightarrow> safe m' \<Longrightarrow> safe (if b then m else m')"
  by simp

lemma safe_case_option [safe_intros]:
  "safe m \<Longrightarrow> (\<And>x. safe (f x)) \<Longrightarrow> safe (case opt of None \<Rightarrow> m | Some x \<Rightarrow> f x)"
  by (cases opt) auto

lemma safe_checked_bytes [safe_intros]: "safe (checked_bytes n)"
proof (rule safeI)
  fix d assume d: "wf_decoder d"
  have "consumed d (advanced d (unat n))" if "\<not> d_remaining d < n"
    unfolding consumed_def using that
    by (intro exI [of _ "unat n"]) (simp add: word_less_nat_alt not_less)
  then show "fst (checked_bytes n d) \<noteq> Out_of_bounds \<and> consumed d (snd (checked_bytes n d))"
    using d by (auto simp: checked_bytes_def and_then_def check_remaining_def read_bytes_def
        wf_decoder_def word_less_nat_alt advanced_def)
qed

lemma checked_read_safeI:
  assumes enough: "\<And>input. w \<le> length input \<Longrightarrow> \<exists>v. dec input = Some (v, drop w input)"
    and n: "n = of_nat w" and small: "w \<le> 16"
  shows "safe (checked_read dec n)"
proof (rule safeI)
  fix d assume d: "wf_decoder d"
  have un: "unat n = w" using n small by simp
  show "fst (checked_read dec n d) \<noteq> Out_of_bounds \<and> consumed d (snd (checked_read dec n d))"
  proof (cases "d_remaining d < n")
    case True
    then show ?thesis by (simp add: checked_read_def and_then_def check_remaining_def)
  next
    case False
    then have w: "w \<le> unat (d_remaining d)" using un by (simp add: word_less_nat_alt)
    with d have "w \<le> length (d_input d)" by (simp add: wf_decoder_def)
    then obtain v where v: "dec (d_input d) = Some (v, drop w (d_input d))"
      using enough by blast
    have "consumed d (advanced d w)" using w by (auto simp: consumed_def)
    then show ?thesis using False v n
      by (simp add: checked_read_def and_then_def check_remaining_def read_with_def advanced_def)
  qed
qed

context fixed_codec
begin

lemma checked_read_safe: "n = of_nat width \<Longrightarrow> safe (checked_read dec n)"
  by (rule checked_read_safeI [OF dec_enough _ width_small])

lemma peek_safe: "n = of_nat width \<Longrightarrow> wf_decoder d \<Longrightarrow> peek_with dec n d \<noteq> Out_of_bounds"
proof -
  assume n: "n = of_nat width" and d: "wf_decoder d"
  have un: "unat n = width" using n width_small by simp
  show ?thesis
  proof (cases "d_remaining d < n")
    case False
    then have "width \<le> length (d_input d)" using un d by (simp add: word_less_nat_alt wf_decoder_def)
    then show ?thesis using dec_enough [of "d_input d"] by (auto simp: peek_with_def)
  qed (simp add: peek_with_def)
qed

end

lemmas primitive_safe [safe_intros] =
  byte_codec.checked_read_safe [of 1, simplified]
  int8_codec.checked_read_safe [of 1, simplified]
  uint16_codec.checked_read_safe [of 2, simplified]
  int16_codec.checked_read_safe [of 2, simplified]
  uint32_codec.checked_read_safe [of 4, simplified]
  int32_codec.checked_read_safe [of 4, simplified]
  int64_codec.checked_read_safe [of 8, simplified]
  float_codec.checked_read_safe [of 4, simplified]
  double_codec.checked_read_safe [of 8, simplified]
  uuid_codec.checked_read_safe [of 16, simplified]

lemmas reader_defs =
  Decoder_decode_byte_def Decoder_decode_int8_def Decoder_decode_uint16_def
  Decoder_decode_int16_def Decoder_decode_uint32_def Decoder_decode_int32_def
  Decoder_decode_int64_def Decoder_decode_float_def Decoder_decode_double_def
  Decoder_decode_uuid_def

lemma primitives_safe:
  "safe Decoder_decode_byte" "safe Decoder_decode_int8" "safe Decoder_decode_uint16"
  "safe Decoder_decode_int16" "safe Decoder_decode_uint32" "safe Decoder_decode_int32"
  "safe Decoder_decode_int64" "safe Decoder_decode_float" "safe Decoder_decode_double"
  "safe Decoder_decode_uuid"
  unfolding reader_defs by (rule primitive_safe)+

declare primitives_safe [safe_intros]

lemma strings_safe [safe_intros]:
  "safe Decoder_decode_string" "safe Decoder_decode_long_string" "safe Decoder_decode_bytes"
  unfolding Decoder_decode_string_def Decoder_decode_long_string_def Decoder_decode_bytes_def
  by (intro safe_intros)+

lemma inet_safe [safe_intros]:
  "safe Decoder_decode_inet" "safe (Decoder_decode_inet_address from_inet)"
  unfolding Decoder_decode_inet_def Decoder_decode_inet_address_def
  by (intro safe_intros)+

lemma string_collections_safe [safe_intros]:
  "safe Decoder_decode_stringlist" "safe Decoder_decode_string_map"
  "safe Decoder_decode_warnings" "safe Decoder_decode_custom_payload"
  "safe Decoder_decode_option" "safe Decoder_decode_write_type"
  unfolding Decoder_decode_stringlist_def Decoder_decode_string_map_def
    Decoder_decode_warnings_def Decoder_decode_custom_payload_def Decoder_decode_option_def
    Decoder_decode_write_type_def
  by (intro safe_intros)+

lemma multimap_safe [safe_intros]: "safe Decoder_decode_string_multimap"
  unfolding Decoder_decode_string_multimap_def by (intro safe_intros)

lemma vint_safe [safe_intros]: "safe Decoder_decode_vint"
  unfolding Decoder_decode_vint_def Let_def by (intro safe_intros)

lemma failures_safe [safe_intros]: "safe Decoder_decode_failures"
proof (rule safeI)
  fix d assume d: "wf_decoder d"
  have "safe (and_then (checked_read decode_int32 4)
       (\<lambda>output_size.
          if d_protocol_version d \<ge> 5
          then if sint output_size < 0 then (\<lambda>d. (Length_error, d))
               else and_then (repeat_reader (nat (sint output_size))
                      (and_then Decoder_decode_inet
                         (\<lambda>endpoint. and_then Decoder_decode_uint16
                            (\<lambda>failurecode. succeed (endpoint, failurecode)))))
                      (\<lambda>failures. succeed (failures, output_size))
          else succeed ([], output_size)))"
    by (intro safe_intros)
  then show "fst (Decoder_decode_failures d) \<noteq> Out_of_bounds \<and>
      consumed d (snd (Decoder_decode_failures d))"
    using d unfolding Decoder_decode_failures_def safe_def by blast
qed

lemma decode_size_enough:
  "(if v < 3 then 2 else 4) \<le> length input \<Longrightarrow>
     \<exists>n. decode_size v input = Some (n, drop (if v < 3 then 2 else 4) input)"
  using uint16_codec.dec_enough [of input] int32_codec.dec_enough [of input]
  by (auto simp: decode_size_def)

lemma decode_size_safe [safe_intros]: "safe Decoder_decode_size"
proof (rule safeI)
  fix d assume d: "wf_decoder d"
  have "safe (checked_read (decode_size (d_protocol_version d))
      (if d_protocol_version d < 3 then 2 else 4))"
    by (rule checked_read_safeI [where w = "if d_protocol_version d < 3 then 2 else 4"])
      (use decode_size_enough in auto)
  then show "fst (Decoder_decode_size d) \<noteq> Out_of_bounds \<and> consumed d (snd (Decoder_decode_size d))"
    using d unfolding Decoder_decode_size_def safe_def Let_def by blast
qed


lemmas peek_defs =
  Decoder_as_byte_def Decoder_as_int8_def Decoder_as_int16_def Decoder_as_uint32_def
  Decoder_as_int32_def Decoder_as_int64_def Decoder_as_float_def Decoder_as_double_def
  Decoder_as_uuid_def

lemma peeks_safe:
  assumes "wf_decoder d"
  shows "Decoder_as_byte d \<noteq> Out_of_bounds" "Decoder_as_int8 d \<noteq> Out_of_bounds"
    "Decoder_as_int16 d \<noteq> Out_of_bounds" "Decoder_as_uint32 d \<noteq> Out_of_bounds"
    "Decoder_as_int32 d \<noteq> Out_of_bounds" "Decoder_as_int64 d \<noteq> Out_of_bounds"
    "Decoder_as_float d \<noteq> Out_of_bounds" "Decoder_as_double d \<noteq> Out_of_bounds"
    "Decoder_as_uuid d \<noteq> Out_of_bounds"
  unfolding peek_defs using assms
  by (simp_all add: byte_codec.peek_safe int8_codec.peek_safe int16_codec.peek_safe
      uint32_codec.peek_safe int32_codec.peek_safe int64_codec.peek_safe float_codec.peek_safe
      double_codec.peek_safe uuid_codec.peek_safe)

lemma as_bool_safe: "wf_decoder d \<Longrightarrow> Decoder_as_bool d \<noteq> Out_of_bounds"
  using peeks_safe(1) [of d] by (cases "Decoder_as_byte d") (auto simp: Decoder_as_bool_def)

lemma views_safe:
  assumes "wf_decoder d"
  shows "Decoder_as_string d \<noteq> Out_of_bounds" "Decoder_as_vector d \<noteq> Out_of_bounds"
  using assms by (auto simp: Decoder_as_string_def Decoder_as_vector_def wf_decoder_def)

lemma as_inet_safe: "wf_decoder d \<Longrightarrow> Decoder_as_inet len d \<noteq> Out_of_bounds"
proof -
  assume d: "wf_decoder d"
  have "unat (ucast (ucast len :: u8) :: size_t) = unat (ucast len :: u8)"
    by (simp add: unat_ucast_up)
  then show ?thesis using d
    by (auto simp: Decoder_as_inet_def Let_def wf_decoder_def word_less_nat_alt)
qed

lemma as_decimal_safe: "wf_decoder d \<Longrightarrow> Decoder_as_decimal d \<noteq> Out_of_bounds"
proof (cases "d_remaining d < 4")
  case False
  assume d: "wf_decoder d"
  from False have r: "4 \<le> unat (d_remaining d)" by (simp add: word_less_nat_alt)
  then have u: "unat (d_remaining d - 4) = unat (d_remaining d) - 4"
    using unat_minus_of_nat [of 4 "d_remaining d"] by simp
  from r d have "4 \<le> length (d_input d)" by (simp add: wf_decoder_def)
  then obtain v where "decode_int32 (d_input d) = Some (v, drop 4 (d_input d))"
    using int32_codec.dec_enough by blast
  then show ?thesis using False u r d by (auto simp: Decoder_as_decimal_def wf_decoder_def)
qed (simp add: Decoder_as_decimal_def)

lemma wf_Decoder_new: "unat n \<le> length input \<Longrightarrow> wf_decoder (Decoder_new input n v)"
  by (simp add: wf_decoder_def Decoder_new_def)

lemma as_duration_safe: "wf_decoder d \<Longrightarrow> Decoder_as_duration d \<noteq> Out_of_bounds"
proof -
  assume d: "wf_decoder d"
  have "safe duration_reader" unfolding duration_reader_def by (intro safe_intros)
  moreover have "wf_decoder (Decoder_new (d_input d) (d_remaining d) (d_protocol_version d))"
    using d by (intro wf_Decoder_new) (simp add: wf_decoder_def)
  ultimately show ?thesis unfolding safe_def Decoder_as_duration_def by blast
qed

lemma unat_16_bit: "unat (k :: 16 word) < 65536"
proof -
  have "unat k < 2 ^ LENGTH(16)" by (rule unsigned_less)
  then show ?thesis by simp
qed

lemma as_stringlist_loop_safe:
  assumes "unat (d_remaining d) \<le> unat tr + length pos" "unat tr \<le> unat (d_remaining d)"
    "unat (d_remaining d) < 2 ^ 63"
  shows "as_stringlist_loop n tr pos d \<noteq> Out_of_bounds"
  using assms
proof (induction n arbitrary: tr pos)
  case (Suc n)
  let ?t = "tr + 2"
  have t: "unat ?t = unat tr + 2" using Suc.prems(2,3)
    by (subst unat_add_lem [THEN iffD1]) auto
  show ?case
  proof (cases "d_remaining d < ?t")
    case False
    then have le: "unat tr + 2 \<le> unat (d_remaining d)" using t by (simp add: word_less_nat_alt)
    then obtain k where k: "decode_uint16 pos = Some (k, drop 2 pos)"
      using uint16_codec.dec_enough [of pos] Suc.prems(1) by auto
    have uk: "unat (ucast k :: size_t) = unat k" by (simp add: unat_ucast_up)
    have k16: "unat k < 65536" by (rule unat_16_bit)
    have t2: "unat (?t + ucast k) = unat tr + 2 + unat k"
      using Suc.prems(3) le k16 t uk by (subst unat_add_lem [THEN iffD1]) auto
    show ?thesis
    proof (cases "d_remaining d < ?t + ucast k")
      case False
      then have le2: "unat tr + 2 + unat k \<le> unat (d_remaining d)"
        using t2 by (simp add: word_less_nat_alt)
      then have fits: "unat k \<le> length (drop 2 pos)" using Suc.prems(1) by simp
      have "as_stringlist_loop n (?t + ucast k) (drop (unat k) (drop 2 pos)) d \<noteq> Out_of_bounds"
        using Suc.prems le2 t2 by (intro Suc.IH) auto
      then show ?thesis using k fits
        by (cases "as_stringlist_loop n (?t + ucast k) (drop (unat k) (drop 2 pos)) d")
          (auto simp: Let_def)
    qed (use k in \<open>simp add: Let_def\<close>)
  qed (simp add: Let_def)
qed simp

lemma as_stringlist_safe:
  assumes d: "wf_decoder d" and small: "unat (d_remaining d) < 2 ^ 63"
  shows "Decoder_as_stringlist d \<noteq> Out_of_bounds"
proof (cases "d_remaining d < 2")
  case False
  then have r: "2 \<le> unat (d_remaining d)" by (simp add: word_less_nat_alt)
  with d have "2 \<le> length (d_input d)" by (simp add: wf_decoder_def)
  then obtain n where n: "decode_uint16 (d_input d) = Some (n, drop 2 (d_input d))"
    using uint16_codec.dec_enough by blast
  have "as_stringlist_loop (unat n) 2 (drop 2 (d_input d)) d \<noteq> Out_of_bounds"
    using d r small by (intro as_stringlist_loop_safe) (auto simp: wf_decoder_def)
  then show ?thesis using n by (simp add: Decoder_as_stringlist_def)
qed (simp add: Decoder_as_stringlist_def)

end
