(* ===== verification/Codec.thy ===== *)
theory Codec
  imports Decoder
begin

text \<open>
  The write side and the read side of the codec against each other. \<open>reads m bs v\<close> says that the
  reader \<open>m\<close>, on any decoder whose input starts with \<open>bs\<close> and that may read that far, succeeds
  with \<open>v\<close> and advances past exactly \<open>bs\<close>; it is closed under sequencing and repetition, so the
  round trip of a composite format is put together from those of its parts.
\<close>

subsection \<open>Reading back what was written\<close>

definition reads :: "'a reader \<Rightarrow> byte list \<Rightarrow> 'a \<Rightarrow> bool" where
  "reads m bs v \<longleftrightarrow>
     (\<forall>d rest. d_input d = bs @ rest \<longrightarrow> length bs \<le> unat (d_remaining d) \<longrightarrow>
        m d = (Done v, advanced d (length bs)))"

lemma d_input_advanced [simp]: "d_input (advanced d k) = drop k (d_input d)"
  by (simp add: advanced_def)

lemma readsD:
  "reads m bs v \<Longrightarrow> d_input d = bs @ rest \<Longrightarrow> length bs \<le> unat (d_remaining d) \<Longrightarrow>
     m d = (Done v, advanced d (length bs))"
  by (simp add: reads_def)

lemma reads_succeed [reads_intros]: "reads (succeed v) [] v"
  by (simp add: reads_def succeed_def)

lemma reads_and_then [reads_intros]:
  assumes m: "reads m bs x" and f: "reads (f x) cs y"
  shows "reads (and_then m f) (bs @ cs) y"
  unfolding reads_def
proof (intro allI impI)
  fix d :: decoder and rest
  assume i: "d_input d = (bs @ cs) @ rest" and r: "length (bs @ cs) \<le> unat (d_remaining d)"
  have "m d = (Done x, advanced d (length bs))"
    using i r by (intro readsD [OF m, of _ "cs @ rest"]) auto
  moreover have "f x (advanced d (length bs)) = (Done y, advanced (advanced d (length bs)) (length cs))"
    using i r by (intro readsD [OF f, of _ rest]) (auto simp: unat_remaining_advanced)
  ultimately show "and_then m f d = (Done y, advanced d (length (bs @ cs)))"
    by (simp add: and_then_def advanced_advanced)
qed

lemma reads_and_then_last:
  "reads m bs x \<Longrightarrow> reads (f x) [] y \<Longrightarrow> reads (and_then m f) bs y"
  using reads_and_then [of m bs x f "[]" y] by simp

lemma reads_repeat:
  "list_all2 (reads m) bss vs \<Longrightarrow> reads (repeat_reader (length vs) m) (concat bss) vs"
proof (induction bss vs rule: list_all2_induct)
  case Nil
  then show ?case by (simp add: reads_succeed)
next
  case (Cons bs bss v vs)
  have "reads (and_then m (\<lambda>x. and_then (repeat_reader (length vs) m) (\<lambda>xs. succeed (x # xs))))
      (bs @ concat bss) (v # vs)"
    by (rule reads_and_then [OF Cons(1)], rule reads_and_then_last [OF Cons(3)], rule reads_succeed)
  then show ?case by simp
qed

lemma reads_repeat_map:
  assumes "\<And>v. v \<in> set vs \<Longrightarrow> reads m (enc v) v"
  shows "reads (repeat_reader (length vs) m) (concat (map enc vs)) vs"
  by (rule reads_repeat) (use assms in \<open>auto simp: list_all2_conv_all_nth\<close>)

lemma reads_checked_bytes:
  assumes "n = of_nat (length bs)" "length bs < 2 ^ 64"
  shows "reads (checked_bytes n) bs bs"
  using assms
  by (auto simp: reads_def checked_bytes_def and_then_def check_remaining_def read_bytes_def
      word_less_nat_alt advanced_def)

context fixed_codec
begin

lemma reads_checked_read:
  assumes "n = of_nat width"
  shows "reads (checked_read dec n) (enc v) v"
  using assms width_small
  by (auto simp: reads_def checked_read_def and_then_def check_remaining_def read_with_def
      word_less_nat_alt advanced_def enc_length dec_enc)

end

lemmas primitive_reads =
  byte_codec.reads_checked_read [of 1, simplified]
  int8_codec.reads_checked_read [of 1, simplified]
  uint16_codec.reads_checked_read [of 2, simplified]
  int16_codec.reads_checked_read [of 2, simplified]
  uint32_codec.reads_checked_read [of 4, simplified]
  int32_codec.reads_checked_read [of 4, simplified]
  int64_codec.reads_checked_read [of 8, simplified]
  float_codec.reads_checked_read [of 4, simplified]
  double_codec.reads_checked_read [of 8, simplified]
  uuid_codec.reads_checked_read [of 16, simplified]

declare primitive_reads [reads_intros]

definition string_encoding :: "byte list \<Rightarrow> byte list" where
  "string_encoding s = encode_uint16 (of_nat (length s)) @ s"

lemma reads_decode_string [reads_intros]:
  assumes "length s < 2 ^ 16"
  shows "reads Decoder_decode_string (string_encoding s) s"
  unfolding Decoder_decode_string_def string_encoding_def
proof (rule reads_and_then)
  show "reads (checked_read decode_uint16 2) (encode_uint16 (of_nat (length s))) (of_nat (length s))"
    by (rule primitive_reads)
  have "unat (ucast (of_nat (length s) :: u16) :: size_t) = length s" using assms by simp
  then show "reads (checked_bytes (ucast (of_nat (length s) :: u16))) s s"
    using assms by (intro reads_checked_bytes) (auto simp: word_unat_eq_iff)
qed

lemma scast_of_nat_i32:
  "n < 2 ^ 31 \<Longrightarrow> (scast (of_nat n :: i32) :: size_t) = of_nat n"
proof -
  assume n: "n < 2 ^ 31"
  then have s: "sint (of_nat n :: i32) = int n" by (intro sint_of_nat_small) simp
  then have "unat (scast (of_nat n :: i32) :: size_t) = n"
    by (subst unat_scast_nonneg) auto
  then show ?thesis using n by (simp add: word_unat_eq_iff)
qed

lemma reads_decode_long_string [reads_intros]:
  assumes "length s < 2 ^ 31"
  shows "reads Decoder_decode_long_string (encode_int32 (of_nat (length s)) @ s) s"
  unfolding Decoder_decode_long_string_def
  by (rule reads_and_then [OF primitive_reads(6)], rule reads_checked_bytes)
    (use assms in \<open>auto simp: scast_of_nat_i32\<close>)

lemma reads_decode_bytes [reads_intros]:
  assumes "length bs < 2 ^ 31"
  shows "reads Decoder_decode_bytes (encode_int32 (of_nat (length bs)) @ bs) (Some bs)"
proof -
  have "sint (of_nat (length bs) :: i32) = int (length bs)"
    using assms by (intro sint_of_nat_small) simp
  moreover have "reads (and_then (checked_bytes (scast (of_nat (length bs) :: i32)))
      (\<lambda>bs. succeed (Some bs))) bs (Some bs)"
    using assms by (intro reads_and_then_last [OF reads_checked_bytes] reads_succeed)
      (auto simp: scast_of_nat_i32)
  ultimately show ?thesis
    unfolding Decoder_decode_bytes_def by (intro reads_and_then [OF primitive_reads(6)]) simp
qed

lemma reads_decode_bytes_null:
  assumes "sint n < 0"
  shows "reads Decoder_decode_bytes (encode_int32 n) None"
  unfolding Decoder_decode_bytes_def
  by (rule reads_and_then_last [OF primitive_reads(6)]) (use assms in \<open>simp add: reads_succeed\<close>)

lemma reads_string_repeat:
  assumes "\<forall>s \<in> set ss. length s < 2 ^ 16"
  shows "reads (repeat_reader (length ss) Decoder_decode_string) (concat (map string_encoding ss)) ss"
  using assms by (intro reads_repeat_map reads_decode_string) auto

definition string_list_encoding :: "byte list list \<Rightarrow> byte list" where
  "string_list_encoding ss = encode_uint16 (of_nat (length ss)) @ concat (map string_encoding ss)"

lemma reads_decode_stringlist [reads_intros]:
  assumes "length ss < 2 ^ 16" "\<forall>s \<in> set ss. length s < 2 ^ 16"
  shows "reads Decoder_decode_stringlist (string_list_encoding ss) ss"
  unfolding Decoder_decode_stringlist_def string_list_encoding_def
  by (rule reads_and_then [OF primitive_reads(3)])
    (use assms reads_string_repeat [of ss] in simp)

definition string_map_encoding :: "(byte list \<times> byte list) list \<Rightarrow> byte list" where
  "string_map_encoding es = encode_uint16 (of_nat (length es)) @
     concat (map (\<lambda>(k, v). string_encoding k @ string_encoding v) es)"

lemma foldl_map_insert_new:
  "distinct (map fst es) \<Longrightarrow> (\<forall>k \<in> set (map fst es). m k = None) \<Longrightarrow>
     foldl map_insert_new m es = m ++ map_of es"
proof (induction es arbitrary: m)
  case (Cons e es)
  have e: "map_insert_new m e = m(fst e \<mapsto> snd e)"
    using Cons.prems(2) by (simp add: map_insert_new_def)
  have "foldl map_insert_new (map_insert_new m e) es = m(fst e \<mapsto> snd e) ++ map_of es"
    unfolding e using Cons.prems by (intro Cons.IH) (auto simp: image_iff)
  moreover have "fst e \<notin> dom (map_of es)"
    using Cons.prems(1) by (simp add: dom_map_of_conv_image_fst)
  then have "m(fst e \<mapsto> snd e) ++ map_of es = m ++ map_of (e # es)"
    by (simp add: map_add_upd_left)
  ultimately show ?case by (simp only: foldl_Cons)
qed simp

lemma reads_decode_string_map [reads_intros]:
  assumes "length es < 2 ^ 16" "\<forall>(k, v) \<in> set es. length k < 2 ^ 16 \<and> length v < 2 ^ 16"
    "distinct (map fst es)"
  shows "reads Decoder_decode_string_map (string_map_encoding es) (map_of es)"
proof -
  let ?entry = "and_then Decoder_decode_string
      (\<lambda>key. and_then Decoder_decode_string (\<lambda>value. succeed (key, value)))"
  have "reads ?entry (string_encoding k @ string_encoding v) (k, v)" if kv: "(k, v) \<in> set es" for k v
  proof -
    have k: "length k < 2 ^ 16" and v: "length v < 2 ^ 16" using assms(2) kv by auto
    show ?thesis
      by (rule reads_and_then [OF reads_decode_string [OF k]],
          rule reads_and_then_last [OF reads_decode_string [OF v]], rule reads_succeed)
  qed
  then have "reads (repeat_reader (length es) ?entry)
      (concat (map (\<lambda>(k, v). string_encoding k @ string_encoding v) es)) es"
    by (intro reads_repeat_map) auto
  moreover have "foldl map_insert_new Map.empty es = map_of es"
    using assms(3) by (subst foldl_map_insert_new) auto
  ultimately show ?thesis
    unfolding Decoder_decode_string_map_def string_map_encoding_def
    by (intro reads_and_then [OF primitive_reads(3)])
      (use assms(1) in \<open>auto intro!: reads_and_then_last reads_succeed\<close>)
qed


subsection \<open>Variable-length integers\<close>

lemma write_be_Suc:
  "write_be (Suc n) v written = ucast (drop_bit (8 * n) v) # write_be n v written"
proof (induction n arbitrary: v written)
  case (Suc n)
  have "write_be (Suc (Suc n)) v written = write_be (Suc n) (drop_bit 8 v) (ucast v # written)"
    by simp
  also have "\<dots> = ucast (drop_bit (8 * n) (drop_bit 8 v)) # write_be n (drop_bit 8 v) (ucast v # written)"
    by (rule Suc.IH)
  finally show ?case by (simp add: drop_bit_drop_bit add.commute)
qed simp

lemma vint_accumulate_write_be:
  "n \<le> 8 \<Longrightarrow> vint_accumulate (drop_bit (8 * n) v) (write_be n v []) = v"
proof (induction n)
  case 0
  then show ?case by (simp add: vint_accumulate_def)
next
  case (Suc n)
  have "push_bit 8 (drop_bit (8 * Suc n) v) OR ucast (ucast (drop_bit (8 * n) v) :: byte) =
      drop_bit (8 * n) v"
    by (rule bit_word_eqI) (use Suc.prems in \<open>auto simp: bit_simps dest: bit_imp_le_length\<close>)
  then show ?case using Suc unfolding write_be_Suc vint_accumulate_def by simp
qed

text \<open>The first byte of a multi-byte vint: \<open>n\<close> leading ones, a zero, and the top bits of the
  value below them.\<close>

lemma bit_ff: "bit (0xFF :: byte) i \<longleftrightarrow> i < 8"
  by (simp only: ff_eq_mask bit_mask_iff) simp

lemma bit_first_byte:
  "bit (hi OR NOT (drop_bit n (0xFF :: byte))) i \<longleftrightarrow> i < 8 \<and> (bit hi i \<or> 8 \<le> i + n)"
  unfolding bit_or_iff bit_not_iff bit_drop_bit_eq o_apply bit_ff
  by (auto dest: bit_imp_le_length)

lemma first_byte_length:
  assumes n: "1 \<le> n" "n \<le> 8" and hi: "\<And>i. 7 - n \<le> i \<Longrightarrow> i < 8 \<Longrightarrow> \<not> bit hi i"
  shows "num_leading_zeros (ucast (NOT (hi OR NOT (drop_bit n (0xFF :: byte))) AND (0xFF :: byte))) - 56 = n"
proof -
  let ?w = "ucast (NOT (hi OR NOT (drop_bit n (0xFF :: byte))) AND (0xFF :: byte)) :: i64"
  have w: "bit ?w i \<longleftrightarrow> i < 8 \<and> \<not> bit hi i \<and> i + n < 8" for i
    unfolding bit_ucast_iff bit_and_iff bit_not_iff bit_first_byte bit_ff by auto
  have "num_leading_zeros ?w = 56 + n"
  proof (rule num_leading_zeros_eqI)
    show "\<not> bit ?w i" if "64 - (56 + n) \<le> i" for i
      unfolding w using that by auto
    show "bit ?w (63 - (56 + n))" if "56 + n < 64"
      unfolding w using that n hi [of "7 - n"] by auto
  qed (use n in simp)
  then show ?thesis by simp
qed

lemma first_byte_value:
  assumes hi: "\<And>i. 8 - n \<le> i \<Longrightarrow> i < 8 \<Longrightarrow> \<not> bit hi i"
  shows "(hi OR NOT (drop_bit n (0xFF :: byte))) AND drop_bit n 0xFF = hi"
proof (rule bit_word_eqI)
  fix i assume i: "i < LENGTH(8)"
  show "bit ((hi OR NOT (drop_bit n (0xFF :: byte))) AND drop_bit n 0xFF) i = bit hi i"
    unfolding bit_and_iff bit_first_byte bit_drop_bit_eq o_apply bit_ff
    using hi [of i] i by (cases "n + i < 8") auto
qed

lemma high_bits_clear:
  assumes "uint (v :: 'a::len word) < 2 ^ k" "k \<le> i" shows "\<not> bit v i"
proof
  assume "bit v i"
  then have "2 ^ i \<le> uint v" by (rule uint_ge_bit)
  moreover have "(2::int) ^ k \<le> 2 ^ i" using assms(2) by simp
  ultimately show False using assms(1) by simp
qed

lemma encode_vint_first:
  "2 \<le> s \<Longrightarrow> encode_vint v s =
     (ucast (drop_bit (8 * (s - 1)) v) OR NOT (drop_bit (s - 1) 0xFF)) # write_be (s - 1) v []"
  using write_be_Suc [of "s - 1" v "[]"] by (simp add: encode_vint_def)

lemma reads_decode_vint [reads_intros]:
  "reads Decoder_decode_vint (encode_vint v (vint_size v)) v"
proof (cases "vint_size v = 1")
  case True
  then have small: "uint v < 2 ^ 7" using vint_size_fits [of v] by simp
  have uv: "ucast (ucast v :: byte) = v"
  proof (rule bit_word_eqI)
    fix i assume "i < LENGTH(64)"
    then show "bit (ucast (ucast v :: byte) :: u64) i = bit v i"
      using high_bits_clear [OF small, of i] by (cases "i < 8") (auto simp: bit_simps)
  qed
  have "uint (ucast v :: byte) = uint v"
    using small by (simp add: unsigned_ucast_eq take_bit_int_eq_self)
  then have le: "(ucast v :: byte) \<le> 127" using small by (simp add: word_le_def)
  have "reads (checked_read decode_byte 1) [ucast v] (ucast v)"
    using primitive_reads(1) [of "ucast v"] by (simp add: encode_byte_def)
  then show ?thesis unfolding Decoder_decode_vint_def
    using True le uv by (auto simp: encode_vint_def intro!: reads_and_then_last reads_succeed)
next
  case False
  define n where "n = vint_size v - 1"
  have n: "1 \<le> n" "n \<le> 8" "vint_size v = Suc n"
    using False vint_size_bounds [of v] by (auto simp: n_def)
  define hi :: byte where "hi = ucast (drop_bit (8 * n) v)"
  have clear: "\<not> bit v (8 * n + i)" if "7 - n \<le> i" for i
  proof (cases "n = 8")
    case True
    then show ?thesis by (auto dest: bit_imp_le_length)
  next
    case False
    then have "uint v < 2 ^ (7 * Suc n)" using vint_size_fits [of v] n by simp
    moreover have "7 * Suc n \<le> 8 * n + i" using that n False by auto
    ultimately show ?thesis by (rule high_bits_clear)
  qed
  then have hi: "\<not> bit hi i" if "7 - n \<le> i" for i
    using that by (simp add: hi_def bit_simps)
  let ?first = "hi OR NOT (drop_bit n 0xFF)"
  have enc: "encode_vint v (vint_size v) = encode_byte ?first @ write_be n v []"
    using n encode_vint_first [of "vint_size v" v] by (simp add: encode_byte_def hi_def)
  have big: "\<not> ?first \<le> 127"
  proof -
    have "bit ?first 7" using n by (simp add: bit_first_byte)
    then have "2 ^ 7 \<le> uint ?first" by (rule uint_ge_bit)
    then show ?thesis by (simp add: word_le_def)
  qed
  have extra: "num_leading_zeros (ucast (NOT ?first AND 0xFF)) - 56 = n"
    by (rule first_byte_length) (use n hi in auto)
  have val: "?first AND drop_bit n 0xFF = hi"
    by (rule first_byte_value) (use hi in auto)
  have hi64: "ucast hi = drop_bit (8 * n) v"
  proof (rule bit_word_eqI)
    fix i assume "i < LENGTH(64)"
    then show "bit (ucast hi :: u64) i = bit (drop_bit (8 * n) v) i"
      using clear [of i] n by (cases "i < 8") (auto simp: hi_def bit_simps)
  qed
  have "vint_accumulate (ucast hi) (write_be n v []) = v"
    using vint_accumulate_write_be [of n v] n hi64 by simp
  then have "reads (and_then (checked_bytes (of_nat n))
      (\<lambda>bytes. succeed (vint_accumulate (ucast hi) bytes))) (write_be n v []) v"
    using n reads_succeed [of v]
    by (intro reads_and_then_last [OF reads_checked_bytes]) (auto simp: length_write_be)
  then show ?thesis unfolding Decoder_decode_vint_def enc
    by (intro reads_and_then [OF primitive_reads(1)]) (simp only: big if_False Let_def extra val)
qed


lemma sign_extend_truncate: "ucast (scast (m :: i32) :: i64) = m"
  by (rule bit_word_eqI) (auto simp: bit_simps)

lemma reads_duration:
  "reads duration_reader (value_bytes (CDuration d)) (months d, days d, nanos d)"
proof -
  let ?z = "\<lambda>x. encode_vint (encode_zig_zag x) (vint_size (encode_zig_zag x))"
  have "reads duration_reader (?z (scast (months d)) @ ?z (scast (days d)) @ ?z (nanos d))
      (months d, days d, nanos d)"
    unfolding duration_reader_def
    by (rule reads_and_then [OF reads_decode_vint], rule reads_and_then [OF reads_decode_vint],
        rule reads_and_then_last [OF reads_decode_vint])
      (simp add: sign_extend_truncate reads_succeed)
  then show ?thesis by (simp add: duration_zigzags_def)
qed

subsection \<open>Values and their size prefix\<close>

text \<open>With a size that fits, the decoder handed to the value and the one that goes on are both
  inside the buffer.\<close>

lemma decode_value_fits:
  assumes d: "wf_decoder d" and len: "4 \<le> unat (d_remaining d)"
    and sz: "decode_int32 (d_input d) = Some (sz, rest)"
    and nn: "0 \<le> sint sz" and fits: "nat (sint sz) \<le> unat (d_remaining d) - 4"
  shows "\<exists>inner d'. Decoder_decode_value False False d = (Done (Regular_value inner), d') \<and>
    wf_decoder inner \<and> wf_decoder d' \<and> unat (d_remaining inner) = nat (sint sz) \<and>
    unat (d_remaining d') = unat (d_remaining d) - 4 - nat (sint sz)"
proof -
  let ?n = "nat (sint sz)" and ?d1 = "advanced d 4"
  have rest: "rest = drop 4 (d_input d)" using int32_codec.dec_Some [OF sz] by simp
  have n: "unat (scast sz :: size_t) = ?n" by (rule unat_scast_nonneg) (use nn in auto)
  have r1: "unat (d_remaining ?d1) = unat (d_remaining d) - 4"
    using len by (simp add: unat_remaining_advanced)
  have int: "Decoder_decode_int32 d = (Done sz, ?d1)"
    using len sz rest by (simp add: Decoder_decode_int32_def checked_read_def and_then_def
        check_remaining_def read_with_def word_less_nat_alt advanced_def)
  have eq: "Decoder_decode_value False False d =
      (Done (Regular_value (Decoder_new (d_input ?d1) (scast sz) (d_protocol_version d))),
       ?d1\<lparr>d_input := drop ?n (d_input ?d1), d_remaining := d_remaining ?d1 - scast sz\<rparr>)"
    using nn int n by (simp add: Decoder_decode_value_def and_then_def Let_def)
  have "wf_decoder ?d1"
    using len by (intro consumed_wf [OF _ d]) (auto simp: consumed_def)
  then have "?n \<le> length (d_input ?d1)" using fits r1 by (simp add: wf_decoder_def)
  moreover have "unat (d_remaining ?d1 - scast sz) = unat (d_remaining d) - 4 - ?n"
    using fits r1 n by (subst unat_sub) (auto simp: word_le_nat_alt)
  ultimately show ?thesis using eq n \<open>wf_decoder ?d1\<close> r1
    by (simp add: wf_decoder_def Decoder_new_def) linarith
qed

text \<open>Otherwise the size is taken as it is: the value's decoder claims bytes that are not there
  and the count of the enclosing decoder wraps around.\<close>

lemma decode_value_overrun:
  assumes d: "unat (d_remaining d) = length (d_input d)" and len: "4 \<le> unat (d_remaining d)"
    and sz: "decode_int32 (d_input d) = Some (sz, rest)"
    and nn: "0 \<le> sint sz" and over: "unat (d_remaining d) - 4 < nat (sint sz)"
  shows "\<exists>inner d'. Decoder_decode_value False False d = (Done (Regular_value inner), d') \<and>
    unat (d_remaining inner) = nat (sint sz) \<and> length (d_input inner) < nat (sint sz) \<and>
    d_input d' = [] \<and> unat (d_remaining d') = 2 ^ 64 - (nat (sint sz) - (unat (d_remaining d) - 4))"
proof -
  let ?n = "nat (sint sz)" and ?d1 = "advanced d 4"
  have rest: "rest = drop 4 (d_input d)" using int32_codec.dec_Some [OF sz] by simp
  have n: "unat (scast sz :: size_t) = ?n" by (rule unat_scast_nonneg) (use nn in auto)
  have n31: "?n < 2 ^ 31" using sint_less [of sz] nn by simp
  have int: "Decoder_decode_int32 d = (Done sz, ?d1)"
    using len sz rest by (simp add: Decoder_decode_int32_def checked_read_def and_then_def
        check_remaining_def read_with_def word_less_nat_alt advanced_def)
  have r1: "unat (d_remaining ?d1) = unat (d_remaining d) - 4"
    using len by (simp add: unat_remaining_advanced)
  have in1: "d_input ?d1 = drop 4 (d_input d)" by simp
  have wrap: "unat (d_remaining ?d1 - scast sz) = 2 ^ 64 - (?n - (unat (d_remaining d) - 4))"
  proof -
    have "\<not> unat (scast sz :: size_t) \<le> unat (d_remaining ?d1)" using over n r1 by linarith
    then have "unat (d_remaining ?d1 - scast sz) =
        unat (d_remaining ?d1) + 2 ^ LENGTH(64) - unat (scast sz :: size_t)"
      using unat_sub_if' [of "d_remaining ?d1" "scast sz"] by presburger
    then show ?thesis using n r1 n31 over by (simp, linarith)
  qed
  have "Decoder_decode_value False False d =
      (Done (Regular_value (Decoder_new (d_input ?d1) (scast sz) (d_protocol_version d))),
       ?d1\<lparr>d_input := drop ?n (d_input ?d1), d_remaining := d_remaining ?d1 - scast sz\<rparr>)"
    using nn int n by (simp add: Decoder_decode_value_def and_then_def Let_def)
  moreover have "length (drop 4 (d_input d)) < ?n" using d over by simp
  ultimately show ?thesis using n in1 wrap
    by (simp add: Decoder_new_def)
qed

subsection \<open>Strings as the buffer writes them\<close>

lemma Buffer_encode_string_filled:
  assumes "length s < 2 ^ 16" "length (string_encoding s) \<le> n"
  shows "Buffer_encode_string (filled_to xs n) (length xs) s (of_nat (length s)) =
    Some (filled_to (xs @ string_encoding s) (n - length (string_encoding s)),
          length (xs @ string_encoding s))"
  using assms
  by (simp add: Buffer_encode_string_def Buffer_write_simps string_encoding_def)

lemma Buffer_encode_strings_filled:
  assumes "\<forall>s \<in> set ss. length s < 2 ^ 16" "length (concat (map string_encoding ss)) \<le> n"
  shows "Buffer_encode_strings (filled_to xs n) (length xs) ss =
    Some (filled_to (xs @ concat (map string_encoding ss))
            (n - length (concat (map string_encoding ss))),
          length (xs @ concat (map string_encoding ss)))"
  using assms
proof (induction ss arbitrary: xs n)
  case (Cons s ss)
  have w: "Buffer_encode_string (filled_to xs n) (length xs) s (of_nat (length s)) =
      Some (filled_to (xs @ string_encoding s) (n - length (string_encoding s)),
            length (xs @ string_encoding s))"
    using Cons.prems by (intro Buffer_encode_string_filled) auto
  show ?case using Cons.IH [of "n - length (string_encoding s)" "xs @ string_encoding s"] Cons.prems
    by (simp only: Buffer_encode_strings.simps w) simp
qed simp

lemma Buffer_encode_entries_filled:
  assumes "\<forall>(k, v) \<in> set es. length k < 2 ^ 16 \<and> length v < 2 ^ 16"
    "length (concat (map (\<lambda>(k, v). string_encoding k @ string_encoding v) es)) \<le> n"
  shows "Buffer_encode_entries (filled_to xs n) (length xs) es =
    Some (filled_to (xs @ concat (map (\<lambda>(k, v). string_encoding k @ string_encoding v) es))
            (n - length (concat (map (\<lambda>(k, v). string_encoding k @ string_encoding v) es))),
          length (xs @ concat (map (\<lambda>(k, v). string_encoding k @ string_encoding v) es)))"
  using assms
proof (induction es arbitrary: xs n)
  case (Cons e es)
  obtain k v where e: "e = (k, v)" by (cases e)
  let ?k = "string_encoding k" and ?v = "string_encoding v"
  have wk: "Buffer_encode_string (filled_to xs n) (length xs) k (of_nat (length k)) =
      Some (filled_to (xs @ ?k) (n - length ?k), length (xs @ ?k))"
    using Cons.prems e by (intro Buffer_encode_string_filled) auto
  have wv: "Buffer_encode_string (filled_to (xs @ ?k) (n - length ?k)) (length (xs @ ?k)) v
      (of_nat (length v)) =
      Some (filled_to ((xs @ ?k) @ ?v) (n - length ?k - length ?v), length ((xs @ ?k) @ ?v))"
    using Cons.prems e by (intro Buffer_encode_string_filled) auto
  show ?case using Cons.IH [of "n - length ?k - length ?v" "(xs @ ?k) @ ?v"] Cons.prems e
    by (simp only: Buffer_encode_entries.simps wk wv Option.bind.simps prod.case) (simp add: add.assoc)
qed simp

lemma Buffer_encode_string_list_filled:
  assumes "\<forall>s \<in> set ss. length s < 2 ^ 16" "n = length (string_list_encoding ss)"
  shows "Buffer_encode_string_list (Buffer_of_size n) 0 ss = Some (map Some (string_list_encoding ss), n)"
proof -
  let ?c = "encode_uint16 (of_nat (length ss))"
  have "Buffer_encode_strings (filled_to ?c (n - 2)) (length ?c) ss =
      Some (map Some (string_list_encoding ss), n)"
    using assms by (subst Buffer_encode_strings_filled) (auto simp: string_list_encoding_def)
  then show ?thesis using assms
    by (simp add: Buffer_encode_string_list_def Buffer_write_simps string_list_encoding_def numeral_2_eq_2)
qed

lemma Buffer_encode_string_map_filled:
  assumes "\<forall>(k, v) \<in> set es. length k < 2 ^ 16 \<and> length v < 2 ^ 16"
    "n = length (string_map_encoding es)"
  shows "Buffer_encode_string_map (Buffer_of_size n) 0 es = Some (map Some (string_map_encoding es), n)"
proof -
  let ?c = "encode_uint16 (of_nat (length es))"
  have "Buffer_encode_entries (filled_to ?c (n - 2)) (length ?c) es =
      Some (map Some (string_map_encoding es), n)"
    using assms by (subst Buffer_encode_entries_filled) (auto simp: string_map_encoding_def)
  then show ?thesis using assms
    by (simp add: Buffer_encode_string_map_def Buffer_write_simps string_map_encoding_def numeral_2_eq_2)
qed

lemma reads_Decoder_new:
  assumes "reads m bs v" "length bs < 2 ^ 64"
  shows "fst (m (Decoder_new bs (of_nat (length bs)) ver)) = Done v"
  using readsD [OF assms(1), of "Decoder_new bs (of_nat (length bs)) ver" "[]"] assms(2)
  by (simp add: Decoder_new_def)

subsection \<open>Values read back\<close>

definition decodes_to :: "cass_value \<Rightarrow> (decoder \<Rightarrow> 'a outcome) \<Rightarrow> int \<Rightarrow> 'a \<Rightarrow> bool" where
  "decodes_to v view ver x \<longleftrightarrow>
     (\<exists>bs. encode v = Some (map Some bs) \<and> view (Decoder_new bs (of_nat (length bs)) ver) = Done x)"

lemma decodes_toI:
  "wf_value v \<Longrightarrow>
     view (Decoder_new (value_bytes v) (of_nat (length (value_bytes v))) ver) = Done x \<Longrightarrow>
     decodes_to v view ver x"
  unfolding decodes_to_def using encode_eq by blast

context fixed_codec
begin

lemma peek_enc:
  assumes "n = of_nat width"
  shows "peek_with dec n (Decoder_new (enc v) (of_nat (length (enc v))) ver) = Done v"
  using assms dec_enc [of v "[]"] width_small enc_length [of v]
  by (simp add: peek_with_def Decoder_new_def)

end

lemma fixed_values_decode:
  "decodes_to (CInt8 i8) Decoder_as_int8 ver i8"
  "decodes_to (CInt16 i16) Decoder_as_int16 ver i16"
  "decodes_to (CInt32 i32) Decoder_as_int32 ver i32"
  "decodes_to (CUInt32 u32) Decoder_as_uint32 ver u32"
  "decodes_to (CInt64 i64) Decoder_as_int64 ver i64"
  "decodes_to (CFloat f) Decoder_as_float ver f"
  "decodes_to (CDouble dbl) Decoder_as_double ver dbl"
  "decodes_to (CUuid u) Decoder_as_uuid ver u"
  by (rule decodes_toI; simp add: peek_defs int8_codec.peek_enc int16_codec.peek_enc
      int32_codec.peek_enc uint32_codec.peek_enc int64_codec.peek_enc float_codec.peek_enc
      double_codec.peek_enc uuid_codec.peek_enc del: length_encoders length_encode_uuid)+

lemma bool_decodes: "decodes_to (CBool b) Decoder_as_bool ver b"
  by (rule decodes_toI)
    (simp_all add: Decoder_as_bool_def Decoder_as_byte_def byte_codec.peek_enc del: length_encoders)

lemma duration_decodes: "decodes_to (CDuration d) Decoder_as_duration ver (months d, days d, nanos d)"
proof (rule decodes_toI)
  have "length (value_bytes (CDuration d)) < 2 ^ 64"
    using vint_size_bounds
      [of "encode_zig_zag (scast (months d))"] vint_size_bounds [of "encode_zig_zag (scast (days d))"]
      vint_size_bounds [of "encode_zig_zag (nanos d)"]
    by (simp add: duration_zigzags_def)
  from reads_Decoder_new [OF reads_duration this]
  show "Decoder_as_duration (Decoder_new (value_bytes (CDuration d))
      (of_nat (length (value_bytes (CDuration d)))) ver) = Done (months d, days d, nanos d)"
    by (simp add: Decoder_as_duration_def Decoder_new_def)
qed simp

lemma bytes_decode:
  assumes "length bs < 2 ^ 64"
  shows "decodes_to (CString bs) Decoder_as_string ver bs"
    "decodes_to (CBytes bs) Decoder_as_string ver bs"
    "decodes_to (CCustom bs) Decoder_as_string ver bs"
  by (rule decodes_toI; use assms in \<open>simp add: Decoder_as_string_def Decoder_new_def\<close>)+

lemma decimal_decodes:
  assumes "varint \<noteq> []" "length varint < 2 ^ 63"
  shows "decodes_to (CDecimal varint scale) Decoder_as_decimal ver (varint, scale)"
proof (rule decodes_toI)
  let ?n = "of_nat (4 + length varint) :: size_t"
  have n: "unat ?n = 4 + length varint" using assms(2) by (intro of_nat_word_nat) simp
  have n4: "unat (?n - 4) = length varint"
    using unat_minus_of_nat [of 4 ?n] n by simp
  have "\<not> ?n < 4" using n by (simp add: word_less_nat_alt del: of_nat_add)
  moreover have "\<not> ?n - 4 \<le> 0" using n4 assms(1) by (simp add: word_le_nat_alt del: of_nat_add)
  ultimately show "Decoder_as_decimal (Decoder_new (value_bytes (CDecimal varint scale))
      (of_nat (length (value_bytes (CDecimal varint scale)))) ver) = Done (varint, scale)"
    using n4 by (simp add: Decoder_as_decimal_def Decoder_new_def del: of_nat_add)
qed simp

lemma inet_decodes:
  assumes "wf_value (CInet address n)"
  shows "decodes_to (CInet address n) (Decoder_as_inet (ucast n)) ver (take (unat n) address, n)"
proof (rule decodes_toI [OF assms])
  have u: "ucast (ucast n :: i32) = n" by (rule bit_word_eqI) (auto simp: bit_simps)
  have "length (take (unat n) address) = unat n" using assms by simp
  moreover have "\<not> n > 16" using assms by (simp add: word_less_nat_alt)
  ultimately show "Decoder_as_inet (ucast n) (Decoder_new (value_bytes (CInet address n))
      (of_nat (length (value_bytes (CInet address n)))) ver) = Done (take (unat n) address, n)"
    using u by (simp add: Decoder_as_inet_def Decoder_new_def word_less_nat_alt)
qed

subsection \<open>Properties\<close>


text \<open>C24. The decoder's \<open>as_*\<close> views, which leave the position alone, never read outside the
  buffer either.\<close>

theorem decoder_view_safety:
  assumes "wf_decoder d" "unat (d_remaining d) < 2 ^ 63"
  shows "Decoder_as_byte d \<noteq> Out_of_bounds \<and> Decoder_as_bool d \<noteq> Out_of_bounds \<and>
     Decoder_as_int8 d \<noteq> Out_of_bounds \<and> Decoder_as_int16 d \<noteq> Out_of_bounds \<and>
     Decoder_as_uint32 d \<noteq> Out_of_bounds \<and> Decoder_as_int32 d \<noteq> Out_of_bounds \<and>
     Decoder_as_int64 d \<noteq> Out_of_bounds \<and> Decoder_as_float d \<noteq> Out_of_bounds \<and>
     Decoder_as_double d \<noteq> Out_of_bounds \<and> Decoder_as_uuid d \<noteq> Out_of_bounds \<and>
     Decoder_as_string d \<noteq> Out_of_bounds \<and> Decoder_as_vector d \<noteq> Out_of_bounds \<and>
     Decoder_as_inet len d \<noteq> Out_of_bounds \<and> Decoder_as_decimal d \<noteq> Out_of_bounds \<and>
     Decoder_as_duration d \<noteq> Out_of_bounds \<and> Decoder_as_stringlist d \<noteq> Out_of_bounds"
  using assms
  by (simp add: peeks_safe as_bool_safe views_safe as_inet_safe as_decimal_safe as_duration_safe
      as_stringlist_safe)

theorem decoder_view_safety_witness:
  "Decoder_as_stringlist (Decoder_new [0, 1, 0, 200, 5] 5 4) \<noteq> Out_of_bounds \<and>
   Decoder_as_decimal (Decoder_new [0, 1, 0, 200, 5] 5 4) \<noteq> Out_of_bounds"
  using decoder_view_safety [of "Decoder_new [0, 1, 0, 200, 5] 5 4" 16]
  by (simp add: wf_decoder_def Decoder_new_def)

text \<open>Every fixed-width primitive, the UUID layout included, is read back from what was
  written, whatever bytes follow, and the reader stops exactly at the first of those.\<close>

theorem primitive_round_trip:
  "reads Decoder_decode_byte (encode_byte u8) u8 \<and> reads Decoder_decode_int8 (encode_int8 i8) i8 \<and>
   reads Decoder_decode_uint16 (encode_uint16 u16) u16 \<and>
   reads Decoder_decode_int16 (encode_int16 i16) i16 \<and>
   reads Decoder_decode_uint32 (encode_uint32 u32) u32 \<and>
   reads Decoder_decode_int32 (encode_int32 i32) i32 \<and>
   reads Decoder_decode_int64 (encode_int64 i64) i64 \<and>
   reads Decoder_decode_float (encode_float f) f \<and>
   reads Decoder_decode_double (encode_double dbl) dbl \<and>
   reads Decoder_decode_uuid (encode_uuid u) u"
  unfolding reader_defs by (intro conjI primitive_reads)

text \<open>C25. A variable-length integer is read back from its encoding, for each of the nine lengths.\<close>

theorem vint_round_trip: "reads Decoder_decode_vint (encode_vint v (vint_size v)) v"
  by (rule reads_decode_vint)

text \<open>C26. What \<open>encode\<close> writes for a number, boolean, UUID or duration is what the decoder's view of
  that type returns, for every value and protocol version.\<close>

theorem value_round_trip:
  "decodes_to (CInt8 i8) Decoder_as_int8 ver i8 \<and>
   decodes_to (CInt16 i16) Decoder_as_int16 ver i16 \<and>
   decodes_to (CInt32 i32) Decoder_as_int32 ver i32 \<and>
   decodes_to (CUInt32 u32) Decoder_as_uint32 ver u32 \<and>
   decodes_to (CInt64 i64) Decoder_as_int64 ver i64 \<and>
   decodes_to (CFloat f) Decoder_as_float ver f \<and>
   decodes_to (CDouble dbl) Decoder_as_double ver dbl \<and>
   decodes_to (CBool b) Decoder_as_bool ver b \<and>
   decodes_to (CUuid u) Decoder_as_uuid ver u \<and>
   decodes_to (CDuration d) Decoder_as_duration ver (months d, days d, nanos d)"
  by (intro conjI fixed_values_decode bool_decodes duration_decodes)

text \<open>The same for blobs, inet addresses and decimals, whose sizes must be representable; an
  empty varint would be rejected by \<open>as_decimal\<close>.\<close>

theorem sized_value_round_trip:
  assumes "length bs < 2 ^ 64" "wf_value (CInet address n)" "varint \<noteq> []" "length varint < 2 ^ 63"
  shows "decodes_to (CBytes bs) Decoder_as_string ver bs \<and>
    decodes_to (CInet address n) (Decoder_as_inet (ucast n)) ver (take (unat n) address, n) \<and>
    decodes_to (CDecimal varint scale) Decoder_as_decimal ver (varint, scale)"
  using assms by (intro conjI bytes_decode inet_decodes decimal_decodes)

theorem sized_value_round_trip_witness:
  "decodes_to (CBytes [1, 2]) Decoder_as_string 4 [1, 2] \<and>
   decodes_to (CInet (replicate 16 7) 4) (Decoder_as_inet (ucast (4 :: u8))) 4 (replicate 4 7, 4) \<and>
   decodes_to (CDecimal [0xFF] 3) Decoder_as_decimal 4 ([0xFF], 3)"
  using sized_value_round_trip [of "[1, 2]" "replicate 16 7" 4 "[0xFF]" 4 3]
  by simp

text \<open>The buffer \<open>encode_with_length\<close> allocates is written completely, and holds the four-byte
  big-endian length followed by exactly the bytes \<open>encode\<close> produces; null and unset are the lengths
  -1 and -2 with nothing after them.\<close>

theorem encode_with_length_frames:
  assumes "wf_value v"
  shows "\<exists>bs. encode v = Some (map Some bs) \<and>
    encode_with_length v = Some (map Some (encode_int32 (of_nat (length bs)) @ bs)) \<and>
    encode_with_length_null = Some (map Some (encode_int32 (- 1))) \<and>
    encode_with_length_unset = Some (map Some (encode_int32 (- 2)))"
  using encode_eq [OF assms] encode_with_length_eq [OF assms] encode_null_unset by blast

theorem encode_with_length_frames_witness:
  "\<exists>bs. encode (CInet (replicate 16 7) 4) = Some (map Some bs) \<and>
    encode_with_length (CInet (replicate 16 7) 4) =
      Some (map Some (encode_int32 (of_nat (length bs)) @ bs)) \<and>
    encode_with_length_null = Some (map Some (encode_int32 (- 1))) \<and>
    encode_with_length_unset = Some (map Some (encode_int32 (- 2)))"
  by (rule encode_with_length_frames) simp

text \<open>C27. A list and a map of strings written into a buffer of their size are read back by the
  decoder, when the counts and lengths fit the sixteen bits the protocol gives them.\<close>

theorem string_collections_round_trip:
  assumes "length ss < 2 ^ 16" "\<forall>s \<in> set ss. length s < 2 ^ 16"
    "length es < 2 ^ 16" "\<forall>(k, v) \<in> set es. length k < 2 ^ 16 \<and> length v < 2 ^ 16"
    "distinct (map fst es)"
  shows "(\<exists>bs. Buffer_encode_string_list (Buffer_of_size (length bs)) 0 ss =
        Some (map Some bs, length bs) \<and> reads Decoder_decode_stringlist bs ss) \<and>
    (\<exists>bs. Buffer_encode_string_map (Buffer_of_size (length bs)) 0 es =
        Some (map Some bs, length bs) \<and> reads Decoder_decode_string_map bs (map_of es))"
  using Buffer_encode_string_list_filled [OF assms(2) refl] reads_decode_stringlist [OF assms(1,2)]
    Buffer_encode_string_map_filled [OF assms(4) refl] reads_decode_string_map [OF assms(3,4,5)]
  by blast

theorem string_collections_round_trip_witness:
  "(\<exists>bs. Buffer_encode_string_list (Buffer_of_size (length bs)) 0 [[97], []] =
        Some (map Some bs, length bs) \<and> reads Decoder_decode_stringlist bs [[97], []]) \<and>
   (\<exists>bs. Buffer_encode_string_map (Buffer_of_size (length bs)) 0 [([97], [98]), ([99], [])] =
        Some (map Some bs, length bs) \<and>
      reads Decoder_decode_string_map bs (map_of [([97], [98]), ([99], [])]))"
  by (rule string_collections_round_trip) simp_all

text \<open>A value whose size prefix fits in what remains is handed its own decoder over exactly that
  many bytes, and the enclosing decoder goes on after them; both are inside the buffer.\<close>

theorem decode_value_in_bounds:
  assumes "wf_decoder d" "4 \<le> unat (d_remaining d)"
    "decode_int32 (d_input d) = Some (sz, rest)" "0 \<le> sint sz"
    "nat (sint sz) \<le> unat (d_remaining d) - 4"
  shows "\<exists>inner d'. Decoder_decode_value False False d = (Done (Regular_value inner), d') \<and>
    wf_decoder inner \<and> wf_decoder d' \<and> unat (d_remaining inner) = nat (sint sz) \<and>
    unat (d_remaining d') = unat (d_remaining d) - 4 - nat (sint sz)"
  by (rule decode_value_fits [OF assms])

theorem decode_value_in_bounds_witness:
  "\<exists>inner d'. Decoder_decode_value False False (Decoder_new [0, 0, 0, 1, 42, 43] 6 4) =
      (Done (Regular_value inner), d') \<and>
    wf_decoder inner \<and> wf_decoder d' \<and> unat (d_remaining inner) = nat (sint (1 :: i32)) \<and>
    unat (d_remaining d') =
      unat (d_remaining (Decoder_new [0, 0, 0, 1, 42, 43] 6 4)) - 4 - nat (sint (1 :: i32))"
  by (rule decode_value_in_bounds [where rest = "[42, 43]"])
    (simp_all add: wf_decoder_def Decoder_new_def decode_int32_def)

text \<open>A size prefix larger than what remains is not rejected: the value's decoder then claims more
  bytes than the buffer holds, and the remaining count of the enclosing decoder wraps around to a
  number close to \<open>2 ^ 64\<close>, so that every later check passes.\<close>

theorem decode_value_unchecked_size:
  assumes "unat (d_remaining d) = length (d_input d)" "4 \<le> unat (d_remaining d)"
    "decode_int32 (d_input d) = Some (sz, rest)" "0 \<le> sint sz"
    "unat (d_remaining d) - 4 < nat (sint sz)"
  shows "\<exists>inner d'. Decoder_decode_value False False d = (Done (Regular_value inner), d') \<and>
    unat (d_remaining inner) = nat (sint sz) \<and> length (d_input inner) < nat (sint sz) \<and>
    d_input d' = [] \<and> unat (d_remaining d') = 2 ^ 64 - (nat (sint sz) - (unat (d_remaining d) - 4))"
  by (rule decode_value_overrun [OF assms])

theorem decode_value_unchecked_size_witness:
  "\<exists>inner d'. Decoder_decode_value False False (Decoder_new [0, 0, 0, 9, 42] 5 4) =
      (Done (Regular_value inner), d') \<and>
    unat (d_remaining inner) = nat (sint (9 :: i32)) \<and> length (d_input inner) < nat (sint (9 :: i32)) \<and>
    d_input d' = [] \<and> unat (d_remaining d') =
      2 ^ 64 - (nat (sint (9 :: i32)) - (unat (d_remaining (Decoder_new [0, 0, 0, 9, 42] 5 4)) - 4))"
  by (rule decode_value_unchecked_size [where rest = "[42]"])
    (simp_all add: Decoder_new_def decode_int32_def)

end
