(* ===== verification/DataType.thy ===== *)
theory DataType
  imports Codec
begin

text \<open>
  Data types (\<open>data_type.hpp\<close>, \<open>data_type.cpp\<close>) and the reader of their wire format
  (\<open>DataTypeDecoder\<close> of \<open>result_response.cpp\<close>).

  A \<open>DataType::ConstPtr\<close> may be null (\<open>DataType::NIL\<close>), so a pointer is an option. The classes
  \<open>DataType\<close>, \<open>CustomType\<close>, \<open>CollectionType\<close>, \<open>TupleType\<close> and \<open>UserType\<close> are the constructors of
  one datatype and their virtual methods are recursive functions. A virtual call on a null pointer is
  undefined behaviour, written \<open>None\<close>.
\<close>

subsection \<open>Value types\<close>

type_synonym value_type = u16

abbreviation CASS_VALUE_TYPE_UNKNOWN :: value_type where "CASS_VALUE_TYPE_UNKNOWN \<equiv> 0xFFFF"
abbreviation CASS_VALUE_TYPE_CUSTOM :: value_type where "CASS_VALUE_TYPE_CUSTOM \<equiv> 0"
abbreviation CASS_VALUE_TYPE_TEXT :: value_type where "CASS_VALUE_TYPE_TEXT \<equiv> 0x0A"
abbreviation CASS_VALUE_TYPE_VARCHAR :: value_type where "CASS_VALUE_TYPE_VARCHAR \<equiv> 0x0D"
abbreviation CASS_VALUE_TYPE_LIST :: value_type where "CASS_VALUE_TYPE_LIST \<equiv> 0x20"
abbreviation CASS_VALUE_TYPE_MAP :: value_type where "CASS_VALUE_TYPE_MAP \<equiv> 0x21"
abbreviation CASS_VALUE_TYPE_SET :: value_type where "CASS_VALUE_TYPE_SET \<equiv> 0x22"
abbreviation CASS_VALUE_TYPE_UDT :: value_type where "CASS_VALUE_TYPE_UDT \<equiv> 0x30"
abbreviation CASS_VALUE_TYPE_TUPLE :: value_type where "CASS_VALUE_TYPE_TUPLE \<equiv> 0x31"
abbreviation CASS_VALUE_TYPE_LAST_ENTRY :: value_type where "CASS_VALUE_TYPE_LAST_ENTRY \<equiv> 0x32"

text \<open>The table behind \<open>CASS_VALUE_TYPE_MAPPING\<close>: the type, its CQL name and its class name without
  the common prefix.\<close>

definition value_type_mapping :: "(value_type \<times> string \<times> string) list" where
  "value_type_mapping =
    [(0x01, ''ascii'', ''AsciiType''), (0x02, ''bigint'', ''LongType''), (0x03, ''blob'', ''BytesType''),
     (0x04, ''boolean'', ''BooleanType''), (0x05, ''counter'', ''CounterColumnType''),
     (0x06, ''decimal'', ''DecimalType''), (0x07, ''double'', ''DoubleType''), (0x08, ''float'', ''FloatType''),
     (0x09, ''int'', ''Int32Type''), (0x0A, ''text'', ''UTF8Type''), (0x0B, ''timestamp'', ''TimestampType''),
     (0x0C, ''uuid'', ''UUIDType''), (0x0D, ''varchar'', ''''), (0x0E, ''varint'', ''IntegerType''),
     (0x0F, ''timeuuid'', ''TimeUUIDType''), (0x10, ''inet'', ''InetAddressType''),
     (0x11, ''date'', ''SimpleDateType''), (0x12, ''time'', ''TimeType''), (0x13, ''smallint'', ''ShortType''),
     (0x14, ''tinyint'', ''ByteType''), (0x15, ''duration'', ''DurationType''), (0x20, ''list'', ''ListType''),
     (0x21, ''map'', ''MapType''), (0x22, ''set'', ''SetType''), (0x31, ''tuple'', ''TupleType'')]"

definition marshal :: string where
  "marshal = ''org.apache.cassandra.db.marshal.''"

text \<open>The maps are keyed without regard to case.\<close>

definition ValueTypes_by_class :: "string \<Rightarrow> value_type" where
  "ValueTypes_by_class name =
     (case find (\<lambda>(t, cql, klass). klass \<noteq> [] \<and> iequals (marshal @ klass) name) value_type_mapping of
        Some (t, _) \<Rightarrow> t | None \<Rightarrow> CASS_VALUE_TYPE_UNKNOWN)"

definition ValueTypes_by_cql :: "string \<Rightarrow> value_type" where
  "ValueTypes_by_cql name =
     (case find (\<lambda>(t, cql, klass). iequals cql name) value_type_mapping of
        Some (t, _) \<Rightarrow> t | None \<Rightarrow> CASS_VALUE_TYPE_UNKNOWN)"

definition cql_name :: "value_type \<Rightarrow> string" where
  "cql_name t = (case find (\<lambda>(t', _). t' = t) value_type_mapping of Some (_, cql, _) \<Rightarrow> cql | None \<Rightarrow> [])"

subsection \<open>Types\<close>

datatype data_type =
  SimpleType value_type bool
| CustomType string
| CollectionType value_type "data_type option list" bool
| TupleType "data_type option list" bool
| UserType string string "(string \<times> data_type option) list" bool

fun value_type_of :: "data_type \<Rightarrow> value_type" where
  "value_type_of (SimpleType t _) = t"
| "value_type_of (CustomType _) = CASS_VALUE_TYPE_CUSTOM"
| "value_type_of (CollectionType t _ _) = t"
| "value_type_of (TupleType _ _) = CASS_VALUE_TYPE_TUPLE"
| "value_type_of (UserType _ _ _ _) = CASS_VALUE_TYPE_UDT"

definition is_collection :: "data_type \<Rightarrow> bool" where
  "is_collection t \<longleftrightarrow> value_type_of t = CASS_VALUE_TYPE_LIST \<or> value_type_of t = CASS_VALUE_TYPE_MAP \<or>
     value_type_of t = CASS_VALUE_TYPE_SET"

definition equals_both_not_empty :: "string \<Rightarrow> string \<Rightarrow> bool" where
  "equals_both_not_empty s1 s2 \<longleftrightarrow> s1 = [] \<or> s2 = [] \<or> s1 = s2"

text \<open>\<open>SimpleDataTypeCache::by_value_type\<close>: the cache only shares the objects.\<close>

definition by_value_type :: "value_type \<Rightarrow> data_type option" where
  "by_value_type t =
     (if t = CASS_VALUE_TYPE_UNKNOWN \<or> t = CASS_VALUE_TYPE_CUSTOM \<or> t = CASS_VALUE_TYPE_LIST \<or>
         t = CASS_VALUE_TYPE_MAP \<or> t = CASS_VALUE_TYPE_SET \<or> t = CASS_VALUE_TYPE_UDT \<or>
         t = CASS_VALUE_TYPE_TUPLE \<or> t \<ge> CASS_VALUE_TYPE_LAST_ENTRY
      then None else Some (SimpleType t False))"

definition by_class :: "string \<Rightarrow> data_type option" where
  "by_class name = by_value_type (ValueTypes_by_class name)"

definition by_cql :: "string \<Rightarrow> data_type option" where
  "by_cql name = by_value_type (ValueTypes_by_cql name)"

subsection \<open>Wire format\<close>

definition byte_string :: "byte list \<Rightarrow> string" where
  "byte_string bs = map (\<lambda>b. char_of (unat b)) bs"

definition nil_on_failure :: "'a reader \<Rightarrow> ('a \<Rightarrow> data_type option reader) \<Rightarrow> data_type option reader" where
  "nil_on_failure m f d =
     (case m d of
        (Done x, d') \<Rightarrow> f x d'
      | (Rejected, d') \<Rightarrow> (Done None, d')
      | (Out_of_bounds, d') \<Rightarrow> (Out_of_bounds, d')
      | (Length_error, d') \<Rightarrow> (Length_error, d'))"

definition DataTypeDecoder_decode_custom :: "data_type option reader" where
  "DataTypeDecoder_decode_custom =
     nil_on_failure Decoder_decode_string (\<lambda>class_name.
       succeed (case by_class (byte_string class_name) of
                  Some t \<Rightarrow> Some t | None \<Rightarrow> Some (CustomType (byte_string class_name))))"

text \<open>The sub-types are not compared with \<open>NIL\<close>: a sub-type that cannot be read leaves a null pointer.\<close>

definition DataTypeDecoder_decode_collection :: "data_type option reader \<Rightarrow> value_type \<Rightarrow> data_type option reader" where
  "DataTypeDecoder_decode_collection decode t =
     and_then decode (\<lambda>first.
       if t = CASS_VALUE_TYPE_MAP
       then and_then decode (\<lambda>second. succeed (Some (CollectionType t [first, second] False)))
       else succeed (Some (CollectionType t [first] False)))"

primrec udt_fields ::
    "nat \<Rightarrow> data_type option reader \<Rightarrow> ((string \<times> data_type option) list \<Rightarrow> data_type option reader) \<Rightarrow>
      data_type option reader" where
  "udt_fields 0 decode k = k []"
| "udt_fields (Suc n) decode k =
     nil_on_failure Decoder_decode_string (\<lambda>field_name.
       and_then decode (\<lambda>t. udt_fields n decode (\<lambda>fields. k ((byte_string field_name, t) # fields))))"

definition DataTypeDecoder_decode_user_type :: "data_type option reader \<Rightarrow> data_type option reader" where
  "DataTypeDecoder_decode_user_type decode =
     nil_on_failure Decoder_decode_string (\<lambda>keyspace.
       nil_on_failure Decoder_decode_string (\<lambda>type_name.
         nil_on_failure Decoder_decode_uint16 (\<lambda>n.
           udt_fields (unat n) decode (\<lambda>fields.
             succeed (Some (UserType (byte_string keyspace) (byte_string type_name) fields False))))))"

definition DataTypeDecoder_decode_tuple :: "data_type option reader \<Rightarrow> data_type option reader" where
  "DataTypeDecoder_decode_tuple decode =
     nil_on_failure Decoder_decode_uint16 (\<lambda>n.
       and_then (repeat_reader (unat n) decode) (\<lambda>types. succeed (Some (TupleType types False))))"

text \<open>\<open>decode\<close> reads two bytes before it calls itself, so it is never nested deeper than half the number
  of bytes; with fewer than two bytes left it returns \<open>NIL\<close>, which is the case of depth 0.\<close>

primrec DataTypeDecoder_decode_at :: "nat \<Rightarrow> data_type option reader" where
  "DataTypeDecoder_decode_at 0 = succeed None"
| "DataTypeDecoder_decode_at (Suc depth) =
     nil_on_failure Decoder_decode_uint16 (\<lambda>t.
       if t = CASS_VALUE_TYPE_CUSTOM then DataTypeDecoder_decode_custom
       else if t = CASS_VALUE_TYPE_LIST \<or> t = CASS_VALUE_TYPE_SET \<or> t = CASS_VALUE_TYPE_MAP
       then DataTypeDecoder_decode_collection (DataTypeDecoder_decode_at depth) t
       else if t = CASS_VALUE_TYPE_UDT then DataTypeDecoder_decode_user_type (DataTypeDecoder_decode_at depth)
       else if t = CASS_VALUE_TYPE_TUPLE then DataTypeDecoder_decode_tuple (DataTypeDecoder_decode_at depth)
       else succeed (by_value_type t))"

definition DataTypeDecoder_decode :: "data_type option reader" where
  "DataTypeDecoder_decode d = DataTypeDecoder_decode_at (unat (d_remaining d) div 2 + 1) d"

subsection \<open>Comparing types\<close>

text \<open>\<open>None\<close> is a call through a null pointer, or a cast to another class than that of the object.\<close>

fun DataType_equals :: "data_type \<Rightarrow> data_type option \<Rightarrow> bool option"
  and types_equal :: "data_type option list \<Rightarrow> data_type option list \<Rightarrow> bool option"
  and fields_equal :: "(string \<times> data_type option) list \<Rightarrow> (string \<times> data_type option) list \<Rightarrow> bool option" where
  "DataType_equals t None = None"
| "DataType_equals (SimpleType t _) (Some u) =
     Some (if t = CASS_VALUE_TYPE_TEXT \<or> t = CASS_VALUE_TYPE_VARCHAR
           then value_type_of u = CASS_VALUE_TYPE_TEXT \<or> value_type_of u = CASS_VALUE_TYPE_VARCHAR
           else t = value_type_of u)"
| "DataType_equals (CustomType c) (Some u) =
     (if value_type_of u \<noteq> CASS_VALUE_TYPE_CUSTOM then Some False
      else case u of CustomType c' \<Rightarrow> Some (equals_both_not_empty c c') | _ \<Rightarrow> None)"
| "DataType_equals (CollectionType t ts _) (Some u) =
     (if t \<noteq> value_type_of u then Some False
      else case u of
             CollectionType _ us _ \<Rightarrow>
               if ts \<noteq> [] \<and> us \<noteq> [] then if length ts \<noteq> length us then Some False else types_equal ts us
               else Some True
           | _ \<Rightarrow> None)"
| "DataType_equals (TupleType ts _) (Some u) =
     (if value_type_of u \<noteq> CASS_VALUE_TYPE_TUPLE then Some False
      else case u of
             TupleType us _ \<Rightarrow>
               if ts \<noteq> [] \<and> us \<noteq> [] then if length ts \<noteq> length us then Some False else types_equal ts us
               else Some True
           | _ \<Rightarrow> None)"
| "DataType_equals (UserType ks name fs _) (Some u) =
     (if value_type_of u \<noteq> CASS_VALUE_TYPE_UDT then Some False
      else case u of
             UserType ks' name' gs _ \<Rightarrow>
               if \<not> equals_both_not_empty ks ks' then Some False
               else if \<not> equals_both_not_empty name name' then Some False
               else if length fs \<noteq> length gs then Some False
               else fields_equal fs gs
           | _ \<Rightarrow> None)"
| "types_equal (t # ts) (u # us) =
     (case t of
        None \<Rightarrow> None
      | Some t' \<Rightarrow> (case DataType_equals t' u of None \<Rightarrow> None | Some False \<Rightarrow> Some False | Some True \<Rightarrow> types_equal ts us))"
| "types_equal _ _ = Some True"
| "fields_equal ((n, t) # fs) ((m, u) # gs) =
     (if n \<noteq> m then Some False
      else case t of
             None \<Rightarrow> None
           | Some t' \<Rightarrow> (case DataType_equals t' u of None \<Rightarrow> None | Some False \<Rightarrow> Some False | Some True \<Rightarrow> fields_equal fs gs))"
| "fields_equal _ _ = Some True"

subsection \<open>Printing types\<close>

definition bracketed :: "bool \<Rightarrow> string \<Rightarrow> string \<Rightarrow> string" where
  "bracketed frozen name args =
     (if frozen then ''frozen<'' else []) @ name @ ''<'' @ args @ (if frozen then ''>>'' else ''>'')"

fun DataType_to_string :: "data_type \<Rightarrow> string option"
  and args_to_string :: "data_type option list \<Rightarrow> string option" where
  "DataType_to_string (SimpleType t _) = Some (cql_name t)"
| "DataType_to_string (CustomType c) = Some c"
| "DataType_to_string (CollectionType t ts frozen) = map_option (bracketed frozen (cql_name t)) (args_to_string ts)"
| "DataType_to_string (TupleType ts frozen) = map_option (bracketed frozen (cql_name CASS_VALUE_TYPE_TUPLE)) (args_to_string ts)"
| "DataType_to_string (UserType ks name fs frozen) =
     Some (if frozen then ''frozen<'' @ name @ ''>'' else name)"
| "args_to_string [] = Some []"
| "args_to_string (t # ts) =
     (case t of
        None \<Rightarrow> None
      | Some t' \<Rightarrow>
          (case DataType_to_string t' of
             None \<Rightarrow> None
           | Some s \<Rightarrow> if ts = [] then Some s
                       else map_option (\<lambda>rest. s @ '', '' @ rest) (args_to_string ts)))"

subsection \<open>The reader stays inside the buffer\<close>

lemma safe_nil_on_failure [safe_intros]:
  assumes m: "safe m" and f: "\<And>x. safe (f x)"
  shows "safe (nil_on_failure m f)"
proof (rule safeI)
  fix d assume d: "wf_decoder d"
  obtain r d' where md: "m d = (r, d')" by (cases "m d")
  from m d md have r: "r \<noteq> Out_of_bounds" and c: "consumed d d'" by (auto simp: safe_def)
  from c d have d': "wf_decoder d'" by (rule consumed_wf)
  show "fst (nil_on_failure m f d) \<noteq> Out_of_bounds \<and> consumed d (snd (nil_on_failure m f d))"
    using r c d' f by (cases r) (auto simp: nil_on_failure_def md safe_def intro: consumed_trans)
qed

lemma safe_udt_fields [safe_intros]: "safe decode \<Longrightarrow> (\<And>fs. safe (k fs)) \<Longrightarrow> safe (udt_fields n decode k)"
  by (induction n arbitrary: k) (auto intro!: safe_intros)

lemma safe_decode_at [safe_intros]: "safe (DataTypeDecoder_decode_at n)"
  by (induction n)
    (auto simp: DataTypeDecoder_decode_custom_def DataTypeDecoder_decode_collection_def
      DataTypeDecoder_decode_user_type_def DataTypeDecoder_decode_tuple_def intro!: safe_intros)

lemma safe_data_type [safe_intros]: "safe DataTypeDecoder_decode"
  using safe_decode_at unfolding safe_def DataTypeDecoder_decode_def by blast

subsection \<open>The depth is enough\<close>

definition agree :: "nat \<Rightarrow> 'a reader \<Rightarrow> 'a reader \<Rightarrow> bool" where
  "agree R f g \<longleftrightarrow> (\<forall>d. wf_decoder d \<longrightarrow> unat (d_remaining d) \<le> R \<longrightarrow> f d = g d)"

lemma agree_refl [simp]: "agree R f f"
  by (simp add: agree_def)

lemma consumed_remaining: "consumed d d' \<Longrightarrow> unat (d_remaining d') \<le> unat (d_remaining d)"
  by (auto simp: consumed_def unat_remaining_advanced)

lemma safe_step: "safe m \<Longrightarrow> wf_decoder d \<Longrightarrow> m d = (r, d') \<Longrightarrow> wf_decoder d' \<and> unat (d_remaining d') \<le> unat (d_remaining d)"
  using consumed_wf consumed_remaining by (fastforce simp: safe_def)

lemma agree_nil_on_failure:
  assumes "safe m" "\<And>x. agree R (f x) (g x)"
  shows "agree R (nil_on_failure m f) (nil_on_failure m g)"
  unfolding agree_def
proof (intro allI impI)
  fix d assume d: "wf_decoder d" "unat (d_remaining d) \<le> R"
  obtain r d' where md: "m d = (r, d')" by (cases "m d")
  then have "wf_decoder d'" "unat (d_remaining d') \<le> R" using safe_step [OF assms(1) d(1) md] d(2) by auto
  then have "f x d' = g x d'" for x using assms(2) by (simp add: agree_def)
  then show "nil_on_failure m f d = nil_on_failure m g d" by (simp add: nil_on_failure_def md split: outcome.split)
qed

lemma agree_and_then:
  assumes "safe m" "agree R m m'" "\<And>x. agree R (f x) (g x)"
  shows "agree R (and_then m f) (and_then m' g)"
  unfolding agree_def
proof (intro allI impI)
  fix d assume d: "wf_decoder d" "unat (d_remaining d) \<le> R"
  obtain r d' where md: "m d = (r, d')" by (cases "m d")
  then have md': "m' d = (r, d')" using assms(2) d by (simp add: agree_def)
  have "wf_decoder d'" "unat (d_remaining d') \<le> R" using safe_step [OF assms(1) d(1) md] d(2) by auto
  then have "f x d' = g x d'" for x using assms(3) by (simp add: agree_def)
  then show "and_then m f d = and_then m' g d" by (simp add: and_then_def md md' split: outcome.split)
qed

lemma agree_repeat: "safe m \<Longrightarrow> agree R m m' \<Longrightarrow> agree R (repeat_reader n m) (repeat_reader n m')"
  by (induction n) (auto intro!: agree_and_then safe_intros)

lemma agree_udt_fields: "safe m \<Longrightarrow> agree R m m' \<Longrightarrow> agree R (udt_fields n m k) (udt_fields n m' k)"
  by (induction n arbitrary: k) (auto intro!: agree_and_then agree_nil_on_failure safe_intros)

lemma uint16_consumes:
  assumes "wf_decoder d" "Decoder_decode_uint16 d = (Done t, d')"
  shows "wf_decoder d'" "unat (d_remaining d') + 2 \<le> unat (d_remaining d)"
proof -
  have "2 \<le> unat (d_remaining d)" and d': "d_remaining d' = d_remaining d - 2"
    using assms(2) by (auto simp: Decoder_decode_uint16_def checked_read_def and_then_def check_remaining_def
        read_with_def word_less_nat_alt split: if_splits option.splits)
  then show "unat (d_remaining d') + 2 \<le> unat (d_remaining d)"
    by (simp add: unat_sub word_le_nat_alt)
  show "wf_decoder d'"
    using safe_step [OF primitives_safe(3) assms] by simp
qed

lemma decode_at_Suc: "agree (2 * n + 1) (DataTypeDecoder_decode_at n) (DataTypeDecoder_decode_at (Suc n))"
proof (induction n)
  case 0
  show ?case unfolding agree_def
  proof (intro allI impI)
    fix d assume "wf_decoder d" "unat (d_remaining d) \<le> 2 * 0 + 1"
    then have "Decoder_decode_uint16 d = (Rejected, d)"
      by (simp add: Decoder_decode_uint16_def checked_read_def and_then_def check_remaining_def word_less_nat_alt)
    then show "DataTypeDecoder_decode_at 0 d = DataTypeDecoder_decode_at (Suc 0) d"
      by (simp add: nil_on_failure_def succeed_def)
  qed
next
  case (Suc n)
  let ?f = "DataTypeDecoder_decode_at n" and ?g = "DataTypeDecoder_decode_at (Suc n)"
  have body: "agree (2 * n + 1) (DataTypeDecoder_decode_collection ?f t) (DataTypeDecoder_decode_collection ?g t)"
    "agree (2 * n + 1) (DataTypeDecoder_decode_user_type ?f) (DataTypeDecoder_decode_user_type ?g)"
    "agree (2 * n + 1) (DataTypeDecoder_decode_tuple ?f) (DataTypeDecoder_decode_tuple ?g)" for t
    unfolding DataTypeDecoder_decode_collection_def DataTypeDecoder_decode_user_type_def DataTypeDecoder_decode_tuple_def
    by (intro agree_and_then agree_nil_on_failure agree_repeat agree_udt_fields safe_intros Suc agree_refl
        | simp only: if_True if_False split: if_split | intro conjI impI)+
  show ?case unfolding agree_def
  proof (intro allI impI)
    fix d assume d: "wf_decoder d" "unat (d_remaining d) \<le> 2 * Suc n + 1"
    obtain r d' where rd: "Decoder_decode_uint16 d = (r, d')" by (cases "Decoder_decode_uint16 d")
    show "DataTypeDecoder_decode_at (Suc n) d = DataTypeDecoder_decode_at (Suc (Suc n)) d"
    proof (cases r)
      case (Done t)
      have "wf_decoder d'" "unat (d_remaining d') \<le> 2 * n + 1"
        using uint16_consumes [OF d(1), of t d'] rd Done d(2) by auto
      then have "DataTypeDecoder_decode_collection ?f u d' = DataTypeDecoder_decode_collection ?g u d'"
        "DataTypeDecoder_decode_user_type ?f d' = DataTypeDecoder_decode_user_type ?g d'"
        "DataTypeDecoder_decode_tuple ?f d' = DataTypeDecoder_decode_tuple ?g d'" for u
        using body unfolding agree_def by blast+
      then show ?thesis
        unfolding DataTypeDecoder_decode_at.simps(2) [of "Suc n"] DataTypeDecoder_decode_at.simps(2) [of n]
        by (simp add: nil_on_failure_def rd Done del: DataTypeDecoder_decode_at.simps)
    qed (simp_all add: nil_on_failure_def rd)
  qed
qed

lemma decode_depth_enough:
  assumes "wf_decoder d" "unat (d_remaining d) \<le> 2 * n + 1"
  shows "DataTypeDecoder_decode_at n d = DataTypeDecoder_decode d"
proof -
  have step: "DataTypeDecoder_decode_at (m + k) d = DataTypeDecoder_decode_at m d" if "unat (d_remaining d) \<le> 2 * m + 1" for m k
  proof (induction k)
    case (Suc k)
    then show ?case using decode_at_Suc [of "m + k"] assms(1) that by (simp add: agree_def del: DataTypeDecoder_decode_at.simps)
  qed simp
  let ?m = "unat (d_remaining d) div 2"
  have "DataTypeDecoder_decode_at ?m d = DataTypeDecoder_decode d"
    using step [of ?m 1] by (simp add: DataTypeDecoder_decode_def del: DataTypeDecoder_decode_at.simps)
  moreover have "DataTypeDecoder_decode_at ?m d = DataTypeDecoder_decode_at n d"
    using step [of ?m "n - ?m"] assms(2) by simp
  ultimately show ?thesis by simp
qed

subsection \<open>Reading back the encoding of a type\<close>

text \<open>The encoding of a type in the native protocol: its code and then its parameters.\<close>

definition name_encoding :: "string \<Rightarrow> byte list" where
  "name_encoding s = string_encoding (string_bytes s)"

fun type_encoding :: "data_type \<Rightarrow> byte list" where
  "type_encoding (SimpleType t _) = encode_uint16 t"
| "type_encoding (CustomType c) = encode_uint16 CASS_VALUE_TYPE_CUSTOM @ name_encoding c"
| "type_encoding (CollectionType t ts _) =
     encode_uint16 t @ concat (map (\<lambda>u. case u of Some v \<Rightarrow> type_encoding v | None \<Rightarrow> []) ts)"
| "type_encoding (TupleType ts _) =
     encode_uint16 CASS_VALUE_TYPE_TUPLE @ encode_uint16 (of_nat (length ts)) @
     concat (map (\<lambda>u. case u of Some v \<Rightarrow> type_encoding v | None \<Rightarrow> []) ts)"
| "type_encoding (UserType ks name fs _) =
     encode_uint16 CASS_VALUE_TYPE_UDT @ name_encoding ks @ name_encoding name @ encode_uint16 (of_nat (length fs)) @
     concat (map (\<lambda>(n, u). name_encoding n @ (case u of Some v \<Rightarrow> type_encoding v | None \<Rightarrow> [])) fs)"

text \<open>The types a server sends: no null sub-types, the right number of them, and names that fit.\<close>

definition wire_name :: "string \<Rightarrow> bool" where
  "wire_name s \<longleftrightarrow> length s < 2 ^ 16"

fun wire_type :: "data_type \<Rightarrow> bool" where
  "wire_type (SimpleType t frozen) \<longleftrightarrow> by_value_type t = Some (SimpleType t frozen)"
| "wire_type (CustomType c) \<longleftrightarrow> wire_name c \<and> by_class c = None"
| "wire_type (CollectionType t ts frozen) \<longleftrightarrow> \<not> frozen \<and>
     (t = CASS_VALUE_TYPE_MAP \<and> length ts = 2 \<or> (t = CASS_VALUE_TYPE_LIST \<or> t = CASS_VALUE_TYPE_SET) \<and> length ts = 1) \<and>
     list_all (\<lambda>u. case u of Some v \<Rightarrow> wire_type v | None \<Rightarrow> False) ts"
| "wire_type (TupleType ts frozen) \<longleftrightarrow> \<not> frozen \<and> length ts < 2 ^ 16 \<and>
     list_all (\<lambda>u. case u of Some v \<Rightarrow> wire_type v | None \<Rightarrow> False) ts"
| "wire_type (UserType ks name fs frozen) \<longleftrightarrow> \<not> frozen \<and> wire_name ks \<and> wire_name name \<and> length fs < 2 ^ 16 \<and>
     list_all (\<lambda>(n, u). wire_name n \<and> (case u of Some v \<Rightarrow> wire_type v | None \<Rightarrow> False)) fs"

lemma byte_string_string_bytes [simp]: "byte_string (string_bytes s) = s"
proof -
  have "char_of (unat (of_nat (of_char c) :: byte)) = c" for c
    by (simp add: unat_of_nat)
  then show ?thesis by (simp add: byte_string_def string_bytes_def o_def)
qed

lemma length_string_bytes [simp]: "length (string_bytes s) = length s"
  by (simp add: string_bytes_def)

lemma reads_name: "wire_name s \<Longrightarrow> reads Decoder_decode_string (name_encoding s) (string_bytes s)"
  unfolding name_encoding_def wire_name_def by (rule reads_decode_string) simp

lemma reads_nil_on_failure:
  assumes "reads m bs x" "reads (f x) cs y"
  shows "reads (nil_on_failure m f) (bs @ cs) y"
  unfolding reads_def
proof (intro allI impI)
  fix d :: decoder and rest
  assume i: "d_input d = (bs @ cs) @ rest" and r: "length (bs @ cs) \<le> unat (d_remaining d)"
  have "m d = (Done x, advanced d (length bs))"
    using i r by (intro readsD [OF assms(1), of _ "cs @ rest"]) auto
  then have "nil_on_failure m f d = and_then m f d" by (simp add: nil_on_failure_def and_then_def)
  then show "nil_on_failure m f d = (Done y, advanced d (length (bs @ cs)))"
    using readsD [OF reads_and_then [of m bs x f cs y, OF assms] i r] by simp
qed

lemma reads_udt_fields:
  assumes "\<And>n u. (n, u) \<in> set fs \<Longrightarrow> wire_name n \<and> reads m (enc u) u" "reads (k (gs @ fs)) [] y"
  shows "reads (udt_fields (length fs) m (\<lambda>hs. k (gs @ hs))) (concat (map (\<lambda>(n, u). name_encoding n @ enc u) fs)) y"
  using assms
proof (induction fs arbitrary: gs)
  case (Cons f fs)
  obtain n u where f: "f = (n, u)" by (cases f)
  have IH: "reads (udt_fields (length fs) m (\<lambda>hs. k ((gs @ [(n, u)]) @ hs)))
      (concat (map (\<lambda>(n, u). name_encoding n @ enc u) fs)) y"
    using Cons.prems by (intro Cons.IH) (auto simp: f)
  have "reads (nil_on_failure Decoder_decode_string (\<lambda>field_name.
       and_then m (\<lambda>t. udt_fields (length fs) m (\<lambda>fields. k (gs @ (byte_string field_name, t) # fields)))))
     (name_encoding n @ enc u @ concat (map (\<lambda>(n, u). name_encoding n @ enc u) fs)) y"
  proof (rule reads_nil_on_failure [where x = "string_bytes n"])
    show "reads Decoder_decode_string (name_encoding n) (string_bytes n)"
      using Cons.prems(1) [of n u] f by (intro reads_name) simp
    have "reads m (enc u) u" using Cons.prems(1) [of n u] f by simp
    then show "reads (and_then m (\<lambda>t. udt_fields (length fs) m (\<lambda>fields. k (gs @ (byte_string (string_bytes n), t) # fields))))
        (enc u @ concat (map (\<lambda>(n, u). name_encoding n @ enc u) fs)) y"
      using IH by (intro reads_and_then [where x = u]) simp_all
  qed
  then show ?case by (simp add: f)
qed simp

lemma unat_of_nat_16: "n < 2 ^ 16 \<Longrightarrow> unat (of_nat n :: u16) = n"
  by (simp add: unat_of_nat)

abbreviation ptr_encoding :: "data_type option \<Rightarrow> byte list" where
  "ptr_encoding u \<equiv> (case u of Some v \<Rightarrow> type_encoding v | None \<Rightarrow> [])"

lemma length_uint16 [simp]: "length (encode_uint16 w) = 2"
  by (simp add: encode_uint16_def)

lemma length_concat_member: "x \<in> set xs \<Longrightarrow> length (f x) \<le> length (concat (map f xs))"
  by (induction xs) auto

lemma reads_code:
  assumes "reads (if t = CASS_VALUE_TYPE_CUSTOM then DataTypeDecoder_decode_custom
       else if t = CASS_VALUE_TYPE_LIST \<or> t = CASS_VALUE_TYPE_SET \<or> t = CASS_VALUE_TYPE_MAP
       then DataTypeDecoder_decode_collection (DataTypeDecoder_decode_at m) t
       else if t = CASS_VALUE_TYPE_UDT then DataTypeDecoder_decode_user_type (DataTypeDecoder_decode_at m)
       else if t = CASS_VALUE_TYPE_TUPLE then DataTypeDecoder_decode_tuple (DataTypeDecoder_decode_at m)
       else succeed (by_value_type t)) bs v"
  shows "reads (DataTypeDecoder_decode_at (Suc m)) (encode_uint16 t @ bs) v"
  unfolding DataTypeDecoder_decode_at.simps
  by (rule reads_nil_on_failure [where x = t]) (use assms in \<open>simp_all add: Decoder_decode_uint16_def primitive_reads\<close>)

lemma wire_ptr:
  "list_all (\<lambda>u. case u of Some v \<Rightarrow> wire_type v | None \<Rightarrow> False) ts \<Longrightarrow> u \<in> set ts \<Longrightarrow> \<exists>v. u = Some v \<and> wire_type v"
  by (auto simp: list_all_iff split: option.splits)

lemma reads_type_at:
  "wire_type t \<Longrightarrow> length (type_encoding t) \<le> 2 * n + 1 \<Longrightarrow> reads (DataTypeDecoder_decode_at n) (type_encoding t) (Some t)"
proof (induction t arbitrary: n rule: type_encoding.induct)
  case (1 t frozen)
  then obtain m where n: "n = Suc m" by (cases n) auto
  have "by_value_type t = Some (SimpleType t frozen)" using 1 by simp
  then have "reads (DataTypeDecoder_decode_at (Suc m)) (encode_uint16 t @ []) (Some (SimpleType t frozen))"
    by (intro reads_code) (auto simp: reads_succeed by_value_type_def split: if_splits)
  then show ?case by (simp add: n)
next
  case (2 c)
  then obtain m where n: "n = Suc m" by (cases n) auto
  have c: "wire_name c" "by_class c = None" using 2 by simp_all
  have "reads DataTypeDecoder_decode_custom (name_encoding c @ []) (Some (CustomType c))"
    unfolding DataTypeDecoder_decode_custom_def
    by (rule reads_nil_on_failure [OF reads_name [OF c(1)]]) (simp add: c reads_succeed)
  then show ?case unfolding n type_encoding.simps by (intro reads_code) simp
next
  case (3 t ts frozen)
  then obtain m where n: "n = Suc m" by (cases n) auto
  have r: "reads (DataTypeDecoder_decode_at m) (ptr_encoding u) u" if u: "u \<in> set ts" for u
  proof -
    obtain v where v: "u = Some v" "wire_type v" using wire_ptr [OF _ u] 3(2) by auto
    have "length (type_encoding v) \<le> 2 * m + 1"
      using length_concat_member [OF u, of ptr_encoding] 3(3) v by (simp add: n)
    then show ?thesis using 3(1) [OF u v] v by simp
  qed
  have sh: "\<not> frozen" "t = CASS_VALUE_TYPE_MAP \<and> length ts = 2 \<or> (t = CASS_VALUE_TYPE_LIST \<or> t = CASS_VALUE_TYPE_SET) \<and> length ts = 1"
    using 3(2) by simp_all
  have "reads (DataTypeDecoder_decode_collection (DataTypeDecoder_decode_at m) t) (concat (map ptr_encoding ts))
      (Some (CollectionType t ts frozen))"
  proof (cases "t = CASS_VALUE_TYPE_MAP")
    case True
    then obtain u v where ts: "ts = [u, v]" using sh by (auto simp: length_Suc_conv eval_nat_numeral)
    have "reads (DataTypeDecoder_decode_collection (DataTypeDecoder_decode_at m) t)
        (ptr_encoding u @ ptr_encoding v @ []) (Some (CollectionType t [u, v] False))"
      unfolding DataTypeDecoder_decode_collection_def
      by (rule reads_and_then [where x = u], rule r, simp add: ts, simp add: True, rule reads_and_then_last [where x = v], rule r, simp add: ts)
        (simp add: reads_succeed)
    then show ?thesis using ts sh by simp
  next
    case False
    then obtain u where ts: "ts = [u]" using sh by (auto simp: length_Suc_conv)
    have "reads (DataTypeDecoder_decode_collection (DataTypeDecoder_decode_at m) t) (ptr_encoding u) (Some (CollectionType t [u] False))"
      unfolding DataTypeDecoder_decode_collection_def
      by (rule reads_and_then_last [where x = u], rule r) (use False in \<open>simp_all add: ts reads_succeed\<close>)
    then show ?thesis using ts sh by simp
  qed
  then show ?case unfolding n type_encoding.simps using sh by (intro reads_code) auto
next
  case (4 ts frozen)
  then obtain m where n: "n = Suc m" by (cases n) auto
  have r: "reads (DataTypeDecoder_decode_at m) (ptr_encoding u) u" if u: "u \<in> set ts" for u
  proof -
    obtain v where v: "u = Some v" "wire_type v" using wire_ptr [OF _ u] 4(2) by auto
    have "length (type_encoding v) \<le> 2 * m + 1"
      using length_concat_member [OF u, of ptr_encoding] 4(3) v by (simp add: n)
    then show ?thesis using 4(1) [OF u v] v by simp
  qed
  have sh: "\<not> frozen" "length ts < 2 ^ 16" using 4(2) by simp_all
  have all: "reads (repeat_reader (length ts) (DataTypeDecoder_decode_at m)) (concat (map ptr_encoding ts)) ts"
    by (rule reads_repeat_map) (rule r)
  have "reads (DataTypeDecoder_decode_tuple (DataTypeDecoder_decode_at m))
      (encode_uint16 (of_nat (length ts)) @ concat (map ptr_encoding ts)) (Some (TupleType ts frozen))"
    unfolding DataTypeDecoder_decode_tuple_def
    by (rule reads_nil_on_failure [where x = "of_nat (length ts)"], simp add: Decoder_decode_uint16_def primitive_reads,
        rule reads_and_then_last [where x = ts])
      (use all sh in \<open>simp_all add: unat_of_nat_16 reads_succeed\<close>)
  then show ?case unfolding n type_encoding.simps by (intro reads_code) simp
next
  case (5 ks name fs frozen)
  then obtain m where n: "n = Suc m" by (cases n) auto
  have sh: "\<not> frozen" "wire_name ks" "wire_name name" "length fs < 2 ^ 16" using 5(2) by simp_all
  have r: "wire_name f \<and> reads (DataTypeDecoder_decode_at m) (ptr_encoding u) u" if "(f, u) \<in> set fs" for f u
  proof -
    have wf: "wire_name f" "case u of Some v \<Rightarrow> wire_type v | None \<Rightarrow> False"
      using 5(2) that by (auto simp: list_all_iff)
    then obtain v where v: "u = Some v" "wire_type v" by (cases u) auto
    have "length (type_encoding v) \<le> 2 * m + 1"
      using length_concat_member [OF that, of "\<lambda>(n, u). name_encoding n @ ptr_encoding u"] 5(3) v by (simp add: n)
    then show ?thesis using 5(1) [OF that refl v(1)] wf v by simp
  qed
  have fields: "reads (udt_fields (length fs) (DataTypeDecoder_decode_at m)
      (\<lambda>hs. succeed (Some (UserType ks name ([] @ hs) False))))
      (concat (map (\<lambda>(n, u). name_encoding n @ ptr_encoding u) fs)) (Some (UserType ks name fs False))"
    by (rule reads_udt_fields [where k = "\<lambda>hs. succeed (Some (UserType ks name hs False))" and gs = "[]"])
      (use r in \<open>simp_all add: reads_succeed\<close>)
  have "reads (DataTypeDecoder_decode_user_type (DataTypeDecoder_decode_at m))
      (name_encoding ks @ name_encoding name @ encode_uint16 (of_nat (length fs)) @
       concat (map (\<lambda>(n, u). name_encoding n @ ptr_encoding u) fs)) (Some (UserType ks name fs False))"
    unfolding DataTypeDecoder_decode_user_type_def
    by (rule reads_nil_on_failure [OF reads_name [OF sh(2)]], rule reads_nil_on_failure [OF reads_name [OF sh(3)]],
        rule reads_nil_on_failure [where x = "of_nat (length fs)"], simp add: Decoder_decode_uint16_def primitive_reads)
      (use fields sh in \<open>simp add: unat_of_nat_16\<close>)
  then show ?case unfolding n type_encoding.simps using sh(1) by (intro reads_code) simp
qed

text \<open>A type as the driver builds it: no null sub-types, and a code that matches its class.\<close>

fun proper_type :: "data_type \<Rightarrow> bool" where
  "proper_type (SimpleType t frozen) \<longleftrightarrow> by_value_type t \<noteq> None"
| "proper_type (CustomType c) \<longleftrightarrow> True"
| "proper_type (CollectionType t ts frozen) \<longleftrightarrow>
     (t = CASS_VALUE_TYPE_MAP \<or> t = CASS_VALUE_TYPE_LIST \<or> t = CASS_VALUE_TYPE_SET) \<and>
     list_all (\<lambda>u. case u of Some v \<Rightarrow> proper_type v | None \<Rightarrow> False) ts"
| "proper_type (TupleType ts frozen) \<longleftrightarrow> list_all (\<lambda>u. case u of Some v \<Rightarrow> proper_type v | None \<Rightarrow> False) ts"
| "proper_type (UserType ks name fs frozen) \<longleftrightarrow>
     list_all (\<lambda>(n, u). case u of Some v \<Rightarrow> proper_type v | None \<Rightarrow> False) fs"

abbreviation proper_ptr :: "data_type option \<Rightarrow> bool" where
  "proper_ptr u \<equiv> (case u of Some v \<Rightarrow> proper_type v | None \<Rightarrow> False)"

lemma both_not_empty_sym: "equals_both_not_empty a b = equals_both_not_empty b a"
  by (auto simp: equals_both_not_empty_def)

lemma proper_code:
  "proper_type t \<Longrightarrow> value_type_of t = CASS_VALUE_TYPE_CUSTOM \<Longrightarrow> \<exists>c. t = CustomType c"
  "proper_type t \<Longrightarrow> value_type_of t = CASS_VALUE_TYPE_TUPLE \<Longrightarrow> \<exists>ts f. t = TupleType ts f"
  "proper_type t \<Longrightarrow> value_type_of t = CASS_VALUE_TYPE_UDT \<Longrightarrow> \<exists>ks n fs f. t = UserType ks n fs f"
  "proper_type t \<Longrightarrow> value_type_of t = c \<Longrightarrow> c = CASS_VALUE_TYPE_MAP \<or> c = CASS_VALUE_TYPE_LIST \<or> c = CASS_VALUE_TYPE_SET \<Longrightarrow>
    \<exists>ts f. t = CollectionType c ts f"
  by (cases t; auto simp: by_value_type_def split: if_splits)+

lemma by_value_type_composite [simp]:
  "by_value_type CASS_VALUE_TYPE_CUSTOM = None" "by_value_type CASS_VALUE_TYPE_TUPLE = None"
  "by_value_type CASS_VALUE_TYPE_UDT = None" "by_value_type CASS_VALUE_TYPE_MAP = None"
  "by_value_type CASS_VALUE_TYPE_LIST = None" "by_value_type CASS_VALUE_TYPE_SET = None"
  by (simp_all add: by_value_type_def)

lemma simple_code:
  "by_value_type t \<noteq> None \<Longrightarrow> t \<noteq> CASS_VALUE_TYPE_CUSTOM \<and> t \<noteq> CASS_VALUE_TYPE_TUPLE \<and> t \<noteq> CASS_VALUE_TYPE_UDT \<and>
    t \<noteq> CASS_VALUE_TYPE_MAP \<and> t \<noteq> CASS_VALUE_TYPE_LIST \<and> t \<noteq> CASS_VALUE_TYPE_SET"
  by (auto simp: by_value_type_def split: if_splits)

lemma types_equal_sym:
  assumes "list_all proper_ptr ts" "list_all proper_ptr us" "length ts = length us"
    "\<And>t u. Some t \<in> set ts \<Longrightarrow> proper_type t \<Longrightarrow> proper_type u \<Longrightarrow>
      \<exists>b. DataType_equals t (Some u) = Some b \<and> DataType_equals u (Some t) = Some b"
  shows "\<exists>b. types_equal ts us = Some b \<and> types_equal us ts = Some b"
  using assms(3,1,2,4)
proof (induction ts us rule: list_induct2)
  case (Cons t ts u us)
  obtain t' u' where p: "t = Some t'" "u = Some u'" "proper_type t'" "proper_type u'"
    using Cons.prems(1,2) by (auto split: option.splits)
  obtain b where b: "DataType_equals t' u = Some b" "DataType_equals u' t = Some b"
    using Cons.prems(3) [of t' u'] p by auto
  obtain c where "types_equal ts us = Some c" "types_equal us ts = Some c"
    using Cons.IH Cons.prems by fastforce
  then show ?case using b p by (cases b) auto
qed auto

lemma fields_equal_sym:
  assumes "list_all (\<lambda>(n, u). proper_ptr u) fs" "list_all (\<lambda>(n, u). proper_ptr u) gs" "length fs = length gs"
    "\<And>n t u. (n, Some t) \<in> set fs \<Longrightarrow> proper_type t \<Longrightarrow> proper_type u \<Longrightarrow>
      \<exists>b. DataType_equals t (Some u) = Some b \<and> DataType_equals u (Some t) = Some b"
  shows "\<exists>b. fields_equal fs gs = Some b \<and> fields_equal gs fs = Some b"
  using assms(3,1,2,4)
proof (induction fs gs rule: list_induct2)
  case (Cons f fs g gs)
  obtain n t m u where p: "f = (n, Some t)" "g = (m, Some u)" "proper_type t" "proper_type u"
    using Cons.prems(1,2) by (cases f; cases g) (auto split: option.splits)
  obtain b where b: "DataType_equals t (Some u) = Some b" "DataType_equals u (Some t) = Some b"
    using Cons.prems(3) [of n t u] p by auto
  obtain c where "fields_equal fs gs = Some c" "fields_equal gs fs = Some c"
    using Cons.IH Cons.prems by fastforce
  then show ?case using b p by (cases b) auto
qed auto

lemma equals_sym:
  "proper_type t \<Longrightarrow> proper_type u \<Longrightarrow>
    \<exists>b. DataType_equals t (Some u) = Some b \<and> DataType_equals u (Some t) = Some b"
proof (induction t arbitrary: u rule: proper_type.induct)
  case (1 t frozen)
  then show ?case by (cases u) (auto dest: simple_code)
next
  case (2 c)
  then show ?case by (cases u) (auto dest: simple_code simp: both_not_empty_sym)
next
  case (3 t ts frozen)
  show ?case
  proof (cases "value_type_of u = t")
    case True
    then obtain us f where u: "u = CollectionType t us f" using proper_code(4) [OF 3(3) True] 3(2) by auto
    have "\<exists>b. types_equal ts us = Some b \<and> types_equal us ts = Some b" if "length ts = length us"
      by (rule types_equal_sym [OF _ _ that]) (use 3(2,3) u in simp_all, rule 3(1) [OF _ refl], simp_all)
    then show ?thesis using u by (auto simp: eq_commute [of "length us"])
  next
    case False
    then show ?thesis using 3(2,3) by (cases u) (auto dest: simple_code)
  qed
next
  case (4 ts frozen)
  show ?case
  proof (cases "value_type_of u = CASS_VALUE_TYPE_TUPLE")
    case True
    then obtain us f where u: "u = TupleType us f" using proper_code(2) [OF 4(3)] by auto
    have "\<exists>b. types_equal ts us = Some b \<and> types_equal us ts = Some b" if "length ts = length us"
      by (rule types_equal_sym [OF _ _ that]) (use 4(2,3) u in simp_all, rule 4(1) [OF _ refl], simp_all)
    then show ?thesis using u by (auto simp: eq_commute [of "length us"])
  next
    case False
    then show ?thesis using 4(2,3) by (cases u) (auto dest: simple_code)
  qed
next
  case (5 ks name fs frozen)
  show ?case
  proof (cases "value_type_of u = CASS_VALUE_TYPE_UDT")
    case True
    then obtain ks' name' gs f where u: "u = UserType ks' name' gs f" using proper_code(3) [OF 5(3)] by auto
    have "\<exists>b. fields_equal fs gs = Some b \<and> fields_equal gs fs = Some b" if "length fs = length gs"
      by (rule fields_equal_sym [OF _ _ that]) (use 5(2,3) u in simp_all, rule 5(1) [OF _ refl refl], simp_all)
    then show ?thesis using u by (auto simp: eq_commute [of "length gs"] both_not_empty_sym [of ks'] both_not_empty_sym [of name'])
  next
    case False
    then show ?thesis using 5(2,3) by (cases u) (auto dest: simple_code)
  qed
qed

lemma types_equal_refl:
  "list_all proper_ptr ts \<Longrightarrow> (\<And>t. Some t \<in> set ts \<Longrightarrow> DataType_equals t (Some t) = Some True) \<Longrightarrow> types_equal ts ts = Some True"
  by (induction ts) (auto split: option.splits)

lemma fields_equal_refl:
  "list_all (\<lambda>(n, u). proper_ptr u) fs \<Longrightarrow> (\<And>n t. (n, Some t) \<in> set fs \<Longrightarrow> DataType_equals t (Some t) = Some True) \<Longrightarrow>
    fields_equal fs fs = Some True"
proof (induction fs)
  case (Cons f fs)
  obtain n t where f: "f = (n, Some t)" using Cons.prems(1) by (cases f) (auto split: option.splits)
  have "DataType_equals t (Some t) = Some True" using Cons.prems(2) [of n t] f by simp
  moreover have "fields_equal fs fs = Some True" using Cons.prems by (intro Cons.IH) auto
  ultimately show ?case by (simp add: f)
qed simp

lemma equals_refl: "proper_type t \<Longrightarrow> DataType_equals t (Some t) = Some True"
proof (induction t rule: proper_type.induct)
  case (3 t ts frozen)
  then have "types_equal ts ts = Some True" by (intro types_equal_refl) (auto simp: list_all_iff)
  then show ?case by simp
next
  case (4 ts frozen)
  then have "types_equal ts ts = Some True" by (intro types_equal_refl) (auto simp: list_all_iff)
  then show ?case by simp
next
  case (5 ks name fs frozen)
  then have "fields_equal fs fs = Some True" by (intro fields_equal_refl) (auto simp: list_all_iff)
  then show ?case by (simp add: equals_both_not_empty_def)
qed (auto simp: equals_both_not_empty_def)

lemma reads_data_type [reads_intros]: "wire_type t \<Longrightarrow> reads DataTypeDecoder_decode (type_encoding t) (Some t)"
  unfolding reads_def
proof (intro allI impI)
  fix d :: decoder and rest
  assume t: "wire_type t" and d: "d_input d = type_encoding t @ rest" "length (type_encoding t) \<le> unat (d_remaining d)"
  let ?n = "unat (d_remaining d) div 2 + 1"
  have "length (type_encoding t) \<le> 2 * ?n + 1" using d(2) by simp
  from readsD [OF reads_type_at [OF t this] d]
  show "DataTypeDecoder_decode d = (Done (Some t), advanced d (length (type_encoding t)))"
    by (simp add: DataTypeDecoder_decode_def del: DataTypeDecoder_decode_at.simps)
qed

text \<open>C39. Every data type that a server may describe, however deeply nested, is read back from its
  encoding in the native protocol, and exactly its bytes are consumed, whatever follows them.\<close>

theorem data_type_round_trip:
  assumes "wire_type t" "d_input d = type_encoding t @ rest" "length (type_encoding t) \<le> unat (d_remaining d)"
  shows "DataTypeDecoder_decode d = (Done (Some t), advanced d (length (type_encoding t)))"
  by (rule readsD [OF reads_data_type [OF assms(1)] assms(2,3)])

definition example_type :: data_type where
  "example_type = CollectionType CASS_VALUE_TYPE_MAP
     [Some (SimpleType 0x0A False), Some (TupleType [Some (SimpleType 0x09 False)] False)] False"

theorem data_type_round_trip_witness:
  "DataTypeDecoder_decode (Decoder_new (type_encoding example_type @ [7]) 11 4) =
     (Done (Some example_type), advanced (Decoder_new (type_encoding example_type @ [7]) 11 4) 10)"
proof -
  have "wire_type example_type" by (simp add: example_type_def by_value_type_def)
  moreover have "length (type_encoding example_type) = 10" by (simp add: example_type_def)
  ultimately show ?thesis
    using data_type_round_trip [of example_type "Decoder_new (type_encoding example_type @ [7]) 11 4" "[7]"]
    by (simp add: Decoder_new_def)
qed

text \<open>The comparison of data types used to check bound values is total, reflexive and symmetric on
  the types the driver builds.\<close>

theorem data_type_equality:
  assumes "proper_type t" "proper_type u"
  shows "DataType_equals t (Some t) = Some True \<and> DataType_equals t (Some u) = DataType_equals u (Some t) \<and>
    DataType_equals t (Some u) \<noteq> None"
  using equals_refl [OF assms(1)] equals_sym [OF assms] by auto

theorem data_type_equality_witness:
  "DataType_equals example_type (Some (CollectionType CASS_VALUE_TYPE_MAP [] True)) =
   DataType_equals (CollectionType CASS_VALUE_TYPE_MAP [] True) (Some example_type)"
proof -
  have "proper_type example_type" "proper_type (CollectionType CASS_VALUE_TYPE_MAP [] True)"
    by (simp_all add: example_type_def by_value_type_def)
  from data_type_equality [OF this] show ?thesis by simp
qed

text \<open>A type whose parameter is cut off is accepted, with a null pointer for the parameter.\<close>

lemma truncated_type_accepted:
  "DataTypeDecoder_decode (Decoder_new [0, 0x20] 2 4) =
     (Done (Some (CollectionType CASS_VALUE_TYPE_LIST [None] False)), Decoder_new [] 2 4\<lparr>d_remaining := 0\<rparr>)"
  by code_simp

end
