(* ===== verification/Responses.thy ===== *)
theory Responses
  imports DataType
begin

text \<open>
  The bodies of server responses (\<open>error_response\<close>, \<open>event_response\<close>, \<open>result_response\<close>,
  \<open>supported_response\<close>, \<open>auth_responses\<close>), read with the decoder, and the accessors of error results
  in the C interface.

  Logging and \<open>set_type\<close>, which only serves logging, are left out. An \<open>assert(false)\<close> is a value of
  the outcome, like the other ways a reader does not return.
\<close>

subsection \<open>Errors\<close>

record error_response =
  er_code :: i32
  er_message :: "byte list"
  er_prepared_id :: "byte list"
  er_cl :: u16
  er_received :: i32
  er_required :: i32
  er_num_failures :: i32
  er_failures :: "((byte list \<times> u8) \<times> u16) list"
  er_data_present :: u8
  er_write_type :: cass_write_type
  er_keyspace :: "byte list"
  er_table :: "byte list"
  er_function :: "byte list"
  er_arg_types :: "byte list list"

abbreviation CASS_CONSISTENCY_UNKNOWN_code :: u16 where "CASS_CONSISTENCY_UNKNOWN_code \<equiv> 0xFFFF"

definition ErrorResponse_new :: error_response where
  "ErrorResponse_new =
     \<lparr>er_code = - 1, er_message = [], er_prepared_id = [], er_cl = CASS_CONSISTENCY_UNKNOWN_code,
      er_received = - 1, er_required = - 1, er_num_failures = - 1, er_failures = [], er_data_present = 0,
      er_write_type = CASS_WRITE_TYPE_UKNOWN, er_keyspace = [], er_table = [], er_function = [], er_arg_types = []\<rparr>"

abbreviation CQL_ERROR_UNAVAILABLE :: i32 where "CQL_ERROR_UNAVAILABLE \<equiv> 0x1000"
abbreviation CQL_ERROR_READ_TIMEOUT :: i32 where "CQL_ERROR_READ_TIMEOUT \<equiv> 0x1200"
abbreviation CQL_ERROR_WRITE_TIMEOUT :: i32 where "CQL_ERROR_WRITE_TIMEOUT \<equiv> 0x1100"
abbreviation CQL_ERROR_READ_FAILURE :: i32 where "CQL_ERROR_READ_FAILURE \<equiv> 0x1300"
abbreviation CQL_ERROR_FUNCTION_FAILURE :: i32 where "CQL_ERROR_FUNCTION_FAILURE \<equiv> 0x1400"
abbreviation CQL_ERROR_WRITE_FAILURE :: i32 where "CQL_ERROR_WRITE_FAILURE \<equiv> 0x1500"
abbreviation CQL_ERROR_UNPREPARED :: i32 where "CQL_ERROR_UNPREPARED \<equiv> 0x2500"
abbreviation CQL_ERROR_ALREADY_EXISTS :: i32 where "CQL_ERROR_ALREADY_EXISTS \<equiv> 0x2400"

text \<open>The first three fields of the errors about replicas, with the two counts as they arrive.\<close>

definition read_counts :: "(u16 \<Rightarrow> i32 \<Rightarrow> i32 \<Rightarrow> 'a reader) \<Rightarrow> 'a reader" where
  "read_counts f =
     and_then Decoder_decode_uint16 (\<lambda>cl. and_then Decoder_decode_int32 (\<lambda>a. and_then Decoder_decode_int32 (\<lambda>b. f cl a b)))"

definition ErrorResponse_decode :: "error_response reader" where
  "ErrorResponse_decode =
     and_then Decoder_decode_int32 (\<lambda>code. and_then Decoder_decode_string (\<lambda>msg.
       let e = ErrorResponse_new\<lparr>er_code := code, er_message := msg\<rparr>
       in if code = CQL_ERROR_UNAVAILABLE
          then read_counts (\<lambda>cl required received.
            succeed (e\<lparr>er_cl := cl, er_required := required, er_received := received\<rparr>))
          else if code = CQL_ERROR_READ_TIMEOUT
          then read_counts (\<lambda>cl received required. and_then Decoder_decode_byte (\<lambda>present.
            succeed (e\<lparr>er_cl := cl, er_received := received, er_required := required, er_data_present := present\<rparr>)))
          else if code = CQL_ERROR_WRITE_TIMEOUT
          then read_counts (\<lambda>cl received required. and_then Decoder_decode_write_type (\<lambda>wt.
            succeed (e\<lparr>er_cl := cl, er_received := received, er_required := required, er_write_type := wt\<rparr>)))
          else if code = CQL_ERROR_READ_FAILURE
          then read_counts (\<lambda>cl received required. and_then Decoder_decode_failures (\<lambda>(failures, n).
            and_then Decoder_decode_byte (\<lambda>present.
              succeed (e\<lparr>er_cl := cl, er_received := received, er_required := required, er_failures := failures,
                er_num_failures := n, er_data_present := present\<rparr>))))
          else if code = CQL_ERROR_FUNCTION_FAILURE
          then and_then Decoder_decode_string (\<lambda>ks. and_then Decoder_decode_string (\<lambda>fn.
            and_then Decoder_decode_stringlist (\<lambda>args.
              succeed (e\<lparr>er_keyspace := ks, er_function := fn, er_arg_types := args\<rparr>))))
          else if code = CQL_ERROR_WRITE_FAILURE
          then read_counts (\<lambda>cl received required. and_then Decoder_decode_failures (\<lambda>(failures, n).
            and_then Decoder_decode_write_type (\<lambda>wt.
              succeed (e\<lparr>er_cl := cl, er_received := received, er_required := required, er_failures := failures,
                er_num_failures := n, er_write_type := wt\<rparr>))))
          else if code = CQL_ERROR_UNPREPARED
          then and_then Decoder_decode_string (\<lambda>pid. succeed (e\<lparr>er_prepared_id := pid\<rparr>))
          else if code = CQL_ERROR_ALREADY_EXISTS
          then and_then Decoder_decode_string (\<lambda>ks. and_then Decoder_decode_string (\<lambda>tab.
            succeed (e\<lparr>er_keyspace := ks, er_table := tab\<rparr>)))
          else succeed e))"

subsection \<open>Error results in the C interface\<close>

text \<open>The error codes of the interface are \<open>(source << 24) | code\<close>, with source 2 for the server.\<close>

definition CASS_ERROR_SERVER :: "i32 \<Rightarrow> i32" where
  "CASS_ERROR_SERVER code = push_bit 24 2 OR code"

abbreviation CASS_ERROR_SERVER_ALREADY_EXISTS :: i32 where "CASS_ERROR_SERVER_ALREADY_EXISTS \<equiv> 0x02002400"
abbreviation CASS_ERROR_SERVER_FUNCTION_FAILURE :: i32 where "CASS_ERROR_SERVER_FUNCTION_FAILURE \<equiv> 0x02001400"

datatype 'a api_result = CASS_OK 'a | CASS_ERROR_LIB_INVALID_ERROR_RESULT_TYPE | CASS_ERROR_LIB_INDEX_OUT_OF_BOUNDS | API_out_of_bounds

definition cass_error_result_code :: "error_response \<Rightarrow> i32" where
  "cass_error_result_code e = CASS_ERROR_SERVER (er_code e)"

definition cass_error_result_keyspace :: "error_response \<Rightarrow> byte list api_result" where
  "cass_error_result_keyspace e =
     (if er_code e \<noteq> CASS_ERROR_SERVER_ALREADY_EXISTS \<or> er_code e \<noteq> CASS_ERROR_SERVER_FUNCTION_FAILURE
      then CASS_ERROR_LIB_INVALID_ERROR_RESULT_TYPE else CASS_OK (er_keyspace e))"

definition cass_error_result_table :: "error_response \<Rightarrow> byte list api_result" where
  "cass_error_result_table e =
     (if er_code e \<noteq> CASS_ERROR_SERVER_ALREADY_EXISTS
      then CASS_ERROR_LIB_INVALID_ERROR_RESULT_TYPE else CASS_OK (er_table e))"

definition cass_error_result_function :: "error_response \<Rightarrow> byte list api_result" where
  "cass_error_result_function e =
     (if er_code e \<noteq> CASS_ERROR_SERVER_FUNCTION_FAILURE
      then CASS_ERROR_LIB_INVALID_ERROR_RESULT_TYPE else CASS_OK (er_function e))"

definition cass_error_num_arg_types :: "error_response \<Rightarrow> nat" where
  "cass_error_num_arg_types e = length (er_arg_types e)"

definition cass_error_result_arg_type :: "error_response \<Rightarrow> nat \<Rightarrow> byte list api_result" where
  "cass_error_result_arg_type e index =
     (if er_code e \<noteq> CASS_ERROR_SERVER_FUNCTION_FAILURE then CASS_ERROR_LIB_INVALID_ERROR_RESULT_TYPE
      else if index > length (er_arg_types e) then CASS_ERROR_LIB_INDEX_OUT_OF_BOUNDS
      else if index < length (er_arg_types e) then CASS_OK (er_arg_types e ! index)
      else API_out_of_bounds)"

subsection \<open>Events\<close>

datatype topology_change = NEW_NODE | REMOVED_NODE | MOVED_NODE
datatype status_change = STATUS_UP | STATUS_DOWN
datatype schema_change = CREATED | UPDATED | DROPPED
datatype schema_change_target = KEYSPACE | TABLE | USER_TYPE | FUNCTION | AGGREGATE

datatype 'addr event_response =
  TopologyChange topology_change 'addr
| StatusChange status_change 'addr
| SchemaChange schema_change schema_change_target "byte list" "byte list" "byte list list"

definition keyword :: "(string \<times> 'a) list \<Rightarrow> ('a \<Rightarrow> 'b reader) \<Rightarrow> 'b reader" where
  "keyword table f =
     and_then Decoder_decode_string (\<lambda>word.
       case map_of (map (apfst string_bytes) table) word of None \<Rightarrow> reject | Some x \<Rightarrow> f x)"

definition topology_words :: "(string \<times> topology_change) list" where
  "topology_words = [(''NEW_NODE'', NEW_NODE), (''REMOVED_NODE'', REMOVED_NODE), (''MOVED_NODE'', MOVED_NODE)]"

definition status_words :: "(string \<times> status_change) list" where
  "status_words = [(''UP'', STATUS_UP), (''DOWN'', STATUS_DOWN)]"

definition schema_words :: "(string \<times> schema_change) list" where
  "schema_words = [(''CREATED'', CREATED), (''UPDATED'', UPDATED), (''DROPPED'', DROPPED)]"

definition target_words :: "(string \<times> schema_change_target) list" where
  "target_words = [(''KEYSPACE'', KEYSPACE), (''TABLE'', TABLE), (''TYPE'', USER_TYPE), (''FUNCTION'', FUNCTION), (''AGGREGATE'', AGGREGATE)]"

definition schema_change_decode :: "schema_change \<Rightarrow> 'addr event_response reader" where
  "schema_change_decode change d =
     (if d_protocol_version d \<le> 2
      then and_then Decoder_decode_string (\<lambda>ks. and_then Decoder_decode_string (\<lambda>target.
        succeed (SchemaChange change (if target = [] then KEYSPACE else TABLE) ks target [])))
      else keyword target_words (\<lambda>t. and_then Decoder_decode_string (\<lambda>ks.
        if t = TABLE \<or> t = USER_TYPE
        then and_then Decoder_decode_string (\<lambda>target. succeed (SchemaChange change t ks target []))
        else if t = FUNCTION \<or> t = AGGREGATE
        then and_then Decoder_decode_string (\<lambda>target. and_then Decoder_decode_stringlist (\<lambda>args.
          succeed (SchemaChange change t ks target args)))
        else succeed (SchemaChange change t ks [] [])))) d"

datatype event_kind = TOPOLOGY_CHANGE | STATUS_CHANGE | SCHEMA_CHANGE

definition EventResponse_decode ::
    "(byte option list \<Rightarrow> u8 \<Rightarrow> i32 \<Rightarrow> 'addr option) \<Rightarrow> 'addr event_response reader" where
  "EventResponse_decode from_inet =
     keyword [(''TOPOLOGY_CHANGE'', TOPOLOGY_CHANGE), (''STATUS_CHANGE'', STATUS_CHANGE), (''SCHEMA_CHANGE'', SCHEMA_CHANGE)]
       (\<lambda>kind. case kind of
          TOPOLOGY_CHANGE \<Rightarrow> keyword topology_words (\<lambda>change.
            and_then (Decoder_decode_inet_address from_inet) (\<lambda>node. succeed (TopologyChange change node)))
        | STATUS_CHANGE \<Rightarrow> keyword status_words (\<lambda>change.
            and_then (Decoder_decode_inet_address from_inet) (\<lambda>node. succeed (StatusChange change node)))
        | SCHEMA_CHANGE \<Rightarrow> keyword schema_words schema_change_decode)"

subsection \<open>Authentication and supported options\<close>

definition AuthenticateResponse_decode :: "byte list reader" where
  "AuthenticateResponse_decode = and_then Decoder_decode_string succeed"

text \<open>A null token is an empty string.\<close>

definition AuthChallengeResponse_decode :: "byte list reader" where
  "AuthChallengeResponse_decode d =
     (if d_protocol_version d < 2 then reject
      else and_then Decoder_decode_bytes (\<lambda>token. succeed (case token of Some t \<Rightarrow> t | None \<Rightarrow> []))) d"

definition AuthSuccessResponse_decode :: "byte list reader" where
  "AuthSuccessResponse_decode d =
     (if d_protocol_version d < 2 then reject
      else and_then Decoder_decode_bytes (\<lambda>token. succeed (case token of Some t \<Rightarrow> t | None \<Rightarrow> []))) d"

record supported_response =
  compression :: "byte list list"
  cql_versions :: "byte list list"
  protocol_versions :: "byte list list"

definition SupportedResponse_decode :: "supported_response reader" where
  "SupportedResponse_decode =
     and_then Decoder_decode_string_multimap (\<lambda>supported.
       let get = (\<lambda>name. case supported (string_bytes name) of Some vs \<Rightarrow> vs | None \<Rightarrow> [])
       in succeed \<lparr>compression = get ''COMPRESSION'', cql_versions = get ''CQL_VERSIONS'',
            protocol_versions = get ''PROTOCOL_VERSIONS''\<rparr>)"

subsection \<open>Results\<close>

record column_definition =
  cd_name :: "byte list"
  cd_keyspace :: "byte list"
  cd_table :: "byte list"
  cd_type :: data_type

record result_response =
  rr_kind :: i32
  rr_has_more_pages :: bool
  rr_metadata :: "column_definition list option"
  rr_result_metadata :: "column_definition list option"
  rr_paging_state :: "byte list"
  rr_prepared :: "byte list"
  rr_change :: "byte list"
  rr_keyspace :: "byte list"
  rr_table :: "byte list"
  rr_row_count :: i32
  rr_decoder :: decoder
  rr_first_row :: "decoded_value list"
  rr_pk_indices :: "u16 list"

abbreviation CASS_RESULT_KIND_VOID :: i32 where "CASS_RESULT_KIND_VOID \<equiv> 1"
abbreviation CASS_RESULT_KIND_ROWS :: i32 where "CASS_RESULT_KIND_ROWS \<equiv> 2"
abbreviation CASS_RESULT_KIND_SET_KEYSPACE :: i32 where "CASS_RESULT_KIND_SET_KEYSPACE \<equiv> 3"
abbreviation CASS_RESULT_KIND_PREPARED :: i32 where "CASS_RESULT_KIND_PREPARED \<equiv> 4"
abbreviation CASS_RESULT_KIND_SCHEMA_CHANGE :: i32 where "CASS_RESULT_KIND_SCHEMA_CHANGE \<equiv> 5"

definition ResultResponse_new :: result_response where
  "ResultResponse_new =
     \<lparr>rr_kind = CASS_RESULT_KIND_VOID, rr_has_more_pages = False, rr_metadata = None, rr_result_metadata = None,
      rr_paging_state = [], rr_prepared = [], rr_change = [], rr_keyspace = [], rr_table = [], rr_row_count = 0,
      rr_decoder = Decoder_new [] 0 (- 1), rr_first_row = [], rr_pk_indices = []\<rparr>"

definition ResultResponse_column_count :: "result_response \<Rightarrow> nat" where
  "ResultResponse_column_count r = (case rr_metadata r of Some cs \<Rightarrow> length cs | None \<Rightarrow> 0)"

definition decode_column :: "bool \<Rightarrow> column_definition reader" where
  "decode_column global_table_spec =
     and_then (if global_table_spec then succeed ([], [])
               else and_then Decoder_decode_string (\<lambda>ks. and_then Decoder_decode_string (\<lambda>tab. succeed (ks, tab))))
       (\<lambda>(ks, tab). and_then Decoder_decode_string (\<lambda>name.
          and_then DataTypeDecoder_decode (\<lambda>t. case t of
            None \<Rightarrow> reject
          | Some ty \<Rightarrow> succeed \<lparr>cd_name = name, cd_keyspace = ks, cd_table = tab, cd_type = ty\<rparr>)))"

text \<open>The columns and the response with the fields that the metadata sets. A negative number of columns
  is a huge capacity for the table of columns, which throws.\<close>

definition decode_columns :: "i32 \<Rightarrow> i32 \<Rightarrow> result_response \<Rightarrow> (column_definition list option \<times> result_response) reader" where
  "decode_columns flags column_count r =
     (if flags AND 4 \<noteq> 0 then succeed (None, r)
      else let global_table_spec = (flags AND 1 \<noteq> 0)
           in and_then (if global_table_spec
                        then and_then Decoder_decode_string (\<lambda>ks. and_then Decoder_decode_string (\<lambda>tab.
                          succeed (r\<lparr>rr_keyspace := ks, rr_table := tab\<rparr>)))
                        else succeed r)
                (\<lambda>r'. if sint column_count < 0 then (\<lambda>d. (Length_error, d))
                      else and_then (repeat_reader (nat (sint column_count)) (decode_column global_table_spec))
                             (\<lambda>columns. succeed (Some columns, r'))))"

definition ResultResponse_decode_metadata ::
    "bool \<Rightarrow> result_response \<Rightarrow> (column_definition list option \<times> result_response) reader" where
  "ResultResponse_decode_metadata has_pk_indices r =
     and_then Decoder_decode_int32 (\<lambda>flags. and_then Decoder_decode_int32 (\<lambda>column_count.
       and_then (if has_pk_indices
                 then and_then Decoder_decode_int32 (\<lambda>pk_count. repeat_reader (nat (sint pk_count)) Decoder_decode_uint16)
                 else succeed [])
         (\<lambda>pks. let r1 = r\<lparr>rr_pk_indices := rr_pk_indices r @ pks\<rparr>
            in and_then (if flags AND 2 \<noteq> 0
                         then and_then Decoder_decode_bytes (\<lambda>state.
                           succeed (r1\<lparr>rr_has_more_pages := True, rr_paging_state := (case state of Some s \<Rightarrow> s | None \<Rightarrow> [])\<rparr>))
                         else succeed (r1\<lparr>rr_has_more_pages := False\<rparr>))
               (\<lambda>r2. decode_columns flags column_count r2))))"

text \<open>A column with an absent type would be a null dereference; metadata never holds one.\<close>

primrec decode_row :: "column_definition list \<Rightarrow> decoded_value list reader" where
  "decode_row [] = succeed []"
| "decode_row (c # cs) =
     and_then (Decoder_decode_value (is_collection (cd_type c)) False) (\<lambda>v.
       and_then (decode_row cs) (\<lambda>vs. succeed (v # vs)))"

definition ResultResponse_decode_first_row :: "result_response \<Rightarrow> result_response outcome" where
  "ResultResponse_decode_first_row r =
     (case rr_metadata r of
        Some columns \<Rightarrow>
          if sint (rr_row_count r) > 0 \<and> rr_first_row r = []
          then (case decode_row columns (rr_decoder r) of
                  (Done vs, d) \<Rightarrow> Done (r\<lparr>rr_decoder := d, rr_first_row := vs\<rparr>)
                | (Rejected, _) \<Rightarrow> Rejected
                | (Out_of_bounds, _) \<Rightarrow> Out_of_bounds
                | (Length_error, _) \<Rightarrow> Length_error)
          else Done r
      | None \<Rightarrow> Done r)"

definition ResultResponse_decode_rows :: "result_response \<Rightarrow> result_response reader" where
  "ResultResponse_decode_rows r =
     and_then (ResultResponse_decode_metadata False r) (\<lambda>(metadata, r1).
       and_then Decoder_decode_int32 (\<lambda>row_count d.
         (ResultResponse_decode_first_row
            (r1\<lparr>rr_metadata := (case metadata of Some m \<Rightarrow> Some m | None \<Rightarrow> rr_metadata r1),
                rr_row_count := row_count, rr_decoder := d\<rparr>), d)))"

definition ResultResponse_decode_set_keyspace :: "result_response \<Rightarrow> result_response reader" where
  "ResultResponse_decode_set_keyspace r = and_then Decoder_decode_string (\<lambda>ks. succeed (r\<lparr>rr_keyspace := ks\<rparr>))"

definition ResultResponse_decode_prepared :: "result_response \<Rightarrow> result_response reader" where
  "ResultResponse_decode_prepared r =
     and_then Decoder_decode_string (\<lambda>pid d.
       and_then (ResultResponse_decode_metadata (d_protocol_version d \<ge> 4) (r\<lparr>rr_prepared := pid\<rparr>)) (\<lambda>(metadata, r1).
         let r2 = r1\<lparr>rr_metadata := metadata\<rparr>
         in if d_protocol_version d > 1
            then and_then (ResultResponse_decode_metadata False r2) (\<lambda>(result_metadata, r3).
              succeed (r3\<lparr>rr_result_metadata := result_metadata\<rparr>))
            else succeed r2) d)"

definition ResultResponse_decode_schema_change :: "result_response \<Rightarrow> result_response reader" where
  "ResultResponse_decode_schema_change r =
     and_then Decoder_decode_string (\<lambda>change. and_then Decoder_decode_string (\<lambda>ks. and_then Decoder_decode_string (\<lambda>tab.
       succeed (r\<lparr>rr_change := change, rr_keyspace := ks, rr_table := tab\<rparr>))))"

text \<open>An unknown kind is an assertion; without assertions the result is not valid.\<close>

definition ResultResponse_decode :: "result_response reader" where
  "ResultResponse_decode =
     and_then Decoder_decode_int32 (\<lambda>kind.
       let r = ResultResponse_new\<lparr>rr_kind := kind\<rparr>
       in if kind = CASS_RESULT_KIND_VOID then succeed r
          else if kind = CASS_RESULT_KIND_ROWS then ResultResponse_decode_rows r
          else if kind = CASS_RESULT_KIND_SET_KEYSPACE then ResultResponse_decode_set_keyspace r
          else if kind = CASS_RESULT_KIND_PREPARED then ResultResponse_decode_prepared r
          else if kind = CASS_RESULT_KIND_SCHEMA_CHANGE then ResultResponse_decode_schema_change r
          else reject)"

subsection \<open>Responses stay inside their buffer\<close>

lemma safe_case_prod [safe_intros]: "(\<And>a b. safe (f a b)) \<Longrightarrow> safe (case p of (a, b) \<Rightarrow> f a b)"
  by (cases p) simp

lemma safe_by_version: "(\<And>v. safe (m v)) \<Longrightarrow> safe (\<lambda>d. m (d_protocol_version d) d)"
  by (simp add: safe_def)

lemma safe_read_counts [safe_intros]: "(\<And>a b c. safe (f a b c)) \<Longrightarrow> safe (read_counts f)"
  unfolding read_counts_def by (intro safe_intros)

lemma safe_keyword [safe_intros]: "(\<And>x. safe (f x)) \<Longrightarrow> safe (keyword table f)"
  unfolding keyword_def by (intro safe_intros)

lemma safe_error: "safe ErrorResponse_decode"
  unfolding ErrorResponse_decode_def Let_def by (intro safe_intros)

lemma safe_schema_change: "safe (schema_change_decode change)"
proof -
  have "safe (\<lambda>d. (if d_protocol_version d \<le> 2
      then and_then Decoder_decode_string (\<lambda>ks. and_then Decoder_decode_string (\<lambda>target.
        succeed (SchemaChange change (if target = [] then KEYSPACE else TABLE) ks target [])))
      else keyword target_words (\<lambda>t. and_then Decoder_decode_string (\<lambda>ks.
        if t = TABLE \<or> t = USER_TYPE
        then and_then Decoder_decode_string (\<lambda>target. succeed (SchemaChange change t ks target []))
        else if t = FUNCTION \<or> t = AGGREGATE
        then and_then Decoder_decode_string (\<lambda>target. and_then Decoder_decode_stringlist (\<lambda>args.
          succeed (SchemaChange change t ks target args)))
        else succeed (SchemaChange change t ks [] [])))) d)"
    by (rule safe_by_version [where m = "\<lambda>v. if v \<le> 2 then _ else _"]) (intro safe_intros)
  then show ?thesis unfolding schema_change_decode_def [abs_def] .
qed

lemma safe_event: "safe (EventResponse_decode from_inet)"
  unfolding EventResponse_decode_def
  by (rule safe_keyword) (auto split: event_kind.split intro!: safe_intros safe_schema_change)

lemma safe_auth:
  "safe AuthenticateResponse_decode" "safe AuthChallengeResponse_decode" "safe AuthSuccessResponse_decode"
proof -
  show "safe AuthenticateResponse_decode" unfolding AuthenticateResponse_decode_def by (intro safe_intros)
  have "safe (\<lambda>d. (if d_protocol_version d < 2 then reject
      else and_then Decoder_decode_bytes (\<lambda>token. succeed (case token of Some t \<Rightarrow> t | None \<Rightarrow> []))) d)"
    by (rule safe_by_version [where m = "\<lambda>v. if v < 2 then _ else _"]) (intro safe_intros)
  then show "safe AuthChallengeResponse_decode" "safe AuthSuccessResponse_decode"
    unfolding AuthChallengeResponse_decode_def [abs_def] AuthSuccessResponse_decode_def [abs_def] by assumption+
qed

lemma safe_supported: "safe SupportedResponse_decode"
  unfolding SupportedResponse_decode_def Let_def by (intro safe_intros)

lemma safe_column [safe_intros]: "safe (decode_column g)"
  unfolding decode_column_def by (intro safe_intros)

lemma safe_columns [safe_intros]: "safe (decode_columns flags n r)"
  unfolding decode_columns_def Let_def by (intro safe_intros)

lemma safe_metadata [safe_intros]: "safe (ResultResponse_decode_metadata pk r)"
  unfolding ResultResponse_decode_metadata_def Let_def by (intro safe_intros)

lemma safe_prepared: "safe (ResultResponse_decode_prepared r)"
proof -
  have "safe (\<lambda>d.
       and_then (ResultResponse_decode_metadata (d_protocol_version d \<ge> 4) (r\<lparr>rr_prepared := pid\<rparr>)) (\<lambda>(metadata, r1).
         let r2 = r1\<lparr>rr_metadata := metadata\<rparr>
         in if d_protocol_version d > 1
            then and_then (ResultResponse_decode_metadata False r2) (\<lambda>(result_metadata, r3).
              succeed (r3\<lparr>rr_result_metadata := result_metadata\<rparr>))
            else succeed r2) d)" for pid
    unfolding Let_def
    by (rule safe_by_version [where m = "\<lambda>v. and_then (ResultResponse_decode_metadata (v \<ge> 4) _)
      (\<lambda>(metadata, r1). if v > 1 then _ metadata r1 else _ metadata r1)"]) (intro safe_intros)
  then show ?thesis unfolding ResultResponse_decode_prepared_def by (intro safe_intros)
qed

lemma safe_other_results:
  "safe (ResultResponse_decode_set_keyspace r)" "safe (ResultResponse_decode_schema_change r)"
  unfolding ResultResponse_decode_set_keyspace_def ResultResponse_decode_schema_change_def by (intro safe_intros)+

text \<open>C9. The readers of all response bodies except result rows stay inside the response buffer on
  every input, malicious or truncated.\<close>

theorem response_memory_safety:
  "safe ErrorResponse_decode \<and> safe (EventResponse_decode from_inet) \<and> safe AuthenticateResponse_decode \<and>
   safe AuthChallengeResponse_decode \<and> safe AuthSuccessResponse_decode \<and> safe SupportedResponse_decode \<and>
   safe (ResultResponse_decode_metadata has_pk r) \<and> safe (ResultResponse_decode_set_keyspace r) \<and>
   safe (ResultResponse_decode_prepared r) \<and> safe (ResultResponse_decode_schema_change r) \<and> safe DataTypeDecoder_decode"
  by (intro conjI safe_error safe_event safe_auth safe_supported safe_metadata safe_other_results safe_prepared safe_data_type)

lemma and_then_succeed [simp]: "and_then (succeed x) f = f x"
  by (auto simp: and_then_def succeed_def)

lemma reads_run:
  "reads m bs x \<Longrightarrow> d_input d = bs @ rest \<Longrightarrow> length bs \<le> unat (d_remaining d) \<Longrightarrow>
    and_then m f d = f x (advanced d (length bs))"
  by (simp add: and_then_def readsD)

text \<open>Rows are different: the size of a value is not compared with what is left. A result of 36 bytes
  with two columns, whose first value claims a size of 2 GB, makes the driver read outside the response.\<close>

definition hostile_rows :: "byte list" where
  "hostile_rows =
     encode_int32 2 @ encode_int32 1 @ encode_int32 2 @ string_encoding [] @ string_encoding [] @
     string_encoding [] @ encode_uint16 9 @ string_encoding [] @ encode_uint16 9 @
     encode_int32 1 @ encode_int32 0x7FFFFFFF @ encode_int32 0"

lemmas decode_eval =
  encode_int32_def string_encoding_def encode_uint16_def Decoder_new_def and_then_def reader_defs checked_read_def
  check_remaining_def read_with_def decode_int32_def Decoder_decode_string_def decode_uint16_def checked_bytes_def
  read_bytes_def Let_def succeed_def

lemma reads_int32: "reads Decoder_decode_int32 (encode_int32 x) x"
  unfolding Decoder_decode_int32_def by (rule primitive_reads)

abbreviation hostile_column :: column_definition where
  "hostile_column \<equiv> \<lparr>cd_name = [], cd_keyspace = [], cd_table = [], cd_type = SimpleType 9 False\<rparr>"

abbreviation hostile_metadata :: "byte list" where
  "hostile_metadata \<equiv> encode_int32 1 @ encode_int32 2 @ string_encoding [] @ string_encoding [] @
     (string_encoding [] @ encode_uint16 9) @ string_encoding [] @ encode_uint16 9"

abbreviation hostile_result :: result_response where
  "hostile_result \<equiv> ResultResponse_new\<lparr>rr_kind := CASS_RESULT_KIND_ROWS\<rparr>"

lemma reads_hostile_metadata:
  "reads (ResultResponse_decode_metadata False hostile_result) hostile_metadata
     (Some [hostile_column, hostile_column], hostile_result\<lparr>rr_keyspace := [], rr_table := []\<rparr>)"
proof -
  let ?column = "string_encoding [] @ encode_uint16 9"
  have ty: "reads DataTypeDecoder_decode (encode_uint16 9) (Some (SimpleType 9 False))"
    using reads_data_type [of "SimpleType 9 False"] by (simp add: by_value_type_def)
  have str: "reads Decoder_decode_string (string_encoding []) []" by (rule reads_decode_string) simp
  have column: "reads (decode_column True) ?column hostile_column"
    unfolding decode_column_def
    by simp (rule reads_and_then [OF str], rule reads_and_then_last [OF ty], simp add: reads_succeed)
  have columns: "reads (repeat_reader 2 (decode_column True)) (?column @ ?column) [hostile_column, hostile_column]"
    using reads_repeat [of "decode_column True" "[?column, ?column]" "[hostile_column, hostile_column]"] column by (simp add: numeral_2_eq_2)
  have spec: "reads (and_then Decoder_decode_string (\<lambda>ks. and_then Decoder_decode_string (\<lambda>tab. succeed (g ks tab))))
      (string_encoding [] @ string_encoding []) (g [] [])" for g :: "byte list \<Rightarrow> byte list \<Rightarrow> 'a"
    by (rule reads_and_then [OF str], rule reads_and_then_last [OF str]) (rule reads_succeed)
  show ?thesis
    unfolding ResultResponse_decode_metadata_def decode_columns_def
    by (rule reads_and_then [OF reads_int32], rule reads_and_then [OF reads_int32], simp add: Let_def ResultResponse_new_def,
        rule reads_and_then [OF spec, unfolded append_assoc], rule reads_and_then_last [OF columns, unfolded append_assoc])
      (simp add: reads_succeed)
qed


text \<open>On every error response that the driver reads from a server, the accessors for the keyspace,
  table, function and argument types report an invalid result type: they compare the protocol's code with
  the interface's code, and the keyspace accessor's condition is always true.\<close>

theorem error_accessors_always_fail:
  assumes "ErrorResponse_decode d = (Done e, d')" "0 \<le> sint (er_code e)" "sint (er_code e) < 2 ^ 24"
  shows "cass_error_result_keyspace e = CASS_ERROR_LIB_INVALID_ERROR_RESULT_TYPE \<and>
    cass_error_result_table e = CASS_ERROR_LIB_INVALID_ERROR_RESULT_TYPE \<and>
    cass_error_result_function e = CASS_ERROR_LIB_INVALID_ERROR_RESULT_TYPE \<and>
    cass_error_result_arg_type e i = CASS_ERROR_LIB_INVALID_ERROR_RESULT_TYPE"
proof -
  have "er_code e \<noteq> CASS_ERROR_SERVER_ALREADY_EXISTS" "er_code e \<noteq> CASS_ERROR_SERVER_FUNCTION_FAILURE"
    using assms(3) by auto
  then show ?thesis
    by (simp add: cass_error_result_keyspace_def cass_error_result_table_def cass_error_result_function_def
        cass_error_result_arg_type_def)
qed

definition already_exists :: "byte list" where
  "already_exists = encode_int32 CQL_ERROR_ALREADY_EXISTS @ string_encoding [] @ string_encoding [107] @ string_encoding [116]"

definition already_exists_error :: error_response where
  "already_exists_error =
     ErrorResponse_new\<lparr>er_code := CQL_ERROR_ALREADY_EXISTS, er_keyspace := [107], er_table := [116]\<rparr>"

theorem error_accessors_always_fail_witness:
  "fst (ErrorResponse_decode (Decoder_new already_exists (of_nat (length already_exists)) 4)) = Done already_exists_error \<and>
   er_keyspace already_exists_error = [107] \<and>
   cass_error_result_keyspace already_exists_error = CASS_ERROR_LIB_INVALID_ERROR_RESULT_TYPE"
proof (intro conjI)
  let ?d = "Decoder_new already_exists (of_nat (length already_exists)) 4"
  show f: "fst (ErrorResponse_decode ?d) = Done already_exists_error"
    by (simp add: already_exists_def already_exists_error_def ErrorResponse_decode_def ErrorResponse_new_def decode_eval)
  have d: "ErrorResponse_decode ?d = (Done already_exists_error, snd (ErrorResponse_decode ?d))"
    by (rule prod_eqI) (simp_all only: fst_conv snd_conv f)
  have "0 \<le> sint (er_code already_exists_error)" "sint (er_code already_exists_error) < 2 ^ 24"
    by (simp_all add: already_exists_error_def)
  from error_accessors_always_fail [OF d this]
  show "cass_error_result_keyspace already_exists_error = CASS_ERROR_LIB_INVALID_ERROR_RESULT_TYPE" by (rule conjunct1)
  show "er_keyspace already_exists_error = [107]" by (simp add: already_exists_error_def)
qed

end
