(* ===== verification/Address.thy ===== *)
theory Address
  imports Prelude "HOL-Library.List_Lexorder"
begin

text \<open>
  Socket addresses: \<open>Address\<close> (\<open>address.hpp\<close>, \<open>address.cpp\<close>). The union of socket structures is a
  datatype with the fields that are ever compared: the port in host order, the IPv4 address as the
  32-bit integer \<open>s_addr\<close>, the sixteen bytes of an IPv6 address. The conversions to and from text go
  through libuv and are not modelled.
\<close>

datatype address = AddressUnspec | AddressIn u16 u32 | AddressIn6 u16 "byte list"

fun Address_family :: "address \<Rightarrow> int" where
  "Address_family AddressUnspec = 0"
| "Address_family (AddressIn _ _) = 2"
| "Address_family (AddressIn6 _ _) = 10"

fun Address_port :: "address \<Rightarrow> int" where
  "Address_port (AddressIn p _) = uint p"
| "Address_port (AddressIn6 p _) = uint p"
| "Address_port AddressUnspec = - 1"

definition Address_is_valid :: "address \<Rightarrow> bool" where
  "Address_is_valid a \<longleftrightarrow> Address_family a = 2 \<or> Address_family a = 10"

text \<open>\<open>memcmp\<close> of two arrays of the same length, up to the sign of the result.\<close>

definition memcmp :: "byte list \<Rightarrow> byte list \<Rightarrow> int" where
  "memcmp xs ys = (if xs < ys then - 1 else if xs = ys then 0 else 1)"

definition Address_compare :: "address \<Rightarrow> address \<Rightarrow> bool \<Rightarrow> int" where
  "Address_compare x a with_port =
     (if Address_family x \<noteq> Address_family a
      then if Address_family x < Address_family a then - 1 else 1
      else if with_port \<and> Address_port x \<noteq> Address_port a
      then if Address_port x < Address_port a then - 1 else 1
      else case (x, a) of
             (AddressIn _ s, AddressIn _ t) \<Rightarrow> if s \<noteq> t then if s < t then - 1 else 1 else 0
           | (AddressIn6 _ s, AddressIn6 _ t) \<Rightarrow> memcmp s t
           | _ \<Rightarrow> 0)"

text \<open>\<open>operator<\<close> and \<open>operator==\<close> are comparisons with the port.\<close>

instantiation address :: linorder
begin

definition less_address :: "address \<Rightarrow> address \<Rightarrow> bool" where
  "less_address a b \<longleftrightarrow> Address_compare a b True < 0"

definition less_eq_address :: "address \<Rightarrow> address \<Rightarrow> bool" where
  "less_eq_address a b \<longleftrightarrow> Address_compare a b True \<le> 0"

instance
proof
  fix x y z :: address
  show "x < y \<longleftrightarrow> x \<le> y \<and> \<not> y \<le> x"
    by (cases x; cases y)
      (auto simp: less_address_def less_eq_address_def Address_compare_def memcmp_def split: if_splits)
  show "x \<le> x" by (cases x) (auto simp: less_eq_address_def Address_compare_def memcmp_def)
  show "x \<le> y \<Longrightarrow> y \<le> z \<Longrightarrow> x \<le> z"
    by (cases x; cases y; cases z)
      (auto simp: less_eq_address_def Address_compare_def memcmp_def word_less_def split: if_splits)
  show "x \<le> y \<Longrightarrow> y \<le> x \<Longrightarrow> x = y"
    by (cases x; cases y)
      (auto simp: less_eq_address_def Address_compare_def memcmp_def word_uint_eq_iff split: if_splits)
  show "x \<le> y \<or> y \<le> x"
    by (cases x; cases y)
      (auto simp: less_eq_address_def Address_compare_def memcmp_def)
qed

end

definition Address_eq :: "address \<Rightarrow> address \<Rightarrow> bool" where
  "Address_eq a b \<longleftrightarrow> Address_compare a b True = 0"

lemma Address_eq_iff [simp]: "Address_eq a b \<longleftrightarrow> a = b"
proof
  assume "Address_eq a b"
  then have "a \<le> b" "\<not> a < b" by (simp_all add: Address_eq_def less_address_def less_eq_address_def)
  then show "a = b" by simp
next
  assume "a = b"
  then show "Address_eq a b" by (cases b) (auto simp: Address_eq_def Address_compare_def memcmp_def)
qed

end
