(* ===== verification/Host.thy ===== *)
theory Host
  imports Address
begin

text \<open>
  Hosts: \<open>Host\<close>, \<open>VersionNumber\<close> and the host vectors of \<open>host.hpp\<close> and \<open>host.cpp\<close>.

  Hosts are shared objects: policies, the token map and query plans hold pointers to them and see
  each other's changes. A pointer is a \<open>host_ptr\<close>, the objects are in a heap. A \<open>CopyOnWriteHostVec\<close>
  is copied before it is changed, so it is a value: the list of its pointers. The running average of
  the latency tracker is computed in floating point; that computation is the argument \<open>mix\<close>.
\<close>

subsection \<open>Versions\<close>

record version_number =
  major_version :: int
  minor_version :: int
  patch_version :: int

definition VersionNumber :: "int \<Rightarrow> int \<Rightarrow> int \<Rightarrow> version_number" where
  "VersionNumber a b c = \<lparr>major_version = a, minor_version = b, patch_version = c\<rparr>"

definition VersionNumber_compare :: "version_number \<Rightarrow> version_number \<Rightarrow> int" where
  "VersionNumber_compare v other =
     (if major_version v < major_version other then - 1
      else if major_version v > major_version other then 1
      else if minor_version v < minor_version other then - 1
      else if minor_version v > minor_version other then 1
      else if patch_version v < patch_version other then - 1
      else if patch_version v > patch_version other then 1
      else 0)"

definition VersionNumber_ge :: "version_number \<Rightarrow> version_number \<Rightarrow> bool" where
  "VersionNumber_ge v other \<longleftrightarrow> VersionNumber_compare v other \<ge> 0"

subsection \<open>Latency tracking\<close>

record timestamped_average =
  average :: i64
  timestamp :: u64
  num_measured :: u64

definition TimestampedAverage_new :: timestamped_average where
  "TimestampedAverage_new = \<lparr>average = - 1, timestamp = 0, num_measured = 0\<rparr>"

record latency_tracker =
  scale_ns :: u64
  threshold_to_account :: u64
  current :: timestamped_average

text \<open>\<open>mix scale delay latency previous\<close> is the weighted average
  \<open>(1 - weight) * latency + weight * previous\<close> with
  \<open>weight = log (delay / scale + 1) / (delay / scale)\<close>, truncated.\<close>

definition LatencyTracker_update ::
    "(u64 \<Rightarrow> i64 \<Rightarrow> u64 \<Rightarrow> i64 \<Rightarrow> i64) \<Rightarrow> u64 \<Rightarrow> u64 \<Rightarrow> latency_tracker \<Rightarrow> latency_tracker" where
  "LatencyTracker_update mix now latency_ns tracker =
     (let previous = current tracker;
          delay = now - timestamp previous;
          finish = (\<lambda>avg. tracker\<lparr>current :=
            \<lparr>average = avg, timestamp = now, num_measured = num_measured previous + 1\<rparr>\<rparr>)
      in if num_measured previous < threshold_to_account tracker then finish (- 1)
         else if sint (average previous) < 0 then finish latency_ns
         else if sint delay \<le> 0 then tracker
         else finish (mix (scale_ns tracker) delay latency_ns (average previous)))"

subsection \<open>Host objects\<close>

datatype host_state = ADDED | UP | DOWN

record host =
  host_address :: address
  rack_id :: u32
  dc_id :: u32
  mark :: bool
  host_state :: host_state
  hostname :: string
  rack :: string
  dc :: string
  listen_address :: string
  cassandra_version :: version_number
  latency :: "latency_tracker option"

definition Host_new :: "address \<Rightarrow> bool \<Rightarrow> host" where
  "Host_new addr mk =
     \<lparr>host_address = addr, rack_id = 0, dc_id = 0, mark = mk, host_state = ADDED, hostname = [],
      rack = [], dc = [], listen_address = [], cassandra_version = VersionNumber 0 0 0, latency = None\<rparr>"

definition Host_is_up :: "host \<Rightarrow> bool" where
  "Host_is_up host \<longleftrightarrow> host_state host = UP"

definition Host_set_up :: "host \<Rightarrow> host" where
  "Host_set_up host = host\<lparr>host_state := UP\<rparr>"

definition Host_set_down :: "host \<Rightarrow> host" where
  "Host_set_down host = host\<lparr>host_state := DOWN\<rparr>"

definition Host_set_hostname :: "string \<Rightarrow> host \<Rightarrow> host" where
  "Host_set_hostname name host =
     (if name \<noteq> [] \<and> name ! (length name - 1) = CHR ''.''
      then host\<lparr>hostname := take (length name - 1) name\<rparr>
      else host\<lparr>hostname := name\<rparr>)"

definition Host_set_rack_and_dc :: "string \<Rightarrow> string \<Rightarrow> host \<Rightarrow> host" where
  "Host_set_rack_and_dc rk d host = host\<lparr>rack := rk, dc := d\<rparr>"

definition Host_set_rack_and_dc_ids :: "u32 \<Rightarrow> u32 \<Rightarrow> host \<Rightarrow> host" where
  "Host_set_rack_and_dc_ids rk d host = host\<lparr>rack_id := rk, dc_id := d\<rparr>"

definition Host_enable_latency_tracking :: "u64 \<Rightarrow> u64 \<Rightarrow> host \<Rightarrow> host" where
  "Host_enable_latency_tracking scale min_measured host =
     (case latency host of
        None \<Rightarrow> host\<lparr>latency := Some \<lparr>scale_ns = scale,
          threshold_to_account = 30 * min_measured div 100, current = TimestampedAverage_new\<rparr>\<rparr>
      | Some _ \<Rightarrow> host)"

definition Host_update_latency ::
    "(u64 \<Rightarrow> i64 \<Rightarrow> u64 \<Rightarrow> i64 \<Rightarrow> i64) \<Rightarrow> u64 \<Rightarrow> u64 \<Rightarrow> host \<Rightarrow> host" where
  "Host_update_latency mix now latency_ns host =
     host\<lparr>latency := map_option (LatencyTracker_update mix now latency_ns) (latency host)\<rparr>"

definition Host_get_current_average :: "host \<Rightarrow> timestamped_average" where
  "Host_get_current_average host =
     (case latency host of Some tracker \<Rightarrow> current tracker | None \<Rightarrow> TimestampedAverage_new)"

subsection \<open>Host vectors\<close>

type_synonym host_ptr = nat
type_synonym heap = "host_ptr \<Rightarrow> host"

fun add_host :: "heap \<Rightarrow> host_ptr list \<Rightarrow> host_ptr \<Rightarrow> host_ptr list" where
  "add_host h [] p = [p]"
| "add_host h (q # hosts) p =
     (if Address_eq (host_address (h q)) (host_address (h p)) then p # hosts
      else q # add_host h hosts p)"

fun remove_host :: "heap \<Rightarrow> host_ptr list \<Rightarrow> host_ptr \<Rightarrow> host_ptr list" where
  "remove_host h [] p = []"
| "remove_host h (q # hosts) p =
     (if Address_eq (host_address (h q)) (host_address (h p)) then hosts
      else q # remove_host h hosts p)"

text \<open>The addresses of a host vector; most of them hold no address twice.\<close>

abbreviation addr :: "heap \<Rightarrow> host_ptr \<Rightarrow> address" where
  "addr h p \<equiv> host_address (h p)"

definition unique_hosts :: "heap \<Rightarrow> host_ptr list \<Rightarrow> bool" where
  "unique_hosts h hosts \<longleftrightarrow> distinct (map (addr h) hosts)"

lemma addresses_add_host: "addr h ` set (add_host h hosts p) = insert (addr h p) (addr h ` set hosts)"
  by (induction h hosts p rule: add_host.induct) auto

lemma unique_add_host: "unique_hosts h hosts \<Longrightarrow> unique_hosts h (add_host h hosts p)"
proof (induction h hosts p rule: add_host.induct)
  case (2 h q hosts p)
  show ?case
  proof (cases "addr h q = addr h p")
    case False
    have "addr h q \<notin> addr h ` set (add_host h hosts p)"
      using 2(2) False unfolding addresses_add_host by (simp add: unique_hosts_def)
    then show ?thesis using 2 False by (simp add: unique_hosts_def)
  qed (use 2 in \<open>simp add: unique_hosts_def\<close>)
qed (simp add: unique_hosts_def)

lemma in_add_host: "p \<in> set (add_host h hosts p)"
  by (induction h hosts p rule: add_host.induct) auto

lemma add_host_others: "addr h q \<noteq> addr h p \<Longrightarrow> q \<in> set (add_host h hosts p) \<longleftrightarrow> q \<in> set hosts"
  by (induction h hosts p rule: add_host.induct) auto

lemma remove_host_subset: "set (remove_host h hosts p) \<subseteq> set hosts"
  by (induction h hosts p rule: remove_host.induct) auto

lemma unique_remove_host: "unique_hosts h hosts \<Longrightarrow> unique_hosts h (remove_host h hosts p)"
proof (induction h hosts p rule: remove_host.induct)
  case (2 h q hosts p)
  have "addr h q \<in> addr h ` set (remove_host h hosts p) \<Longrightarrow> addr h q \<in> addr h ` set hosts"
    using remove_host_subset [of h hosts p] by blast
  then show ?case using 2 by (cases "addr h q = addr h p") (simp_all add: unique_hosts_def, blast)
qed (simp add: unique_hosts_def)

lemma addresses_remove_host:
  "unique_hosts h hosts \<Longrightarrow> addr h ` set (remove_host h hosts p) = addr h ` set hosts - {addr h p}"
proof (induction h hosts p rule: remove_host.induct)
  case (2 h q hosts p)
  then show ?case by (cases "addr h q = addr h p") (simp_all add: unique_hosts_def insert_Diff_if)
qed simp

lemma remove_host_others: "addr h q \<noteq> addr h p \<Longrightarrow> q \<in> set (remove_host h hosts p) \<longleftrightarrow> q \<in> set hosts"
  by (induction h hosts p rule: remove_host.induct) auto

subsection \<open>The interface of a host vector\<close>

text \<open>What the policies rely on: as long as no address is there twice, adding and removing are the
  insertion and deletion of an address.\<close>

locale host_vector =
  fixes inv :: "'v \<Rightarrow> bool" and addresses :: "'v \<Rightarrow> address set"
    and add :: "'v \<Rightarrow> host_ptr \<Rightarrow> 'v" and remove :: "'v \<Rightarrow> host_ptr \<Rightarrow> 'v" and at :: "host_ptr \<Rightarrow> address"
  assumes inv_add: "inv v \<Longrightarrow> inv (add v p)" and inv_remove: "inv v \<Longrightarrow> inv (remove v p)"
    and addresses_add: "inv v \<Longrightarrow> addresses (add v p) = insert (at p) (addresses v)"
    and addresses_remove: "inv v \<Longrightarrow> addresses (remove v p) = addresses v - {at p}"
begin

text \<open>A host that goes down and comes up again is there, and only its own events matter to it.\<close>

lemma down_then_up: "inv v \<Longrightarrow> addresses (add (remove v p) p) = insert (at p) (addresses v)"
  by (simp add: inv_remove addresses_add addresses_remove)

lemma other_hosts_unaffected:
  "inv v \<Longrightarrow> at q \<noteq> at p \<Longrightarrow> (at q \<in> addresses (add v p)) = (at q \<in> addresses v) \<and>
     (at q \<in> addresses (remove v p)) = (at q \<in> addresses v)"
  by (simp add: addresses_add addresses_remove)

end

interpretation host_vec: host_vector "unique_hosts h" "\<lambda>hosts. addr h ` set hosts"
    "add_host h" "remove_host h" "addr h" for h
  by unfold_locales
    (simp_all only: unique_add_host unique_remove_host addresses_add_host addresses_remove_host)

end
