(* ===== verification/Frame.thy ===== *)
theory Frame
  imports Responses Host
begin

text \<open>
  Frames: \<open>ResponseMessage\<close> (\<open>response.hpp\<close>, \<open>response.cpp\<close>), which assembles one response from the
  pieces that arrive from the socket, and the loop of \<open>Connection::consume\<close> around it.

  The header and body buffers are the bytes copied into them so far. \<open>memcpy\<close> from beyond the input or
  to beyond the end of a buffer is the result \<open>Overrun\<close>.
\<close>

subsection \<open>Bodies\<close>

datatype 'addr response_body =
  ErrorBody error_response
| ReadyBody
| AuthenticateBody "byte list"
| SupportedBody supported_response
| ResultBody result_response
| EventBody "'addr event_response"
| AuthChallengeBody "byte list"
| AuthSuccessBody "byte list"

abbreviation CQL_OPCODE_ERROR :: u8 where "CQL_OPCODE_ERROR \<equiv> 0x00"
abbreviation CQL_OPCODE_READY :: u8 where "CQL_OPCODE_READY \<equiv> 0x02"
abbreviation CQL_OPCODE_AUTHENTICATE :: u8 where "CQL_OPCODE_AUTHENTICATE \<equiv> 0x03"
abbreviation CQL_OPCODE_SUPPORTED :: u8 where "CQL_OPCODE_SUPPORTED \<equiv> 0x06"
abbreviation CQL_OPCODE_RESULT :: u8 where "CQL_OPCODE_RESULT \<equiv> 0x08"
abbreviation CQL_OPCODE_EVENT :: u8 where "CQL_OPCODE_EVENT \<equiv> 0x0C"
abbreviation CQL_OPCODE_AUTH_CHALLENGE :: u8 where "CQL_OPCODE_AUTH_CHALLENGE \<equiv> 0x0E"
abbreviation CQL_OPCODE_AUTH_SUCCESS :: u8 where "CQL_OPCODE_AUTH_SUCCESS \<equiv> 0x10"

definition allocate_body :: "u8 \<Rightarrow> bool" where
  "allocate_body opcode \<longleftrightarrow>
     opcode = CQL_OPCODE_ERROR \<or> opcode = CQL_OPCODE_READY \<or> opcode = CQL_OPCODE_AUTHENTICATE \<or>
     opcode = CQL_OPCODE_SUPPORTED \<or> opcode = CQL_OPCODE_RESULT \<or> opcode = CQL_OPCODE_EVENT \<or>
     opcode = CQL_OPCODE_AUTH_CHALLENGE \<or> opcode = CQL_OPCODE_AUTH_SUCCESS"

type_synonym 'addr from_inet = "byte option list \<Rightarrow> u8 \<Rightarrow> i32 \<Rightarrow> 'addr option"

definition decode_body :: "'addr from_inet \<Rightarrow> u8 \<Rightarrow> 'addr response_body reader" where
  "decode_body from_inet opcode =
     (if opcode = CQL_OPCODE_ERROR then and_then ErrorResponse_decode (succeed \<circ> ErrorBody)
      else if opcode = CQL_OPCODE_READY then succeed ReadyBody
      else if opcode = CQL_OPCODE_AUTHENTICATE then and_then AuthenticateResponse_decode (succeed \<circ> AuthenticateBody)
      else if opcode = CQL_OPCODE_SUPPORTED then and_then SupportedResponse_decode (succeed \<circ> SupportedBody)
      else if opcode = CQL_OPCODE_RESULT then and_then ResultResponse_decode (succeed \<circ> ResultBody)
      else if opcode = CQL_OPCODE_EVENT then and_then (EventResponse_decode from_inet) (succeed \<circ> EventBody)
      else if opcode = CQL_OPCODE_AUTH_CHALLENGE then and_then AuthChallengeResponse_decode (succeed \<circ> AuthChallengeBody)
      else if opcode = CQL_OPCODE_AUTH_SUCCESS then and_then AuthSuccessResponse_decode (succeed \<circ> AuthSuccessBody)
      else reject)"

record 'addr message_body =
  mb_warnings :: "byte list list"
  mb_payload :: "(byte list \<times> byte list option) list"
  mb_body :: "'addr response_body"

abbreviation CASS_FLAG_CUSTOM_PAYLOAD :: u8 where "CASS_FLAG_CUSTOM_PAYLOAD \<equiv> 0x04"
abbreviation CASS_FLAG_WARNING :: u8 where "CASS_FLAG_WARNING \<equiv> 0x08"

definition decode_frame_body :: "'addr from_inet \<Rightarrow> u8 \<Rightarrow> u8 \<Rightarrow> 'addr message_body reader" where
  "decode_frame_body from_inet flags opcode =
     and_then (if flags AND CASS_FLAG_WARNING \<noteq> 0 then Decoder_decode_warnings else succeed []) (\<lambda>warnings.
       and_then (if flags AND CASS_FLAG_CUSTOM_PAYLOAD \<noteq> 0 then Decoder_decode_custom_payload else succeed []) (\<lambda>payload.
         and_then (decode_body from_inet opcode) (\<lambda>body.
           succeed \<lparr>mb_warnings = warnings, mb_payload = payload, mb_body = body\<rparr>)))"

subsection \<open>Assembling a response\<close>

record 'addr response_message =
  rm_version :: u8
  rm_flags :: u8
  rm_stream :: i16
  rm_opcode :: u8
  rm_length :: i32
  rm_received :: nat
  rm_header_size :: nat
  rm_is_header_received :: bool
  rm_header :: "byte list"
  rm_is_body_ready :: bool
  rm_response_body :: "'addr message_body option"
  rm_body :: "byte list"

definition ResponseMessage_new :: "'addr response_message" where
  "ResponseMessage_new =
     \<lparr>rm_version = 0, rm_flags = 0, rm_stream = 0, rm_opcode = 0, rm_length = 0, rm_received = 0, rm_header_size = 0,
      rm_is_header_received = False, rm_header = [], rm_is_body_ready = False, rm_response_body = None, rm_body = []\<rparr>"

text \<open>Subtraction of \<open>size_t\<close>, which wraps.\<close>

definition size_minus :: "nat \<Rightarrow> nat \<Rightarrow> nat" where
  "size_minus a b = unat (of_nat a - of_nat b :: u64)"

definition header_size_of :: "u8 \<Rightarrow> nat" where
  "header_size_of version = (if version \<ge> 3 then 9 else 8)"

text \<open>The fields of a complete header. \<open>stream_ = *(buffer++)\<close> extends the sign of a \<open>char\<close>.\<close>

definition parse_header :: "byte list \<Rightarrow> 'addr response_message \<Rightarrow> 'addr response_message" where
  "parse_header h m =
     (let (stream, rest) = (if rm_version m \<ge> 3
                            then (case decode_int16 (drop 2 h) of Some (s, r) \<Rightarrow> (s, r) | None \<Rightarrow> (0, []))
                            else (scast (h ! 2), drop 3 h))
      in m\<lparr>rm_flags := h ! 1, rm_stream := stream, rm_opcode := rest ! 0,
           rm_length := (case decode_int32 (drop 1 rest) of Some (n, _) \<Rightarrow> n | None \<Rightarrow> 0)\<rparr>)"

datatype 'm decode_result = Consumed nat 'm | Failed | Overrun | Threw

definition decode_version :: "byte list \<Rightarrow> 'addr response_message \<Rightarrow> 'addr response_message" where
  "decode_version input m =
     (if rm_version m = 0
      then m\<lparr>rm_version := input ! 0 AND 0x7F, rm_header_size := header_size_of (input ! 0 AND 0x7F)\<rparr> else m)"

text \<open>The second half of \<open>decode\<close>, with the header known: \<open>rest\<close> is what follows it in the input and
  \<open>used\<close> how much of the input came before.\<close>

definition decode_rest ::
    "'addr from_inet \<Rightarrow> nat \<Rightarrow> byte list \<Rightarrow> 'addr response_message \<Rightarrow> 'addr response_message decode_result" where
  "decode_rest from_inet used rest m =
     (let frame_size = unat (of_nat (rm_header_size m) + scast (rm_length m) :: u64);
          remaining = length rest
      in if rm_received m \<ge> frame_size
         then let overage = rm_received m - frame_size;
                  needed = size_minus remaining overage
              in if needed > remaining \<or> length (rm_body m) + needed > unat (scast (rm_length m) :: u64) then Overrun
                 else let body = rm_body m @ take needed rest
                      in (case decode_frame_body from_inet (rm_flags m) (rm_opcode m)
                                 (Decoder_new body (scast (rm_length m)) (uint (rm_version m))) of
                            (Done b, _) \<Rightarrow> Consumed (used + needed)
                              (m\<lparr>rm_body := body, rm_response_body := Some b, rm_is_body_ready := True\<rparr>)
                          | (Rejected, _) \<Rightarrow> Failed
                          | (Out_of_bounds, _) \<Rightarrow> Overrun
                          | (Length_error, _) \<Rightarrow> Threw)
         else if length (rm_body m) + remaining > unat (scast (rm_length m) :: u64) then Overrun
         else Consumed (used + remaining) (m\<lparr>rm_body := rm_body m @ rest\<rparr>))"

definition ResponseMessage_decode ::
    "'addr from_inet \<Rightarrow> byte list \<Rightarrow> 'addr response_message \<Rightarrow> 'addr response_message decode_result" where
  "ResponseMessage_decode from_inet input m0 =
     (let size = length input;
          m1 = m0\<lparr>rm_received := rm_received m0 + size\<rparr>
      in if rm_is_header_received m1 then decode_rest from_inet 0 input m1
         else if rm_version m1 = 0 \<and> rm_received m1 < 1 then Failed
         else let m2 = decode_version input m1
              in if rm_received m2 \<ge> rm_header_size m2
                 then let overage = rm_received m2 - rm_header_size m2;
                          needed = size_minus size overage;
                          header = rm_header m2 @ take needed input
                      in if needed > size \<or> length header > 9 then Overrun
                         else let m3 = (parse_header header m2)\<lparr>rm_header := header, rm_is_header_received := True\<rparr>
                              in if \<not> allocate_body (rm_opcode m3) then Failed
                                 else decode_rest from_inet needed (drop needed input) m3
                 else if length (rm_header m2) + size > 9 then Overrun
                 else Consumed size (m2\<lparr>rm_header := rm_header m2 @ input\<rparr>))"

subsection \<open>The read loop\<close>

text \<open>The loop of \<open>Connection::consume\<close> on the bytes of one read, up to what is done with a response, which
  theory \<open>Connection\<close> has: complete responses are handed on in order. The loop is left when a response
  cannot be decoded, which closes the connection.\<close>

text \<open>What is read of a complete response: flags, stream, opcode and body.\<close>

type_synonym 'addr response = "u8 \<times> i16 \<times> u8 \<times> 'addr message_body option"

definition observe :: "'addr response_message \<Rightarrow> 'addr response" where
  "observe m = (rm_flags m, rm_stream m, rm_opcode m, rm_response_body m)"

datatype ('r, 'm) consume_result = Delivered "'r list" 'm | Broken "'r list" | Corrupted

fun deliver :: "'r list \<Rightarrow> ('r, 'm) consume_result \<Rightarrow> ('r, 'm) consume_result" where
  "deliver ms (Delivered ms' m) = Delivered (ms @ ms') m"
| "deliver ms (Broken ms') = Broken (ms @ ms')"
| "deliver ms Corrupted = Corrupted"

function consume_loop ::
    "'addr from_inet \<Rightarrow> byte list \<Rightarrow> 'addr response_message \<Rightarrow> ('addr response, 'addr response_message) consume_result" where
  "consume_loop from_inet input m =
     (if input = [] then Delivered [] m
      else case ResponseMessage_decode from_inet input m of
             Consumed n m' \<Rightarrow>
               if n = 0 then Broken []
               else if rm_is_body_ready m'
               then deliver [observe m'] (consume_loop from_inet (drop n input) ResponseMessage_new)
               else consume_loop from_inet (drop n input) m'
           | Failed \<Rightarrow> Broken []
           | Overrun \<Rightarrow> Corrupted
           | Threw \<Rightarrow> Corrupted)"
  by pat_completeness auto
termination
  by (relation "measure (\<lambda>(f, input, m). length input)") auto

declare consume_loop.simps [simp del]


subsection \<open>The reference parser\<close>

text \<open>What the bytes received since the start of a frame say, without regard to how they arrived.\<close>

abbreviation frame_version :: "byte list \<Rightarrow> u8" where
  "frame_version bs \<equiv> bs ! 0 AND 0x7F"

definition partial_message :: "byte list \<Rightarrow> 'addr response_message" where
  "partial_message bs =
     (if bs = [] then ResponseMessage_new
      else let hs = header_size_of (frame_version bs);
               m = ResponseMessage_new\<lparr>rm_version := frame_version bs, rm_header_size := hs, rm_received := length bs\<rparr>
           in if length bs < hs then m\<lparr>rm_header := bs\<rparr>
              else (parse_header (take hs bs) m)\<lparr>rm_header := take hs bs, rm_is_header_received := True, rm_body := drop hs bs\<rparr>)"

abbreviation has_header :: "byte list \<Rightarrow> bool" where
  "has_header bs \<equiv> bs \<noteq> [] \<and> header_size_of (frame_version bs) \<le> length bs"

text \<open>The fields of the header of a frame, for which the type of addresses does not matter.\<close>

definition header_fields :: "byte list \<Rightarrow> unit response_message" where
  "header_fields bs = parse_header (take (header_size_of (frame_version bs)) bs)
     (ResponseMessage_new\<lparr>rm_version := frame_version bs\<rparr>)"

definition frame_size :: "byte list \<Rightarrow> nat" where
  "frame_size bs = header_size_of (frame_version bs) + nat (sint (rm_length (header_fields bs)))"

definition frame_body :: "byte list \<Rightarrow> byte list" where
  "frame_body bs = drop (header_size_of (frame_version bs)) (take (frame_size bs) bs)"

text \<open>The version is not 0 and no length is negative.\<close>

definition sound_frame :: "byte list \<Rightarrow> bool" where
  "sound_frame bs \<longleftrightarrow> bs \<noteq> [] \<longrightarrow> frame_version bs \<noteq> 0 \<and>
     (has_header bs \<longrightarrow> 0 \<le> sint (rm_length (header_fields bs)))"

lemma header_size_pos: "0 < header_size_of v" "header_size_of v \<le> 9"
  by (auto simp: header_size_of_def)

lemma frame_size_pos: "0 < frame_size bs"
  using header_size_pos by (simp add: frame_size_def)

function frames :: "'addr from_inet \<Rightarrow> byte list \<Rightarrow> ('addr response, 'addr response_message) consume_result" where
  "frames from_inet bs =
     (if \<not> has_header bs then Delivered [] (partial_message bs)
      else if \<not> allocate_body (rm_opcode (header_fields bs)) then Broken []
      else if length bs < frame_size bs then Delivered [] (partial_message bs)
      else let m = header_fields bs
           in case decode_frame_body from_inet (rm_flags m) (rm_opcode m)
                     (Decoder_new (frame_body bs) (scast (rm_length m)) (uint (frame_version bs))) of
                (Done b, _) \<Rightarrow>
                  deliver [(rm_flags m, rm_stream m, rm_opcode m, Some b)]
                    (frames from_inet (drop (frame_size bs) bs))
              | (Rejected, _) \<Rightarrow> Broken []
              | (Out_of_bounds, _) \<Rightarrow> Corrupted
              | (Length_error, _) \<Rightarrow> Corrupted)"
  by pat_completeness auto
termination
  by (relation "measure (\<lambda>(f, bs). length bs)") (use frame_size_pos in auto)

declare frames.simps [simp del]

subsection \<open>The code implements the parser\<close>

lemma parse_header_simps [simp]:
  "rm_version (parse_header h m) = rm_version m" "rm_received (parse_header h m) = rm_received m"
  "rm_header_size (parse_header h m) = rm_header_size m" "rm_is_header_received (parse_header h m) = rm_is_header_received m"
  "rm_header (parse_header h m) = rm_header m" "rm_is_body_ready (parse_header h m) = rm_is_body_ready m"
  "rm_response_body (parse_header h m) = rm_response_body m" "rm_body (parse_header h m) = rm_body m"
  by (simp_all add: parse_header_def Let_def split_def)

lemma parse_header_cong:
  "rm_version m = rm_version m' \<Longrightarrow> rm_flags (parse_header h m) = rm_flags (parse_header h m')"
  "rm_version m = rm_version m' \<Longrightarrow> rm_stream (parse_header h m) = rm_stream (parse_header h m')"
  "rm_version m = rm_version m' \<Longrightarrow> rm_opcode (parse_header h m) = rm_opcode (parse_header h m')"
  "rm_version m = rm_version m' \<Longrightarrow> rm_length (parse_header h m) = rm_length (parse_header h m')"
  by (simp_all add: parse_header_def Let_def split_def)

lemma parse_header_update:
  "parse_header h (m\<lparr>rm_received := n\<rparr>) = (parse_header h m)\<lparr>rm_received := n\<rparr>"
  "parse_header h (m\<lparr>rm_header := hh\<rparr>) = (parse_header h m)\<lparr>rm_header := hh\<rparr>"
  by (simp_all add: parse_header_def Let_def split_def)

lemma header_fields_eq:
  "rm_version m = frame_version bs \<Longrightarrow> h = take (header_size_of (frame_version bs)) bs \<Longrightarrow>
    rm_opcode (parse_header h m) = rm_opcode (header_fields bs) \<and> rm_length (parse_header h m) = rm_length (header_fields bs) \<and>
    rm_flags (parse_header h m) = rm_flags (header_fields bs) \<and> rm_stream (parse_header h m) = rm_stream (header_fields bs)"
  by (simp add: header_fields_def parse_header_def Let_def split_def)

lemma size_minus_eq:
  assumes "b \<le> a" "a < 2 ^ 64"
  shows "size_minus a b = a - b"
proof -
  have "(of_nat a - of_nat b :: u64) = of_nat (a - b)" using assms by (simp add: of_nat_diff)
  then show ?thesis unfolding size_minus_def using assms(2) by (simp only: unat_of_nat) simp
qed

lemma frame_size_word:
  assumes "0 \<le> sint (n :: i32)" "h \<le> 9"
  shows "unat (of_nat h + scast n :: u64) = h + nat (sint n)"
proof -
  have u: "unat (scast n :: u64) = nat (sint n)" using assms(1) by (intro unat_scast_nonneg) simp_all
  have "sint n < 2 ^ 31" using sint_less [of n] by simp
  then have n: "nat (sint n) < 2 ^ 31" using assms(1) by simp
  have h: "unat (of_nat h :: u64) = h" using assms(2) by (simp add: unat_of_nat take_bit_eq_mod)
  have "unat (of_nat h :: u64) + unat (scast n :: u64) < 2 ^ LENGTH(64)" using n h u assms(2) by simp
  then show ?thesis using unat_add_lem [of "of_nat h :: u64" "scast n :: u64"] u h by simp
qed

lemma frame_version_append: "p \<noteq> [] \<Longrightarrow> frame_version (p @ xs) = frame_version p"
  by (simp add: nth_append)

lemma decode_rest_eq:
  fixes m :: "'addr response_message"
  assumes hs: "rm_header_size m = header_size_of (frame_version bs)" and rcv: "rm_received m = length bs"
    and body: "rm_body m @ rest = drop (header_size_of (frame_version bs)) bs"
    and len: "rm_length m = rm_length (header_fields bs)" and nn: "0 \<le> sint (rm_length (header_fields bs))"
    and hd: "header_size_of (frame_version bs) \<le> length bs" and lim: "length bs < 2 ^ 64"
    and got: "header_size_of (frame_version bs) + length (rm_body m) \<le> frame_size bs"
  shows "decode_rest f used rest m =
    (if length bs < frame_size bs then Consumed (used + length rest) (m\<lparr>rm_body := drop (header_size_of (frame_version bs)) bs\<rparr>)
     else case decode_frame_body f (rm_flags m) (rm_opcode m)
                 (Decoder_new (frame_body bs) (scast (rm_length m)) (uint (rm_version m))) of
            (Done b, _) \<Rightarrow> Consumed (used + (frame_size bs - (length bs - length rest)))
              (m\<lparr>rm_body := frame_body bs, rm_response_body := Some b, rm_is_body_ready := True\<rparr>)
          | (Rejected, _) \<Rightarrow> Failed
          | (Out_of_bounds, _) \<Rightarrow> Overrun
          | (Length_error, _) \<Rightarrow> Threw)"
proof -
  let ?hs = "header_size_of (frame_version bs)"
  have lb: "length (rm_body m) + length rest = length bs - ?hs" using arg_cong [OF body, of length] by simp
  have fs: "unat (of_nat (rm_header_size m) + scast (rm_length m) :: u64) = frame_size bs"
    unfolding hs len frame_size_def by (rule frame_size_word [OF nn header_size_pos(2)])
  have un: "unat (scast (rm_length m) :: u64) = frame_size bs - ?hs"
    unfolding len frame_size_def using nn by (subst unat_scast_nonneg) simp_all
  show ?thesis
  proof (cases "length bs < frame_size bs")
    case True
    then show ?thesis using lb hd by (simp add: decode_rest_def fs un rcv body Let_def)
  next
    case False
    have le: "length bs - frame_size bs \<le> length rest" using False lb got hd by simp
    have nd: "size_minus (length rest) (length bs - frame_size bs) = frame_size bs - (length bs - length rest)"
      using le lb lim hd got False by (subst size_minus_eq) simp_all
    let ?n = "frame_size bs - (length bs - length rest)"
    have n: "?n \<le> length rest" "length (rm_body m) + ?n = frame_size bs - ?hs" using False lb got hd by simp_all
    have "rm_body m @ take ?n rest = take (frame_size bs - ?hs) (rm_body m @ rest)" using n(2) by (simp flip: n(2))
    also have "\<dots> = frame_body bs" unfolding body frame_body_def by (simp add: drop_take)
    finally have b: "rm_body m @ take ?n rest = frame_body bs" .
    show ?thesis using False n unfolding decode_rest_def Let_def fs un rcv nd b by simp
  qed
qed


text \<open>Bytes that do not yet make a frame.\<close>

definition incomplete :: "byte list \<Rightarrow> bool" where
  "incomplete p \<longleftrightarrow> (has_header p \<longrightarrow> allocate_body (rm_opcode (header_fields p)) \<and> length p < frame_size p)"

lemma header_fields_append: "has_header p \<Longrightarrow> header_fields (p @ xs) = header_fields p"
  by (simp add: header_fields_def nth_append)

lemma frame_size_append: "has_header p \<Longrightarrow> frame_size (p @ xs) = frame_size p"
  by (simp add: frame_size_def header_fields_append frame_version_append)

lemma partial_message_simps:
  "rm_version (partial_message p) = (if p = [] then 0 else frame_version p)"
  "rm_received (partial_message p) = length p"
  "rm_header_size (partial_message p) = (if p = [] then 0 else header_size_of (frame_version p))"
  "rm_is_header_received (partial_message p) = has_header p"
  "rm_is_body_ready (partial_message p) = False"
  "rm_body (partial_message p) = (if has_header p then drop (header_size_of (frame_version p)) p else [])"
  "has_header p \<Longrightarrow> rm_length (partial_message p) = rm_length (header_fields p)"
  "has_header p \<Longrightarrow> rm_opcode (partial_message p) = rm_opcode (header_fields p)"
  "has_header p \<Longrightarrow> rm_flags (partial_message p) = rm_flags (header_fields p)"
  "has_header p \<Longrightarrow> rm_stream (partial_message p) = rm_stream (header_fields p)"
  using header_fields_eq [of "partial_message p" p "take (header_size_of (frame_version p)) p"]
  by (simp_all add: partial_message_def ResponseMessage_new_def Let_def header_fields_eq not_le)

lemma partial_message_more:
  "has_header p \<Longrightarrow> (partial_message p)\<lparr>rm_received := length (p @ xs), rm_body := drop (header_size_of (frame_version (p @ xs))) (p @ xs)\<rparr>
     = partial_message (p @ xs)"
  by (simp add: partial_message_def Let_def nth_append parse_header_update)

definition finished :: "'addr message_body \<Rightarrow> byte list \<Rightarrow> 'addr response_message \<Rightarrow> 'addr response_message" where
  "finished b bs m = m\<lparr>rm_body := frame_body bs, rm_response_body := Some b, rm_is_body_ready := True\<rparr>"

definition frame_step :: "'addr from_inet \<Rightarrow> nat \<Rightarrow> byte list \<Rightarrow> 'addr response_message \<Rightarrow> 'addr response_message decode_result" where
  "frame_step f k bs m =
     (if length bs < frame_size bs then Consumed (length bs - k) (partial_message bs)
      else case decode_frame_body f (rm_flags (header_fields bs)) (rm_opcode (header_fields bs))
                 (Decoder_new (frame_body bs) (scast (rm_length (header_fields bs))) (uint (frame_version bs))) of
            (Done b, _) \<Rightarrow> Consumed (frame_size bs - k) (finished b bs m)
          | (Rejected, _) \<Rightarrow> Failed
          | (Out_of_bounds, _) \<Rightarrow> Overrun
          | (Length_error, _) \<Rightarrow> Threw)"

lemma decode_in_body:
  assumes h: "has_header p" and inc: "incomplete p" and s: "sound_frame (p @ input)" and lim: "length (p @ input) < 2 ^ 64"
  shows "ResponseMessage_decode f input (partial_message p) =
    frame_step f (length p) (p @ input) ((partial_message p)\<lparr>rm_received := length (p @ input)\<rparr>)"
proof -
  let ?bs = "p @ input"
  let ?m = "(partial_message p)\<lparr>rm_received := length ?bs\<rparr>"
  have hb: "has_header ?bs" using h by (simp add: nth_append)
  have nn: "0 \<le> sint (rm_length (header_fields ?bs))" using s hb unfolding sound_frame_def by blast
  have fv: "frame_version ?bs = frame_version p" using h by (simp add: nth_append)
  have ls: "length p < frame_size ?bs" using inc h by (simp add: incomplete_def frame_size_append)
  have fld: "rm_flags ?m = rm_flags (header_fields ?bs)" "rm_opcode ?m = rm_opcode (header_fields ?bs)"
    "rm_length ?m = rm_length (header_fields ?bs)" "rm_version ?m = frame_version ?bs"
    using h by (simp_all add: partial_message_simps header_fields_append fv)
  have "ResponseMessage_decode f input (partial_message p) = decode_rest f 0 input ?m"
    using h by (simp add: ResponseMessage_decode_def Let_def partial_message_simps)
  also have "\<dots> = frame_step f (length p) ?bs ?m"
  proof (subst decode_rest_eq [where bs = ?bs])
    show "rm_body ?m @ input = drop (header_size_of (frame_version ?bs)) ?bs"
      using h by (simp add: partial_message_simps fv)
    show "header_size_of (frame_version ?bs) + length (rm_body ?m) \<le> frame_size ?bs"
      using h ls by (simp add: partial_message_simps fv)
    show "rm_header_size ?m = header_size_of (frame_version ?bs)" using h by (simp add: partial_message_simps fv)
    have upd: "?m\<lparr>rm_body := drop (header_size_of (frame_version ?bs)) ?bs\<rparr> = partial_message ?bs"
      using partial_message_more [OF h] by simp
    show "(if length ?bs < frame_size ?bs
      then Consumed (0 + length input) (?m\<lparr>rm_body := drop (header_size_of (frame_version ?bs)) ?bs\<rparr>)
      else case decode_frame_body f (rm_flags ?m) (rm_opcode ?m)
                 (Decoder_new (frame_body ?bs) (scast (rm_length ?m)) (uint (rm_version ?m))) of
             (Done b, _) \<Rightarrow> Consumed (0 + (frame_size ?bs - (length ?bs - length input)))
               (?m\<lparr>rm_body := frame_body ?bs, rm_response_body := Some b, rm_is_body_ready := True\<rparr>)
           | (Rejected, _) \<Rightarrow> Failed | (Out_of_bounds, _) \<Rightarrow> Overrun | (Length_error, _) \<Rightarrow> Threw) =
      frame_step f (length p) ?bs ?m"
      unfolding upd fld frame_step_def finished_def
      by (simp only: length_append diff_add_inverse add_diff_cancel_left' add_0 diff_add_inverse2)
  qed (use hb nn lim fld in simp_all)
  finally show ?thesis .
qed

lemma decode_in_header:
  fixes f :: "'a from_inet"
  assumes h: "\<not> has_header p" and ne: "input \<noteq> []" and s: "sound_frame (p @ input)" and lim: "length (p @ input) < 2 ^ 64"
  shows "ResponseMessage_decode f input (partial_message p) =
    (if \<not> has_header (p @ input) then Consumed (length input) (partial_message (p @ input))
     else if \<not> allocate_body (rm_opcode (header_fields (p @ input))) then Failed
     else frame_step f (length p) (p @ input)
       (partial_message (take (header_size_of (frame_version (p @ input))) (p @ input)) \<lparr>rm_received := length (p @ input)\<rparr>))"
proof -
  let ?bs = "p @ input"
  let ?hs = "header_size_of (frame_version ?bs)"
  let ?m = "ResponseMessage_new\<lparr>rm_version := frame_version ?bs, rm_header_size := ?hs, rm_received := length ?bs, rm_header := p\<rparr> :: 'a response_message"
  have v0: "frame_version ?bs \<noteq> 0" using s ne by (simp add: sound_frame_def)
  have lp: "length p < ?hs" using h header_size_pos by (cases "p = []") (simp_all add: nth_append)
  have m2: "decode_version input ((partial_message p)\<lparr>rm_received := rm_received (partial_message p) + length input\<rparr>) = ?m"
  proof (cases "p = []")
    case True
    then show ?thesis by (simp add: decode_version_def partial_message_def ResponseMessage_new_def)
  next
    case False
    then show ?thesis using h v0
      by (simp add: decode_version_def partial_message_def ResponseMessage_new_def Let_def nth_append)
  qed
  let ?m1 = "(partial_message p)\<lparr>rm_received := rm_received (partial_message p :: 'a response_message) + length input\<rparr> :: 'a response_message"
  have nh: "\<not> rm_is_header_received ?m1" and nv: "\<not> (rm_version ?m1 = 0 \<and> rm_received ?m1 < 1)"
    using h ne by (simp_all add: partial_message_simps)
  have decode_m2: "ResponseMessage_decode f input (partial_message p) =
    (let m2 = ?m in if rm_received m2 \<ge> rm_header_size m2
                 then let overage = rm_received m2 - rm_header_size m2;
                          needed = size_minus (length input) overage;
                          header = rm_header m2 @ take needed input
                      in if needed > length input \<or> length header > 9 then Overrun
                         else let m3 = (parse_header header m2)\<lparr>rm_header := header, rm_is_header_received := True\<rparr>
                              in if \<not> allocate_body (rm_opcode m3) then Failed
                                 else decode_rest f needed (drop needed input) m3
                 else if length (rm_header m2) + length input > 9 then Overrun
                 else Consumed (length input) (m2\<lparr>rm_header := rm_header m2 @ input\<rparr>))"
    unfolding ResponseMessage_decode_def Let_def if_not_P [OF nh] if_not_P [OF nv] m2 by (rule refl)
  show ?thesis
  proof (cases "has_header ?bs")
    case False
    then have "length ?bs < ?hs" using ne by simp
    then show ?thesis using h ne header_size_pos(2) [of "frame_version ?bs"] unfolding decode_m2
      by (simp add: Let_def partial_message_def [of ?bs])
  next
    case True
    let ?n = "?hs - length p"
    have nd: "size_minus (length input) (length ?bs - ?hs) = ?n"
      using True lp lim by (subst size_minus_eq) simp_all
    have hdr: "p @ take ?n input = take ?hs ?bs" using lp by simp
    let ?m3 = "(parse_header (take ?hs ?bs) ?m)\<lparr>rm_header := take ?hs ?bs, rm_is_header_received := True\<rparr>"
    have fld: "rm_flags ?m3 = rm_flags (header_fields ?bs)" "rm_opcode ?m3 = rm_opcode (header_fields ?bs)"
      "rm_length ?m3 = rm_length (header_fields ?bs)" "rm_version ?m3 = frame_version ?bs"
      using header_fields_eq [of ?m ?bs "take ?hs ?bs"] by (simp_all del: take_append)
    have nn: "0 \<le> sint (rm_length (header_fields ?bs))" using s True unfolding sound_frame_def by blast
    have tv: "frame_version (take ?hs ?bs) = frame_version ?bs" using header_size_pos(1) by (simp del: take_append)
    have tn: "take ?hs ?bs \<noteq> []" using header_size_pos(1) ne by simp
    have tl: "length (take ?hs ?bs) = ?hs" using True by (simp del: take_append)
    have pm: "?m3 = (partial_message (take ?hs ?bs))\<lparr>rm_received := length ?bs\<rparr>"
      unfolding partial_message_def Let_def tv if_not_P [OF tn] tl
      by (simp add: parse_header_update ResponseMessage_new_def del: take_append)
        (simp add: parse_header_def Let_def split_def)
    have m: "rm_header ?m = p" "rm_received ?m = length ?bs" "rm_header_size ?m = ?hs" by simp_all
    have g1: "?hs \<le> length ?bs" and g2: "\<not> (length input < ?n \<or> 9 < ?hs)"
      using True lp header_size_pos(2) [of "frame_version ?bs"] by (simp, auto)
    have d: "ResponseMessage_decode f input (partial_message p) =
      (if \<not> allocate_body (rm_opcode (header_fields ?bs)) then Failed else decode_rest f ?n (drop ?n input) ?m3)"
      unfolding decode_m2 Let_def m nd hdr fld tl if_P [OF g1] if_not_P [OF g2] by (rule refl)
    have r: "decode_rest f ?n (drop ?n input) ?m3 = frame_step f (length p) ?bs ?m3"
    proof (subst decode_rest_eq [where bs = ?bs])
      have bl: "rm_body ?m3 = []" by (simp add: ResponseMessage_new_def)
      show "rm_body ?m3 @ drop ?n input = drop ?hs ?bs" using lp unfolding bl by simp
      show "?hs + length (rm_body ?m3) \<le> frame_size ?bs" unfolding bl by (simp add: frame_size_def)
      have upd: "?m3\<lparr>rm_body := drop ?hs ?bs\<rparr> = partial_message ?bs"
        using True ne by (simp add: partial_message_def Let_def parse_header_update del: take_append drop_append)
      have k: "?n + length (drop ?n input) = length ?bs - length p"
        "?n + (frame_size ?bs - (length ?bs - length (drop ?n input))) = frame_size ?bs - length p"
        using lp True by (simp_all add: frame_size_def)
      show "(if length ?bs < frame_size ?bs
        then Consumed (?n + length (drop ?n input)) (?m3\<lparr>rm_body := drop ?hs ?bs\<rparr>)
        else case decode_frame_body f (rm_flags ?m3) (rm_opcode ?m3)
                   (Decoder_new (frame_body ?bs) (scast (rm_length ?m3)) (uint (rm_version ?m3))) of
               (Done b, _) \<Rightarrow> Consumed (?n + (frame_size ?bs - (length ?bs - length (drop ?n input))))
                 (?m3\<lparr>rm_body := frame_body ?bs, rm_response_body := Some b, rm_is_body_ready := True\<rparr>)
             | (Rejected, _) \<Rightarrow> Failed | (Out_of_bounds, _) \<Rightarrow> Overrun | (Length_error, _) \<Rightarrow> Threw) =
        frame_step f (length p) ?bs ?m3"
        unfolding upd fld k frame_step_def finished_def by (rule refl)
    qed (use True nn lim fld in simp_all)
    show ?thesis unfolding d r unfolding pm using True by simp
  qed
qed


lemma decode_step:
  fixes f :: "'a from_inet"
  assumes inc: "incomplete p" and ne: "input \<noteq> []" and s: "sound_frame (p @ input)" and lim: "length (p @ input) < 2 ^ 64"
  obtains m where
    "ResponseMessage_decode f input (partial_message p) =
      (if \<not> has_header (p @ input) then Consumed (length input) (partial_message (p @ input))
       else if \<not> allocate_body (rm_opcode (header_fields (p @ input))) then Failed
       else frame_step f (length p) (p @ input) m)"
    "has_header (p @ input) \<longrightarrow> rm_flags m = rm_flags (header_fields (p @ input))"
    "has_header (p @ input) \<longrightarrow> rm_stream m = rm_stream (header_fields (p @ input))"
    "has_header (p @ input) \<longrightarrow> rm_opcode m = rm_opcode (header_fields (p @ input))"
proof (cases "has_header p")
  case True
  let ?m = "(partial_message p)\<lparr>rm_received := length (p @ input)\<rparr> :: 'a response_message"
  have hb: "has_header (p @ input)" using True by (simp add: nth_append)
  have al: "allocate_body (rm_opcode (header_fields (p @ input)))"
    using inc True by (simp add: incomplete_def header_fields_append)
  show ?thesis
  proof (rule that [of ?m])
    show "ResponseMessage_decode f input (partial_message p) =
      (if \<not> has_header (p @ input) then Consumed (length input) (partial_message (p @ input))
       else if \<not> allocate_body (rm_opcode (header_fields (p @ input))) then Failed
       else frame_step f (length p) (p @ input) ?m)"
      using decode_in_body [OF True inc s lim, of f] hb al by simp
  qed (use True in \<open>simp_all add: partial_message_simps header_fields_append\<close>)
next
  case False
  let ?h = "take (header_size_of (frame_version (p @ input))) (p @ input)"
  let ?m = "(partial_message ?h)\<lparr>rm_received := length (p @ input)\<rparr> :: 'a response_message"
  have hf: "has_header ?h \<and> header_fields ?h = header_fields (p @ input)" if "has_header (p @ input)"
    using that header_size_pos(1) [of "frame_version (p @ input)"]
    by (simp add: header_fields_def del: take_append append_is_Nil_conv)
  show ?thesis
  proof (rule that [of ?m])
    show "ResponseMessage_decode f input (partial_message p) =
      (if \<not> has_header (p @ input) then Consumed (length input) (partial_message (p @ input))
       else if \<not> allocate_body (rm_opcode (header_fields (p @ input))) then Failed
       else frame_step f (length p) (p @ input) ?m)"
      by (rule decode_in_header [OF False ne s lim])
  qed (use hf in \<open>simp_all add: partial_message_simps del: take_append\<close>)
qed

lemma incomplete_short:
  assumes "incomplete p" "has_header (p @ input)"
  shows "length p < frame_size (p @ input)"
proof (cases "has_header p")
  case True
  then show ?thesis using assms(1) by (simp add: incomplete_def frame_size_append)
next
  case False
  then have "p = [] \<or> length p < header_size_of (frame_version (p @ input))" by (auto simp: nth_append)
  then show ?thesis using frame_size_pos [of "p @ input"] by (auto simp: frame_size_def)
qed

lemma incomplete_iff_frames: "incomplete p \<Longrightarrow> frames f p = Delivered [] (partial_message p)"
  by (subst frames.simps) (simp add: incomplete_def)

text \<open>A stream all of whose frames are sound.\<close>

function sound_stream :: "byte list \<Rightarrow> bool" where
  "sound_stream bs \<longleftrightarrow> sound_frame bs \<and>
     (if has_header bs \<and> frame_size bs \<le> length bs then sound_stream (drop (frame_size bs) bs) else True)"
  by pat_completeness auto
termination
  by (relation "measure length") (use frame_size_pos in auto)

declare sound_stream.simps [simp del]

lemma sound_stream_frame: "sound_stream bs \<Longrightarrow> sound_frame bs"
  by (subst (asm) sound_stream.simps) simp

lemma sound_stream_next:
  "sound_stream bs \<Longrightarrow> has_header bs \<Longrightarrow> frame_size bs \<le> length bs \<Longrightarrow> sound_stream (drop (frame_size bs) bs)"
  by (subst (asm) sound_stream.simps) simp

lemma consume_loop_frames:
  fixes f :: "'a from_inet"
  shows "incomplete p \<Longrightarrow> sound_stream (p @ input) \<Longrightarrow> length (p @ input) < 2 ^ 64 \<Longrightarrow>
    consume_loop f input (partial_message p) = frames f (p @ input)"
proof (induction "length input" arbitrary: p input rule: less_induct)
  case less
  show ?case
  proof (cases "input = []")
    case True
    then show ?thesis using less.prems(1) by (simp add: consume_loop.simps [of f "[]"] incomplete_iff_frames)
  next
    case False
    let ?bs = "p @ input"
    obtain m where d: "ResponseMessage_decode f input (partial_message p) =
      (if \<not> has_header ?bs then Consumed (length input) (partial_message ?bs)
       else if \<not> allocate_body (rm_opcode (header_fields ?bs)) then Failed
       else frame_step f (length p) ?bs m)"
      and fld: "has_header ?bs \<longrightarrow> rm_flags m = rm_flags (header_fields ?bs)"
        "has_header ?bs \<longrightarrow> rm_stream m = rm_stream (header_fields ?bs)"
        "has_header ?bs \<longrightarrow> rm_opcode m = rm_opcode (header_fields ?bs)"
      by (rule decode_step [OF less.prems(1) False sound_stream_frame [OF less.prems(2)] less.prems(3), of f]) (rule that; assumption)
    have nil: "consume_loop f [] m' = Delivered [] m'" for m' by (simp add: consume_loop.simps)
    consider (head) "\<not> has_header ?bs" | (bad) "has_header ?bs" "\<not> allocate_body (rm_opcode (header_fields ?bs))"
      | (part) "has_header ?bs" "allocate_body (rm_opcode (header_fields ?bs))" "length ?bs < frame_size ?bs"
      | (full) "has_header ?bs" "allocate_body (rm_opcode (header_fields ?bs))" "\<not> length ?bs < frame_size ?bs"
      by blast
    then show ?thesis
    proof cases
      case head
      then show ?thesis using False unfolding consume_loop.simps [of f input] frames.simps [of f ?bs] d
        by (simp add: nil partial_message_simps)
    next
      case bad
      then show ?thesis using False unfolding consume_loop.simps [of f input] frames.simps [of f ?bs] d by simp
    next
      case part
      then show ?thesis using False unfolding consume_loop.simps [of f input] frames.simps [of f ?bs] d frame_step_def
        by (simp add: nil partial_message_simps)
    next
      case full
      let ?r = "decode_frame_body f (rm_flags (header_fields ?bs)) (rm_opcode (header_fields ?bs))
                 (Decoder_new (frame_body ?bs) (scast (rm_length (header_fields ?bs))) (uint (frame_version ?bs)))"
      let ?n = "frame_size ?bs - length p"
      have n: "0 < ?n" using incomplete_short [OF less.prems(1) full(1)] by simp
      have dr: "drop ?n input = drop (frame_size ?bs) ?bs" using n by simp
      have ih: "consume_loop f (drop (frame_size ?bs) ?bs) ResponseMessage_new = frames f (drop (frame_size ?bs) ?bs)"
        using less.hyps [of "drop (frame_size ?bs) ?bs" "[]"] sound_stream_next [OF less.prems(2) full(1)] full(3) n False
          less.prems(3) by (simp add: partial_message_def incomplete_def)
      have st: "ResponseMessage_decode f input (partial_message p) = frame_step f (length p) ?bs m"
        unfolding d using full by simp
      have ob: "observe (finished b ?bs m) = (rm_flags (header_fields ?bs), rm_stream (header_fields ?bs),
          rm_opcode (header_fields ?bs), Some b)" "rm_is_body_ready (finished b ?bs m)" for b
        using fld full(1) by (simp_all add: observe_def finished_def)
      show ?thesis
        unfolding consume_loop.simps [of f input] frames.simps [of f ?bs] st frame_step_def Let_def
          if_not_P [OF full(3)] if_not_P [OF False]
        using full(1,2) n
        by (cases "fst ?r"; cases ?r) (simp_all add: ob ih dr del: drop_append)
    qed
  qed
qed


subsection \<open>Successive reads\<close>

text \<open>\<open>Connection::on_read\<close> hands each piece that arrives to \<open>consume\<close>, until the connection is closed.\<close>

primrec consume_reads ::
    "'addr from_inet \<Rightarrow> byte list list \<Rightarrow> 'addr response_message \<Rightarrow> ('addr response, 'addr response_message) consume_result" where
  "consume_reads f [] m = Delivered [] m"
| "consume_reads f (c # cs) m =
     (case consume_loop f c m of
        Delivered ms m' \<Rightarrow> deliver ms (consume_reads f cs m')
      | Broken ms \<Rightarrow> Broken ms
      | Corrupted \<Rightarrow> Corrupted)"

lemma deliver_deliver [simp]: "deliver ms (deliver ms' r) = deliver (ms @ ms') r"
  by (cases r) simp_all

lemma deliver_nil [simp]: "deliver [] r = r"
  by (cases r) simp_all

lemma sound_frame_prefix: "sound_frame (a @ b) \<Longrightarrow> sound_frame a"
  by (auto simp: sound_frame_def header_fields_append nth_append)

lemma sound_stream_prefix: "sound_stream (a @ b) \<Longrightarrow> sound_stream a"
proof (induction "length a" arbitrary: a rule: less_induct)
  case less
  have s: "sound_frame a" by (rule sound_frame_prefix [OF sound_stream_frame [OF less.prems]])
  have "sound_stream (drop (frame_size a) a)" if h: "has_header a" "frame_size a \<le> length a"
  proof (rule less.hyps)
    show "length (drop (frame_size a) a) < length a" using h frame_size_pos [of a] by (cases a) auto
    have "has_header (a @ b)" "frame_size (a @ b) = frame_size a" using h by (auto simp: nth_append frame_size_append)
    then show "sound_stream (drop (frame_size a) a @ b)"
      using sound_stream_next [OF less.prems] h by simp
  qed
  then show ?case using s by (subst sound_stream.simps) simp
qed

lemma frame_body_append: "has_header a \<Longrightarrow> frame_size a \<le> length a \<Longrightarrow> frame_body (a @ b) = frame_body a"
  by (simp add: frame_body_def frame_version_append frame_size_append)

text \<open>A prefix of a stream is parsed as the whole stream is, up to the frame that it ends in.\<close>

lemma frames_append:
  fixes f :: "'a from_inet"
  shows "sound_stream (a @ b) \<Longrightarrow>
     (\<exists>ms r. frames f a = Delivered ms (partial_message r) \<and> incomplete r \<and> sound_stream (r @ b) \<and> length r \<le> length a \<and>
        frames f (a @ b) = deliver ms (frames f (r @ b))) \<or>
     (\<exists>ms. frames f a = Broken ms \<and> frames f (a @ b) = Broken ms) \<or> (frames f a = Corrupted \<and> frames f (a @ b) = Corrupted)"
proof (induction "length a" arbitrary: a rule: less_induct)
  case less
  show ?case
  proof (cases "has_header a")
    case False
    then have "incomplete a" by (auto simp: incomplete_def)
    then show ?thesis using less.prems incomplete_iff_frames [of a f]
      by (intro disjI1 exI [of _ "[]"] exI [of _ a]) simp
  next
    case True
    have hab: "has_header (a @ b)" "header_fields (a @ b) = header_fields a" "frame_size (a @ b) = frame_size a"
      "frame_version (a @ b) = frame_version a"
      using True by (auto simp: nth_append header_fields_append frame_size_append)
    show ?thesis
    proof (cases "allocate_body (rm_opcode (header_fields a)) \<and> \<not> length a < frame_size a")
      case False
      show ?thesis
      proof (cases "allocate_body (rm_opcode (header_fields a))")
        case alloc: True
        then have "incomplete a" using False by (auto simp: incomplete_def)
        then show ?thesis using less.prems incomplete_iff_frames [of a f]
          by (intro disjI1 exI [of _ "[]"] exI [of _ a]) simp
      next
        case na: False
        then have "frames f a = Broken []" "frames f (a @ b) = Broken []"
          using True hab unfolding frames.simps [of f a] frames.simps [of f "a @ b"] by simp_all
        then show ?thesis by simp
      qed
    next
      case full: True
      let ?r = "decode_frame_body f (rm_flags (header_fields a)) (rm_opcode (header_fields a))
                 (Decoder_new (frame_body a) (scast (rm_length (header_fields a))) (uint (frame_version a)))"
      let ?m = "\<lambda>b. (rm_flags (header_fields a), rm_stream (header_fields a), rm_opcode (header_fields a), Some b)"
      let ?a' = "drop (frame_size a) a"
      have step: "frames f (a @ c) = (case ?r of (Done b, _) \<Rightarrow> deliver [?m b] (frames f (?a' @ c))
          | (Rejected, _) \<Rightarrow> Broken [] | (Out_of_bounds, _) \<Rightarrow> Corrupted | (Length_error, _) \<Rightarrow> Corrupted)" for c
      proof -
        have e: "has_header (a @ c)" "header_fields (a @ c) = header_fields a" "frame_size (a @ c) = frame_size a"
          "frame_version (a @ c) = frame_version a" "frame_body (a @ c) = frame_body a"
          using True full by (auto simp: nth_append header_fields_append frame_size_append frame_body_append)
        have d: "drop (frame_size a) (a @ c) = ?a' @ c" using full by simp
        show ?thesis using e(1) full unfolding frames.simps [of f "a @ c"] e(2-5) d Let_def by simp
      qed
      have ih: "(\<exists>ms r. frames f ?a' = Delivered ms (partial_message r) \<and> incomplete r \<and> sound_stream (r @ b) \<and> length r \<le> length ?a' \<and>
          frames f (?a' @ b) = deliver ms (frames f (r @ b))) \<or>
        (\<exists>ms. frames f ?a' = Broken ms \<and> frames f (?a' @ b) = Broken ms) \<or> (frames f ?a' = Corrupted \<and> frames f (?a' @ b) = Corrupted)"
      proof (rule less.hyps)
        show "length ?a' < length a" using True frame_size_pos [of a] by (cases a) auto
        show "sound_stream (?a' @ b)" using sound_stream_next [OF less.prems hab(1)] full hab(3) by simp
      qed
      show ?thesis
      proof (cases "fst ?r")
        case (Done x)
        then have st: "frames f (a @ c) = deliver [?m x] (frames f (?a' @ c))" for c
          unfolding step by (cases ?r) simp
        have s0: "frames f a = deliver [?m x] (frames f ?a')" using st [of "[]"] by simp
        show ?thesis using ih
        proof (elim disjE exE conjE)
          fix ms r
          assume "frames f ?a' = Delivered ms (partial_message r)" "incomplete r" "sound_stream (r @ b)" "length r \<le> length ?a'"
            "frames f (?a' @ b) = deliver ms (frames f (r @ b))"
          then show ?thesis unfolding s0 st by (intro disjI1 exI [of _ "?m x # ms"] exI [of _ r]) simp
        qed (simp_all add: s0 st)
      next
        case Rejected
        then show ?thesis using step [of "[]"] step [of b] by (cases ?r) simp
      next
        case Out_of_bounds
        then show ?thesis using step [of "[]"] step [of b] by (cases ?r) simp
      next
        case Length_error
        then show ?thesis using step [of "[]"] step [of b] by (cases ?r) simp
      qed
    qed
  qed
qed

lemma consume_reads_frames:
  "incomplete p \<Longrightarrow> sound_stream (p @ concat cs) \<Longrightarrow> length (p @ concat cs) < 2 ^ 64 \<Longrightarrow>
     consume_reads f cs (partial_message p) = frames f (p @ concat cs)"
proof (induction cs arbitrary: p)
  case Nil
  then show ?case by (simp add: incomplete_iff_frames)
next
  case (Cons c cs)
  have s: "sound_stream ((p @ c) @ concat cs)" using Cons.prems(2) by simp
  have c: "consume_loop f c (partial_message p) = frames f (p @ c)"
    by (rule consume_loop_frames [OF Cons.prems(1) sound_stream_prefix [OF s]]) (use Cons.prems(3) in simp)
  show ?case using frames_append [OF s, of f]
  proof (elim disjE exE conjE)
    fix ms r
    assume "frames f (p @ c) = Delivered ms (partial_message r)" "incomplete r" "sound_stream (r @ concat cs)"
      "length r \<le> length (p @ c)" "frames f ((p @ c) @ concat cs) = deliver ms (frames f (r @ concat cs))"
    then show ?thesis using Cons.IH [of r] Cons.prems(3) c by simp
  qed (use c in simp_all)
qed

text \<open>C7. However the bytes of a sound stream of frames are cut into reads, the connection hands on the same responses in
  the same order, fails at the same frame if it does, and is left with the same partial frame as when
  the whole stream is parsed at once.
\<close>

theorem reads_refine_frames:
  assumes "sound_stream (concat cs)" "length (concat cs) < 2 ^ 64"
  shows "consume_reads f cs ResponseMessage_new = frames f (concat cs)"
  using consume_reads_frames [of "[]" cs f] assms by (simp add: partial_message_def incomplete_def)

lemmas frame_eval = frame_size_def header_size_of_def header_fields_def sound_frame_def parse_header_def
  ResponseMessage_new_def decode_int16_def decode_int32_def frame_body_def decode_frame_body_def allocate_body_def
  and_then_def succeed_def decode_body_def Let_def

theorem reads_refine_frames_witness:
  "consume_reads (\<lambda>_ _ _. None :: nat option)
     [[0x84, 0, 0], [1, 2, 0, 0, 0, 0, 0x84, 0], [0, 2, 2, 0, 0, 0, 0, 0x84]] ResponseMessage_new =
   Delivered [(0, 1, 2, Some \<lparr>mb_warnings = [], mb_payload = [], mb_body = ReadyBody\<rparr>),
              (0, 2, 2, Some \<lparr>mb_warnings = [], mb_payload = [], mb_body = ReadyBody\<rparr>)]
     (partial_message [0x84])"
proof -
  have s: "sound_stream (concat [[0x84, 0, 0], [1, 2, 0, 0, 0, 0, 0x84, 0], [0, 2, 2, 0, 0, 0, 0, 0x84]])"
    by (simp add: sound_stream.simps frame_eval)
  show ?thesis
    by (subst reads_refine_frames [OF s]) (simp_all add: frames.simps frame_eval)
qed

text \<open>A negative length makes the size of the frame wrap: with a length of -1 the header alone is taken for more
  than the whole frame, and the copy of the missing part of the body runs off both buffers.\<close>

lemma negative_length_overrun:
  "consume_loop (\<lambda>_ _ _. None :: nat option) [0x84, 0, 0, 1, 2, 0xFF, 0xFF, 0xFF, 0xFF] ResponseMessage_new = Corrupted"
  by (simp add: consume_loop.simps ResponseMessage_decode_def decode_version_def decode_rest_def size_minus_def frame_eval unat_gt_0)

end
