(* ===== verification/StreamManager.thy ===== *)
theory StreamManager
  imports Prelude "HOL-Library.AList"
begin

text \<open>
  The allocator of request stream ids on a connection: \<open>StreamManager<T>\<close> (\<open>stream_manager.hpp\<close>).

  \<open>words\<close> is the bit set of free ids, in 64-bit words; \<open>pending\<close> the hash map from the ids in use to
  their requests, as an association list with distinct keys; \<open>offset\<close> is \<open>size_t\<close> and wraps around.
  The \<open>assert\<close>s of \<open>release\<close> and \<open>release_stream\<close> are the \<open>None\<close> results.
\<close>

record 'a stream_manager =
  max_streams :: size_t
  num_words :: size_t
  offset :: size_t
  words :: "u64 list"
  pending :: "(int \<times> 'a) list"

definition num_bytes_for_stream :: "int \<Rightarrow> nat" where
  "num_bytes_for_stream protocol_version = (if protocol_version \<ge> 3 then 2 else 1)"

definition StreamManager_new :: "int \<Rightarrow> 'a stream_manager" where
  "StreamManager_new protocol_version =
     (let mx = push_bit (num_bytes_for_stream protocol_version * 8 - 1) 1;
          nw = mx div 64
      in \<lparr>max_streams = mx, num_words = nw, offset = 0,
          words = replicate (unat nw) (NOT 0), pending = []\<rparr>)"

text \<open>\<open>__builtin_ctzl\<close>: the index of the lowest set bit, scanning up from bit \<open>i\<close>.\<close>

primrec ctz_from :: "nat \<Rightarrow> nat \<Rightarrow> u64 \<Rightarrow> nat" where
  "ctz_from 0 i w = i"
| "ctz_from (Suc n) i w = (if bit w i then i else ctz_from n (Suc i) w)"

definition count_trailing_zeros :: "u64 \<Rightarrow> nat" where
  "count_trailing_zeros w = ctz_from 64 0 w"

definition get_and_set_first_available_stream ::
    "nat \<Rightarrow> 'a stream_manager \<Rightarrow> int \<times> 'a stream_manager" where
  "get_and_set_first_available_stream index sm =
     (let word = words sm ! index
      in if word = 0 then (-1, sm)
         else let stream = count_trailing_zeros word
              in (int stream, sm\<lparr>words := (words sm)[index := word XOR push_bit stream 1]\<rparr>))"

text \<open>The loop over \<open>i\<close> from 0, with the number of iterations left.\<close>

primrec acquire_stream_loop ::
    "nat \<Rightarrow> nat \<Rightarrow> size_t \<Rightarrow> 'a stream_manager \<Rightarrow> int \<times> 'a stream_manager" where
  "acquire_stream_loop 0 i off sm = (-1, sm)"
| "acquire_stream_loop (Suc n) i off sm =
     (let index = unat ((of_nat i + off) mod num_words sm);
          (stream, sm') = get_and_set_first_available_stream index sm
      in if stream \<ge> 0 then (stream + 64 * int index, sm')
         else acquire_stream_loop n (Suc i) off sm')"

definition acquire_stream :: "'a stream_manager \<Rightarrow> int \<times> 'a stream_manager" where
  "acquire_stream sm =
     acquire_stream_loop (unat (num_words sm)) 0 (offset sm) (sm\<lparr>offset := offset sm + 1\<rparr>)"

definition release_stream :: "int \<Rightarrow> 'a stream_manager \<Rightarrow> 'a stream_manager option" where
  "release_stream stream sm =
     (let index = nat (stream div 64); bit_index = nat (stream mod 64)
      in if words sm ! index AND push_bit bit_index 1 \<noteq> 0 then None
         else Some (sm\<lparr>words := (words sm)[index := words sm ! index OR push_bit bit_index 1]\<rparr>))"

definition StreamManager_acquire :: "'a \<Rightarrow> 'a stream_manager \<Rightarrow> int \<times> 'a stream_manager" where
  "StreamManager_acquire item sm =
     (let (stream, sm) = acquire_stream sm
      in if stream < 0 then (-1, sm)
         else (stream, sm\<lparr>pending := AList.update stream item (pending sm)\<rparr>))"

definition StreamManager_release :: "int \<Rightarrow> 'a stream_manager \<Rightarrow> 'a stream_manager option" where
  "StreamManager_release stream sm =
     (if stream < 0 \<or> stream \<ge> uint (max_streams sm) then None
      else release_stream stream (sm\<lparr>pending := AList.delete stream (pending sm)\<rparr>))"

definition StreamManager_get_pending_and_release ::
    "int \<Rightarrow> 'a stream_manager \<Rightarrow> ('a option \<times> 'a stream_manager) option" where
  "StreamManager_get_pending_and_release stream sm =
     (case map_of (pending sm) stream of
        Some item \<Rightarrow>
          map_option (\<lambda>sm. (Some item, sm))
            (release_stream stream (sm\<lparr>pending := AList.delete stream (pending sm)\<rparr>))
      | None \<Rightarrow> Some (None, sm))"

definition StreamManager_available_streams :: "'a stream_manager \<Rightarrow> size_t" where
  "StreamManager_available_streams sm = max_streams sm - of_nat (length (pending sm))"

definition StreamManager_pending_streams :: "'a stream_manager \<Rightarrow> size_t" where
  "StreamManager_pending_streams sm = of_nat (length (pending sm))"

subsection \<open>The lowest set bit\<close>

lemma ctz_from_spec:
  "\<exists>j. i \<le> j \<and> j < i + n \<and> bit w j \<Longrightarrow> bit w (ctz_from n i w) \<and> ctz_from n i w < i + n"
proof (induction n arbitrary: i)
  case (Suc n)
  show ?case
  proof (cases "bit w i")
    case False
    from Suc.prems obtain j where j: "i \<le> j" "j < i + Suc n" "bit w j" by blast
    with False have "j \<noteq> i" by blast
    with j have "Suc i \<le> j" "j < Suc i + n" "bit w j" by auto
    then show ?thesis using Suc.IH [of "Suc i"] False by auto
  qed simp
qed auto

lemma count_trailing_zeros:
  assumes "w \<noteq> 0"
  shows "bit w (count_trailing_zeros w)" "count_trailing_zeros w < 64"
proof -
  from assms obtain j where "bit w j" "j < 64"
    using bit_imp_le_length [of w] by (auto simp: bit_eq_iff)
  then show "bit w (count_trailing_zeros w)" "count_trailing_zeros w < 64"
    using ctz_from_spec [of 0 64 w] by (auto simp: count_trailing_zeros_def)
qed

subsection \<open>The invariant\<close>

text \<open>\<open>free_stream sm s\<close> reads the bit of \<open>s\<close>. The bit set and the hash map agree: an id is in use
  exactly if its bit is clear.\<close>

definition free_stream :: "'a stream_manager \<Rightarrow> int \<Rightarrow> bool" where
  "free_stream sm s = bit (words sm ! nat (s div 64)) (nat (s mod 64))"

definition stream_range :: "'a stream_manager \<Rightarrow> int set" where
  "stream_range sm = {0 ..< uint (max_streams sm)}"

definition wf_words :: "'a stream_manager \<Rightarrow> bool" where
  "wf_words sm \<longleftrightarrow> (\<exists>k \<in> {1, 9}. num_words sm = 2 ^ k \<and> max_streams sm = 64 * 2 ^ k \<and>
     length (words sm) = 2 ^ k)"

definition wf_streams :: "'a stream_manager \<Rightarrow> bool" where
  "wf_streams sm \<longleftrightarrow> wf_words sm \<and> distinct (map fst (pending sm)) \<and>
     fst ` set (pending sm) = {s \<in> stream_range sm. \<not> free_stream sm s}"

definition take_stream :: "int \<Rightarrow> 'a stream_manager \<Rightarrow> 'a stream_manager" where
  "take_stream s sm = sm\<lparr>words := (words sm)[nat (s div 64) :=
     words sm ! nat (s div 64) XOR push_bit (nat (s mod 64)) 1]\<rparr>"

lemma uint_max_streams:
  assumes "wf_words sm"
  shows "uint (max_streams sm) = 64 * int (length (words sm))"
  using assms unfolding wf_words_def by (elim bexE conjE insertE emptyE) simp_all

lemma stream_index:
  assumes "wf_words sm" "s \<in> stream_range sm"
  shows "nat (s div 64) < length (words sm)" "nat (s mod 64) < 64" "0 \<le> s"
  using assms(2) uint_max_streams [OF assms(1)] by (auto simp: stream_range_def nat_less_iff)

lemma stream_eq_iff:
  assumes "0 \<le> s" "0 \<le> t"
  shows "s = t \<longleftrightarrow> nat (s div 64) = nat (t div 64) \<and> nat (s mod 64) = nat (t mod 64)"
proof -
  have "s = t \<longleftrightarrow> s div 64 = t div 64 \<and> s mod 64 = t mod 64"
    by (metis div_mult_mod_eq)
  then show ?thesis using assms by (simp add: eq_nat_nat_iff pos_imp_zdiv_nonneg_iff)
qed

lemma wf_words_cong:
  "num_words sm' = num_words sm \<Longrightarrow> max_streams sm' = max_streams sm \<Longrightarrow>
     length (words sm') = length (words sm) \<Longrightarrow> wf_words sm' = wf_words sm"
  by (simp add: wf_words_def)

lemma bit_flip: "j < 64 \<Longrightarrow> bit ((w :: u64) XOR push_bit k 1) j \<longleftrightarrow> bit w j \<noteq> (j = k)"
  unfolding bit_xor_iff bit_push_bit_iff by (auto simp: bit_1_iff)

lemma free_take_stream:
  assumes "wf_words sm" "s \<in> stream_range sm" "free_stream sm s" "t \<in> stream_range sm"
  shows "free_stream (take_stream s sm) t \<longleftrightarrow> free_stream sm t \<and> t \<noteq> s"
proof (cases "nat (t div 64) = nat (s div 64)")
  case True
  then have "free_stream (take_stream s sm) t \<longleftrightarrow>
      bit (words sm ! nat (s div 64) XOR push_bit (nat (s mod 64)) 1) (nat (t mod 64))"
    using stream_index(1) [OF assms(1,2)] by (simp only: free_stream_def take_stream_def) simp
  also have "\<dots> \<longleftrightarrow> free_stream sm t \<noteq> (nat (t mod 64) = nat (s mod 64))"
    using stream_index(2) [OF assms(1,4)] True by (simp only: bit_flip free_stream_def)
  finally show ?thesis
    using True assms(3) stream_eq_iff [of t s] stream_index(3) [OF assms(1,2)]
      stream_index(3) [OF assms(1,4)] by blast
next
  case False
  then have "free_stream (take_stream s sm) t = free_stream sm t"
    by (simp only: free_stream_def take_stream_def) (simp add: nth_list_update_neq)
  then show ?thesis using False by blast
qed

lemma stream_rangeI:
  assumes "wf_words sm" "index < length (words sm)" "j < 64"
  shows "int j + 64 * int index \<in> stream_range sm"
  using assms(2,3) unfolding stream_range_def uint_max_streams [OF assms(1)] by simp

lemma get_and_set_first_available_stream:
  assumes "wf_words sm" "index < length (words sm)"
  obtains "words sm ! index = 0" "get_and_set_first_available_stream index sm = (- 1, sm)"
  | j s where "s = int j + 64 * int index" "s \<in> stream_range sm" "free_stream sm s"
      "get_and_set_first_available_stream index sm = (int j, take_stream s sm)"
proof (cases "words sm ! index = 0")
  case True
  then show ?thesis by (intro that(1)) (simp_all add: get_and_set_first_available_stream_def)
next
  case False
  define j where "j = count_trailing_zeros (words sm ! index)"
  define s where "s = int j + 64 * int index"
  have j: "bit (words sm ! index) j" "j < 64"
    using count_trailing_zeros [OF False] by (simp_all add: j_def)
  have s: "nat (s div 64) = index" "nat (s mod 64) = j" using j(2) by (simp_all add: s_def)
  show ?thesis
  proof (rule that(2))
    show "s \<in> stream_range sm" unfolding s_def by (rule stream_rangeI [OF assms j(2)])
    show "free_stream sm s" unfolding free_stream_def s by (rule j(1))
    show "get_and_set_first_available_stream index sm = (int j, take_stream s sm)"
      using False unfolding get_and_set_first_available_stream_def take_stream_def s Let_def j_def
      by (simp only: if_False)
  qed (rule s_def)
qed

text \<open>The number of words divides \<open>2 ^ 64\<close>, so the scan visits every word once even when
  \<open>i + offset\<close> wraps around.\<close>

lemma unat_mod_pow2:
  assumes "k < 64" "i < 2 ^ 64"
  shows "unat ((of_nat i + off) mod (2 ^ k :: size_t)) = (i + unat off) mod 2 ^ k"
proof -
  have "unat ((of_nat i + off) mod (2 ^ k :: size_t)) = ((i + unat off) mod 2 ^ 64) mod 2 ^ k"
    using assms by (simp add: unat_mod unat_word_ariths)
  also have "\<dots> = (i + unat off) mod 2 ^ k"
    by (rule mod_mod_cancel, rule le_imp_power_dvd) (use assms in simp)
  finally show ?thesis .
qed

lemma rotation_covers:
  assumes "index < (n :: nat)"
  shows "\<exists>i < n. (i + off) mod n = index"
proof -
  have "((index + (n - off mod n)) mod n + off) mod n = index"
  proof -
    have "((index + (n - off mod n)) mod n + off) mod n = (index + (n - off mod n) + off mod n) mod n"
      by (metis add.commute mod_add_left_eq mod_add_right_eq)
    also have "index + (n - off mod n) + off mod n = index + n"
      using mod_le_divisor [of n off] assms by linarith
    finally show ?thesis using assms by simp
  qed
  then show ?thesis using assms by (intro exI [of _ "(index + (n - off mod n)) mod n"]) auto
qed

subsection \<open>Acquiring\<close>

lemma take_stream_simps [simp]:
  "num_words (take_stream s sm) = num_words sm" "max_streams (take_stream s sm) = max_streams sm"
  "length (words (take_stream s sm)) = length (words sm)" "pending (take_stream s sm) = pending sm"
  by (simp_all add: take_stream_def)

lemma wf_words_facts:
  assumes "wf_words sm"
  obtains k where "k < 64" "num_words sm = 2 ^ k" "length (words sm) = 2 ^ k"
    "unat (num_words sm) = length (words sm)"
proof -
  from assms obtain k where k: "k \<in> {1, 9}" "num_words sm = 2 ^ k" "length (words sm) = 2 ^ k"
    unfolding wf_words_def by blast
  have "k < 64" using k(1) by auto
  then show ?thesis using k(2,3) by (intro that) simp_all
qed

lemma scan_index:
  assumes "wf_words sm" "i < 2 ^ 64"
  shows "unat ((of_nat i + off) mod num_words sm) = (i + unat off) mod length (words sm)"
    "(i + unat off) mod length (words sm) < length (words sm)"
proof -
  obtain k where k: "k < 64" "num_words sm = 2 ^ k" "length (words sm) = 2 ^ k"
    using wf_words_facts [OF assms(1)] by blast
  show "unat ((of_nat i + off) mod num_words sm) = (i + unat off) mod length (words sm)"
    unfolding k(2,3) by (rule unat_mod_pow2 [OF k(1) assms(2)])
  show "(i + unat off) mod length (words sm) < length (words sm)" unfolding k(3) by simp
qed

lemma acquire_stream_loop:
  assumes "wf_words sm" "i + n < 2 ^ 64"
  obtains s where "acquire_stream_loop n i off sm = (s, take_stream s sm)"
      "s \<in> stream_range sm" "free_stream sm s"
  | "acquire_stream_loop n i off sm = (- 1, sm)"
      "\<forall>j. i \<le> j \<and> j < i + n \<longrightarrow> words sm ! ((j + unat off) mod length (words sm)) = 0"
  using assms
proof (induction n arbitrary: i thesis)
  case 0
  then show ?case by (intro "0.prems"(2)) auto
next
  case (Suc n)
  let ?index = "(i + unat off) mod length (words sm)"
  have "i < 2 ^ 64" using Suc.prems(4) by simp
  note ix = scan_index [OF Suc.prems(3) this, of off]
  show ?case
  proof (rule get_and_set_first_available_stream [OF Suc.prems(3) ix(2)])
    fix j s assume "s = int j + 64 * int ?index" "s \<in> stream_range sm" "free_stream sm s"
      "get_and_set_first_available_stream ?index sm = (int j, take_stream s sm)"
    then show ?thesis using ix(1) by (intro Suc.prems(1)) (auto simp: Let_def)
  next
    assume w: "words sm ! ?index = 0" "get_and_set_first_available_stream ?index sm = (- 1, sm)"
    then have step: "acquire_stream_loop (Suc n) i off sm = acquire_stream_loop n (Suc i) off sm"
      using ix(1) by simp
    show ?thesis
    proof (rule Suc.IH [of "Suc i"])
      fix s assume "acquire_stream_loop n (Suc i) off sm = (s, take_stream s sm)"
        "s \<in> stream_range sm" "free_stream sm s"
      then show ?thesis using step by (intro Suc.prems(1)) auto
    next
      assume rest: "acquire_stream_loop n (Suc i) off sm = (- 1, sm)"
        "\<forall>j. Suc i \<le> j \<and> j < Suc i + n \<longrightarrow> words sm ! ((j + unat off) mod length (words sm)) = 0"
      have "words sm ! ((j + unat off) mod length (words sm)) = 0" if "i \<le> j" "j < i + Suc n" for j
        using that rest(2) w(1) by (cases "j = i") auto
      then show ?thesis using step rest(1) by (intro Suc.prems(2)) auto
    qed (use Suc.prems in auto)
  qed
qed

text \<open>When the scan finds nothing, no id is free.\<close>

lemma scan_exhausted:
  assumes "wf_words sm" "\<forall>j < length (words sm). words sm ! ((j + off) mod length (words sm)) = 0"
    "s \<in> stream_range sm"
  shows "\<not> free_stream sm s"
proof -
  obtain i where "i < length (words sm)" "(i + off) mod length (words sm) = nat (s div 64)"
    using rotation_covers [OF stream_index(1) [OF assms(1,3)], of off] by blast
  then have "words sm ! nat (s div 64) = 0" using assms(2) by metis
  then show ?thesis by (simp add: free_stream_def)
qed

lemma acquire_stream:
  assumes "wf_words sm"
  obtains s where "acquire_stream sm = (s, take_stream s (sm\<lparr>offset := offset sm + 1\<rparr>))"
      "s \<in> stream_range sm" "free_stream sm s"
  | "acquire_stream sm = (- 1, sm\<lparr>offset := offset sm + 1\<rparr>)"
      "\<forall>s \<in> stream_range sm. \<not> free_stream sm s"
proof -
  let ?sm = "sm\<lparr>offset := offset sm + 1\<rparr>"
  have wf: "wf_words ?sm" using assms by (simp add: wf_words_def)
  have n: "unat (num_words sm) = length (words sm)" using wf_words_facts [OF assms] by blast
  have same: "stream_range ?sm = stream_range sm" "free_stream ?sm s = free_stream sm s" for s
    by (simp_all add: stream_range_def free_stream_def)
  have "0 + unat (num_words sm) < 2 ^ 64" using unsigned_less [of "num_words sm"] by simp
  then show ?thesis
  proof (rule acquire_stream_loop [OF wf, where off = "offset sm"])
    fix s assume "acquire_stream_loop (unat (num_words sm)) 0 (offset sm) ?sm = (s, take_stream s ?sm)"
      "s \<in> stream_range ?sm" "free_stream ?sm s"
    then show ?thesis using same by (intro that(1)) (auto simp: acquire_stream_def)
  next
    assume "acquire_stream_loop (unat (num_words sm)) 0 (offset sm) ?sm = (- 1, ?sm)"
      and z: "\<forall>j. 0 \<le> j \<and> j < 0 + unat (num_words sm) \<longrightarrow>
        words ?sm ! ((j + unat (offset sm)) mod length (words ?sm)) = 0"
    moreover have "\<not> free_stream ?sm s" if "s \<in> stream_range ?sm" for s
      by (rule scan_exhausted [OF wf _ that, of "unat (offset sm)"]) (use z n in simp)
    ultimately show ?thesis using same by (intro that(2)) (auto simp: acquire_stream_def)
  qed
qed

subsection \<open>The operations on the ids in use\<close>

definition in_use :: "'a stream_manager \<Rightarrow> int \<Rightarrow> 'a option" where
  "in_use sm = map_of (pending sm)"

definition stream_limit :: "'a stream_manager \<Rightarrow> nat" where
  "stream_limit sm = unat (max_streams sm)"

lemma in_use_iff:
  assumes "wf_streams sm"
  shows "in_use sm s \<noteq> None \<longleftrightarrow> s \<in> stream_range sm \<and> \<not> free_stream sm s"
proof -
  have "in_use sm s \<noteq> None \<longleftrightarrow> s \<in> fst ` set (pending sm)"
    by (simp add: in_use_def map_of_eq_None_iff)
  then show ?thesis using assms by (simp add: wf_streams_def)
qed

lemma wf_StreamManager_new: "wf_streams (StreamManager_new v)"
proof -
  let ?sm = "StreamManager_new v :: 'a stream_manager"
  define k where "k = (if v \<ge> 3 then 9 else 1 :: nat)"
  have k: "k \<in> {1, 9}" "max_streams ?sm = 64 * 2 ^ k" "num_words ?sm = 2 ^ k"
      "words ?sm = replicate (2 ^ k) (- 1)"
    by (auto simp: StreamManager_new_def num_bytes_for_stream_def k_def Let_def)
  then have wf: "wf_words ?sm" by (auto simp: wf_words_def)
  have "free_stream ?sm s" if "s \<in> stream_range ?sm" for s
  proof -
    have "words ?sm ! nat (s div 64) = - 1"
      using stream_index(1) [OF wf that] k(4) by (simp only: length_replicate nth_replicate)
    then show ?thesis using stream_index(2) [OF wf that] by (simp add: free_stream_def)
  qed
  then have "{s \<in> stream_range ?sm. \<not> free_stream ?sm s} = {}" by blast
  moreover have "pending ?sm = []" by (simp add: StreamManager_new_def Let_def)
  ultimately show ?thesis using wf unfolding wf_streams_def by simp
qed

lemma free_stream_pending [simp]:
  "free_stream (sm\<lparr>pending := p\<rparr>) = free_stream sm" "free_stream (sm\<lparr>offset := i\<rparr>) = free_stream sm"
  "stream_range (sm\<lparr>pending := p\<rparr>) = stream_range sm" "stream_range (sm\<lparr>offset := i\<rparr>) = stream_range sm"
  "stream_range (take_stream s sm) = stream_range sm"
  "wf_words (sm\<lparr>pending := p\<rparr>) = wf_words sm" "wf_words (sm\<lparr>offset := i\<rparr>) = wf_words sm"
  "wf_words (take_stream s sm) = wf_words sm"
  by (auto simp: free_stream_def stream_range_def wf_words_def fun_eq_iff)

lemma wf_streamsI:
  assumes "wf_words sm" "distinct (map fst (pending sm))"
    "\<And>s. s \<in> fst ` set (pending sm) \<longleftrightarrow> s \<in> stream_range sm \<and> \<not> free_stream sm s"
  shows "wf_streams sm"
  using assms by (auto simp: wf_streams_def)

lemma acquire_cases:
  assumes "wf_streams sm"
  obtains s sm' where "StreamManager_acquire item sm = (s, sm')" "wf_streams sm'"
      "s \<in> stream_range sm" "in_use sm s = None" "in_use sm' = (in_use sm)(s \<mapsto> item)"
      "max_streams sm' = max_streams sm"
  | "StreamManager_acquire item sm = (- 1, sm\<lparr>offset := offset sm + 1\<rparr>)"
      "\<forall>s \<in> stream_range sm. in_use sm s \<noteq> None"
proof (rule acquire_stream [of sm])
  show wf: "wf_words sm" using assms by (simp add: wf_streams_def)
  {
    fix s assume s: "acquire_stream sm = (s, take_stream s (sm\<lparr>offset := offset sm + 1\<rparr>))"
      "s \<in> stream_range sm" "free_stream sm s"
    let ?sm1 = "take_stream s (sm\<lparr>offset := offset sm + 1\<rparr>)"
    let ?sm' = "?sm1\<lparr>pending := AList.update s item (pending sm)\<rparr>"
    have free: "free_stream ?sm1 t \<longleftrightarrow> free_stream sm t \<and> t \<noteq> s" if "t \<in> stream_range sm" for t
      using free_take_stream [of "sm\<lparr>offset := offset sm + 1\<rparr>" s t] wf s that by simp
    show thesis
    proof (rule that(1))
      show "StreamManager_acquire item sm = (s, ?sm')"
        using s(1,2) by (simp add: StreamManager_acquire_def stream_range_def)
      show "wf_streams ?sm'"
        using wf assms free s(2)
        by (intro wf_streamsI) (auto simp: wf_streams_def distinct_update dom_update)
      show "in_use sm s = None" using in_use_iff [OF assms, of s] s(3) by blast
      show "in_use ?sm' = (in_use sm)(s \<mapsto> item)" by (simp add: in_use_def update_conv')
    qed (use s(2) in simp_all)
  next
    assume "acquire_stream sm = (- 1, sm\<lparr>offset := offset sm + 1\<rparr>)"
      "\<forall>s \<in> stream_range sm. \<not> free_stream sm s"
    then show thesis using in_use_iff [OF assms]
      by (intro that(2)) (auto simp: StreamManager_acquire_def)
  }
qed

lemma release_stream_in_use:
  assumes "wf_streams sm" "in_use sm s \<noteq> None"
  obtains sm' where "release_stream s (sm\<lparr>pending := AList.delete s (pending sm)\<rparr>) = Some sm'"
    "wf_streams sm'" "in_use sm' = (in_use sm)(s := None)" "max_streams sm' = max_streams sm"
proof -
  have s: "s \<in> stream_range sm" "\<not> free_stream sm s" using in_use_iff [OF assms(1)] assms(2) by blast+
  have wf: "wf_words sm" using assms(1) by (simp add: wf_streams_def)
  note ix = stream_index [OF wf s(1)]
  let ?w = "words sm ! nat (s div 64)" and ?m = "push_bit (nat (s mod 64)) 1 :: u64"
  let ?p = "AList.delete s (pending sm)" and ?ws = "(words sm)[nat (s div 64) := ?w OR ?m]"
  let ?sm' = "sm\<lparr>pending := ?p, words := ?ws\<rparr>"
  have m: "bit ?m j \<longleftrightarrow> j = nat (s mod 64)" for j
    using ix(2) unfolding bit_push_bit_iff by (auto simp: bit_1_iff)
  have "?w AND ?m = 0"
  proof (rule bit_word_eqI)
    show "bit (?w AND ?m) j = bit (0 :: u64) j" for j
      using s(2) unfolding bit_and_iff m free_stream_def by auto
  qed
  then have eq: "release_stream s (sm\<lparr>pending := ?p\<rparr>) = Some ?sm'"
    unfolding release_stream_def Let_def by simp
  have free: "free_stream ?sm' t \<longleftrightarrow> free_stream sm t \<or> t = s" if "t \<in> stream_range sm" for t
  proof (cases "nat (t div 64) = nat (s div 64)")
    case True
    then have "free_stream ?sm' t \<longleftrightarrow> bit (?w OR ?m) (nat (t mod 64))"
      using ix(1) unfolding free_stream_def by simp
    then show ?thesis using True stream_eq_iff [of t s] ix(3) stream_index(3) [OF wf that]
      unfolding bit_or_iff m free_stream_def by auto
  next
    case False
    then have "free_stream ?sm' t = free_stream sm t" unfolding free_stream_def by simp
    then show ?thesis using False by blast
  qed
  have range: "stream_range ?sm' = stream_range sm" by (simp add: stream_range_def)
  show thesis
  proof (rule that [OF eq])
    show "wf_streams ?sm'"
    proof (rule wf_streamsI)
      show "wf_words ?sm'" using wf by (simp add: wf_words_def)
      show "distinct (map fst (pending ?sm'))"
        using assms(1) by (simp add: wf_streams_def distinct_delete)
      show "t \<in> fst ` set (pending ?sm') \<longleftrightarrow> t \<in> stream_range ?sm' \<and> \<not> free_stream ?sm' t" for t
        using assms(1) free [of t] unfolding range by (auto simp: wf_streams_def keys_delete)
    qed
    show "in_use ?sm' = (in_use sm)(s := None)" by (simp add: in_use_def delete_conv')
  qed simp
qed

lemma get_pending_cases:
  assumes "wf_streams sm"
  obtains "in_use sm s = None" "StreamManager_get_pending_and_release s sm = Some (None, sm)"
  | item sm' where "in_use sm s = Some item"
      "StreamManager_get_pending_and_release s sm = Some (Some item, sm')"
      "wf_streams sm'" "in_use sm' = (in_use sm)(s := None)" "max_streams sm' = max_streams sm"
proof (cases "in_use sm s")
  case None
  then show ?thesis
    by (intro that(1)) (auto simp: StreamManager_get_pending_and_release_def in_use_def)
next
  case (Some item)
  then have "in_use sm s \<noteq> None" by simp
  then show ?thesis
  proof (rule release_stream_in_use [OF assms])
    fix sm' assume "release_stream s (sm\<lparr>pending := AList.delete s (pending sm)\<rparr>) = Some sm'"
      "wf_streams sm'" "in_use sm' = (in_use sm)(s := None)" "max_streams sm' = max_streams sm"
    with Some show ?thesis
      by (intro that(2) [of item sm']) (auto simp: StreamManager_get_pending_and_release_def in_use_def)
  qed
qed

lemma release_cases:
  assumes "wf_streams sm" "in_use sm s \<noteq> None"
  obtains sm' where "StreamManager_release s sm = Some sm'" "wf_streams sm'"
    "in_use sm' = (in_use sm)(s := None)" "max_streams sm' = max_streams sm"
proof (rule release_stream_in_use [OF assms])
  have "s \<in> stream_range sm" using in_use_iff [OF assms(1)] assms(2) by blast
  then show "release_stream s (sm\<lparr>pending := AList.delete s (pending sm)\<rparr>) = Some sm' \<Longrightarrow>
      wf_streams sm' \<Longrightarrow> in_use sm' = (in_use sm)(s := None) \<Longrightarrow>
      max_streams sm' = max_streams sm \<Longrightarrow> thesis" for sm'
    by (intro that [of sm']) (auto simp: StreamManager_release_def stream_range_def)
qed

subsection \<open>How many ids are left\<close>

lemma pending_count:
  assumes "wf_streams sm"
  shows "length (pending sm) \<le> stream_limit sm"
    "length (pending sm) = stream_limit sm \<longleftrightarrow> (\<forall>s \<in> stream_range sm. in_use sm s \<noteq> None)"
proof -
  let ?used = "fst ` set (pending sm)"
  have n: "length (pending sm) = card ?used"
    using assms distinct_card [of "map fst (pending sm)"] by (simp add: wf_streams_def)
  have sub: "?used \<subseteq> stream_range sm" using assms by (auto simp: wf_streams_def)
  have fin: "finite (stream_range sm)" by (simp add: stream_range_def)
  have c: "card (stream_range sm) = stream_limit sm"
    by (simp add: stream_range_def stream_limit_def)
  show "length (pending sm) \<le> stream_limit sm" using card_mono [OF fin sub] n c by simp
  have "?used = stream_range sm \<longleftrightarrow> (\<forall>s \<in> stream_range sm. in_use sm s \<noteq> None)"
    using sub by (auto simp: in_use_def map_of_eq_None_iff)
  then show "length (pending sm) = stream_limit sm \<longleftrightarrow> (\<forall>s \<in> stream_range sm. in_use sm s \<noteq> None)"
    using card_subset_eq [OF fin sub] n c by auto
qed

subsection \<open>The interface a connection relies on\<close>

text \<open>A connection sends a request under the id it acquires and, when a response comes in, asks
  for the request of its id. \<open>run_streams\<close> is such a history.\<close>

datatype 'a stream_op = Send 'a | Response int

fun run_streams ::
    "('a \<Rightarrow> 's \<Rightarrow> int \<times> 's) \<Rightarrow> (int \<Rightarrow> 's \<Rightarrow> ('a option \<times> 's) option) \<Rightarrow>
     'a stream_op list \<Rightarrow> 's \<Rightarrow> 's option" where
  "run_streams acq get [] sm = Some sm"
| "run_streams acq get (Send item # ops) sm = run_streams acq get ops (snd (acq item sm))"
| "run_streams acq get (Response s # ops) sm =
     (case get s sm of None \<Rightarrow> None | Some (_, sm) \<Rightarrow> run_streams acq get ops sm)"

locale stream_allocator =
  fixes inv :: "'s \<Rightarrow> bool" and used :: "'s \<Rightarrow> int \<Rightarrow> 'a option" and limit :: "'s \<Rightarrow> nat"
    and acq :: "'a \<Rightarrow> 's \<Rightarrow> int \<times> 's" and get :: "int \<Rightarrow> 's \<Rightarrow> ('a option \<times> 's) option"
  assumes acq_inv: "inv sm \<Longrightarrow> inv (snd (acq item sm))"
    and acq_limit: "inv sm \<Longrightarrow> limit (snd (acq item sm)) = limit sm"
    and acq_fresh: "inv sm \<Longrightarrow> 0 \<le> fst (acq item sm) \<Longrightarrow>
      fst (acq item sm) < int (limit sm) \<and> used sm (fst (acq item sm)) = None \<and>
      used (snd (acq item sm)) = (used sm)(fst (acq item sm) \<mapsto> item)"
    and acq_fails: "inv sm \<Longrightarrow> fst (acq item sm) < 0 \<Longrightarrow>
      used (snd (acq item sm)) = used sm \<and> (\<forall>s. 0 \<le> s \<and> s < int (limit sm) \<longrightarrow> used sm s \<noteq> None)"
    and get_spec: "inv sm \<Longrightarrow>
      \<exists>sm'. get s sm = Some (used sm s, sm') \<and> inv sm' \<and> limit sm' = limit sm \<and>
        used sm' = (used sm)(s := None)"
begin

text \<open>No history trips an assertion, and the invariant holds throughout.\<close>

lemma run_total:
  "inv sm \<Longrightarrow> \<exists>sm'. run_streams acq get ops sm = Some sm' \<and> inv sm' \<and> limit sm' = limit sm"
proof (induction ops arbitrary: sm)
  case (Cons opn ops)
  show ?case
  proof (cases opn)
    case (Send item)
    then show ?thesis using Cons.IH [OF acq_inv [OF Cons.prems]] acq_limit [OF Cons.prems] by simp
  next
    case (Response s)
    obtain sm1 where "get s sm = Some (used sm s, sm1)" "inv sm1" "limit sm1 = limit sm"
      using get_spec [OF Cons.prems] by blast
    then show ?thesis using Cons.IH [of sm1] Response by simp
  qed
qed simp

text \<open>An id in use keeps its request until its own response.\<close>

lemma run_keeps:
  "inv sm \<Longrightarrow> used sm s = Some item \<Longrightarrow> Response s \<notin> set ops \<Longrightarrow>
     run_streams acq get ops sm = Some sm' \<Longrightarrow> used sm' s = Some item"
proof (induction ops arbitrary: sm)
  case (Cons opn ops)
  show ?case
  proof (cases opn)
    case (Send x)
    have "used (snd (acq x sm)) s = Some item"
      using acq_fresh [OF Cons.prems(1), of x] acq_fails [OF Cons.prems(1), of x] Cons.prems(2)
      by (cases "0 \<le> fst (acq x sm)") auto
    then show ?thesis using Cons.IH [OF acq_inv [OF Cons.prems(1)]] Cons.prems Send by simp
  next
    case (Response t)
    obtain sm1 where g: "get t sm = Some (used sm t, sm1)" "inv sm1" "used sm1 = (used sm)(t := None)"
      using get_spec [OF Cons.prems(1)] by blast
    then have "used sm1 s = Some item" using Cons.prems Response by auto
    then show ?thesis using Cons.IH [OF g(2)] Cons.prems Response g(1) by simp
  qed
qed simp

lemma response_finds_request:
  assumes "inv sm" "acq item sm = (s, sm1)" "0 \<le> s" "Response s \<notin> set ops"
  shows "\<exists>sm2 sm3. run_streams acq get ops sm1 = Some sm2 \<and> get s sm2 = Some (Some item, sm3)"
proof -
  have i: "inv sm1" and u: "used sm1 s = Some item"
    using acq_inv [OF assms(1), of item] acq_fresh [OF assms(1), of item] assms(2,3) by auto
  obtain sm2 where r: "run_streams acq get ops sm1 = Some sm2" "inv sm2" using run_total [OF i] by blast
  then show ?thesis using run_keeps [OF i u assms(4) r(1)] get_spec [of sm2 s] by auto
qed

end

interpretation stream_ids: stream_allocator wf_streams in_use stream_limit StreamManager_acquire
  StreamManager_get_pending_and_release
proof
  fix sm :: "'a stream_manager" and item s
  assume wf: "wf_streams sm"
  have lim: "stream_range sm = {0 ..< int (stream_limit sm)}"
    by (simp add: stream_range_def stream_limit_def)
  show "wf_streams (snd (StreamManager_acquire item sm))"
    by (rule acquire_cases [OF wf, of item]) (use wf in \<open>auto simp: wf_streams_def\<close>)
  show "stream_limit (snd (StreamManager_acquire item sm)) = stream_limit sm"
    by (rule acquire_cases [OF wf, of item]) (auto simp: stream_limit_def)
  show "fst (StreamManager_acquire item sm) < int (stream_limit sm) \<and>
      in_use sm (fst (StreamManager_acquire item sm)) = None \<and>
      in_use (snd (StreamManager_acquire item sm)) =
        (in_use sm)(fst (StreamManager_acquire item sm) \<mapsto> item)"
    if "0 \<le> fst (StreamManager_acquire item sm)"
    by (rule acquire_cases [OF wf, of item]) (use that lim in auto)
  show "in_use (snd (StreamManager_acquire item sm)) = in_use sm \<and>
      (\<forall>s. 0 \<le> s \<and> s < int (stream_limit sm) \<longrightarrow> in_use sm s \<noteq> None)"
    if "fst (StreamManager_acquire item sm) < 0"
    by (rule acquire_cases [OF wf, of item]) (use that lim in \<open>auto simp: in_use_def\<close>)
  show "\<exists>sm'. StreamManager_get_pending_and_release s sm = Some (in_use sm s, sm') \<and> wf_streams sm' \<and>
      stream_limit sm' = stream_limit sm \<and> in_use sm' = (in_use sm)(s := None)"
    by (rule get_pending_cases [OF wf, of s]) (use wf in \<open>auto simp: stream_limit_def fun_upd_idem\<close>)
qed

lemma pending_card:
  assumes "wf_streams sm"
  shows "length (pending sm) = card (dom (in_use sm))" "finite (dom (in_use sm))"
proof -
  have "distinct (map fst (pending sm))" using assms by (simp add: wf_streams_def)
  from distinct_card [OF this] show "length (pending sm) = card (dom (in_use sm))"
    by (simp add: in_use_def dom_map_of_conv_image_fst)
qed (simp add: in_use_def finite_dom_map_of)

lemma acquire_from_new:
  obtains s sm where "StreamManager_acquire item (StreamManager_new v) = (s, sm)" "wf_streams sm"
    "0 \<le> s" "in_use sm s = Some item"
proof (rule acquire_cases [OF wf_StreamManager_new [of v], of item])
  let ?new = "StreamManager_new v :: 'a stream_manager"
  have "0 \<in> stream_range ?new"
    by (simp add: stream_range_def StreamManager_new_def num_bytes_for_stream_def Let_def)
  moreover assume "\<forall>s \<in> stream_range ?new. in_use ?new s \<noteq> None"
  ultimately show thesis by (auto simp: in_use_def StreamManager_new_def Let_def)
qed (auto intro: that simp: stream_range_def)

subsection \<open>Properties\<close>

text \<open>C11. \<open>acquire\<close> hands out an id that is in range and not in use, for the given request, as long as
  fewer than \<open>max_streams\<close> requests are pending; only when all ids are in use does it return -1, and
  then nothing is recorded. The bit set and the hash map agree afterwards.\<close>

theorem stream_acquire_correct:
  assumes "wf_streams sm"
  shows "\<exists>s sm'. StreamManager_acquire item sm = (s, sm') \<and> wf_streams sm' \<and>
    (if length (pending sm) < stream_limit sm
     then 0 \<le> s \<and> s < int (stream_limit sm) \<and> in_use sm s = None \<and>
       in_use sm' = (in_use sm)(s \<mapsto> item)
     else s = - 1 \<and> in_use sm' = in_use sm)"
proof -
  have full: "length (pending sm) < stream_limit sm \<longleftrightarrow> \<not> (\<forall>s \<in> stream_range sm. in_use sm s \<noteq> None)"
    using pending_count [OF assms] by linarith
  have lim: "stream_range sm = {0 ..< int (stream_limit sm)}"
    by (simp add: stream_range_def stream_limit_def)
  show ?thesis
  proof (rule acquire_cases [OF assms, of item])
    fix s sm'
    assume "StreamManager_acquire item sm = (s, sm')" "wf_streams sm'" "s \<in> stream_range sm"
      "in_use sm s = None" "in_use sm' = (in_use sm)(s \<mapsto> item)"
    moreover from this have "length (pending sm) < stream_limit sm" using full by blast
    ultimately show ?thesis using lim by simp
  next
    assume "StreamManager_acquire item sm = (- 1, sm\<lparr>offset := offset sm + 1\<rparr>)"
      "\<forall>s \<in> stream_range sm. in_use sm s \<noteq> None"
    moreover have "wf_streams (sm\<lparr>offset := offset sm + 1\<rparr>)" using assms by (simp add: wf_streams_def)
    moreover have "in_use (sm\<lparr>offset := offset sm + 1\<rparr>) = in_use sm" by (simp add: in_use_def)
    ultimately show ?thesis using full by auto
  qed
qed

theorem stream_acquire_correct_witness:
  "wf_streams (StreamManager_new 2 :: nat stream_manager) \<and>
   (\<exists>s sm'. StreamManager_acquire 7 (StreamManager_new 2) = (s, sm') \<and> wf_streams sm' \<and> 0 \<le> s \<and>
      s < 128 \<and> in_use sm' s = Some (7 :: nat))"
proof -
  have "length (pending (StreamManager_new 2 :: nat stream_manager)) = 0"
    "stream_limit (StreamManager_new 2 :: nat stream_manager) = 128"
    by (simp_all add: StreamManager_new_def stream_limit_def num_bytes_for_stream_def Let_def)
  then show ?thesis
    using stream_acquire_correct [OF wf_StreamManager_new [of 2], of "7 :: nat"]
      wf_StreamManager_new [of 2, where 'a = nat] by auto
qed



text \<open>Releasing the id of a pending request, as after a request timed out before it was written,
  passes both assertions, forgets exactly that request and makes one more stream available.\<close>

theorem stream_release_correct:
  assumes "wf_streams sm" "in_use sm s \<noteq> None"
  shows "\<exists>sm'. StreamManager_release s sm = Some sm' \<and> wf_streams sm' \<and>
    in_use sm' = (in_use sm)(s := None) \<and>
    StreamManager_available_streams sm' = StreamManager_available_streams sm + 1 \<and>
    unat (StreamManager_available_streams sm) = stream_limit sm - length (pending sm)"
proof (rule release_cases [OF assms])
  fix sm' assume r: "StreamManager_release s sm = Some sm'" "wf_streams sm'"
    "in_use sm' = (in_use sm)(s := None)" "max_streams sm' = max_streams sm"
  have "s \<in> dom (in_use sm)" using assms(2) by blast
  moreover have "dom (in_use sm') = dom (in_use sm) - {s}" using r(3) by auto
  ultimately have "length (pending sm) = Suc (length (pending sm'))"
    using card.remove [OF pending_card(2) [OF assms(1)], of s]
    unfolding pending_card(1) [OF assms(1)] pending_card(1) [OF r(2)] by argo
  then have "StreamManager_available_streams sm' = StreamManager_available_streams sm + 1"
    using r(4) by (simp add: StreamManager_available_streams_def)
  moreover have "unat (StreamManager_available_streams sm) = stream_limit sm - length (pending sm)"
    using pending_count(1) [OF assms(1)] unat_minus_of_nat [of "length (pending sm)" "max_streams sm"]
    by (simp add: StreamManager_available_streams_def stream_limit_def)
  ultimately show ?thesis using r by blast
qed

theorem stream_release_correct_witness:
  "\<exists>s sm sm'. StreamManager_acquire (7 :: nat) (StreamManager_new 4) = (s, sm) \<and>
     StreamManager_release s sm = Some sm' \<and>
     StreamManager_available_streams sm' = StreamManager_available_streams sm + 1"
proof -
  obtain s sm where a: "StreamManager_acquire (7 :: nat) (StreamManager_new 4) = (s, sm)"
    "wf_streams sm" "in_use sm s = Some 7"
    using acquire_from_new [of 7 4] by blast
  from a(3) have "in_use sm s \<noteq> None" by simp
  from stream_release_correct [OF a(2) this] a(1) show ?thesis by blast
qed

end
