(* ===== verification/Connection.thy ===== *)
theory Connection
  imports Frame StreamManager "HOL-Library.Sublist"
begin

text \<open>
  A connection (\<open>connection.hpp\<close>, \<open>connection.cpp\<close>) and the requests on it (\<open>request_callback.hpp\<close>,
  \<open>request_callback.cpp\<close>).

  A request callback is an index into the list of all callbacks. The calls that leave the connection, to
  the callbacks of requests and to the listener, are written to a log. A failed \<open>assert\<close> is remembered in
  a flag, with one of its own for \<open>Connection::set_state\<close>, and the code goes on as it does in a release build; undefined behaviour, a read outside a buffer
  or a cast of a request to a class it does not have, sets another flag. The callbacks that the connection makes
  itself, for its startup and its heartbeats, are carried out; what the other callbacks do with a response
  is outside, except that they may close the connection. Encryption, reference counts and the bytes of
  requests are left out: the size of an encoded request is a parameter.
\<close>

subsection \<open>The states of a request\<close>

datatype request_state =
  REQUEST_STATE_NEW | REQUEST_STATE_WRITING | REQUEST_STATE_READING | REQUEST_STATE_READ_BEFORE_WRITE
| REQUEST_STATE_FINISHED | REQUEST_STATE_CANCELLED | REQUEST_STATE_CANCELLED_WRITING
| REQUEST_STATE_CANCELLED_READING | REQUEST_STATE_CANCELLED_READ_BEFORE_WRITE

text \<open>The state after \<open>set_state\<close>, or that an assertion fails and the state stays. The assertion in the
  cancelled state can not fail; the case of a read before a write falls through to the next one.\<close>

fun next_state :: "request_state \<Rightarrow> request_state \<Rightarrow> request_state option" where
  "next_state REQUEST_STATE_NEW s =
     (if s = REQUEST_STATE_NEW \<or> s = REQUEST_STATE_CANCELLED \<or> s = REQUEST_STATE_WRITING then Some s else None)"
| "next_state REQUEST_STATE_WRITING s =
     (if s = REQUEST_STATE_READING \<or> s = REQUEST_STATE_READ_BEFORE_WRITE \<or> s = REQUEST_STATE_FINISHED then Some s
      else if s = REQUEST_STATE_CANCELLED then Some REQUEST_STATE_CANCELLED_WRITING else None)"
| "next_state REQUEST_STATE_READING s =
     (if s = REQUEST_STATE_FINISHED then Some s
      else if s = REQUEST_STATE_CANCELLED then Some REQUEST_STATE_CANCELLED_READING else None)"
| "next_state REQUEST_STATE_READ_BEFORE_WRITE s =
     (if s = REQUEST_STATE_FINISHED then Some s
      else if s = REQUEST_STATE_CANCELLED then Some REQUEST_STATE_CANCELLED_READ_BEFORE_WRITE else None)"
| "next_state REQUEST_STATE_FINISHED s = (if s = REQUEST_STATE_NEW \<or> s = REQUEST_STATE_CANCELLED then Some s else None)"
| "next_state REQUEST_STATE_CANCELLED s = Some REQUEST_STATE_CANCELLED"
| "next_state REQUEST_STATE_CANCELLED_READ_BEFORE_WRITE s = (if s = REQUEST_STATE_CANCELLED then Some s else None)"
| "next_state REQUEST_STATE_CANCELLED_READING s = (if s = REQUEST_STATE_CANCELLED then Some s else None)"
| "next_state REQUEST_STATE_CANCELLED_WRITING s =
     (if s = REQUEST_STATE_CANCELLED \<or> s = REQUEST_STATE_CANCELLED_READING \<or>
         s = REQUEST_STATE_CANCELLED_READ_BEFORE_WRITE then Some s else None)"

subsection \<open>State\<close>

datatype startup_request =
  OptionsRequest | StartupRequest | RegisterRequest nat | UseRequest "byte list" | CredentialsRequest
| AuthResponseRequest "byte list"

datatype request_kind = StartupCallback startup_request | HeartbeatCallback | OtherCallback nat

record 'addr callback =
  cb_kind :: request_kind
  cb_idempotent :: bool
  cb_state :: request_state
  cb_stream :: int
  cb_response :: "'addr response option"

datatype connection_state =
  CONNECTION_STATE_NEW | CONNECTION_STATE_CONNECTING | CONNECTION_STATE_CONNECTED
| CONNECTION_STATE_REGISTERING_EVENTS | CONNECTION_STATE_READY | CONNECTION_STATE_OVERWHELMED
| CONNECTION_STATE_CLOSE | CONNECTION_STATE_CLOSE_DEFUNCT

datatype connection_error =
  CONNECTION_OK | CONNECTION_ERROR_GENERIC | CONNECTION_ERROR_TIMEOUT | CONNECTION_ERROR_INVALID_PROTOCOL
| CONNECTION_ERROR_AUTH | CONNECTION_ERROR_SSL_ENCRYPT | CONNECTION_ERROR_SSL_DECRYPT | CONNECTION_ERROR_SSL_HANDSHAKE
| CONNECTION_ERROR_SSL_VERIFY | CONNECTION_ERROR_KEYSPACE

datatype request_error = CASS_ERROR_LIB_REQUEST_TIMED_OUT | CASS_ERROR_LIB_WRITE_ERROR | CASS_ERROR_LIB_MESSAGE_ENCODE

datatype 'addr notice =
  On_set nat "'addr response" | On_error nat request_error | On_retry nat bool | On_cancel nat "'addr response option"
| Listener_ready | Listener_close | Availability bool | Listener_event "'addr response"

record pending_write =
  pw_is_flushed :: bool
  pw_size :: nat
  pw_callbacks :: "nat list"

record 'addr connection =
  c_state :: connection_state
  c_error_code :: connection_error
  c_pending_writes_size :: nat
  c_pending_writes :: "pending_write list"
  c_pending_reads :: "nat list"
  c_free_writes :: nat
  c_keyspace :: "byte list"
  c_protocol_version :: int
  c_response :: "'addr response_message"
  c_streams :: "nat stream_manager"
  c_connect_timer :: bool
  c_heartbeat_outstanding :: bool
  c_heartbeat_timer :: bool
  c_terminate_timer :: bool
  c_callbacks :: "'addr callback list"
  c_log :: "'addr notice list"
  c_assertion_failed :: bool
  c_state_assertion_failed :: bool
  c_undefined :: bool

text \<open>The configuration, and the code around a connection: the encoder of requests, the authenticator and the
  handlers of other callbacks, of which only matters whether they close the connection.\<close>

record 'addr env =
  e_from_inet :: "'addr from_inet"
  e_encode :: "int \<Rightarrow> request_kind \<Rightarrow> int"
  e_write_bytes_high_water_mark :: nat
  e_write_bytes_low_water_mark :: nat
  e_max_reusable_write_objects :: nat
  e_heartbeat_interval :: nat
  e_idle_timeout :: nat
  e_event_types :: nat
  e_v1_authenticator :: "byte list \<Rightarrow> bool"
  e_initial_response :: "byte list \<Rightarrow> byte list option option"
  e_evaluate_challenge :: "byte list \<Rightarrow> byte list option"
  e_success :: "byte list \<Rightarrow> bool"
  e_makes_defunct :: "nat \<Rightarrow> 'addr response \<Rightarrow> bool"

definition new_callback :: "request_kind \<Rightarrow> bool \<Rightarrow> 'addr callback" where
  "new_callback kind idempotent =
     \<lparr>cb_kind = kind, cb_idempotent = idempotent, cb_state = REQUEST_STATE_NEW, cb_stream = -1, cb_response = None\<rparr>"

definition Connection_new :: "byte list \<Rightarrow> int \<Rightarrow> 'addr connection" where
  "Connection_new keyspace protocol_version =
     \<lparr>c_state = CONNECTION_STATE_NEW, c_error_code = CONNECTION_OK, c_pending_writes_size = 0, c_pending_writes = [],
      c_pending_reads = [], c_free_writes = 0, c_keyspace = keyspace, c_protocol_version = protocol_version,
      c_response = ResponseMessage_new, c_streams = StreamManager_new protocol_version, c_connect_timer = False,
      c_heartbeat_outstanding = False, c_heartbeat_timer = False, c_terminate_timer = False, c_callbacks = [],
      c_log = [], c_assertion_failed = False,
      c_state_assertion_failed = False, c_undefined = False\<rparr>"

definition emit :: "'addr notice \<Rightarrow> 'addr connection \<Rightarrow> 'addr connection" where
  "emit e c = c\<lparr>c_log := c_log c @ [e]\<rparr>"

definition fail_assertion :: "'addr connection \<Rightarrow> 'addr connection" where
  "fail_assertion c = c\<lparr>c_assertion_failed := True\<rparr>"

abbreviation callback_at :: "'addr connection \<Rightarrow> nat \<Rightarrow> 'addr callback" where
  "callback_at c p \<equiv> c_callbacks c ! p"

definition update_callback :: "nat \<Rightarrow> ('addr callback \<Rightarrow> 'addr callback) \<Rightarrow> 'addr connection \<Rightarrow> 'addr connection" where
  "update_callback p f c = c\<lparr>c_callbacks := (c_callbacks c)[p := f (callback_at c p)]\<rparr>"

definition RequestCallback_set_state :: "nat \<Rightarrow> request_state \<Rightarrow> 'addr connection \<Rightarrow> 'addr connection" where
  "RequestCallback_set_state p s c =
     (case next_state (cb_state (callback_at c p)) s of
        Some s' \<Rightarrow> update_callback p (\<lambda>cb. cb\<lparr>cb_state := s'\<rparr>) c
      | None \<Rightarrow> fail_assertion c)"

subsection \<open>The state of the connection\<close>

definition is_closing :: "'addr connection \<Rightarrow> bool" where
  "is_closing c \<longleftrightarrow> c_state c = CONNECTION_STATE_CLOSE \<or> c_state c = CONNECTION_STATE_CLOSE_DEFUNCT"

fun valid_connection_state :: "connection_state \<Rightarrow> connection_state \<Rightarrow> bool" where
  "valid_connection_state CONNECTION_STATE_NEW s = (s = CONNECTION_STATE_CONNECTING)"
| "valid_connection_state CONNECTION_STATE_CONNECTING s =
     (s \<in> {CONNECTION_STATE_CONNECTED, CONNECTION_STATE_CLOSE, CONNECTION_STATE_CLOSE_DEFUNCT})"
| "valid_connection_state CONNECTION_STATE_CONNECTED s =
     (s \<in> {CONNECTION_STATE_REGISTERING_EVENTS, CONNECTION_STATE_READY, CONNECTION_STATE_CLOSE, CONNECTION_STATE_CLOSE_DEFUNCT})"
| "valid_connection_state CONNECTION_STATE_REGISTERING_EVENTS s =
     (s \<in> {CONNECTION_STATE_READY, CONNECTION_STATE_CLOSE, CONNECTION_STATE_CLOSE_DEFUNCT})"
| "valid_connection_state CONNECTION_STATE_READY s =
     (s \<in> {CONNECTION_STATE_OVERWHELMED, CONNECTION_STATE_CLOSE, CONNECTION_STATE_CLOSE_DEFUNCT})"
| "valid_connection_state CONNECTION_STATE_OVERWHELMED s =
     (s \<in> {CONNECTION_STATE_READY, CONNECTION_STATE_CLOSE, CONNECTION_STATE_CLOSE_DEFUNCT})"
| "valid_connection_state CONNECTION_STATE_CLOSE s = False"
| "valid_connection_state CONNECTION_STATE_CLOSE_DEFUNCT s = False"

definition Connection_set_state :: "connection_state \<Rightarrow> 'addr connection \<Rightarrow> 'addr connection" where
  "Connection_set_state new_state c =
     (if new_state = c_state c then c
      else let c1 = (if valid_connection_state (c_state c) new_state then c else c\<lparr>c_state_assertion_failed := True\<rparr>);
               c2 = (if is_closing c then c1 else c1\<lparr>c_state := new_state\<rparr>)
           in if new_state = CONNECTION_STATE_READY \<or> c_state c = CONNECTION_STATE_READY
              then emit (Availability (c_state c2 = CONNECTION_STATE_READY)) c2 else c2)"

definition internal_close :: "connection_state \<Rightarrow> 'addr connection \<Rightarrow> 'addr connection" where
  "internal_close close_state c =
     (if is_closing c then c
      else Connection_set_state close_state
        (c\<lparr>c_heartbeat_timer := False, c_terminate_timer := False, c_connect_timer := False\<rparr>))"

definition Connection_close :: "'addr connection \<Rightarrow> 'addr connection" where
  "Connection_close = internal_close CONNECTION_STATE_CLOSE"

definition defunct :: "'addr connection \<Rightarrow> 'addr connection" where
  "defunct = internal_close CONNECTION_STATE_CLOSE_DEFUNCT"

definition notify_error :: "connection_error \<Rightarrow> 'addr connection \<Rightarrow> 'addr connection" where
  "notify_error code c = defunct (c\<lparr>c_error_code := code\<rparr>)"

definition restart_heartbeat_timer :: "'addr env \<Rightarrow> 'addr connection \<Rightarrow> 'addr connection" where
  "restart_heartbeat_timer env c = (if e_heartbeat_interval env > 0 then c\<lparr>c_heartbeat_timer := True\<rparr> else c)"

definition restart_terminate_timer :: "'addr env \<Rightarrow> 'addr connection \<Rightarrow> 'addr connection" where
  "restart_terminate_timer env c =
     (if e_heartbeat_interval env > 0 \<and> e_idle_timeout env > 0 then c\<lparr>c_terminate_timer := True\<rparr> else c)"

definition notify_ready :: "'addr env \<Rightarrow> 'addr connection \<Rightarrow> 'addr connection" where
  "notify_ready env c =
     emit Listener_ready (Connection_set_state CONNECTION_STATE_READY
       (restart_terminate_timer env (restart_heartbeat_timer env (c\<lparr>c_connect_timer := False\<rparr>))))"

subsection \<open>Writing\<close>

text \<open>The callbacks of startup and heartbeat requests on an error and on a timeout.\<close>

definition on_internal_error :: "request_kind \<Rightarrow> 'addr connection \<Rightarrow> 'addr connection" where
  "on_internal_error kind c =
     (case kind of
        StartupCallback r \<Rightarrow> notify_error CONNECTION_ERROR_GENERIC c
      | HeartbeatCallback \<Rightarrow> c\<lparr>c_heartbeat_outstanding := False\<rparr>
      | OtherCallback k \<Rightarrow> c)"

definition on_internal_timeout :: "request_kind \<Rightarrow> 'addr connection \<Rightarrow> 'addr connection" where
  "on_internal_timeout kind c =
     (case kind of
        StartupCallback r \<Rightarrow> if is_closing c then c else notify_error CONNECTION_ERROR_TIMEOUT c
      | HeartbeatCallback \<Rightarrow> c\<lparr>c_heartbeat_outstanding := False\<rparr>
      | OtherCallback k \<Rightarrow> c)"

definition on_error :: "nat \<Rightarrow> request_error \<Rightarrow> 'addr connection \<Rightarrow> 'addr connection" where
  "on_error p code c = on_internal_error (cb_kind (callback_at c p)) (emit (On_error p code) c)"

definition on_retry :: "nat \<Rightarrow> bool \<Rightarrow> 'addr connection \<Rightarrow> 'addr connection" where
  "on_retry p use_next_host c =
     on_internal_timeout (cb_kind (callback_at c p)) (emit (On_retry p use_next_host) c)"

definition on_cancel :: "nat \<Rightarrow> 'addr response option \<Rightarrow> 'addr connection \<Rightarrow> 'addr connection" where
  "on_cancel p response c = emit (On_cancel p response) c"

definition fresh_write :: "'addr connection \<Rightarrow> 'addr connection" where
  "fresh_write c =
     (if c_pending_writes c = [] \<or> pw_is_flushed (last (c_pending_writes c))
      then c\<lparr>c_pending_writes := c_pending_writes c @ [\<lparr>pw_is_flushed = False, pw_size = 0, pw_callbacks = []\<rparr>],
             c_free_writes := c_free_writes c - 1\<rparr>
      else c)"

text \<open>\<open>flush\<close> of the last pending write, which does nothing if it is flushed or holds no request.\<close>

definition Connection_flush :: "'addr connection \<Rightarrow> 'addr connection" where
  "Connection_flush c =
     (if c_pending_writes c = [] then c
      else let w = last (c_pending_writes c)
           in if pw_is_flushed w \<or> pw_callbacks w = [] then c
              else c\<lparr>c_pending_writes := butlast (c_pending_writes c) @ [w\<lparr>pw_is_flushed := True\<rparr>]\<rparr>)"

abbreviation REQUEST_ERROR_NO_AVAILABLE_STREAM_IDS :: int where "REQUEST_ERROR_NO_AVAILABLE_STREAM_IDS \<equiv> -4"
abbreviation REQUEST_ERROR_CANCELLED :: int where "REQUEST_ERROR_CANCELLED \<equiv> -5"

definition release_stream_of :: "int \<Rightarrow> 'addr connection \<Rightarrow> 'addr connection" where
  "release_stream_of stream c =
     (case StreamManager_release stream (c_streams c) of
        Some sm \<Rightarrow> c\<lparr>c_streams := sm\<rparr>
      | None \<Rightarrow> fail_assertion c)"

definition add_request :: "nat \<Rightarrow> nat \<Rightarrow> 'addr connection \<Rightarrow> 'addr connection" where
  "add_request p request_size c =
     (let w = last (c_pending_writes c)
      in c\<lparr>c_pending_writes := butlast (c_pending_writes c) @ [w\<lparr>pw_size := pw_size w + request_size, pw_callbacks := pw_callbacks w @ [p]\<rparr>],
           c_pending_writes_size := c_pending_writes_size c + request_size\<rparr>)"

definition internal_write :: "'addr env \<Rightarrow> nat \<Rightarrow> bool \<Rightarrow> 'addr connection \<Rightarrow> int \<times> 'addr connection" where
  "internal_write env p flush_immediately c =
     (if cb_state (callback_at c p) = REQUEST_STATE_CANCELLED then (REQUEST_ERROR_CANCELLED, c)
      else let (stream, sm) = StreamManager_acquire p (c_streams c); c = c\<lparr>c_streams := sm\<rparr>
           in if stream < 0 then (REQUEST_ERROR_NO_AVAILABLE_STREAM_IDS, c)
              else let c = fresh_write (update_callback p (\<lambda>cb. cb\<lparr>cb_stream := stream\<rparr>) c);
                       request_size = e_encode env (c_protocol_version c) (cb_kind (callback_at c p))
                   in if request_size < 0 then (request_size, on_error p CASS_ERROR_LIB_MESSAGE_ENCODE (release_stream_of stream c))
                      else let c = add_request p (nat request_size) c;
                               c = (if c_pending_writes_size c > e_write_bytes_high_water_mark env
                                    then Connection_set_state CONNECTION_STATE_OVERWHELMED c else c);
                               c = RequestCallback_set_state p REQUEST_STATE_WRITING c
                           in (1, if flush_immediately then Connection_flush c else c))"

definition Connection_write :: "'addr env \<Rightarrow> nat \<Rightarrow> bool \<Rightarrow> 'addr connection \<Rightarrow> bool \<times> 'addr connection" where
  "Connection_write env p flush_immediately c =
     (let (result, c) = internal_write env p flush_immediately c
      in (result \<noteq> REQUEST_ERROR_NO_AVAILABLE_STREAM_IDS, if result > 0 then restart_heartbeat_timer env c else c))"

text \<open>A new startup or heartbeat request of the connection itself.\<close>

definition write_own :: "'addr env \<Rightarrow> request_kind \<Rightarrow> 'addr connection \<Rightarrow> int \<times> 'addr connection" where
  "write_own env kind c =
     internal_write env (length (c_callbacks c)) True (c\<lparr>c_callbacks := c_callbacks c @ [new_callback kind False]\<rparr>)"

abbreviation write_startup :: "'addr env \<Rightarrow> startup_request \<Rightarrow> 'addr connection \<Rightarrow> 'addr connection" where
  "write_startup env r c \<equiv> snd (write_own env (StartupCallback r) c)"

subsection \<open>Startup\<close>

definition Connection_connect :: "'addr connection \<Rightarrow> 'addr connection" where
  "Connection_connect c =
     (if c_state c = CONNECTION_STATE_NEW
      then (Connection_set_state CONNECTION_STATE_CONNECTING c)\<lparr>c_connect_timer := True\<rparr> else c)"

definition on_connected :: "'addr env \<Rightarrow> 'addr connection \<Rightarrow> 'addr connection" where
  "on_connected env c = write_startup env OptionsRequest c"

definition on_connect :: "'addr env \<Rightarrow> int \<Rightarrow> 'addr connection \<Rightarrow> 'addr connection" where
  "on_connect env status c =
     (if \<not> c_connect_timer c then c
      else if status = 0 then on_connected env (Connection_set_state CONNECTION_STATE_CONNECTED c)
      else notify_error CONNECTION_ERROR_GENERIC c)"

definition on_connect_timeout :: "'addr connection \<Rightarrow> 'addr connection" where
  "on_connect_timeout c = notify_error CONNECTION_ERROR_TIMEOUT (c\<lparr>c_connect_timer := False\<rparr>)"

definition send_initial_auth_response :: "'addr env \<Rightarrow> byte list \<Rightarrow> 'addr connection \<Rightarrow> 'addr connection" where
  "send_initial_auth_response env class_name c =
     (case e_initial_response env class_name of
        None \<Rightarrow> notify_error CONNECTION_ERROR_AUTH c
      | Some None \<Rightarrow> notify_error CONNECTION_ERROR_AUTH c
      | Some (Some response) \<Rightarrow> write_startup env (AuthResponseRequest response) c)"

definition send_credentials :: "'addr env \<Rightarrow> byte list \<Rightarrow> 'addr connection \<Rightarrow> 'addr connection" where
  "send_credentials env class_name c =
     (if e_v1_authenticator env class_name then write_startup env CredentialsRequest c
      else send_initial_auth_response env class_name c)"

definition on_authenticate :: "'addr env \<Rightarrow> byte list \<Rightarrow> 'addr connection \<Rightarrow> 'addr connection" where
  "on_authenticate env class_name c =
     (if c_protocol_version c = 1 then send_credentials env class_name c
      else send_initial_auth_response env class_name c)"

definition on_auth_challenge :: "'addr env \<Rightarrow> byte list \<Rightarrow> 'addr connection \<Rightarrow> 'addr connection" where
  "on_auth_challenge env token c =
     (case e_evaluate_challenge env token of
        None \<Rightarrow> notify_error CONNECTION_ERROR_AUTH c
      | Some response \<Rightarrow> write_startup env (AuthResponseRequest response) c)"

definition on_ready :: "'addr env \<Rightarrow> 'addr connection \<Rightarrow> 'addr connection" where
  "on_ready env c =
     (if c_state c = CONNECTION_STATE_CONNECTED \<and> e_event_types env \<noteq> 0
      then write_startup env (RegisterRequest (e_event_types env)) (Connection_set_state CONNECTION_STATE_REGISTERING_EVENTS c)
      else if c_keyspace c = [] then notify_ready env c
      else write_startup env (UseRequest (c_keyspace c)) c)"

definition on_auth_success :: "'addr env \<Rightarrow> byte list \<Rightarrow> 'addr connection \<Rightarrow> 'addr connection" where
  "on_auth_success env token c =
     (if e_success env token then on_ready env c else notify_error CONNECTION_ERROR_AUTH c)"

abbreviation response_opcode :: "'addr response \<Rightarrow> u8" where
  "response_opcode r \<equiv> fst (snd (snd r))"

abbreviation response_stream :: "'addr response \<Rightarrow> int" where
  "response_stream r \<equiv> sint (fst (snd r))"

definition startup_error :: "error_response \<Rightarrow> connection_error" where
  "startup_error e =
     (if er_code e = 0x000A \<and> sublist (string_bytes ''Invalid or unsupported protocol version'') (er_message e)
      then CONNECTION_ERROR_INVALID_PROTOCOL
      else if er_code e = 0x0100 then CONNECTION_ERROR_AUTH
      else if er_code e = 0x2200 \<and> prefix (string_bytes ''Keyspace'') (er_message e) \<and>
              sublist (string_bytes ''does not exist'') (er_message e)
      then CONNECTION_ERROR_KEYSPACE
      else CONNECTION_ERROR_GENERIC)"

definition with_authenticator ::
    "startup_request \<Rightarrow> ('addr connection \<Rightarrow> 'addr connection) \<Rightarrow> 'addr connection \<Rightarrow> 'addr connection" where
  "with_authenticator request f c =
     (case request of AuthResponseRequest token \<Rightarrow> f c | _ \<Rightarrow> c\<lparr>c_undefined := True\<rparr>)"

text \<open>\<open>StartupCallback::on_internal_set\<close>. The body of a response has the form that its opcode says. The
  request is cast to an \<open>AuthResponseRequest\<close> without a check.\<close>

definition startup_on_set :: "'addr env \<Rightarrow> startup_request \<Rightarrow> 'addr response \<Rightarrow> 'addr connection \<Rightarrow> 'addr connection" where
  "startup_on_set env request r c =
     (case snd (snd (snd r)) of
        None \<Rightarrow> notify_error CONNECTION_ERROR_GENERIC c
      | Some m \<Rightarrow>
          (case mb_body m of
             SupportedBody s \<Rightarrow> write_startup env StartupRequest c
           | ErrorBody e \<Rightarrow> notify_error (startup_error e) c
           | AuthenticateBody class_name \<Rightarrow> on_authenticate env class_name c
           | AuthChallengeBody token \<Rightarrow> with_authenticator request (on_auth_challenge env token) c
           | AuthSuccessBody token \<Rightarrow> with_authenticator request (on_auth_success env token) c
           | ReadyBody \<Rightarrow> on_ready env c
           | ResultBody result \<Rightarrow>
               if rr_kind result = CASS_RESULT_KIND_SET_KEYSPACE then notify_ready env c
               else notify_error CONNECTION_ERROR_GENERIC c
           | EventBody e \<Rightarrow> notify_error CONNECTION_ERROR_GENERIC c))"

subsection \<open>Responses\<close>

definition maybe_set_keyspace :: "'addr response \<Rightarrow> 'addr connection \<Rightarrow> 'addr connection" where
  "maybe_set_keyspace r c =
     (case snd (snd (snd r)) of
        Some m \<Rightarrow>
          (case mb_body m of
             ResultBody result \<Rightarrow>
               if rr_kind result = CASS_RESULT_KIND_SET_KEYSPACE then c\<lparr>c_keyspace := rr_keyspace result\<rparr> else c
           | _ \<Rightarrow> c)
      | None \<Rightarrow> c)"

definition on_set :: "'addr env \<Rightarrow> nat \<Rightarrow> 'addr response \<Rightarrow> 'addr connection \<Rightarrow> 'addr connection" where
  "on_set env p r c =
     (let c = emit (On_set p r) c
      in case cb_kind (callback_at c p) of
           StartupCallback request \<Rightarrow> startup_on_set env request r c
         | HeartbeatCallback \<Rightarrow> c\<lparr>c_heartbeat_outstanding := False\<rparr>
         | OtherCallback k \<Rightarrow> if e_makes_defunct env k r then defunct c else c)"

text \<open>What \<open>consume\<close> does with one complete response.\<close>

definition handle_response :: "'addr env \<Rightarrow> 'addr response \<Rightarrow> 'addr connection \<Rightarrow> 'addr connection" where
  "handle_response env r c =
     (if response_stream r < 0
      then if response_opcode r = CQL_OPCODE_EVENT then emit (Listener_event r) c
           else notify_error CONNECTION_ERROR_GENERIC c
      else case StreamManager_get_pending_and_release (response_stream r) (c_streams c) of
             None \<Rightarrow> fail_assertion c
           | Some (None, sm) \<Rightarrow> notify_error CONNECTION_ERROR_GENERIC (c\<lparr>c_streams := sm\<rparr>)
           | Some (Some p, sm) \<Rightarrow>
               let c = c\<lparr>c_streams := sm\<rparr>
               in case cb_state (callback_at c p) of
                    REQUEST_STATE_READING \<Rightarrow>
                      on_set env p r (maybe_set_keyspace r (RequestCallback_set_state p REQUEST_STATE_FINISHED
                        (c\<lparr>c_pending_reads := remove1 p (c_pending_reads c)\<rparr>)))
                  | REQUEST_STATE_WRITING \<Rightarrow>
                      update_callback p (\<lambda>cb. cb\<lparr>cb_response := Some r\<rparr>)
                        (RequestCallback_set_state p REQUEST_STATE_READ_BEFORE_WRITE c)
                  | REQUEST_STATE_CANCELLED_READING \<Rightarrow>
                      on_cancel p (Some r) (RequestCallback_set_state p REQUEST_STATE_CANCELLED
                        (c\<lparr>c_pending_reads := remove1 p (c_pending_reads c)\<rparr>))
                  | REQUEST_STATE_CANCELLED_WRITING \<Rightarrow>
                      RequestCallback_set_state p REQUEST_STATE_CANCELLED_READ_BEFORE_WRITE c
                  | _ \<Rightarrow> fail_assertion c)"

function consume :: "'addr env \<Rightarrow> byte list \<Rightarrow> 'addr connection \<Rightarrow> 'addr connection" where
  "consume env input c =
     (if input = [] \<or> is_closing c \<or> c_undefined c then c
      else case ResponseMessage_decode (e_from_inet env) input (c_response c) of
             Consumed n m \<Rightarrow>
               if n = 0 then notify_error CONNECTION_ERROR_GENERIC c
               else if rm_is_body_ready m
               then consume env (drop n input) (handle_response env (observe m) (c\<lparr>c_response := ResponseMessage_new\<rparr>))
               else consume env (drop n input) (c\<lparr>c_response := m\<rparr>)
           | Failed \<Rightarrow> notify_error CONNECTION_ERROR_GENERIC c
           | Overrun \<Rightarrow> c\<lparr>c_undefined := True\<rparr>
           | Threw \<Rightarrow> c\<lparr>c_undefined := True\<rparr>)"
  by pat_completeness auto
termination
  by (relation "measure (\<lambda>(env, input, c). length input)") auto

declare consume.simps [simp del]

text \<open>\<open>on_read\<close>: the bytes of a read, its end or an error.\<close>

datatype read_result = Bytes "byte list" | End_of_file | Read_error

definition on_read :: "'addr env \<Rightarrow> read_result \<Rightarrow> 'addr connection \<Rightarrow> 'addr connection" where
  "on_read env result c =
     (case result of
        Bytes input \<Rightarrow> consume env input (restart_terminate_timer env c)
      | End_of_file \<Rightarrow> defunct c
      | Read_error \<Rightarrow> notify_error CONNECTION_ERROR_GENERIC c)"

subsection \<open>Completed writes\<close>

definition on_write_callback :: "'addr env \<Rightarrow> int \<Rightarrow> nat \<Rightarrow> 'addr connection \<Rightarrow> 'addr connection" where
  "on_write_callback env status p c =
     (case cb_state (callback_at c p) of
        REQUEST_STATE_WRITING \<Rightarrow>
          if status = 0
          then let c = RequestCallback_set_state p REQUEST_STATE_READING c
               in c\<lparr>c_pending_reads := c_pending_reads c @ [p]\<rparr>
          else let c = (if is_closing c then c else defunct (notify_error CONNECTION_ERROR_GENERIC c))
               in on_error p CASS_ERROR_LIB_WRITE_ERROR
                    (RequestCallback_set_state p REQUEST_STATE_FINISHED (release_stream_of (cb_stream (callback_at c p)) c))
      | REQUEST_STATE_READ_BEFORE_WRITE \<Rightarrow>
          (let c = RequestCallback_set_state p REQUEST_STATE_FINISHED c
           in case cb_response (callback_at c p) of
                Some r \<Rightarrow> on_set env p r (maybe_set_keyspace r c)
              | None \<Rightarrow> c\<lparr>c_undefined := True\<rparr>)
      | REQUEST_STATE_CANCELLED_WRITING \<Rightarrow>
          (let c = RequestCallback_set_state p REQUEST_STATE_CANCELLED_READING c
           in c\<lparr>c_pending_reads := c_pending_reads c @ [p]\<rparr>)
      | REQUEST_STATE_CANCELLED_READ_BEFORE_WRITE \<Rightarrow>
          on_cancel p None (RequestCallback_set_state p REQUEST_STATE_CANCELLED c)
      | _ \<Rightarrow> fail_assertion c)"

text \<open>Writes complete in the order they were made: the completed write is the first one. Requests made
  while its callbacks run go into a later write, since it is flushed.\<close>

definition on_write :: "'addr env \<Rightarrow> int \<Rightarrow> 'addr connection \<Rightarrow> 'addr connection" where
  "on_write env status c =
     (case c_pending_writes c of
        [] \<Rightarrow> c
      | w # _ \<Rightarrow>
          let c = c\<lparr>c_pending_writes_size := c_pending_writes_size c - pw_size w\<rparr>;
              c = (if c_pending_writes_size c < e_write_bytes_low_water_mark env \<and> c_state c = CONNECTION_STATE_OVERWHELMED
                   then Connection_set_state CONNECTION_STATE_READY c else c);
              c = fold (on_write_callback env status) (pw_callbacks w) c;
              c = c\<lparr>c_pending_writes := tl (c_pending_writes c),
                    c_free_writes := (if c_free_writes c < e_max_reusable_write_objects env then c_free_writes c + 1
                                      else c_free_writes c)\<rparr>
          in Connection_flush c)"

subsection \<open>Timers\<close>

text \<open>The result of \<open>internal_write\<close> is used as a truth value, and is never 0.\<close>

definition on_heartbeat :: "'addr env \<Rightarrow> 'addr connection \<Rightarrow> 'addr connection" where
  "on_heartbeat env c =
     (if c_heartbeat_outstanding c then restart_heartbeat_timer env (c\<lparr>c_heartbeat_timer := False\<rparr>)
      else let (result, c) = write_own env HeartbeatCallback (c\<lparr>c_heartbeat_timer := False\<rparr>)
           in if result = 0 then notify_error CONNECTION_ERROR_TIMEOUT c
              else restart_heartbeat_timer env (c\<lparr>c_heartbeat_outstanding := True\<rparr>))"

definition on_terminate :: "'addr connection \<Rightarrow> 'addr connection" where
  "on_terminate c = notify_error CONNECTION_ERROR_TIMEOUT (c\<lparr>c_terminate_timer := False\<rparr>)"

text \<open>\<open>RequestExecution::cancel\<close>, and \<open>SimpleRequestCallback::on_timeout\<close> for the requests of the connection.\<close>

definition cancel_request :: "nat \<Rightarrow> 'addr connection \<Rightarrow> 'addr connection" where
  "cancel_request p c =
     on_internal_timeout (cb_kind (callback_at c p)) (RequestCallback_set_state p REQUEST_STATE_CANCELLED c)"

subsection \<open>Closing\<close>

definition cleanup_pending_callback :: "'addr env \<Rightarrow> nat \<Rightarrow> 'addr connection \<Rightarrow> 'addr connection" where
  "cleanup_pending_callback env p c =
     (case cb_state (callback_at c p) of
        REQUEST_STATE_READ_BEFORE_WRITE \<Rightarrow>
          (let c = RequestCallback_set_state p REQUEST_STATE_FINISHED c
           in case cb_response (callback_at c p) of
                Some r \<Rightarrow> on_set env p r c
              | None \<Rightarrow> c\<lparr>c_undefined := True\<rparr>)
      | s \<Rightarrow>
          if s = REQUEST_STATE_WRITING \<or> s = REQUEST_STATE_READING
          then let c = RequestCallback_set_state p REQUEST_STATE_FINISHED c
               in if cb_idempotent (callback_at c p) then on_retry p True c
                  else on_error p CASS_ERROR_LIB_REQUEST_TIMED_OUT c
          else if s = REQUEST_STATE_CANCELLED_WRITING \<or> s = REQUEST_STATE_CANCELLED_READING \<or>
                  s = REQUEST_STATE_CANCELLED_READ_BEFORE_WRITE
          then on_cancel p None (RequestCallback_set_state p REQUEST_STATE_CANCELLED c)
          else fail_assertion c)"

text \<open>The loop over the pending writes, to which the response to a startup request can add one. The first
  argument bounds the number of its rounds.\<close>

primrec cleanup_writes :: "nat \<Rightarrow> 'addr env \<Rightarrow> 'addr connection \<Rightarrow> 'addr connection" where
  "cleanup_writes 0 env c = c"
| "cleanup_writes (Suc n) env c =
     (case c_pending_writes c of
        [] \<Rightarrow> c
      | w # ws \<Rightarrow> cleanup_writes n env
          (fold (cleanup_pending_callback env) (pw_callbacks w) (c\<lparr>c_pending_writes := ws\<rparr>)))"

text \<open>The loop over the pending reads takes them from the front of the list.\<close>

definition cleanup_read :: "'addr env \<Rightarrow> nat \<Rightarrow> 'addr connection \<Rightarrow> 'addr connection" where
  "cleanup_read env p c = cleanup_pending_callback env p (c\<lparr>c_pending_reads := tl (c_pending_reads c)\<rparr>)"

definition on_close :: "'addr env \<Rightarrow> 'addr connection \<Rightarrow> 'addr connection" where
  "on_close env c =
     (let c = fold (cleanup_read env) (c_pending_reads c) c;
          c = cleanup_writes (length (c_pending_writes c) + length (c_callbacks c)) env c
      in emit Listener_close c)"

end
