(* ===== verification/ConnectionInvariant.thy ===== *)
theory ConnectionInvariant
  imports Connection
begin

text \<open>
  Every request on a connection is finished exactly once: the accounts of the requests, the streams and the
  pending writes, and that all operations of theory \<open>Connection\<close> keep them.
\<close>

subsection \<open>Accounting\<close>

text \<open>The calls that finish a request.\<close>

fun finishes :: "'addr notice \<Rightarrow> nat option" where
  "finishes (On_set p r) = Some p"
| "finishes (On_error p e) = Some p"
| "finishes (On_retry p b) = Some p"
| "finishes (On_cancel p r) = Some p"
| "finishes _ = None"

definition outcomes :: "'addr connection \<Rightarrow> 'addr notice list" where
  "outcomes c = filter (\<lambda>e. finishes e \<noteq> None) (c_log c)"

definition finish_count :: "nat \<Rightarrow> 'addr notice list \<Rightarrow> nat" where
  "finish_count p es = length (filter (\<lambda>e. finishes e = Some p) es)"

definition writing_state :: "request_state \<Rightarrow> bool" where
  "writing_state s \<longleftrightarrow> s \<in> {REQUEST_STATE_WRITING, REQUEST_STATE_READ_BEFORE_WRITE, REQUEST_STATE_CANCELLED_WRITING,
     REQUEST_STATE_CANCELLED_READ_BEFORE_WRITE}"

definition reading_state :: "request_state \<Rightarrow> bool" where
  "reading_state s \<longleftrightarrow> s \<in> {REQUEST_STATE_READING, REQUEST_STATE_CANCELLED_READING}"

definition awaits_response :: "request_state \<Rightarrow> bool" where
  "awaits_response s \<longleftrightarrow> s \<in> {REQUEST_STATE_WRITING, REQUEST_STATE_CANCELLED_WRITING, REQUEST_STATE_READING,
     REQUEST_STATE_CANCELLED_READING}"

abbreviation live :: "request_state \<Rightarrow> bool" where
  "live s \<equiv> writing_state s \<or> reading_state s"

lemmas state_kinds = writing_state_def reading_state_def awaits_response_def

text \<open>The callbacks whose write is not completed: the rest \<open>R\<close> of a write that is being completed or cleaned
  up, and all of the pending writes but the first \<open>k\<close>.\<close>

definition unwritten :: "nat \<Rightarrow> nat list \<Rightarrow> 'addr connection \<Rightarrow> nat list" where
  "unwritten k R c = R @ concat (map pw_callbacks (drop k (c_pending_writes c)))"

definition callbacks_ok :: "nat list \<Rightarrow> nat list \<Rightarrow> 'addr notice list \<Rightarrow> 'addr callback list \<Rightarrow> bool" where
  "callbacks_ok W rs es cbs \<longleftrightarrow>
     distinct (W @ rs) \<and>
     (\<forall>p. p \<in> set W \<longleftrightarrow> p < length cbs \<and> writing_state (cb_state (cbs ! p))) \<and>
     (\<forall>p. p \<in> set rs \<longleftrightarrow> p < length cbs \<and> reading_state (cb_state (cbs ! p))) \<and>
     (\<forall>p < length cbs. cb_state (cbs ! p) = REQUEST_STATE_READ_BEFORE_WRITE \<longrightarrow>
        (\<exists>r. cb_response (cbs ! p) = Some r \<and> response_stream r = cb_stream (cbs ! p))) \<and>
     (\<forall>p < length cbs. live (cb_state (cbs ! p)) \<longrightarrow> 0 \<le> cb_stream (cbs ! p)) \<and>
     (\<forall>p. finish_count p es = of_bool (p < length cbs \<and> 0 \<le> cb_stream (cbs ! p) \<and> \<not> live (cb_state (cbs ! p)))) \<and>
     (\<forall>p r. On_set p r \<in> set es \<longrightarrow> p < length cbs \<and> response_stream r = cb_stream (cbs ! p))"

definition accounts :: "nat \<Rightarrow> nat list \<Rightarrow> 'addr connection \<Rightarrow> bool" where
  "accounts k R c \<longleftrightarrow>
     callbacks_ok (unwritten k R c) (c_pending_reads c) (outcomes c) (c_callbacks c) \<and> wf_streams (c_streams c) \<and>
     k \<le> length (c_pending_writes c) \<and> (\<forall>w \<in> set (take k (c_pending_writes c)). pw_is_flushed w) \<and>
     \<not> c_assertion_failed c"

text \<open>While the connection is not being cleaned up: the streams in use are those of the requests that wait for
  a response, and the count of pending bytes is the sum of the sizes of the pending writes.\<close>

definition routed :: "nat stream_manager \<Rightarrow> 'addr callback list \<Rightarrow> bool" where
  "routed sm cbs \<longleftrightarrow> (\<forall>s p. in_use sm s = Some p \<longleftrightarrow>
     p < length cbs \<and> awaits_response (cb_state (cbs ! p)) \<and> cb_stream (cbs ! p) = s)"

definition in_order :: "nat \<Rightarrow> 'addr connection \<Rightarrow> bool" where
  "in_order k c \<longleftrightarrow>
     routed (c_streams c) (c_callbacks c) \<and>
     c_pending_writes_size c = sum_list (map pw_size (drop k (c_pending_writes c)))"

text \<open>A bound on the rounds of the clean up of pending writes.\<close>

definition cleanup_rounds :: "'addr connection \<Rightarrow> nat" where
  "cleanup_rounds c = length (c_pending_writes c) +
     length (filter (\<lambda>cb. cb_state cb = REQUEST_STATE_READ_BEFORE_WRITE) (c_callbacks c))"

definition same_core :: "'addr connection \<Rightarrow> 'addr connection \<Rightarrow> bool" where
  "same_core c c' \<longleftrightarrow> c_streams c' = c_streams c \<and> c_pending_writes c' = c_pending_writes c \<and>
     c_pending_writes_size c' = c_pending_writes_size c \<and> c_pending_reads c' = c_pending_reads c \<and>
     c_callbacks c' = c_callbacks c \<and> outcomes c' = outcomes c \<and> c_assertion_failed c' = c_assertion_failed c"

lemma same_core_refl [simp]: "same_core c c"
  by (simp add: same_core_def)

lemma same_core_trans: "same_core a b \<Longrightarrow> same_core b c \<Longrightarrow> same_core a c"
  by (simp add: same_core_def)

lemma accounts_cong: "same_core c c' \<Longrightarrow> accounts k R c' = accounts k R c"
  by (simp add: same_core_def accounts_def unwritten_def)

lemma in_order_cong: "same_core c c' \<Longrightarrow> in_order k c' = in_order k c"
  by (simp add: same_core_def in_order_def)

named_theorems neutral

lemma emit_neutral [neutral]: "finishes e = None \<Longrightarrow> same_core c (emit e c)"
  by (simp add: same_core_def emit_def outcomes_def)

lemma set_state_neutral [neutral]: "same_core c (Connection_set_state s c)"
  by (simp add: Connection_set_state_def Let_def same_core_def emit_def outcomes_def)

lemma timers_neutral [neutral]:
  "same_core c (restart_heartbeat_timer env c)" "same_core c (restart_terminate_timer env c)"
  by (simp_all add: restart_heartbeat_timer_def restart_terminate_timer_def same_core_def outcomes_def)

lemma internal_close_neutral [neutral]: "same_core c (internal_close s c)"
  unfolding internal_close_def
  by (simp, intro impI, rule same_core_trans [OF _ set_state_neutral]) (simp add: same_core_def outcomes_def)

lemma close_neutral [neutral]: "same_core c (Connection_close c)" "same_core c (defunct c)"
  by (simp_all add: Connection_close_def defunct_def internal_close_neutral)

lemma notify_error_neutral [neutral]: "same_core c (notify_error code c)"
  unfolding notify_error_def by (rule same_core_trans [OF _ close_neutral(2)]) (simp add: same_core_def outcomes_def)

lemma notify_ready_neutral [neutral]: "same_core c (notify_ready env c)"
  unfolding notify_ready_def
  by (rule same_core_trans [OF same_core_trans [OF same_core_trans [OF same_core_trans [OF _ timers_neutral(1)]
        timers_neutral(2)] set_state_neutral] emit_neutral])
    (simp_all add: same_core_def outcomes_def)

lemma internal_neutral [neutral]:
  "same_core c (on_internal_error kind c)" "same_core c (on_internal_timeout kind c)"
  by (simp_all add: on_internal_error_def on_internal_timeout_def notify_error_neutral split: request_kind.split)
    (simp_all add: same_core_def outcomes_def)

lemma maybe_set_keyspace_neutral [neutral]: "same_core c (maybe_set_keyspace r c)"
  by (simp add: maybe_set_keyspace_def same_core_def outcomes_def split: option.split response_body.split)

lemma finish_count_append [simp]: "finish_count p (es @ fs) = finish_count p es + finish_count p fs"
  by (simp add: finish_count_def)

lemma finish_count_single [simp]: "finish_count p [e] = of_bool (finishes e = Some p)" "finish_count p [] = 0"
  by (simp_all add: finish_count_def)

lemma finish_count_on_set: "finish_count p es = 0 \<Longrightarrow> On_set p r \<notin> set es"
  by (auto simp: finish_count_def filter_empty_conv)

lemma callbacks_okD:
  assumes "callbacks_ok W rs es cbs"
  shows "distinct (W @ rs)" "p \<in> set W \<longleftrightarrow> p < length cbs \<and> writing_state (cb_state (cbs ! p))"
    "p \<in> set rs \<longleftrightarrow> p < length cbs \<and> reading_state (cb_state (cbs ! p))"
    "p < length cbs \<Longrightarrow> cb_state (cbs ! p) = REQUEST_STATE_READ_BEFORE_WRITE \<Longrightarrow>
       \<exists>r. cb_response (cbs ! p) = Some r \<and> response_stream r = cb_stream (cbs ! p)"
    "p < length cbs \<Longrightarrow> live (cb_state (cbs ! p)) \<Longrightarrow> 0 \<le> cb_stream (cbs ! p)"
    "finish_count p es = of_bool (p < length cbs \<and> 0 \<le> cb_stream (cbs ! p) \<and> \<not> live (cb_state (cbs ! p)))"
    "On_set p r \<in> set es \<Longrightarrow> p < length cbs \<and> response_stream r = cb_stream (cbs ! p)"
  using assms unfolding callbacks_ok_def by blast+

lemma callbacks_ok_new:
  assumes "callbacks_ok W rs es cbs"
  shows "callbacks_ok W rs es (cbs @ [new_callback kind i])"
  using assms unfolding callbacks_ok_def
  by (auto simp: nth_append new_callback_def state_kinds less_Suc_eq)

lemma callbacks_ok_update:
  assumes ok: "callbacks_ok W rs es cbs" and p: "p < length cbs" and d: "distinct (W' @ rs')"
    and W: "set W' - {p} = set W - {p}" "p \<in> set W' \<longleftrightarrow> writing_state (cb_state cb)"
    and rs: "set rs' - {p} = set rs - {p}" "p \<in> set rs' \<longleftrightarrow> reading_state (cb_state cb)"
    and rbw: "cb_state cb = REQUEST_STATE_READ_BEFORE_WRITE \<Longrightarrow> \<exists>r. cb_response cb = Some r \<and> response_stream r = cb_stream cb"
    and lv: "live (cb_state cb) \<Longrightarrow> 0 \<le> cb_stream cb"
    and es: "\<And>q. q \<noteq> p \<Longrightarrow> finish_count q es' = finish_count q es"
      "finish_count p es' = of_bool (0 \<le> cb_stream cb \<and> \<not> live (cb_state cb))"
    and st: "\<And>q r. On_set q r \<in> set es' \<Longrightarrow> q \<noteq> p \<Longrightarrow> On_set q r \<in> set es"
      "\<And>r. On_set p r \<in> set es' \<Longrightarrow> response_stream r = cb_stream cb"
  shows "callbacks_ok W' rs' es' (cbs[p := cb])"
proof -
  note D = callbacks_okD [OF ok]
  have W': "q \<in> set W' \<longleftrightarrow> q < length cbs \<and> writing_state (cb_state (cbs[p := cb] ! q))" for q
    using D(2) [of q] W p by (cases "q = p") auto
  have rs': "q \<in> set rs' \<longleftrightarrow> q < length cbs \<and> reading_state (cb_state (cbs[p := cb] ! q))" for q
    using D(3) [of q] rs p by (cases "q = p") auto
  have rbw': "\<exists>r. cb_response (cbs[p := cb] ! q) = Some r \<and> response_stream r = cb_stream (cbs[p := cb] ! q)"
    if "q < length cbs" "cb_state (cbs[p := cb] ! q) = REQUEST_STATE_READ_BEFORE_WRITE" for q
    using D(4) [of q] rbw that by (cases "q = p") simp_all
  have lv': "0 \<le> cb_stream (cbs[p := cb] ! q)" if "q < length cbs" "live (cb_state (cbs[p := cb] ! q))" for q
    using D(5) [of q] lv that by (cases "q = p") simp_all
  have fc: "finish_count q es' = of_bool (q < length cbs \<and> 0 \<le> cb_stream (cbs[p := cb] ! q) \<and>
      \<not> live (cb_state (cbs[p := cb] ! q)))" for q
    using D(6) [of q] es(1) [of q] es(2) p by (cases "q = p") simp_all
  have st': "q < length cbs \<and> response_stream r = cb_stream (cbs[p := cb] ! q)" if "On_set q r \<in> set es'" for q r
    using D(7) [of q r] st(1) [of q r] st(2) [of r] that p by (cases "q = p") simp_all
  show ?thesis unfolding callbacks_ok_def length_list_update
    using d W' rs' rbw' lv' fc st' by blast
qed

text \<open>A request that is finished: its state becomes final, it leaves the lists and one call is logged.\<close>

lemma callbacks_ok_finish:
  assumes ok: "callbacks_ok W rs es cbs" and p: "p < length cbs" and lv: "live (cb_state (cbs ! p))"
    and s: "\<not> live s" and d: "distinct (W' @ rs')" "set W' = set W - {p}" "set rs' = set rs - {p}"
    and e: "finishes e = Some p" "\<And>r. e = On_set p r \<Longrightarrow> response_stream r = cb_stream (cbs ! p)"
  shows "callbacks_ok W' rs' (es @ [e]) (cbs[p := (cbs ! p)\<lparr>cb_state := s\<rparr>])"
proof (rule callbacks_ok_update [OF ok p d(1)])
  note D = callbacks_okD [OF ok]
  have z: "finish_count p es = 0" using D(6) [of p] lv by simp
  show "finish_count p (es @ [e]) = of_bool (0 \<le> cb_stream ((cbs ! p)\<lparr>cb_state := s\<rparr>) \<and> \<not> live (cb_state ((cbs ! p)\<lparr>cb_state := s\<rparr>)))"
    using z e(1) D(5) [OF p lv] s by simp
  show "On_set q r \<in> set es" if "On_set q r \<in> set (es @ [e])" "q \<noteq> p" for q r
    using that e(1) by auto
  show "response_stream r = cb_stream ((cbs ! p)\<lparr>cb_state := s\<rparr>)" if "On_set p r \<in> set (es @ [e])" for r
    using that finish_count_on_set [OF z] e(2) by auto
qed (use d s e(1) in \<open>auto simp: writing_state_def\<close>)

text \<open>A change of state that does not finish a request.\<close>

lemma callbacks_ok_move:
  assumes ok: "callbacks_ok W rs es cbs" and p: "p < length cbs"
    and lv: "live (cb_state cb) \<longleftrightarrow> live (cb_state (cbs ! p))" and cb: "cb_stream cb = cb_stream (cbs ! p)"
    and d: "distinct (W' @ rs')"
    and W: "set W' - {p} = set W - {p}" "p \<in> set W' \<longleftrightarrow> writing_state (cb_state cb)"
    and rs: "set rs' - {p} = set rs - {p}" "p \<in> set rs' \<longleftrightarrow> reading_state (cb_state cb)"
    and rbw: "cb_state cb = REQUEST_STATE_READ_BEFORE_WRITE \<Longrightarrow> \<exists>r. cb_response cb = Some r \<and> response_stream r = cb_stream cb"
  shows "callbacks_ok W' rs' es (cbs[p := cb])"
proof (rule callbacks_ok_update [OF ok p d W rs rbw])
  note D = callbacks_okD [OF ok]
  show "live (cb_state cb) \<Longrightarrow> 0 \<le> cb_stream cb" using D(5) [OF p] lv cb by simp
  show "finish_count p es = of_bool (0 \<le> cb_stream cb \<and> \<not> live (cb_state cb))" using D(6) [of p] p cb lv by simp
  show "response_stream r = cb_stream cb" if "On_set p r \<in> set es" for r using D(7) [OF that] cb by simp
qed auto

lemma unwritten_member:
  assumes "accounts k R c"
  shows "p \<in> set (unwritten k R c) \<longleftrightarrow> p < length (c_callbacks c) \<and> writing_state (cb_state (callback_at c p))"
    "p \<in> set (c_pending_reads c) \<longleftrightarrow> p < length (c_callbacks c) \<and> reading_state (cb_state (callback_at c p))"
    "distinct (unwritten k R c @ c_pending_reads c)"
  using assms callbacks_okD unfolding accounts_def by blast+

lemma accounts_new_callback:
  "accounts k R c \<Longrightarrow> accounts k R (c\<lparr>c_callbacks := c_callbacks c @ [new_callback kind i]\<rparr>)"
  by (simp add: accounts_def unwritten_def outcomes_def callbacks_ok_new)

lemma in_order_new_callback:
  "in_order k c \<Longrightarrow> in_order k (c\<lparr>c_callbacks := c_callbacks c @ [new_callback kind i]\<rparr>)"
  by (auto simp: in_order_def routed_def nth_append new_callback_def state_kinds less_Suc_eq)

lemma routedD:
  "routed sm cbs \<Longrightarrow> in_use sm s = Some p \<longleftrightarrow> p < length cbs \<and> awaits_response (cb_state (cbs ! p)) \<and> cb_stream (cbs ! p) = s"
  by (simp add: routed_def)

lemma routed_cong: "routed sm cbs \<Longrightarrow> in_use sm' = in_use sm \<Longrightarrow> routed sm' cbs"
  by (simp add: routed_def)

lemma routed_start:
  assumes r: "routed sm cbs" and p: "p < length cbs" "\<not> awaits_response (cb_state (cbs ! p))"
    and s: "in_use sm s = None" "in_use sm' = (in_use sm)(s \<mapsto> p)" and cb: "awaits_response (cb_state cb)" "cb_stream cb = s"
  shows "routed sm' (cbs[p := cb])"
  unfolding routed_def
proof (intro allI)
  fix t q
  show "in_use sm' t = Some q \<longleftrightarrow>
    q < length (cbs[p := cb]) \<and> awaits_response (cb_state (cbs[p := cb] ! q)) \<and> cb_stream (cbs[p := cb] ! q) = t"
    using routedD [OF r, of t q] p s cb by (cases "q = p"; cases "t = s") auto
qed

lemma routed_finish:
  assumes r: "routed sm cbs" and p: "p < length cbs" "awaits_response (cb_state (cbs ! p))"
    and s: "in_use sm' = (in_use sm)(cb_stream (cbs ! p) := None)" and cb: "\<not> awaits_response (cb_state cb)"
  shows "routed sm' (cbs[p := cb])"
  unfolding routed_def
proof (intro allI)
  fix t q
  have "in_use sm (cb_stream (cbs ! p)) = Some p" using routedD [OF r] p by simp
  then show "in_use sm' t = Some q \<longleftrightarrow>
    q < length (cbs[p := cb]) \<and> awaits_response (cb_state (cbs[p := cb] ! q)) \<and> cb_stream (cbs[p := cb] ! q) = t"
    using routedD [OF r, of t q] p s cb by (cases "q = p"; cases "t = cb_stream (cbs ! p)") auto
qed

lemma routed_move:
  assumes r: "routed sm cbs" and cb: "awaits_response (cb_state cb) \<longleftrightarrow> awaits_response (cb_state (cbs ! p))"
    "awaits_response (cb_state cb) \<Longrightarrow> cb_stream cb = cb_stream (cbs ! p)"
  shows "routed sm (cbs[p := cb])"
  unfolding routed_def
proof (intro allI)
  fix t q
  show "in_use sm t = Some q \<longleftrightarrow>
    q < length (cbs[p := cb]) \<and> awaits_response (cb_state (cbs[p := cb] ! q)) \<and> cb_stream (cbs[p := cb] ! q) = t"
    using routedD [OF r, of t q] cb by (cases "q = p") auto
qed

lemma core_simps [simp]:
  "c_callbacks (fail_assertion c) = c_callbacks c"
  "c_callbacks (emit e c) = c_callbacks c" "c_streams (emit e c) = c_streams c"
  "c_pending_writes (emit e c) = c_pending_writes c" "c_pending_reads (emit e c) = c_pending_reads c"
  "c_pending_writes_size (emit e c) = c_pending_writes_size c" "c_assertion_failed (emit e c) = c_assertion_failed c"
  "outcomes (emit e c) = outcomes c @ (if finishes e = None then [] else [e])"
  "c_callbacks (update_callback p f c) = (c_callbacks c)[p := f (callback_at c p)]"
  "c_streams (update_callback p f c) = c_streams c" "c_pending_writes (update_callback p f c) = c_pending_writes c"
  "c_pending_reads (update_callback p f c) = c_pending_reads c"
  "c_pending_writes_size (update_callback p f c) = c_pending_writes_size c"
  "c_assertion_failed (update_callback p f c) = c_assertion_failed c"
  "outcomes (update_callback p f c) = outcomes c" "c_protocol_version (update_callback p f c) = c_protocol_version c"
  by (simp_all add: fail_assertion_def emit_def update_callback_def outcomes_def)

lemma outcomes_updates [simp]:
  "outcomes (c\<lparr>c_streams := sm\<rparr>) = outcomes c" "outcomes (c\<lparr>c_pending_writes := ws\<rparr>) = outcomes c"
  "outcomes (c\<lparr>c_pending_reads := rs\<rparr>) = outcomes c" "outcomes (c\<lparr>c_pending_writes_size := n\<rparr>) = outcomes c"
  "outcomes (c\<lparr>c_free_writes := f\<rparr>) = outcomes c" "outcomes (c\<lparr>c_undefined := b\<rparr>) = outcomes c"
  "outcomes (c\<lparr>c_response := m\<rparr>) = outcomes c" "outcomes (c\<lparr>c_callbacks := cbs\<rparr>) = outcomes c"
  "outcomes (c\<lparr>c_heartbeat_outstanding := b\<rparr>) = outcomes c" "outcomes (c\<lparr>c_heartbeat_timer := b\<rparr>) = outcomes c"
  "outcomes (c\<lparr>c_terminate_timer := b\<rparr>) = outcomes c" "outcomes (c\<lparr>c_connect_timer := b\<rparr>) = outcomes c"
  by (simp_all add: outcomes_def)

lemma core_fields:
  assumes "same_core c c'"
  shows "c_streams c' = c_streams c" "c_pending_writes c' = c_pending_writes c"
     "c_pending_writes_size c' = c_pending_writes_size c" "c_pending_reads c' = c_pending_reads c"
     "c_callbacks c' = c_callbacks c" "outcomes c' = outcomes c" "c_assertion_failed c' = c_assertion_failed c"
  using assms by (simp_all add: same_core_def)

subsection \<open>Writing keeps the accounts\<close>

text \<open>Changes of the last pending write, which is not one of the first \<open>k\<close>.\<close>

lemma last_not_flushed:
  assumes "ws \<noteq> []" "\<not> pw_is_flushed (last ws)" "\<forall>w \<in> set (take k ws). pw_is_flushed w"
  shows "k \<le> length (butlast ws)"
proof (rule ccontr)
  assume "\<not> ?thesis"
  then have "take k ws = ws" by simp
  then show False using assms last_in_set [OF assms(1)] by auto
qed

lemma replace_last:
  assumes "ws \<noteq> []" "k \<le> length (butlast ws)"
  shows "take k (butlast ws @ [w]) = take k ws" "drop k (butlast ws @ [w]) = drop k (butlast ws) @ [w]"
    "drop k ws = drop k (butlast ws) @ [last ws]"
proof -
  obtain ws' x where ws: "ws = ws' @ [x]" using assms(1) by (cases ws rule: rev_cases) auto
  show "take k (butlast ws @ [w]) = take k ws" "drop k (butlast ws @ [w]) = drop k (butlast ws) @ [w]"
    "drop k ws = drop k (butlast ws) @ [last ws]"
    using assms(2) by (simp_all add: ws)
qed

lemma flush_cases:
  assumes "\<forall>w \<in> set (take k (c_pending_writes c)). pw_is_flushed w"
  shows "take k (c_pending_writes (Connection_flush c)) = take k (c_pending_writes c)"
    "map pw_callbacks (drop k (c_pending_writes (Connection_flush c))) = map pw_callbacks (drop k (c_pending_writes c))"
    "map pw_size (drop k (c_pending_writes (Connection_flush c))) = map pw_size (drop k (c_pending_writes c))"
proof -
  let ?ws = "c_pending_writes c"
  have "c_pending_writes (Connection_flush c) = ?ws \<or> (?ws \<noteq> [] \<and> \<not> pw_is_flushed (last ?ws) \<and>
      c_pending_writes (Connection_flush c) = butlast ?ws @ [(last ?ws)\<lparr>pw_is_flushed := True\<rparr>])"
    by (simp add: Connection_flush_def Let_def)
  then consider "c_pending_writes (Connection_flush c) = ?ws"
    | "?ws \<noteq> []" "\<not> pw_is_flushed (last ?ws)"
      "c_pending_writes (Connection_flush c) = butlast ?ws @ [(last ?ws)\<lparr>pw_is_flushed := True\<rparr>]"
    by blast
  then have "take k (c_pending_writes (Connection_flush c)) = take k ?ws \<and>
    map pw_callbacks (drop k (c_pending_writes (Connection_flush c))) = map pw_callbacks (drop k ?ws) \<and>
    map pw_size (drop k (c_pending_writes (Connection_flush c))) = map pw_size (drop k ?ws)"
  proof cases
    case 2
    have k: "k \<le> length (butlast ?ws)" by (rule last_not_flushed [OF 2(1,2) assms])
    show ?thesis unfolding 2(3) replace_last(1,2) [OF 2(1) k] replace_last(3) [OF 2(1) k] using 2(1) by simp
  qed simp
  then show "take k (c_pending_writes (Connection_flush c)) = take k (c_pending_writes c)"
    "map pw_callbacks (drop k (c_pending_writes (Connection_flush c))) = map pw_callbacks (drop k (c_pending_writes c))"
    "map pw_size (drop k (c_pending_writes (Connection_flush c))) = map pw_size (drop k (c_pending_writes c))" by simp_all
qed

lemma flush_fields [simp]:
  "length (c_pending_writes (Connection_flush c)) = length (c_pending_writes c)"
  "c_streams (Connection_flush c) = c_streams c" "c_pending_writes_size (Connection_flush c) = c_pending_writes_size c"
  "c_pending_reads (Connection_flush c) = c_pending_reads c" "c_callbacks (Connection_flush c) = c_callbacks c"
  "outcomes (Connection_flush c) = outcomes c" "c_assertion_failed (Connection_flush c) = c_assertion_failed c"
  by (simp_all add: Connection_flush_def Let_def)

lemma accounts_flush: "accounts k R c \<Longrightarrow> accounts k R (Connection_flush c)"
  by (simp add: accounts_def unwritten_def flush_cases)

lemma in_order_flush:
  "accounts k R c \<Longrightarrow> in_order k c \<Longrightarrow> in_order k (Connection_flush c)"
  by (simp add: in_order_def flush_cases accounts_def)

lemma fresh_write_fields [simp]:
  "c_streams (fresh_write c) = c_streams c" "c_pending_writes_size (fresh_write c) = c_pending_writes_size c"
  "c_pending_reads (fresh_write c) = c_pending_reads c" "c_callbacks (fresh_write c) = c_callbacks c"
  "outcomes (fresh_write c) = outcomes c" "c_assertion_failed (fresh_write c) = c_assertion_failed c"
  "c_protocol_version (fresh_write c) = c_protocol_version c"
  by (simp_all add: fresh_write_def)

lemma fresh_write_cases:
  assumes "k \<le> length (c_pending_writes c)"
  shows "c_pending_writes (fresh_write c) \<noteq> [] \<and> \<not> pw_is_flushed (last (c_pending_writes (fresh_write c))) \<and>
    take k (c_pending_writes (fresh_write c)) = take k (c_pending_writes c) \<and>
    concat (map pw_callbacks (drop k (c_pending_writes (fresh_write c)))) = concat (map pw_callbacks (drop k (c_pending_writes c))) \<and>
    sum_list (map pw_size (drop k (c_pending_writes (fresh_write c)))) = sum_list (map pw_size (drop k (c_pending_writes c))) \<and>
    k \<le> length (c_pending_writes (fresh_write c))"
  using assms by (auto simp: fresh_write_def)

lemma add_request_fields [simp]:
  "c_streams (add_request p n c) = c_streams c" "c_pending_writes_size (add_request p n c) = c_pending_writes_size c + n"
  "c_pending_reads (add_request p n c) = c_pending_reads c" "c_callbacks (add_request p n c) = c_callbacks c"
  "outcomes (add_request p n c) = outcomes c" "c_assertion_failed (add_request p n c) = c_assertion_failed c"
  by (simp_all add: add_request_def Let_def)

lemma add_request_cases:
  assumes "c_pending_writes c \<noteq> []" "\<not> pw_is_flushed (last (c_pending_writes c))"
    "\<forall>w \<in> set (take k (c_pending_writes c)). pw_is_flushed w"
  shows "take k (c_pending_writes (add_request p n c)) = take k (c_pending_writes c) \<and>
    concat (map pw_callbacks (drop k (c_pending_writes (add_request p n c)))) =
      concat (map pw_callbacks (drop k (c_pending_writes c))) @ [p] \<and>
    sum_list (map pw_size (drop k (c_pending_writes (add_request p n c)))) =
      sum_list (map pw_size (drop k (c_pending_writes c))) + n \<and>
    k \<le> length (c_pending_writes (add_request p n c))"
proof -
  let ?ws = "c_pending_writes c"
  have k: "k \<le> length (butlast ?ws)" by (rule last_not_flushed [OF assms])
  have e: "c_pending_writes (add_request p n c) =
    butlast ?ws @ [(last ?ws)\<lparr>pw_size := pw_size (last ?ws) + n, pw_callbacks := pw_callbacks (last ?ws) @ [p]\<rparr>]"
    by (simp add: add_request_def Let_def)
  show ?thesis unfolding e replace_last(1,2) [OF assms(1) k] replace_last(3) [OF assms(1) k] using k by simp
qed

lemma release_stream_of:
  assumes "wf_streams (c_streams c)" "in_use (c_streams c) s \<noteq> None"
  obtains sm where "release_stream_of s c = c\<lparr>c_streams := sm\<rparr>" "wf_streams sm"
    "in_use sm = (in_use (c_streams c))(s := None)"
  by (rule release_cases [OF assms], rule that) (simp_all add: release_stream_of_def)

text \<open>The connection after a request was given a stream, in a pending write.\<close>

definition started :: "nat \<Rightarrow> int \<Rightarrow> nat stream_manager \<Rightarrow> 'addr connection \<Rightarrow> 'addr connection" where
  "started p s sm c = fresh_write (update_callback p (\<lambda>cb. cb\<lparr>cb_stream := s\<rparr>) (c\<lparr>c_streams := sm\<rparr>))"

lemma internal_write_cases:
  assumes "wf_streams (c_streams c)"
  obtains "internal_write env p fl c = (REQUEST_ERROR_CANCELLED, c)" "cb_state (callback_at c p) = REQUEST_STATE_CANCELLED"
  | sm where "internal_write env p fl c = (REQUEST_ERROR_NO_AVAILABLE_STREAM_IDS, c\<lparr>c_streams := sm\<rparr>)" "wf_streams sm"
      "in_use sm = in_use (c_streams c)" "cb_state (callback_at c p) \<noteq> REQUEST_STATE_CANCELLED"
  | s sm n where "0 \<le> s" "wf_streams sm" "in_use (c_streams c) s = None" "in_use sm = (in_use (c_streams c))(s \<mapsto> p)"
      "n < 0" "internal_write env p fl c = (n, on_error p CASS_ERROR_LIB_MESSAGE_ENCODE (release_stream_of s (started p s sm c)))"
      "cb_state (callback_at c p) \<noteq> REQUEST_STATE_CANCELLED"
  | s sm n c' c'' where "0 \<le> s" "wf_streams sm" "in_use (c_streams c) s = None" "in_use sm = (in_use (c_streams c))(s \<mapsto> p)"
      "same_core (add_request p n (started p s sm c)) c'" "c'' = RequestCallback_set_state p REQUEST_STATE_WRITING c'"
      "internal_write env p fl c = (1, if fl then Connection_flush c'' else c'')"
      "cb_state (callback_at c p) \<noteq> REQUEST_STATE_CANCELLED"
proof (cases "cb_state (callback_at c p) = REQUEST_STATE_CANCELLED")
  case True
  then show ?thesis using that(1) by (simp add: internal_write_def)
next
  case False
  show ?thesis
  proof (rule acquire_cases [OF assms, of p])
    fix s sm
    assume s: "StreamManager_acquire p (c_streams c) = (s, sm)" "wf_streams sm" "s \<in> stream_range (c_streams c)"
      "in_use (c_streams c) s = None" "in_use sm = (in_use (c_streams c))(s \<mapsto> p)"
    have s0: "0 \<le> s" using s(3) by (simp add: stream_range_def)
    let ?c = "started p s sm c"
    let ?n = "e_encode env (c_protocol_version ?c) (cb_kind (callback_at ?c p))"
    show ?thesis
    proof (cases "?n < 0")
      case neg: True
      have "internal_write env p fl c = (?n, on_error p CASS_ERROR_LIB_MESSAGE_ENCODE (release_stream_of s ?c))"
        using False s(1) s0 neg by (simp add: internal_write_def started_def Let_def)
      then show ?thesis using that(3) [OF s0 s(2,4,5) neg] False by blast
    next
      case pos: False
      let ?a = "add_request p (nat ?n) ?c"
      let ?b = "if c_pending_writes_size ?a > e_write_bytes_high_water_mark env
                then Connection_set_state CONNECTION_STATE_OVERWHELMED ?a else ?a"
      let ?d = "RequestCallback_set_state p REQUEST_STATE_WRITING ?b"
      have nb: "same_core ?a ?b" by (simp add: set_state_neutral)
      have "internal_write env p fl c = (1, if fl then Connection_flush ?d else ?d)"
        using False s(1) s0 pos by (simp add: internal_write_def started_def Let_def)
      then show ?thesis by (rule that(4) [OF s0 s(2,4,5) nb refl _ False])
    qed
  next
    let ?sm = "(c_streams c)\<lparr>offset := offset (c_streams c) + 1\<rparr>"
    assume "StreamManager_acquire p (c_streams c) = (- 1, ?sm)"
    moreover have "wf_streams ?sm" using assms wf_words_cong [of ?sm "c_streams c"] by (simp add: wf_streams_def)
    moreover have "in_use ?sm = in_use (c_streams c)" by (simp add: in_use_def)
    ultimately show ?thesis using that(2) [of ?sm] False by (simp add: internal_write_def)
  qed
qed

lemma started_fields [simp]:
  "c_streams (started p s sm c) = sm" "c_pending_writes_size (started p s sm c) = c_pending_writes_size c"
  "c_pending_reads (started p s sm c) = c_pending_reads c"
  "c_callbacks (started p s sm c) = (c_callbacks c)[p := (callback_at c p)\<lparr>cb_stream := s\<rparr>]"
  "outcomes (started p s sm c) = outcomes c" "c_assertion_failed (started p s sm c) = c_assertion_failed c"
  by (simp_all add: started_def)

lemma started_writes:
  assumes "accounts k R c"
  shows "c_pending_writes (started p s sm c) \<noteq> []" "\<not> pw_is_flushed (last (c_pending_writes (started p s sm c)))"
    "take k (c_pending_writes (started p s sm c)) = take k (c_pending_writes c)"
    "unwritten k R (started p s sm c) = unwritten k R c"
    "sum_list (map pw_size (drop k (c_pending_writes (started p s sm c)))) = sum_list (map pw_size (drop k (c_pending_writes c)))"
    "k \<le> length (c_pending_writes (started p s sm c))"
    "\<forall>w \<in> set (take k (c_pending_writes (started p s sm c))). pw_is_flushed w"
  using fresh_write_cases [of k "update_callback p (\<lambda>cb. cb\<lparr>cb_stream := s\<rparr>) (c\<lparr>c_streams := sm\<rparr>)"] assms
  unfolding started_def accounts_def unwritten_def by auto

lemma filter_update_out:
  "\<not> P x \<Longrightarrow> \<not> P (xs ! i) \<Longrightarrow> filter P (xs[i := x]) = filter P xs"
  by (induction xs arbitrary: i) (auto split: nat.split)

lemma internal_write_accounts:
  fixes c :: "'a connection"
  assumes a: "accounts k R c" and p: "p < length (c_callbacks c)" "cb_stream (callback_at c p) = -1"
    and st: "cb_state (callback_at c p) \<in> {REQUEST_STATE_NEW, REQUEST_STATE_CANCELLED}"
  shows "accounts k R (snd (internal_write env p fl c)) \<and>
    (in_order k c \<longrightarrow> in_order k (snd (internal_write env p fl c))) \<and>
    c_pending_reads (snd (internal_write env p fl c)) = c_pending_reads c \<and>
    cleanup_rounds (snd (internal_write env p fl c)) \<le> cleanup_rounds c + 1"
proof -
  have wf: "wf_streams (c_streams c)" and ok: "callbacks_ok (unwritten k R c) (c_pending_reads c) (outcomes c) (c_callbacks c)"
    using a by (simp_all add: accounts_def)
  note D = callbacks_okD [OF ok]
  have z: "finish_count p (outcomes c) = 0" using D(6) [of p] p(2) by simp
  have nl: "\<not> live (cb_state (callback_at c p))" "\<not> awaits_response (cb_state (callback_at c p))"
    using st by (auto simp: state_kinds)
  have np: "p \<notin> set (unwritten k R c)" "p \<notin> set (c_pending_reads c)" using D(2,3) [of p] nl by auto
  let ?rbw = "\<lambda>cbs. length (filter (\<lambda>cb. cb_state cb = REQUEST_STATE_READ_BEFORE_WRITE) cbs)"
  have rbw: "?rbw ((c_callbacks c)[p := cb]) = ?rbw (c_callbacks c)" if "cb_state cb \<noteq> REQUEST_STATE_READ_BEFORE_WRITE"
    for cb :: "'a callback"
    using filter_update_out [of "\<lambda>cb. cb_state cb = REQUEST_STATE_READ_BEFORE_WRITE" cb "c_callbacks c" p] st that by auto
  have len: "length (c_pending_writes (started p s sm c)) \<le> length (c_pending_writes c) + 1"
    "length (c_pending_writes (add_request p n (started p s sm c))) \<le> length (c_pending_writes c) + 1" for s sm n
    using started_writes(1) [OF a, of p s sm] by (simp_all add: started_def fresh_write_def add_request_def Let_def)
  show ?thesis
  proof (rule internal_write_cases [OF wf, of env p fl])
    assume "internal_write env p fl c = (REQUEST_ERROR_CANCELLED, c)"
    then show ?thesis using a by simp
  next
    fix sm assume "internal_write env p fl c = (REQUEST_ERROR_NO_AVAILABLE_STREAM_IDS, c\<lparr>c_streams := sm\<rparr>)"
      "wf_streams sm" "in_use sm = in_use (c_streams c)"
    then show ?thesis using a routed_cong by (auto simp: accounts_def unwritten_def in_order_def cleanup_rounds_def)
  next
    fix s sm n
    assume s: "0 \<le> s" "wf_streams sm" "in_use (c_streams c) s = None" "in_use sm = (in_use (c_streams c))(s \<mapsto> p)"
      and w: "internal_write env p fl c = (n, on_error p CASS_ERROR_LIB_MESSAGE_ENCODE (release_stream_of s (started p s sm c)))"
      and nc: "cb_state (callback_at c p) \<noteq> REQUEST_STATE_CANCELLED"
    obtain sm' where sm': "release_stream_of s (started p s sm c) = (started p s sm c)\<lparr>c_streams := sm'\<rparr>" "wf_streams sm'"
        "in_use sm' = (in_use sm)(s := None)"
      by (rule release_stream_of [of "started p s sm c" s]) (use s in simp_all)
    have use: "in_use sm' = in_use (c_streams c)" unfolding sm'(3) s(4) using s(3) by auto
    let ?c = "(started p s sm c)\<lparr>c_streams := sm'\<rparr>"
    let ?e = "emit (On_error p CASS_ERROR_LIB_MESSAGE_ENCODE) ?c"
    have nt: "same_core ?e (snd (internal_write env p fl c))"
      unfolding w sm'(1) snd_conv on_error_def by (rule internal_neutral)
    have cb: "callbacks_ok (unwritten k R c) (c_pending_reads c) (outcomes c @ [On_error p CASS_ERROR_LIB_MESSAGE_ENCODE])
        ((c_callbacks c)[p := (callback_at c p)\<lparr>cb_stream := s\<rparr>])"
      by (rule callbacks_ok_update [OF ok p(1) D(1)])
        (use z nl np s(1) finish_count_on_set [OF z] in \<open>auto simp: writing_state_def\<close>)
    have "accounts k R ?e" using started_writes [OF a, of p s sm] cb sm'(2) a
      by (simp add: accounts_def unwritten_def)
    moreover have "in_order k ?e" if io: "in_order k c"
    proof -
      have "routed (c_streams c) ((c_callbacks c)[p := (callback_at c p)\<lparr>cb_stream := s\<rparr>])"
        by (rule routed_move) (use io nl in \<open>simp_all add: in_order_def\<close>)
      then show ?thesis using started_writes(5) [OF a, of p s sm] io routed_cong [OF _ use] unfolding in_order_def by simp
    qed
    moreover have "cleanup_rounds (snd (internal_write env p fl c)) \<le> cleanup_rounds c + 1"
      using core_fields [OF nt] len(1) [of s sm] rbw [of "(callback_at c p)\<lparr>cb_stream := s\<rparr>"] st
      by (simp add: cleanup_rounds_def) auto
    ultimately show ?thesis using accounts_cong [OF nt] in_order_cong [OF nt] core_fields [OF nt] by simp
  next
    fix s sm n c' c''
    assume s: "0 \<le> s" "wf_streams sm" "in_use (c_streams c) s = None" "in_use sm = (in_use (c_streams c))(s \<mapsto> p)"
      and nt: "same_core (add_request p n (started p s sm c)) c'"
      and c'': "c'' = RequestCallback_set_state p REQUEST_STATE_WRITING c'"
      and w: "internal_write env p fl c = (1, if fl then Connection_flush c'' else c'')"
      and nc: "cb_state (callback_at c p) \<noteq> REQUEST_STATE_CANCELLED"
    note S = started_writes [OF a, of p s sm]
    note A = add_request_cases [OF S(1,2,7), of p n]
    note F = core_fields [OF nt]
    have new: "cb_state (callback_at c p) = REQUEST_STATE_NEW" using st nc by simp
    have e: "c'' = update_callback p (\<lambda>cb. cb\<lparr>cb_state := REQUEST_STATE_WRITING\<rparr>) c'"
      unfolding c'' RequestCallback_set_state_def using p(1) new by (simp add: F)
    have un: "unwritten k R c'' = unwritten k R c @ [p]"
      using A S(4) by (simp add: e unwritten_def F)
    have cb: "callbacks_ok (unwritten k R c @ [p]) (c_pending_reads c) (outcomes c)
        ((c_callbacks c)[p := (callback_at c p)\<lparr>cb_stream := s, cb_state := REQUEST_STATE_WRITING\<rparr>])"
      by (rule callbacks_ok_update [OF ok p(1)])
        (use D(1) z np s(1) finish_count_on_set [OF z] in \<open>auto simp: state_kinds\<close>)
    have "accounts k R c''" using A S(3,6,7) cb s(2) a p(1) un unfolding accounts_def
      by (simp add: e F)
    moreover have "in_order k c''" if io: "in_order k c"
    proof -
      have "routed sm ((c_callbacks c)[p := (callback_at c p)\<lparr>cb_stream := s, cb_state := REQUEST_STATE_WRITING\<rparr>])"
        by (rule routed_start [OF _ p(1) nl(2) s(3,4)]) (use io in \<open>simp_all add: in_order_def state_kinds\<close>)
      then show ?thesis using A S(5) io p(1) unfolding in_order_def by (simp add: e F)
    qed
    moreover have "cleanup_rounds c'' \<le> cleanup_rounds c + 1"
      using len(2) [of n s sm] rbw [of "(callback_at c p)\<lparr>cb_stream := s, cb_state := REQUEST_STATE_WRITING\<rparr>"] p(1)
      by (simp add: cleanup_rounds_def e F)
    moreover have "c_pending_reads c'' = c_pending_reads c" by (simp add: e F)
    ultimately show ?thesis unfolding w by (simp add: accounts_flush in_order_flush cleanup_rounds_def)
  qed
qed

definition keeps :: "'addr connection \<Rightarrow> 'addr connection \<Rightarrow> bool" where
  "keeps c c' \<longleftrightarrow> (\<forall>k R. accounts k R c \<longrightarrow> accounts k R c' \<and> (in_order k c \<longrightarrow> in_order k c') \<and>
     c_pending_reads c' = c_pending_reads c \<and> cleanup_rounds c' \<le> cleanup_rounds c + 1)"

lemma keepsD: "keeps c c' \<Longrightarrow> accounts k R c \<Longrightarrow> accounts k R c'"
  "keeps c c' \<Longrightarrow> accounts k R c \<Longrightarrow> in_order k c \<Longrightarrow> in_order k c'"
  "keeps c c' \<Longrightarrow> accounts k R c \<Longrightarrow> c_pending_reads c' = c_pending_reads c"
  "keeps c c' \<Longrightarrow> accounts k R c \<Longrightarrow> cleanup_rounds c' \<le> cleanup_rounds c + 1"
  unfolding keeps_def by blast+

lemma keeps_refl [simp]: "keeps c c"
  by (simp add: keeps_def)

lemma keeps_trans:
  assumes "same_core a b" "keeps b c"
  shows "keeps a c"
  using assms core_fields [OF assms(1)] accounts_cong [OF assms(1)] in_order_cong [OF assms(1)]
  by (simp add: keeps_def cleanup_rounds_def)

lemma neutral_keeps: "same_core c c' \<Longrightarrow> keeps c c'"
  using keeps_trans keeps_refl by blast

lemma undefined_keeps: "keeps c (c\<lparr>c_undefined := b\<rparr>)" "keeps c (c\<lparr>c_heartbeat_outstanding := b\<rparr>)"
  "keeps c (c\<lparr>c_response := m\<rparr>)" "keeps c (c\<lparr>c_connect_timer := b\<rparr>)" "keeps c (c\<lparr>c_heartbeat_timer := b\<rparr>)"
  "keeps c (c\<lparr>c_terminate_timer := b\<rparr>)"
  by (simp_all add: neutral_keeps same_core_def)

lemma write_own_keeps: "keeps c (snd (write_own env kind c))"
  unfolding keeps_def
proof (intro allI impI)
  fix k R
  assume a: "accounts k R c"
  let ?c = "c\<lparr>c_callbacks := c_callbacks c @ [new_callback kind False]\<rparr>"
  have "accounts k R (snd (internal_write env (length (c_callbacks c)) True ?c)) \<and>
    (in_order k ?c \<longrightarrow> in_order k (snd (internal_write env (length (c_callbacks c)) True ?c))) \<and>
    c_pending_reads (snd (internal_write env (length (c_callbacks c)) True ?c)) = c_pending_reads ?c \<and>
    cleanup_rounds (snd (internal_write env (length (c_callbacks c)) True ?c)) \<le> cleanup_rounds ?c + 1"
    by (rule internal_write_accounts [OF accounts_new_callback [OF a]]) (simp_all add: new_callback_def)
  then show "accounts k R (snd (write_own env kind c)) \<and> (in_order k c \<longrightarrow> in_order k (snd (write_own env kind c))) \<and>
      c_pending_reads (snd (write_own env kind c)) = c_pending_reads c \<and> cleanup_rounds (snd (write_own env kind c)) \<le> cleanup_rounds c + 1"
    using in_order_new_callback [of k c kind False] by (simp add: write_own_def cleanup_rounds_def) (simp add: new_callback_def)
qed

lemma startup_keeps:
  "keeps c (on_connected env c)" "keeps c (send_initial_auth_response env cl c)" "keeps c (send_credentials env cl c)"
  "keeps c (on_authenticate env cl c)" "keeps c (on_auth_challenge env tok c)" "keeps c (on_ready env c)"
  "keeps c (on_auth_success env tok c)"
proof -
  show k1: "keeps c (on_connected env c)" by (simp add: on_connected_def write_own_keeps)
  show k2: "keeps c (send_initial_auth_response env cl c)"
    by (simp add: send_initial_auth_response_def write_own_keeps neutral_keeps notify_error_neutral split: option.split)
  show k3: "keeps c (send_credentials env cl c)" by (simp add: send_credentials_def write_own_keeps k2)
  show "keeps c (on_authenticate env cl c)" by (simp add: on_authenticate_def k2 k3)
  show "keeps c (on_auth_challenge env tok c)"
    by (simp add: on_auth_challenge_def write_own_keeps neutral_keeps notify_error_neutral split: option.split)
  show k6: "keeps c (on_ready env c)"
    by (simp add: on_ready_def write_own_keeps neutral_keeps notify_ready_neutral)
      (intro impI keeps_trans [OF set_state_neutral write_own_keeps])
  show "keeps c (on_auth_success env tok c)"
    by (simp add: on_auth_success_def k6 neutral_keeps notify_error_neutral)
qed

lemma startup_on_set_keeps: "keeps c (startup_on_set env request r c)"
  by (simp add: startup_on_set_def with_authenticator_def write_own_keeps startup_keeps undefined_keeps neutral_keeps
      notify_error_neutral notify_ready_neutral split: option.split response_body.split startup_request.split)

lemma on_set_keeps: "keeps (emit (On_set p r) c) (on_set env p r c)"
  by (simp add: on_set_def Let_def startup_on_set_keeps undefined_keeps neutral_keeps close_neutral split: request_kind.split)

lemma on_error_keeps: "keeps (emit (On_error p code) c) (on_error p code c)"
  by (simp add: on_error_def neutral_keeps internal_neutral)

lemma on_retry_keeps: "keeps (emit (On_retry p b) c) (on_retry p b c)"
  by (simp add: on_retry_def neutral_keeps internal_neutral)

lemma finish_state:
  assumes "next_state (cb_state (callback_at c p)) s = Some s'"
  shows "RequestCallback_set_state p s c = update_callback p (\<lambda>cb. cb\<lparr>cb_state := s'\<rparr>) c"
  using assms by (simp add: RequestCallback_set_state_def)

text \<open>A request whose write is completed or cleaned up is finished.\<close>

lemma finish_unwritten:
  assumes a: "accounts k (p # R) c" and s: "\<not> live s" and e: "finishes e = Some p"
    "\<And>r. e = On_set p r \<Longrightarrow> response_stream r = cb_stream (callback_at c p)"
  shows "accounts k R (emit e (update_callback p (\<lambda>cb. cb\<lparr>cb_state := s\<rparr>) c))"
proof -
  have ok: "callbacks_ok (p # unwritten k R c) (c_pending_reads c) (outcomes c) (c_callbacks c)"
    using a by (simp add: accounts_def unwritten_def)
  note D = callbacks_okD [OF ok]
  have p: "p < length (c_callbacks c)" "live (cb_state (callback_at c p))" using D(2) [of p] by simp_all
  have "callbacks_ok (unwritten k R c) (c_pending_reads c) (outcomes c @ [e])
      ((c_callbacks c)[p := (callback_at c p)\<lparr>cb_state := s\<rparr>])"
    by (rule callbacks_ok_finish [OF ok p s _ _ _ e]) (use D(1) in auto)
  then show ?thesis using a e(1) by (simp add: accounts_def unwritten_def)
qed

lemma outcomes_emit_set_state: "finishes e = Some p \<Longrightarrow> outcomes (emit e c) = outcomes c @ [e]"
  by simp

lemma unwritten_fields [simp]:
  "unwritten k R (update_callback p f c) = unwritten k R c" "unwritten k R (emit e c) = unwritten k R c"
  "unwritten k R (c\<lparr>c_streams := sm\<rparr>) = unwritten k R c" "unwritten k R (c\<lparr>c_pending_reads := rs\<rparr>) = unwritten k R c"
  by (simp_all add: unwritten_def)

subsection \<open>Responses keep the accounts\<close>

text \<open>A request that waits for its response is finished: its stream is released.\<close>

lemma finish_reading:
  assumes a: "accounts k R c" and io: "in_order k c"
    and p: "p < length (c_callbacks c)" "reading_state (cb_state (callback_at c p))"
    and sm: "wf_streams sm" "in_use sm = (in_use (c_streams c))(cb_stream (callback_at c p) := None)"
    and s: "\<not> live s" and e: "finishes e = Some p"
      "\<And>r. e = On_set p r \<Longrightarrow> response_stream r = cb_stream (callback_at c p)"
  defines "c' \<equiv> emit e (update_callback p (\<lambda>cb. cb\<lparr>cb_state := s\<rparr>)
    (c\<lparr>c_streams := sm, c_pending_reads := remove1 p (c_pending_reads c)\<rparr>))"
  shows "accounts k R c' \<and> in_order k c'"
proof -
  have ok: "callbacks_ok (unwritten k R c) (c_pending_reads c) (outcomes c) (c_callbacks c)"
    using a by (simp add: accounts_def)
  note D = callbacks_okD [OF ok]
  have aw: "awaits_response (cb_state (callback_at c p))" using p(2) by (auto simp: state_kinds)
  have pw: "p \<notin> set (unwritten k R c)" using D(2) [of p] p(2) by (auto simp: state_kinds)
  have "callbacks_ok (unwritten k R c) (remove1 p (c_pending_reads c)) (outcomes c @ [e])
      ((c_callbacks c)[p := (callback_at c p)\<lparr>cb_state := s\<rparr>])"
    by (rule callbacks_ok_finish [OF ok p(1) _ s _ _ _ e]) (use D(1) p(2) pw in \<open>auto simp: set_remove1_eq\<close>)
  then have "accounts k R c'" using a e(1) sm(1) by (simp add: c'_def accounts_def)
  moreover have "routed sm ((c_callbacks c)[p := (callback_at c p)\<lparr>cb_state := s\<rparr>])"
    by (rule routed_finish [OF _ p(1) aw sm(2)]) (use io s in \<open>auto simp: in_order_def state_kinds\<close>)
  then have "in_order k c'" using io by (simp add: c'_def in_order_def)
  ultimately show ?thesis ..
qed

lemma respond_before_write:
  assumes a: "accounts k R c" and io: "in_order k c"
    and p: "p < length (c_callbacks c)" "cb_state (callback_at c p) = REQUEST_STATE_WRITING \<or> cb_state (callback_at c p) = REQUEST_STATE_CANCELLED_WRITING"
    and sm: "wf_streams sm" "in_use sm = (in_use (c_streams c))(cb_stream (callback_at c p) := None)"
    and cb: "writing_state (cb_state cb)" "\<not> awaits_response (cb_state cb)" "cb_stream cb = cb_stream (callback_at c p)"
      "cb_state cb = REQUEST_STATE_READ_BEFORE_WRITE \<Longrightarrow> \<exists>r. cb_response cb = Some r \<and> response_stream r = cb_stream cb"
  shows "accounts k R (c\<lparr>c_streams := sm, c_callbacks := (c_callbacks c)[p := cb]\<rparr>) \<and>
    in_order k (c\<lparr>c_streams := sm, c_callbacks := (c_callbacks c)[p := cb]\<rparr>)"
proof -
  have ok: "callbacks_ok (unwritten k R c) (c_pending_reads c) (outcomes c) (c_callbacks c)"
    using a by (simp add: accounts_def)
  note D = callbacks_okD [OF ok]
  have w: "writing_state (cb_state (callback_at c p))" "awaits_response (cb_state (callback_at c p))"
    using p(2) by (auto simp: state_kinds)
  have nr: "\<not> reading_state (cb_state cb)" "\<not> reading_state (cb_state (callback_at c p))"
    using cb(1) w(1) by (auto simp: state_kinds)
  have "callbacks_ok (unwritten k R c) (c_pending_reads c) (outcomes c) ((c_callbacks c)[p := cb])"
    by (rule callbacks_ok_move [OF ok p(1) _ cb(3) D(1) _ _ _ _ cb(4)]) (use D(2,3) [of p] w nr cb(1) p(1) in simp_all)
  moreover have "routed sm ((c_callbacks c)[p := cb])"
    by (rule routed_finish [OF _ p(1) w(2) sm(2) cb(2)]) (use io in \<open>simp add: in_order_def\<close>)
  ultimately show ?thesis using a io sm(1) by (simp add: accounts_def in_order_def unwritten_def)
qed

lemma handle_response_keeps:
  assumes a: "accounts k R c" and io: "in_order k c"
  shows "accounts k R (handle_response env r c) \<and> in_order k (handle_response env r c)"
proof (cases "response_stream r < 0")
  case True
  then have "keeps c (handle_response env r c)"
    by (simp add: handle_response_def neutral_keeps emit_neutral notify_error_neutral)
  then show ?thesis using a io keepsD(1,2) by blast
next
  case False
  let ?s = "response_stream r"
  have wf: "wf_streams (c_streams c)" using a by (simp add: accounts_def)
  show ?thesis
  proof (rule get_pending_cases [OF wf, of ?s])
    assume "StreamManager_get_pending_and_release ?s (c_streams c) = Some (None, c_streams c)"
    then have "handle_response env r c = notify_error CONNECTION_ERROR_GENERIC c"
      using False by (simp add: handle_response_def)
    then show ?thesis using a io by (simp, intro conjI keepsD(1,2) [OF neutral_keeps [OF notify_error_neutral]])
  next
    fix p sm
    assume use: "in_use (c_streams c) ?s = Some p"
      and get: "StreamManager_get_pending_and_release ?s (c_streams c) = Some (Some p, sm)"
      and sm: "wf_streams sm" "in_use sm = (in_use (c_streams c))(?s := None)"
    have p: "p < length (c_callbacks c)" "awaits_response (cb_state (callback_at c p))" "cb_stream (callback_at c p) = ?s"
      using routedD [of "c_streams c" "c_callbacks c" ?s p] io use by (simp_all add: in_order_def)
    note sm' = sm(1) sm(2) [folded p(3)]
    let ?c = "c\<lparr>c_streams := sm\<rparr>"
    let ?rd = "c\<lparr>c_streams := sm, c_pending_reads := remove1 p (c_pending_reads c)\<rparr>"
    consider (reading) "cb_state (callback_at c p) = REQUEST_STATE_READING"
      | (writing) "cb_state (callback_at c p) = REQUEST_STATE_WRITING"
      | (creading) "cb_state (callback_at c p) = REQUEST_STATE_CANCELLED_READING"
      | (cwriting) "cb_state (callback_at c p) = REQUEST_STATE_CANCELLED_WRITING"
      using p(2) by (auto simp: awaits_response_def)
    then show ?thesis
    proof cases
      case reading
      let ?f = "update_callback p (\<lambda>cb. cb\<lparr>cb_state := REQUEST_STATE_FINISHED\<rparr>) ?rd"
      have "accounts k R (emit (On_set p r) ?f) \<and> in_order k (emit (On_set p r) ?f)"
        by (rule finish_reading [OF a io p(1) _ sm']) (use reading p(3) in \<open>simp_all add: state_kinds\<close>)
      moreover have "same_core (emit (On_set p r) ?f) (emit (On_set p r) (maybe_set_keyspace r ?f))"
        by (use maybe_set_keyspace_neutral [of ?f r] in \<open>simp add: same_core_def\<close>)
      moreover have "handle_response env r c = on_set env p r (maybe_set_keyspace r ?f)"
        using False get reading by (simp add: handle_response_def Let_def finish_state)
      ultimately show ?thesis using keepsD(1,2) [OF keeps_trans [OF _ on_set_keeps]] by metis
    next
      case creading
      let ?f = "update_callback p (\<lambda>cb. cb\<lparr>cb_state := REQUEST_STATE_CANCELLED\<rparr>) ?rd"
      have "accounts k R (emit (On_cancel p (Some r)) ?f) \<and> in_order k (emit (On_cancel p (Some r)) ?f)"
        by (rule finish_reading [OF a io p(1) _ sm']) (use creading in \<open>simp_all add: state_kinds\<close>)
      moreover have "handle_response env r c = emit (On_cancel p (Some r)) ?f"
        using False get creading by (simp add: handle_response_def Let_def finish_state on_cancel_def)
      ultimately show ?thesis by simp
    next
      case writing
      let ?cb = "(callback_at c p)\<lparr>cb_state := REQUEST_STATE_READ_BEFORE_WRITE, cb_response := Some r\<rparr>"
      have "handle_response env r c = c\<lparr>c_streams := sm, c_callbacks := (c_callbacks c)[p := ?cb]\<rparr>"
        using False get writing p(1) by (simp add: handle_response_def Let_def finish_state update_callback_def)
      then show ?thesis using respond_before_write [OF a io p(1) _ sm', of ?cb] writing p(3) by (simp add: state_kinds)
    next
      case cwriting
      let ?cb = "(callback_at c p)\<lparr>cb_state := REQUEST_STATE_CANCELLED_READ_BEFORE_WRITE\<rparr>"
      have "handle_response env r c = c\<lparr>c_streams := sm, c_callbacks := (c_callbacks c)[p := ?cb]\<rparr>"
        using False get cwriting p(1) by (simp add: handle_response_def Let_def finish_state update_callback_def)
      then show ?thesis using respond_before_write [OF a io p(1) _ sm', of ?cb] cwriting by (simp add: state_kinds)
    qed
  qed
qed

lemma consume_keeps:
  "accounts k R c \<Longrightarrow> in_order k c \<Longrightarrow> accounts k R (consume env input c) \<and> in_order k (consume env input c)"
proof (induction env input c rule: consume.induct)
  case (1 env input c)
  note err = keepsD(1,2) [OF neutral_keeps [OF notify_error_neutral] 1(3)] keepsD(1,2) [OF undefined_keeps(1) 1(3)]
  show ?case
  proof (cases "input = [] \<or> is_closing c \<or> c_undefined c")
    case True
    then show ?thesis using 1(3,4) by (subst (1 2) consume.simps) simp
  next
    case False
    show ?thesis
    proof (cases "ResponseMessage_decode (e_from_inet env) input (c_response c)")
      case (Consumed n m)
      have resp: "accounts k R (c\<lparr>c_response := m'\<rparr>)" "in_order k (c\<lparr>c_response := m'\<rparr>)" for m'
        using keepsD(1,2) [OF undefined_keeps(3)] 1(3,4) by blast+
      show ?thesis
      proof (cases "n = 0")
        case True
        then show ?thesis using False Consumed err 1(4) by (subst (1 2) consume.simps) simp
      next
        case n: False
        show ?thesis
        proof (cases "rm_is_body_ready m")
          case True
          show ?thesis using 1(1) [OF False Consumed n True] handle_response_keeps [OF resp] False Consumed n True
            by (subst (1 2) consume.simps) simp
        next
          case nb: False
          show ?thesis using 1(2) [OF False Consumed n nb] resp False Consumed n nb
            by (subst (1 2) consume.simps) simp
        qed
      qed
    qed (use False err 1(4) in \<open>(subst (1 2) consume.simps, simp)+\<close>)
  qed
qed

subsection \<open>Completed writes keep the accounts\<close>

lemma finish_in_order:
  assumes io: "in_order k c" and p: "p < length (c_callbacks c)"
    and sm: "in_use sm = (if awaits_response (cb_state (callback_at c p)) then (in_use (c_streams c))(cb_stream (callback_at c p) := None)
      else in_use (c_streams c))" and s: "\<not> awaits_response s"
  shows "in_order k (emit e (update_callback p (\<lambda>cb. cb\<lparr>cb_state := s\<rparr>) (c\<lparr>c_streams := sm\<rparr>)))"
proof -
  have "routed sm ((c_callbacks c)[p := (callback_at c p)\<lparr>cb_state := s\<rparr>])"
  proof (cases "awaits_response (cb_state (callback_at c p))")
    case True
    then show ?thesis using io s sm by (intro routed_finish [OF _ p True]) (simp_all add: in_order_def)
  next
    case False
    then show ?thesis using io s sm routed_cong [of "c_streams c" "c_callbacks c" sm]
      by (intro routed_move) (simp_all add: in_order_def)
  qed
  then show ?thesis using io by (simp add: in_order_def)
qed

lemma accounts_streams: "accounts k R c \<Longrightarrow> wf_streams sm \<Longrightarrow> accounts k R (c\<lparr>c_streams := sm\<rparr>)"
  by (simp add: accounts_def unwritten_def)

lemma written:
  assumes a: "accounts k (p # R) c" and io: "in_order k c" and s: "reading_state s" "awaits_response (cb_state (callback_at c p))"
  defines "c' \<equiv> update_callback p (\<lambda>cb. cb\<lparr>cb_state := s\<rparr>) c"
  shows "accounts k R (c'\<lparr>c_pending_reads := c_pending_reads c' @ [p]\<rparr>) \<and>
    in_order k (c'\<lparr>c_pending_reads := c_pending_reads c' @ [p]\<rparr>)"
proof -
  have ok: "callbacks_ok (p # unwritten k R c) (c_pending_reads c) (outcomes c) (c_callbacks c)"
    using a by (simp add: accounts_def unwritten_def)
  note D = callbacks_okD [OF ok]
  have p: "p < length (c_callbacks c)" "writing_state (cb_state (callback_at c p))" using D(2) [of p] by simp_all
  have nw: "\<not> writing_state s" "awaits_response s" "s \<noteq> REQUEST_STATE_READ_BEFORE_WRITE"
    using s(1) by (auto simp: state_kinds)
  have "callbacks_ok (unwritten k R c) (c_pending_reads c @ [p]) (outcomes c) ((c_callbacks c)[p := (callback_at c p)\<lparr>cb_state := s\<rparr>])"
    by (rule callbacks_ok_move [OF ok p(1)]) (use D(1) p s nw in auto)
  moreover have "routed (c_streams c) ((c_callbacks c)[p := (callback_at c p)\<lparr>cb_state := s\<rparr>])"
    by (rule routed_move) (use io s nw in \<open>simp_all add: in_order_def\<close>)
  ultimately show ?thesis using a io by (simp add: c'_def accounts_def in_order_def unwritten_def)
qed

lemma on_write_callback_accounts:
  assumes a: "accounts k (p # R) c" and io: "in_order k c"
  shows "accounts k R (on_write_callback env status p c) \<and> in_order k (on_write_callback env status p c)"
proof -
  have p: "p < length (c_callbacks c)" "writing_state (cb_state (callback_at c p))"
    using unwritten_member(1) [OF a, of p] by (simp_all add: unwritten_def)
  have ok: "callbacks_ok (unwritten k (p # R) c) (c_pending_reads c) (outcomes c) (c_callbacks c)"
    and wf: "wf_streams (c_streams c)" using a by (simp_all add: accounts_def)
  consider (writing) "cb_state (callback_at c p) = REQUEST_STATE_WRITING" "status = 0"
    | (failed) "cb_state (callback_at c p) = REQUEST_STATE_WRITING" "status \<noteq> 0"
    | (rbw) "cb_state (callback_at c p) = REQUEST_STATE_READ_BEFORE_WRITE"
    | (cwriting) "cb_state (callback_at c p) = REQUEST_STATE_CANCELLED_WRITING"
    | (crbw) "cb_state (callback_at c p) = REQUEST_STATE_CANCELLED_READ_BEFORE_WRITE"
    using p(2) by (auto simp: writing_state_def)
  then show ?thesis
  proof cases
    case writing
    then show ?thesis using written [OF a io, of REQUEST_STATE_READING]
      by (simp add: on_write_callback_def finish_state Let_def state_kinds)
  next
    case cwriting
    then show ?thesis using written [OF a io, of REQUEST_STATE_CANCELLED_READING]
      by (simp add: on_write_callback_def finish_state Let_def state_kinds)
  next
    case crbw
    let ?f = "emit (On_cancel p None) (update_callback p (\<lambda>cb. cb\<lparr>cb_state := REQUEST_STATE_CANCELLED\<rparr>) c)"
    have "accounts k R ?f" by (rule finish_unwritten [OF a]) (simp_all add: state_kinds)
    moreover have "in_order k ?f"
      using finish_in_order [OF io p(1), of "c_streams c"] crbw by (simp add: state_kinds)
    ultimately show ?thesis using crbw by (simp add: on_write_callback_def finish_state on_cancel_def)
  next
    case rbw
    obtain r where r: "cb_response (callback_at c p) = Some r" "response_stream r = cb_stream (callback_at c p)"
      using callbacks_okD(4) [OF ok p(1) rbw] by blast
    let ?u = "update_callback p (\<lambda>cb. cb\<lparr>cb_state := REQUEST_STATE_FINISHED\<rparr>) c"
    let ?f = "emit (On_set p r) ?u"
    have f: "accounts k R ?f" by (rule finish_unwritten [OF a]) (use r(2) in \<open>simp_all add: state_kinds\<close>)
    have "in_order k ?f"
      using finish_in_order [OF io p(1), of "c_streams c"] rbw by (simp add: state_kinds)
    moreover have "same_core ?f (emit (On_set p r) (maybe_set_keyspace r ?u))"
      by (use maybe_set_keyspace_neutral [of ?u r] in \<open>simp add: same_core_def\<close>)
    moreover have "on_write_callback env status p c = on_set env p r (maybe_set_keyspace r ?u)"
      using rbw p(1) r(1) by (simp add: on_write_callback_def finish_state Let_def)
    ultimately show ?thesis using f keepsD(1,2) [OF keeps_trans [OF _ on_set_keeps]] by metis
  next
    case failed
    define d where "d = (if is_closing c then c else defunct (notify_error CONNECTION_ERROR_GENERIC c))"
    have nd: "same_core c d"
      by (simp add: d_def same_core_trans [OF notify_error_neutral close_neutral(2)])
    have ad: "accounts k (p # R) d" and iod: "in_order k d" using a io accounts_cong [OF nd] in_order_cong [OF nd] by simp_all
    note F = core_fields [OF nd]
    have use: "in_use (c_streams d) (cb_stream (callback_at d p)) = Some p"
      using routedD [of "c_streams d" "c_callbacks d"] iod p(1) failed by (simp add: in_order_def F state_kinds)
    obtain sm where sm: "release_stream_of (cb_stream (callback_at d p)) d = d\<lparr>c_streams := sm\<rparr>" "wf_streams sm"
        "in_use sm = (in_use (c_streams d))(cb_stream (callback_at d p) := None)"
      by (rule release_stream_of [of d "cb_stream (callback_at d p)"]) (use wf use F in simp_all)
    let ?f = "emit (On_error p CASS_ERROR_LIB_WRITE_ERROR) (update_callback p (\<lambda>cb. cb\<lparr>cb_state := REQUEST_STATE_FINISHED\<rparr>) (d\<lparr>c_streams := sm\<rparr>))"
    have "accounts k R ?f" by (rule finish_unwritten [OF accounts_streams [OF ad sm(2)]]) (simp_all add: state_kinds)
    moreover have "in_order k ?f"
      by (rule finish_in_order [OF iod]) (use p(1) failed sm(3) in \<open>simp_all add: F state_kinds\<close>)
    moreover have "on_write_callback env status p c = on_error p CASS_ERROR_LIB_WRITE_ERROR
        (update_callback p (\<lambda>cb. cb\<lparr>cb_state := REQUEST_STATE_FINISHED\<rparr>) (d\<lparr>c_streams := sm\<rparr>))"
      using failed sm(1) by (simp add: on_write_callback_def d_def [symmetric] Let_def finish_state F)
    ultimately show ?thesis using keepsD(1,2) [OF on_error_keeps] by metis
  qed
qed

lemma on_write_fold:
  "accounts k (ps @ R) c \<Longrightarrow> in_order k c \<Longrightarrow>
     accounts k R (fold (on_write_callback env status) ps c) \<and> in_order k (fold (on_write_callback env status) ps c)"
proof (induction ps arbitrary: c)
  case (Cons p ps)
  then show ?case using on_write_callback_accounts [of k p "ps @ R" c env status] by simp
qed simp

lemma on_write_accounts:
  assumes a: "accounts 0 [] c" and io: "in_order 0 c" and w: "c_pending_writes c = w # ws" "pw_is_flushed w"
  shows "accounts 0 [] (on_write env status c) \<and> in_order 0 (on_write env status c)"
proof -
  let ?c1 = "c\<lparr>c_pending_writes_size := c_pending_writes_size c - pw_size w\<rparr>"
  define c2 where "c2 = (if c_pending_writes_size ?c1 < e_write_bytes_low_water_mark env \<and> c_state ?c1 = CONNECTION_STATE_OVERWHELMED
    then Connection_set_state CONNECTION_STATE_READY ?c1 else ?c1)"
  have nt: "same_core ?c1 c2" by (simp add: c2_def set_state_neutral)
  have a1: "accounts 1 (pw_callbacks w @ []) ?c1" using a w by (simp add: accounts_def unwritten_def)
  have io1: "in_order 1 ?c1" using io w by (simp add: in_order_def)
  let ?c3 = "fold (on_write_callback env status) (pw_callbacks w) c2"
  have a3: "accounts 1 [] ?c3" "in_order 1 ?c3"
    using on_write_fold [of 1 "pw_callbacks w" "[]" c2] a1 io1 accounts_cong [OF nt] in_order_cong [OF nt] by simp_all
  let ?c4 = "?c3\<lparr>c_pending_writes := tl (c_pending_writes ?c3),
    c_free_writes := (if c_free_writes ?c3 < e_max_reusable_write_objects env then c_free_writes ?c3 + 1 else c_free_writes ?c3)\<rparr>"
  have "accounts 0 [] ?c4" using a3(1) by (simp add: accounts_def unwritten_def drop_Suc)
  moreover have "in_order 0 ?c4" using a3(2) by (simp add: in_order_def drop_Suc)
  moreover have "on_write env status c = Connection_flush ?c4"
    unfolding on_write_def w(1) by (simp add: Let_def c2_def)
  ultimately show ?thesis using accounts_flush in_order_flush by metis
qed

subsection \<open>Closing finishes every request\<close>

lemma rounds_finish:
  fixes c :: "'a connection"
  assumes "s \<noteq> REQUEST_STATE_READ_BEFORE_WRITE" "p < length (c_callbacks c)"
  shows "cleanup_rounds (emit e (update_callback p (\<lambda>cb. cb\<lparr>cb_state := s\<rparr>) c)) +
    of_bool (cb_state (callback_at c p) = REQUEST_STATE_READ_BEFORE_WRITE) \<le> cleanup_rounds c"
proof -
  let ?P = "\<lambda>cb :: 'a callback. cb_state cb = REQUEST_STATE_READ_BEFORE_WRITE"
  have "length (filter ?P (xs[i := x])) + of_bool (?P (xs ! i)) \<le> length (filter ?P xs)" if "\<not> ?P x" "i < length xs" for x xs i
    using that
  proof (induction xs arbitrary: i)
    case (Cons y ys)
    then show ?case by (cases i) auto
  qed simp
  then show ?thesis using assms by (simp add: cleanup_rounds_def)
qed

lemma cleanup_accounts:
  fixes c :: "'a connection"
  assumes a: "accounts k (p # R) c"
  shows "accounts k R (cleanup_pending_callback env p c) \<and>
    c_pending_reads (cleanup_pending_callback env p c) = c_pending_reads c \<and>
    cleanup_rounds (cleanup_pending_callback env p c) \<le> cleanup_rounds c"
proof -
  have p: "p < length (c_callbacks c)" "writing_state (cb_state (callback_at c p))"
    using unwritten_member(1) [OF a, of p] by (simp_all add: unwritten_def)
  have ok: "callbacks_ok (unwritten k (p # R) c) (c_pending_reads c) (outcomes c) (c_callbacks c)"
    using a by (simp add: accounts_def)
  let ?u = "\<lambda>s. update_callback p (\<lambda>cb. cb\<lparr>cb_state := s\<rparr>) c"
  consider (writing) "cb_state (callback_at c p) = REQUEST_STATE_WRITING"
    | (rbw) "cb_state (callback_at c p) = REQUEST_STATE_READ_BEFORE_WRITE"
    | (cancelled) "cb_state (callback_at c p) = REQUEST_STATE_CANCELLED_WRITING \<or>
        cb_state (callback_at c p) = REQUEST_STATE_CANCELLED_READ_BEFORE_WRITE"
    using p(2) by (auto simp: writing_state_def)
  then show ?thesis
  proof cases
    case rbw
    obtain r where r: "cb_response (callback_at c p) = Some r" "response_stream r = cb_stream (callback_at c p)"
      using callbacks_okD(4) [OF ok p(1) rbw] by blast
    let ?f = "emit (On_set p r) (?u REQUEST_STATE_FINISHED)"
    have f: "accounts k R ?f" by (rule finish_unwritten [OF a]) (use r(2) in \<open>simp_all add: state_kinds\<close>)
    have e: "cleanup_pending_callback env p c = on_set env p r (?u REQUEST_STATE_FINISHED)"
      using rbw p(1) r(1) by (simp add: cleanup_pending_callback_def finish_state Let_def)
    show ?thesis unfolding e
      using keepsD(1,3,4) [OF on_set_keeps [where env = env] f]
        rounds_finish [OF _ p(1), of REQUEST_STATE_FINISHED "On_set p r"] rbw by simp
  next
    case cancelled
    let ?f = "emit (On_cancel p None) (?u REQUEST_STATE_CANCELLED)"
    have "accounts k R ?f" by (rule finish_unwritten [OF a]) (simp_all add: state_kinds)
    moreover have "cleanup_pending_callback env p c = ?f"
      using cancelled by (auto simp: cleanup_pending_callback_def finish_state on_cancel_def)
    ultimately show ?thesis
      using rounds_finish [OF _ p(1), of REQUEST_STATE_CANCELLED "On_cancel p None"] by simp
  next
    case writing
    define n :: "'a notice" where "n = (if cb_idempotent (callback_at c p) then On_retry p True else On_error p CASS_ERROR_LIB_REQUEST_TIMED_OUT)"
    have f: "accounts k R (emit n (?u REQUEST_STATE_FINISHED))"
      by (rule finish_unwritten [OF a]) (simp_all add: state_kinds n_def split: if_splits)
    have nt: "same_core (emit n (?u REQUEST_STATE_FINISHED)) (cleanup_pending_callback env p c)"
      using writing p(1) by (simp add: cleanup_pending_callback_def finish_state Let_def n_def on_retry_def on_error_def internal_neutral)
    show ?thesis using f accounts_cong [OF nt] core_fields [OF nt] rounds_finish [OF _ p(1), of REQUEST_STATE_FINISHED n]
      by (simp add: cleanup_rounds_def)
  qed
qed

lemma cleanup_read_accounts:
  fixes c :: "'a connection"
  assumes a: "accounts k R c" and r: "c_pending_reads c = p # ps"
  shows "accounts k R (cleanup_read env p c) \<and> c_pending_reads (cleanup_read env p c) = ps"
proof -
  let ?c = "c\<lparr>c_pending_reads := ps\<rparr>"
  have ok: "callbacks_ok (unwritten k R c) (p # ps) (outcomes c) (c_callbacks c)" using a r by (simp add: accounts_def)
  note D = callbacks_okD [OF ok]
  have p: "p < length (c_callbacks c)" "reading_state (cb_state (callback_at c p))" using D(3) [of p] by simp_all
  define s where "s = (if cb_state (callback_at c p) = REQUEST_STATE_READING then REQUEST_STATE_FINISHED else REQUEST_STATE_CANCELLED)"
  define n :: "'a notice" where "n = (if cb_state (callback_at c p) \<noteq> REQUEST_STATE_READING then On_cancel p None
    else if cb_idempotent (callback_at c p) then On_retry p True else On_error p CASS_ERROR_LIB_REQUEST_TIMED_OUT)"
  have "callbacks_ok (unwritten k R c) ps (outcomes c @ [n]) ((c_callbacks c)[p := (callback_at c p)\<lparr>cb_state := s\<rparr>])"
    by (rule callbacks_ok_finish [OF ok p(1)]) (use p D(1) D(2) [of p] in \<open>auto simp: s_def n_def state_kinds split: if_splits\<close>)
  then have f: "accounts k R (emit n (update_callback p (\<lambda>cb. cb\<lparr>cb_state := s\<rparr>) ?c))"
    using a by (simp add: accounts_def n_def)
  have nt: "same_core (emit n (update_callback p (\<lambda>cb. cb\<lparr>cb_state := s\<rparr>) ?c)) (cleanup_read env p c)"
    using p unfolding reading_state_def cleanup_read_def r
    by (auto simp: cleanup_pending_callback_def finish_state Let_def n_def s_def on_retry_def on_error_def on_cancel_def internal_neutral)
  show ?thesis using f accounts_cong [OF nt] core_fields [OF nt] by simp
qed

lemma cleanup_reads_accounts:
  "accounts k R c \<Longrightarrow> c_pending_reads c = ps \<Longrightarrow>
     accounts k R (fold (cleanup_read env) ps c) \<and> c_pending_reads (fold (cleanup_read env) ps c) = []"
proof (induction ps arbitrary: c)
  case (Cons p ps)
  then show ?case using cleanup_read_accounts [of k R c p ps env] by simp
qed simp

lemma cleanup_fold_accounts:
  "accounts k (ps @ R) c \<Longrightarrow>
     accounts k R (fold (cleanup_pending_callback env) ps c) \<and>
     c_pending_reads (fold (cleanup_pending_callback env) ps c) = c_pending_reads c \<and>
     cleanup_rounds (fold (cleanup_pending_callback env) ps c) \<le> cleanup_rounds c"
proof (induction ps arbitrary: c)
  case (Cons p ps)
  then show ?case using cleanup_accounts [of k p "ps @ R" c env] by fastforce
qed simp

lemma cleanup_writes_accounts:
  "accounts 0 [] c \<Longrightarrow> cleanup_rounds c \<le> n \<Longrightarrow>
     accounts 0 [] (cleanup_writes n env c) \<and> c_pending_reads (cleanup_writes n env c) = c_pending_reads c \<and>
     c_pending_writes (cleanup_writes n env c) = []"
proof (induction n arbitrary: c)
  case 0
  then show ?case by (simp add: cleanup_rounds_def)
next
  case (Suc n)
  show ?case
  proof (cases "c_pending_writes c")
    case Nil
    then show ?thesis using Suc.prems by simp
  next
    case (Cons w ws)
    let ?c = "c\<lparr>c_pending_writes := ws\<rparr>"
    have "accounts 0 (pw_callbacks w @ []) ?c" using Suc.prems(1) Cons by (simp add: accounts_def unwritten_def)
    from cleanup_fold_accounts [OF this, of env]
    have "accounts 0 [] (fold (cleanup_pending_callback env) (pw_callbacks w) ?c)"
      "c_pending_reads (fold (cleanup_pending_callback env) (pw_callbacks w) ?c) = c_pending_reads c"
      "cleanup_rounds (fold (cleanup_pending_callback env) (pw_callbacks w) ?c) \<le> n"
      using Suc.prems(2) Cons by (simp_all add: cleanup_rounds_def)
    then show ?thesis using Suc.IH Cons by simp
  qed
qed

lemma on_close_accounts:
  assumes "accounts 0 [] c"
  shows "accounts 0 [] (on_close env c)" "c_pending_reads (on_close env c) = []" "c_pending_writes (on_close env c) = []"
proof -
  let ?c1 = "fold (cleanup_read env) (c_pending_reads c) c"
  have 1: "accounts 0 [] ?c1" "c_pending_reads ?c1 = []" using cleanup_reads_accounts [OF assms refl, of env] by simp_all
  let ?n = "length (c_pending_writes ?c1) + length (c_callbacks ?c1)"
  have "cleanup_rounds ?c1 \<le> ?n" by (simp add: cleanup_rounds_def)
  then have 2: "accounts 0 [] (cleanup_writes ?n env ?c1)" "c_pending_reads (cleanup_writes ?n env ?c1) = []"
      "c_pending_writes (cleanup_writes ?n env ?c1) = []"
    using cleanup_writes_accounts [OF 1(1), of ?n env] 1(2) by simp_all
  have e: "on_close env c = emit Listener_close (cleanup_writes ?n env ?c1)" by (simp add: on_close_def Let_def)
  have nt: "same_core (cleanup_writes ?n env ?c1) (on_close env c)" unfolding e by (rule emit_neutral) simp
  show "accounts 0 [] (on_close env c)" "c_pending_reads (on_close env c) = []" "c_pending_writes (on_close env c) = []"
    using 2 accounts_cong [OF nt] core_fields [OF nt] by simp_all
qed

subsection \<open>Runs\<close>

lemma cancel_accounts:
  assumes a: "accounts k R c" and p: "p < length (c_callbacks c)"
    "cb_state (callback_at c p) \<notin> {REQUEST_STATE_CANCELLED_WRITING, REQUEST_STATE_CANCELLED_READING,
       REQUEST_STATE_CANCELLED_READ_BEFORE_WRITE}"
  shows "accounts k R (cancel_request p c) \<and> (in_order k c \<longrightarrow> in_order k (cancel_request p c))"
proof -
  let ?old = "cb_state (callback_at c p)"
  have ok: "callbacks_ok (unwritten k R c) (c_pending_reads c) (outcomes c) (c_callbacks c)" using a by (simp add: accounts_def)
  note D = callbacks_okD [OF ok]
  obtain s where s: "next_state ?old REQUEST_STATE_CANCELLED = Some s" "writing_state s \<longleftrightarrow> writing_state ?old"
      "reading_state s \<longleftrightarrow> reading_state ?old" "awaits_response s \<longleftrightarrow> awaits_response ?old" "s \<noteq> REQUEST_STATE_READ_BEFORE_WRITE"
    using p(2) by (cases ?old) (auto simp: state_kinds)
  let ?u = "update_callback p (\<lambda>cb. cb\<lparr>cb_state := s\<rparr>) c"
  have "callbacks_ok (unwritten k R c) (c_pending_reads c) (outcomes c) ((c_callbacks c)[p := (callback_at c p)\<lparr>cb_state := s\<rparr>])"
    by (rule callbacks_ok_move [OF ok p(1) _ _ D(1)]) (use D(2,3) [of p] p(1) s in simp_all)
  then have u: "accounts k R ?u" using a by (simp add: accounts_def)
  have "routed (c_streams c) ((c_callbacks c)[p := (callback_at c p)\<lparr>cb_state := s\<rparr>])" if "in_order k c"
    by (rule routed_move) (use that s in \<open>simp_all add: in_order_def\<close>)
  then have io: "in_order k c \<longrightarrow> in_order k ?u" by (simp add: in_order_def)
  have nt: "same_core ?u (cancel_request p c)"
    unfolding cancel_request_def finish_state [OF s(1)] by (rule internal_neutral)
  show ?thesis using u io accounts_cong [OF nt] in_order_cong [OF nt] by simp
qed

text \<open>
  What can happen to a connection. A request is written once and cancelled at most once while it is
  pending; a write completes when it is the first flushed one; a timer fires when it runs; nothing is
  read from a closed socket.
\<close>

inductive conn_step :: "'addr env \<Rightarrow> 'addr connection \<Rightarrow> 'addr connection \<Rightarrow> bool" for env where
  connect: "conn_step env c (Connection_connect c)"
| connected: "conn_step env c (on_connect env status c)"
| connect_timeout: "c_connect_timer c \<Longrightarrow> conn_step env c (on_connect_timeout c)"
| new_request: "conn_step env c (c\<lparr>c_callbacks := c_callbacks c @ [new_callback (OtherCallback n) i]\<rparr>)"
| submit: "p < length (c_callbacks c) \<Longrightarrow> cb_stream (callback_at c p) = -1 \<Longrightarrow>
    cb_state (callback_at c p) \<in> {REQUEST_STATE_NEW, REQUEST_STATE_CANCELLED} \<Longrightarrow>
    conn_step env c (snd (Connection_write env p flush c))"
| cancel: "p < length (c_callbacks c) \<Longrightarrow>
    cb_state (callback_at c p) \<notin> {REQUEST_STATE_CANCELLED_WRITING, REQUEST_STATE_CANCELLED_READING,
      REQUEST_STATE_CANCELLED_READ_BEFORE_WRITE} \<Longrightarrow> conn_step env c (cancel_request p c)"
| flush: "conn_step env c (Connection_flush c)"
| read_some: "\<not> is_closing c \<Longrightarrow> conn_step env c (on_read env result c)"
| written: "c_pending_writes c = w # ws \<Longrightarrow> pw_is_flushed w \<Longrightarrow> conn_step env c (on_write env status c)"
| heartbeat: "c_heartbeat_timer c \<Longrightarrow> conn_step env c (on_heartbeat env c)"
| idle: "c_terminate_timer c \<Longrightarrow> conn_step env c (on_terminate c)"
| close: "conn_step env c (Connection_close c)"
| make_defunct: "conn_step env c (defunct c)"

inductive conn_reachable :: "'addr env \<Rightarrow> 'addr connection \<Rightarrow> bool" for env where
  start: "conn_reachable env (Connection_new keyspace version)"
| step: "conn_reachable env c \<Longrightarrow> conn_step env c c' \<Longrightarrow> conn_reachable env c'"

lemma new_accounts: "accounts 0 [] (Connection_new keyspace version)" "in_order 0 (Connection_new keyspace version)"
proof -
  have e: "in_use (StreamManager_new version :: nat stream_manager) = Map.empty"
    by (simp add: in_use_def StreamManager_new_def Let_def)
  show "accounts 0 [] (Connection_new keyspace version)" "in_order 0 (Connection_new keyspace version)"
    by (simp_all add: accounts_def in_order_def Connection_new_def unwritten_def outcomes_def callbacks_ok_def
        wf_StreamManager_new routed_def e)
qed

lemma keeps_both: "keeps c c' \<Longrightarrow> accounts k R c \<Longrightarrow> in_order k c \<Longrightarrow> accounts k R c' \<and> in_order k c'"
  using keepsD(1,2) by blast

lemma on_heartbeat_keeps: "keeps c (on_heartbeat env c)"
proof -
  let ?c = "c\<lparr>c_heartbeat_timer := False\<rparr>"
  have n: "same_core c ?c" by (simp add: same_core_def)
  obtain r d where d: "write_own env HeartbeatCallback ?c = (r, d)" by force
  have kd: "keeps c d" using keeps_trans [OF n write_own_keeps [of ?c env HeartbeatCallback]] d by simp
  have after: "keeps c e" if "same_core d e" for e
    using kd core_fields [OF that] accounts_cong [OF that] in_order_cong [OF that] by (simp add: keeps_def cleanup_rounds_def)
  have t: "same_core d (restart_heartbeat_timer env (d\<lparr>c_heartbeat_outstanding := True\<rparr>))"
    by (rule same_core_trans [OF _ timers_neutral(1)]) (simp add: same_core_def)
  have o: "same_core c (restart_heartbeat_timer env ?c)" by (rule same_core_trans [OF n timers_neutral(1)])
  show ?thesis using after [OF t] after [OF notify_error_neutral] neutral_keeps [OF o]
    by (simp add: on_heartbeat_def d)
qed

lemma step_accounts:
  assumes "conn_step env c c'" "accounts 0 [] c" "in_order 0 c"
  shows "accounts 0 [] c' \<and> in_order 0 c'"
  using assms
proof (cases rule: conn_step.cases)
  case connect
  have "same_core c c'" unfolding connect Connection_connect_def
    using set_state_neutral [of c CONNECTION_STATE_CONNECTING] by (simp add: same_core_def)
  then show ?thesis using keeps_both neutral_keeps assms(2,3) by blast
next
  case (connected status)
  have "keeps c c'" unfolding connected on_connect_def
    by (simp add: neutral_keeps notify_error_neutral keeps_trans [OF set_state_neutral startup_keeps(1)])
  then show ?thesis using keeps_both assms(2,3) by blast
next
  case connect_timeout
  have "same_core c c'" unfolding connect_timeout on_connect_timeout_def
    by (rule same_core_trans [OF _ notify_error_neutral]) (simp add: same_core_def)
  then show ?thesis using keeps_both neutral_keeps assms(2,3) by blast
next
  case (new_request n i)
  then show ?thesis using accounts_new_callback in_order_new_callback assms(2,3) by blast
next
  case (submit p fl)
  have w: "accounts 0 [] (snd (internal_write env p fl c))" "in_order 0 (snd (internal_write env p fl c))"
    using internal_write_accounts [OF assms(2) submit(2,3,4), of env fl] assms(3) by simp_all
  have "same_core (snd (internal_write env p fl c)) c'"
    unfolding submit by (simp add: Connection_write_def split_def Let_def timers_neutral)
  then show ?thesis using keeps_both [OF neutral_keeps] w by blast
next
  case (cancel p)
  then show ?thesis using cancel_accounts [OF assms(2)] assms(3) by blast
next
  case flush
  then show ?thesis using accounts_flush in_order_flush assms(2,3) by blast
next
  case (read_some result)
  have "accounts 0 [] (restart_terminate_timer env c) \<and> in_order 0 (restart_terminate_timer env c)"
    using keeps_both [OF neutral_keeps [OF timers_neutral(2)]] assms(2,3) by blast
  then show ?thesis
    using consume_keeps [of 0 "[]" "restart_terminate_timer env c" env] keeps_both [OF neutral_keeps [OF close_neutral(2)] assms(2,3)]
      keeps_both [OF neutral_keeps [OF notify_error_neutral] assms(2,3)]
    unfolding read_some(1) on_read_def by (cases result) auto
next
  case (written w ws status)
  then show ?thesis using on_write_accounts [OF assms(2,3)] by blast
next
  case heartbeat
  then show ?thesis using keeps_both [OF on_heartbeat_keeps assms(2,3)] by blast
next
  case idle
  have "same_core c c'" unfolding idle on_terminate_def
    by (rule same_core_trans [OF _ notify_error_neutral]) (simp add: same_core_def)
  then show ?thesis using keeps_both neutral_keeps assms(2,3) by blast
next
  case close
  then show ?thesis using keeps_both [OF neutral_keeps [OF close_neutral(1)] assms(2,3)] by blast
next
  case make_defunct
  then show ?thesis using keeps_both [OF neutral_keeps [OF close_neutral(2)] assms(2,3)] by blast
qed

lemma reachable_accounts: "conn_reachable env c \<Longrightarrow> accounts 0 [] c \<and> in_order 0 c"
proof (induction rule: conn_reachable.induct)
  case (start keyspace version)
  show ?case using new_accounts by blast
next
  case (step c c')
  then show ?case using step_accounts by blast
qed

lemma finish_count_outcomes: "finish_count p (c_log c) = finish_count p (outcomes c)"
  by (simp add: finish_count_def outcomes_def) (metis (mono_tags, lifting) filter_cong option.distinct(1))

subsection \<open>Properties\<close>

text \<open>C3. In every run of a connection no assertion about the states of requests or about stream ids fails, every
  request is finished at most once and only after it was started, a response is handed to the request that was sent
  with its stream id, and the count of pending bytes is the sum of the sizes of the pending writes.\<close>

theorem request_accounting:
  assumes "conn_reachable env c"
  shows "\<not> c_assertion_failed c \<and> finish_count p (c_log c) \<le> 1 \<and>
    (On_set p r \<in> set (c_log c) \<longrightarrow> p < length (c_callbacks c) \<and> response_stream r = cb_stream (callback_at c p)) \<and>
    (in_use (c_streams c) s = Some p \<longleftrightarrow>
       p < length (c_callbacks c) \<and> awaits_response (cb_state (callback_at c p)) \<and> cb_stream (callback_at c p) = s) \<and>
    c_pending_writes_size c = sum_list (map pw_size (c_pending_writes c))"
proof -
  have a: "accounts 0 [] c" and io: "in_order 0 c" using reachable_accounts [OF assms] by simp_all
  have ok: "callbacks_ok (unwritten 0 [] c) (c_pending_reads c) (outcomes c) (c_callbacks c)"
    using a by (simp add: accounts_def)
  note D = callbacks_okD [OF ok]
  have "On_set p r \<in> set (outcomes c)" if "On_set p r \<in> set (c_log c)" using that by (simp add: outcomes_def)
  then show ?thesis
    using a io D(6) [of p] D(7) [of p r] routedD [of "c_streams c" "c_callbacks c" s p]
    unfolding accounts_def in_order_def finish_count_outcomes by auto
qed

text \<open>C4. When a connection is closed every request that was started on it has been finished exactly once, by
  a response, an error, a retry or a cancellation, and none is left in its lists.\<close>

theorem close_finishes_requests:
  assumes "conn_reachable env c" "p < length (c_callbacks (on_close env c))"
    "0 \<le> cb_stream (callback_at (on_close env c) p)"
  shows "finish_count p (c_log (on_close env c)) = 1 \<and> c_pending_reads (on_close env c) = [] \<and>
    c_pending_writes (on_close env c) = [] \<and> \<not> c_assertion_failed (on_close env c)"
proof -
  let ?c = "on_close env c"
  have "accounts 0 [] c" using reachable_accounts [OF assms(1)] by simp
  note C = on_close_accounts [OF this, of env]
  have ok: "callbacks_ok [] [] (outcomes ?c) (c_callbacks ?c)" "\<not> c_assertion_failed ?c"
    using C by (simp_all add: accounts_def unwritten_def)
  note D = callbacks_okD [OF ok(1)]
  have "\<not> live (cb_state (callback_at ?c p))" using D(2,3) [of p] assms(2) by simp
  then show ?thesis using D(6) [of p] assms(2,3) C ok(2) by (simp add: finish_count_outcomes)
qed

definition example_env :: "nat env" where
  "example_env = \<lparr>e_from_inet = (\<lambda>_ _ _. None), e_encode = (\<lambda>_ _. 9), e_write_bytes_high_water_mark = 65536,
     e_write_bytes_low_water_mark = 32768, e_max_reusable_write_objects = 10, e_heartbeat_interval = 30, e_idle_timeout = 60,
     e_event_types = 0, e_v1_authenticator = (\<lambda>_. False), e_initial_response = (\<lambda>_. None), e_evaluate_challenge = (\<lambda>_. None),
     e_success = (\<lambda>_. True), e_makes_defunct = (\<lambda>_ _. False)\<rparr>"

definition example_connection :: "nat connection" where
  "example_connection = on_connect example_env 0 (Connection_connect (Connection_new [] 2))"

lemma example_connection_reachable: "conn_reachable example_env example_connection"
  unfolding example_connection_def
  by (rule conn_reachable.step [OF conn_reachable.step [OF conn_reachable.start conn_step.connect] conn_step.connected])

lemmas connection_eval = Connection_connect_def Connection_new_def Connection_set_state_def is_closing_def on_connect_def
  on_connected_def write_own_def new_callback_def internal_write_def update_callback_def fresh_write_def add_request_def
  RequestCallback_set_state_def Connection_flush_def on_close_def cleanup_pending_callback_def on_error_def on_internal_error_def
  emit_def notify_error_def defunct_def internal_close_def Let_def

lemma example_started:
  "length (c_callbacks (on_close example_env example_connection)) = 1 \<and>
   0 \<le> cb_stream (callback_at (on_close example_env example_connection) 0)"
proof (rule acquire_from_new [of "0 :: nat" 2])
  fix s sm
  assume "StreamManager_acquire (0 :: nat) (StreamManager_new 2) = (s, sm)" "0 \<le> s"
  then show ?thesis by (simp add: example_connection_def example_env_def connection_eval)
qed

theorem request_accounting_witness:
  "\<not> c_assertion_failed example_connection \<and> finish_count 0 (c_log example_connection) \<le> 1"
  using request_accounting [OF example_connection_reachable] by blast

theorem close_finishes_requests_witness:
  "finish_count 0 (c_log (on_close example_env example_connection)) = 1"
  using close_finishes_requests [OF example_connection_reachable, of 0] example_started by simp

text \<open>When no stream is left a heartbeat is not written but taken for outstanding, since the result of
  \<open>internal_write\<close> is negative and not 0. No heartbeat is written from then on.\<close>

lemma heartbeat_lost:
  assumes "wf_streams (c_streams c)" "\<forall>s \<in> stream_range (c_streams c). in_use (c_streams c) s \<noteq> None"
    "\<not> c_heartbeat_outstanding c"
  shows "c_heartbeat_outstanding (on_heartbeat env c) \<and> c_pending_writes (on_heartbeat env c) = c_pending_writes c \<and>
    c_state (on_heartbeat env c) = c_state c \<and>
    c_pending_writes (on_heartbeat env (on_heartbeat env c)) = c_pending_writes c"
proof (rule acquire_cases [OF assms(1), of "length (c_callbacks c)"])
  assume "StreamManager_acquire (length (c_callbacks c)) (c_streams c) = (- 1, (c_streams c)\<lparr>offset := offset (c_streams c) + 1\<rparr>)"
  then have "c_heartbeat_outstanding (on_heartbeat env c) \<and> c_pending_writes (on_heartbeat env c) = c_pending_writes c \<and>
      c_state (on_heartbeat env c) = c_state c"
    using assms(3) by (simp add: on_heartbeat_def write_own_def internal_write_def new_callback_def restart_heartbeat_timer_def)
  then show ?thesis by (simp add: on_heartbeat_def [of env "on_heartbeat env c"] restart_heartbeat_timer_def)
qed (use assms(2) in auto)

text \<open>A startup response that is handed on after the connection was closed, which a completed write or the clean up can
  do, fails the assertion on the connection's state and still tells the listener that the connection is ready.\<close>

lemma ready_after_close:
  "is_closing c \<Longrightarrow> c_state_assertion_failed (notify_ready env c) \<and> Listener_ready \<in> set (c_log (notify_ready env c)) \<and>
     is_closing (notify_ready env c)"
  by (auto simp: notify_ready_def emit_def Connection_set_state_def Let_def is_closing_def restart_terminate_timer_def
      restart_heartbeat_timer_def)

end
