(* ===== verification/RetryPolicy.thy ===== *)
theory RetryPolicy
  imports Decoder
begin

text \<open>
  The retry policies: \<open>retry_policy.hpp\<close>, \<open>retry_policy.cpp\<close>. A policy object is the constructor of
  its class, and the virtual methods dispatch on it; the arguments \<open>request\<close> and \<open>error\<close> are only
  logged, by no policy read, and are left out, as are the log messages. \<open>int\<close> arguments are
  unbounded here: the methods only compare them.
\<close>

datatype cass_consistency =
    CASS_CONSISTENCY_UNKNOWN | CASS_CONSISTENCY_ANY | CASS_CONSISTENCY_ONE | CASS_CONSISTENCY_TWO
  | CASS_CONSISTENCY_THREE | CASS_CONSISTENCY_QUORUM | CASS_CONSISTENCY_ALL
  | CASS_CONSISTENCY_LOCAL_QUORUM | CASS_CONSISTENCY_EACH_QUORUM | CASS_CONSISTENCY_SERIAL
  | CASS_CONSISTENCY_LOCAL_SERIAL | CASS_CONSISTENCY_LOCAL_ONE

datatype decision_type = RETURN_ERROR | RETRY | IGNORE

record retry_decision =
  decision_type :: decision_type
  retry_cl :: cass_consistency
  retry_current_host :: bool

definition RetryDecision_return_error :: retry_decision where
  "RetryDecision_return_error =
     \<lparr>decision_type = RETURN_ERROR, retry_cl = CASS_CONSISTENCY_UNKNOWN, retry_current_host = False\<rparr>"

definition RetryDecision_retry :: "cass_consistency \<Rightarrow> retry_decision" where
  "RetryDecision_retry cl = \<lparr>decision_type = RETRY, retry_cl = cl, retry_current_host = True\<rparr>"

definition RetryDecision_retry_next_host :: "cass_consistency \<Rightarrow> retry_decision" where
  "RetryDecision_retry_next_host cl = \<lparr>decision_type = RETRY, retry_cl = cl, retry_current_host = False\<rparr>"

definition RetryDecision_ignore :: retry_decision where
  "RetryDecision_ignore =
     \<lparr>decision_type = IGNORE, retry_cl = CASS_CONSISTENCY_UNKNOWN, retry_current_host = False\<rparr>"

definition max_likely_to_work :: "int \<Rightarrow> retry_decision" where
  "max_likely_to_work received =
     (if received \<ge> 3 then RetryDecision_retry CASS_CONSISTENCY_THREE
      else if received = 2 then RetryDecision_retry CASS_CONSISTENCY_TWO
      else if received = 1 then RetryDecision_retry CASS_CONSISTENCY_ONE
      else RetryDecision_return_error)"

subsection \<open>The policies\<close>

datatype retry_policy =
    DefaultRetryPolicy | DowngradingConsistencyRetryPolicy | FallthroughRetryPolicy
  | LoggingRetryPolicy retry_policy

text \<open>The constructor of the C interface: a logging policy around a logging policy is refused.\<close>

definition cass_retry_policy_logging_new :: "retry_policy \<Rightarrow> retry_policy option" where
  "cass_retry_policy_logging_new child_retry_policy =
     (case child_retry_policy of
        LoggingRetryPolicy _ \<Rightarrow> None
      | _ \<Rightarrow> Some (LoggingRetryPolicy child_retry_policy))"

definition Default_on_read_timeout ::
    "cass_consistency \<Rightarrow> int \<Rightarrow> int \<Rightarrow> bool \<Rightarrow> int \<Rightarrow> retry_decision" where
  "Default_on_read_timeout cl received required data_received num_retries =
     (if num_retries \<noteq> 0 then RetryDecision_return_error
      else if received \<ge> required \<and> \<not> data_received then RetryDecision_retry cl
      else RetryDecision_return_error)"

definition Default_on_write_timeout ::
    "cass_consistency \<Rightarrow> int \<Rightarrow> int \<Rightarrow> cass_write_type \<Rightarrow> int \<Rightarrow> retry_decision" where
  "Default_on_write_timeout cl received required write_type num_retries =
     (if num_retries \<noteq> 0 then RetryDecision_return_error
      else if write_type = CASS_WRITE_TYPE_BATCH_LOG then RetryDecision_retry cl
      else RetryDecision_return_error)"

definition Default_on_unavailable ::
    "cass_consistency \<Rightarrow> int \<Rightarrow> int \<Rightarrow> int \<Rightarrow> retry_decision" where
  "Default_on_unavailable cl required alive num_retries =
     (if num_retries = 0 then RetryDecision_retry_next_host cl else RetryDecision_return_error)"

definition Default_on_request_error :: "cass_consistency \<Rightarrow> int \<Rightarrow> retry_decision" where
  "Default_on_request_error cl num_retries = RetryDecision_retry_next_host cl"

definition Downgrading_on_read_timeout ::
    "cass_consistency \<Rightarrow> int \<Rightarrow> int \<Rightarrow> bool \<Rightarrow> int \<Rightarrow> retry_decision" where
  "Downgrading_on_read_timeout cl received required data_received num_retries =
     (if num_retries \<noteq> 0 then RetryDecision_return_error
      else if cl = CASS_CONSISTENCY_SERIAL \<or> cl = CASS_CONSISTENCY_LOCAL_SERIAL
      then RetryDecision_return_error
      else if received < required then max_likely_to_work received
      else if \<not> data_received then RetryDecision_retry cl
      else RetryDecision_return_error)"

definition Downgrading_on_write_timeout ::
    "cass_consistency \<Rightarrow> int \<Rightarrow> int \<Rightarrow> cass_write_type \<Rightarrow> int \<Rightarrow> retry_decision" where
  "Downgrading_on_write_timeout cl received required write_type num_retries =
     (if num_retries \<noteq> 0 then RetryDecision_return_error
      else case write_type of
             CASS_WRITE_TYPE_SIMPLE \<Rightarrow>
               if received > 0 then RetryDecision_ignore else RetryDecision_return_error
           | CASS_WRITE_TYPE_BATCH \<Rightarrow>
               if received > 0 then RetryDecision_ignore else RetryDecision_return_error
           | CASS_WRITE_TYPE_UNLOGGED_BATCH \<Rightarrow> max_likely_to_work received
           | CASS_WRITE_TYPE_BATCH_LOG \<Rightarrow> RetryDecision_retry cl
           | _ \<Rightarrow> RetryDecision_return_error)"

definition Downgrading_on_unavailable ::
    "cass_consistency \<Rightarrow> int \<Rightarrow> int \<Rightarrow> int \<Rightarrow> retry_decision" where
  "Downgrading_on_unavailable cl required alive num_retries =
     (if num_retries \<noteq> 0 then RetryDecision_return_error else max_likely_to_work alive)"

definition Downgrading_on_request_error :: "cass_consistency \<Rightarrow> int \<Rightarrow> retry_decision" where
  "Downgrading_on_request_error cl num_retries = RetryDecision_retry_next_host cl"

definition Fallthrough_on_read_timeout ::
    "cass_consistency \<Rightarrow> int \<Rightarrow> int \<Rightarrow> bool \<Rightarrow> int \<Rightarrow> retry_decision" where
  "Fallthrough_on_read_timeout cl received required data_received num_retries =
     RetryDecision_return_error"

definition Fallthrough_on_write_timeout ::
    "cass_consistency \<Rightarrow> int \<Rightarrow> int \<Rightarrow> cass_write_type \<Rightarrow> int \<Rightarrow> retry_decision" where
  "Fallthrough_on_write_timeout cl received required write_type num_retries =
     RetryDecision_return_error"

definition Fallthrough_on_unavailable ::
    "cass_consistency \<Rightarrow> int \<Rightarrow> int \<Rightarrow> int \<Rightarrow> retry_decision" where
  "Fallthrough_on_unavailable cl required alive num_retries = RetryDecision_return_error"

definition Fallthrough_on_request_error :: "cass_consistency \<Rightarrow> int \<Rightarrow> retry_decision" where
  "Fallthrough_on_request_error cl num_retries = RetryDecision_return_error"

text \<open>The virtual calls. The logging policy returns the decision of the policy it wraps.\<close>

fun on_read_timeout ::
    "retry_policy \<Rightarrow> cass_consistency \<Rightarrow> int \<Rightarrow> int \<Rightarrow> bool \<Rightarrow> int \<Rightarrow> retry_decision" where
  "on_read_timeout DefaultRetryPolicy cl received required data_received num_retries =
     Default_on_read_timeout cl received required data_received num_retries"
| "on_read_timeout DowngradingConsistencyRetryPolicy cl received required data_received num_retries =
     Downgrading_on_read_timeout cl received required data_received num_retries"
| "on_read_timeout FallthroughRetryPolicy cl received required data_received num_retries =
     Fallthrough_on_read_timeout cl received required data_received num_retries"
| "on_read_timeout (LoggingRetryPolicy policy) cl received required data_received num_retries =
     on_read_timeout policy cl received required data_received num_retries"

fun on_write_timeout ::
    "retry_policy \<Rightarrow> cass_consistency \<Rightarrow> int \<Rightarrow> int \<Rightarrow> cass_write_type \<Rightarrow> int \<Rightarrow> retry_decision" where
  "on_write_timeout DefaultRetryPolicy cl received required write_type num_retries =
     Default_on_write_timeout cl received required write_type num_retries"
| "on_write_timeout DowngradingConsistencyRetryPolicy cl received required write_type num_retries =
     Downgrading_on_write_timeout cl received required write_type num_retries"
| "on_write_timeout FallthroughRetryPolicy cl received required write_type num_retries =
     Fallthrough_on_write_timeout cl received required write_type num_retries"
| "on_write_timeout (LoggingRetryPolicy policy) cl received required write_type num_retries =
     on_write_timeout policy cl received required write_type num_retries"

fun on_unavailable ::
    "retry_policy \<Rightarrow> cass_consistency \<Rightarrow> int \<Rightarrow> int \<Rightarrow> int \<Rightarrow> retry_decision" where
  "on_unavailable DefaultRetryPolicy cl required alive num_retries =
     Default_on_unavailable cl required alive num_retries"
| "on_unavailable DowngradingConsistencyRetryPolicy cl required alive num_retries =
     Downgrading_on_unavailable cl required alive num_retries"
| "on_unavailable FallthroughRetryPolicy cl required alive num_retries =
     Fallthrough_on_unavailable cl required alive num_retries"
| "on_unavailable (LoggingRetryPolicy policy) cl required alive num_retries =
     on_unavailable policy cl required alive num_retries"

fun on_request_error :: "retry_policy \<Rightarrow> cass_consistency \<Rightarrow> int \<Rightarrow> retry_decision" where
  "on_request_error DefaultRetryPolicy cl num_retries = Default_on_request_error cl num_retries"
| "on_request_error DowngradingConsistencyRetryPolicy cl num_retries =
     Downgrading_on_request_error cl num_retries"
| "on_request_error FallthroughRetryPolicy cl num_retries =
     Fallthrough_on_request_error cl num_retries"
| "on_request_error (LoggingRetryPolicy policy) cl num_retries =
     on_request_error policy cl num_retries"

named_theorems retry_defs \<open>the methods of the retry policies\<close>

lemmas retry_method_defs [retry_defs] =
  RetryDecision_return_error_def RetryDecision_retry_def RetryDecision_retry_next_host_def
  RetryDecision_ignore_def max_likely_to_work_def Default_on_read_timeout_def
  Default_on_write_timeout_def Default_on_unavailable_def Default_on_request_error_def
  Downgrading_on_read_timeout_def Downgrading_on_write_timeout_def Downgrading_on_unavailable_def
  Downgrading_on_request_error_def Fallthrough_on_read_timeout_def Fallthrough_on_write_timeout_def
  Fallthrough_on_unavailable_def Fallthrough_on_request_error_def

subsection \<open>What the policies decide\<close>

text \<open>The policy behind any logging, and the replicas a consistency level waits for where that does
  not depend on the replication factor.\<close>

primrec unlogged :: "retry_policy \<Rightarrow> retry_policy" where
  "unlogged DefaultRetryPolicy = DefaultRetryPolicy"
| "unlogged DowngradingConsistencyRetryPolicy = DowngradingConsistencyRetryPolicy"
| "unlogged FallthroughRetryPolicy = FallthroughRetryPolicy"
| "unlogged (LoggingRetryPolicy policy) = unlogged policy"

fun replicas_needed :: "cass_consistency \<Rightarrow> int option" where
  "replicas_needed CASS_CONSISTENCY_ONE = Some 1"
| "replicas_needed CASS_CONSISTENCY_TWO = Some 2"
| "replicas_needed CASS_CONSISTENCY_THREE = Some 3"
| "replicas_needed _ = None"

lemma logging_transparent:
  "on_read_timeout policy = on_read_timeout (unlogged policy)"
  "on_write_timeout policy = on_write_timeout (unlogged policy)"
  "on_unavailable policy = on_unavailable (unlogged policy)"
  "on_request_error policy = on_request_error (unlogged policy)"
  by (induction policy) (auto simp: fun_eq_iff)

lemma unlogged_cases:
  obtains "unlogged policy = DefaultRetryPolicy" | "unlogged policy = DowngradingConsistencyRetryPolicy"
  | "unlogged policy = FallthroughRetryPolicy"
  by (induction policy) auto

lemma max_likely_to_work_retries:
  assumes "decision_type (max_likely_to_work n) = RETRY"
  shows "\<exists>k. replicas_needed (retry_cl (max_likely_to_work n)) = Some k \<and> 1 \<le> k \<and> k \<le> n"
  using assms by (auto simp: retry_defs split: if_splits)

subsection \<open>Properties\<close>

text \<open>C34. Logging never changes a decision, and no policy retries a timeout or an unavailable error a
  second time: once \<open>num_retries\<close> is not zero the error is returned, whatever the policy, the
  consistency and the counts in the error.\<close>

theorem retries_at_most_once:
  assumes "num_retries \<noteq> 0"
  shows "on_read_timeout (LoggingRetryPolicy policy) = on_read_timeout policy \<and>
    on_write_timeout (LoggingRetryPolicy policy) = on_write_timeout policy \<and>
    on_unavailable (LoggingRetryPolicy policy) = on_unavailable policy \<and>
    on_request_error (LoggingRetryPolicy policy) = on_request_error policy \<and>
    on_read_timeout policy cl received required data_received num_retries = RetryDecision_return_error \<and>
    on_write_timeout policy cl received required write_type num_retries = RetryDecision_return_error \<and>
    on_unavailable policy cl required alive num_retries = RetryDecision_return_error"
proof -
  have "on_read_timeout policy cl received required data_received num_retries = RetryDecision_return_error \<and>
    on_write_timeout policy cl received required write_type num_retries = RetryDecision_return_error \<and>
    on_unavailable policy cl required alive num_retries = RetryDecision_return_error"
    unfolding logging_transparent [of policy]
    by (rule unlogged_cases [of policy]) (use assms in \<open>simp_all add: retry_defs\<close>)
  then show ?thesis by (simp add: fun_eq_iff)
qed

theorem retries_at_most_once_witness:
  "on_read_timeout (LoggingRetryPolicy DefaultRetryPolicy) CASS_CONSISTENCY_ONE 1 1 False 1 =
     RetryDecision_return_error \<and>
   on_read_timeout (LoggingRetryPolicy DefaultRetryPolicy) CASS_CONSISTENCY_ONE 1 1 False 0 \<noteq>
     RetryDecision_return_error"
  using retries_at_most_once [of 1 "LoggingRetryPolicy DefaultRetryPolicy"] by (simp add: retry_defs)



end
