(* ===== verification/RequestHandler.thy ===== *)
theory RequestHandler
  imports Connection RetryPolicy Host
begin

text \<open>
  A request and its executions: \<open>request_handler.hpp\<close>, \<open>request_handler.cpp\<close>, \<open>speculative_execution.hpp\<close>,
  \<open>IOWorker::retry\<close> and \<open>IOWorker::on_execute\<close> of \<open>io_worker.cpp\<close>, \<open>Session::on_execute\<close>, and the callbacks that prepare a
  statement, set the keyspace and wait for schema agreement on behalf of an execution (\<open>pool.cpp\<close>,
  \<open>schema_change_callback.cpp\<close>).

  An execution is an index into the executions of its handler. The query plan is the list of the hosts it has yet to
  yield. What the pool of a host does with an execution is an argument of the operations, and a connection is
  represented by the host it leads to. Calls that leave the handler are written to a log; one of them, returning a
  connection to its pool, may serve a request that waits there, which is never another execution of the same handler
  when the hosts of its plan are distinct. A failed assertion and a call on a null pointer set a flag. For every execution the model notes what it waits for, its phase. Time stamps
  and messages are left out.
\<close>

subsection \<open>State\<close>

datatype request_failure =
  From_connection request_error | CASS_ERROR_LIB_BAD_PARAMS | CASS_ERROR_LIB_PARAMETER_UNSET
| CASS_ERROR_LIB_UNEXPECTED_RESPONSE | CASS_ERROR_LIB_NO_HOSTS_AVAILABLE | CASS_ERROR_LIB_UNABLE_TO_SET_KEYSPACE
| From_server i32

datatype 'addr future_result =
  Response_set host_ptr "'addr message_body" | Error_set "host_ptr option" request_failure "'addr message_body option"

datatype 'addr phase =
  Idle | Scheduled | Pending | In_flight | Setting_keyspace host_ptr | Preparing | Agreeing "'addr message_body" nat
| Exhausted

record 'addr execution =
  ex_state :: request_state
  ex_host :: "host_ptr option"
  ex_pool :: "host_ptr option"
  ex_connection :: "host_ptr option"
  ex_num_retries :: int
  ex_consistency :: cass_consistency
  ex_phase :: "'addr phase"

datatype speculative_plan = NoSpeculativeExecutionPlan | ConstantSpeculativeExecutionPlan int int

record request =
  rq_opcode :: u8
  rq_is_idempotent :: bool
  rq_consistency :: cass_consistency
  rq_timeout_ms :: nat
  rq_record_attempted_addresses :: bool
  rq_skip_metadata :: bool
  rq_result_metadata :: "column_definition list option"
  rq_prepared_ids :: "byte list list"

datatype handler_notice =
  Return_connection host_ptr host_ptr | Make_defunct "host_ptr option" | Attempted_address host_ptr
| Update_latency host_ptr | Keyspace_change "byte list" | Request_finished

record 'addr request_handler =
  rh_request :: request
  rh_retry_policy :: "retry_policy option"
  rh_plan :: "host_ptr list"
  rh_current_host :: "host_ptr option"
  rh_execution_plan :: speculative_plan
  rh_future :: "'addr future_result option"
  rh_executions :: "'addr execution list"
  rh_running :: int
  rh_io_worker :: bool
  rh_timer :: bool
  rh_log :: "handler_notice list"
  rh_assertion_failed :: bool

definition RequestHandler_new ::
    "request \<Rightarrow> retry_policy option \<Rightarrow> host_ptr list \<Rightarrow> speculative_plan \<Rightarrow> 'addr request_handler" where
  "RequestHandler_new request policy plan execution_plan =
     \<lparr>rh_request = request, rh_retry_policy = policy, rh_plan = plan, rh_current_host = None,
      rh_execution_plan = execution_plan, rh_future = None, rh_executions = [], rh_running = 0, rh_io_worker = False,
      rh_timer = False, rh_log = [], rh_assertion_failed = False\<rparr>"

abbreviation execution_at :: "'addr request_handler \<Rightarrow> nat \<Rightarrow> 'addr execution" where
  "execution_at h e \<equiv> rh_executions h ! e"

definition update_execution ::
    "nat \<Rightarrow> ('addr execution \<Rightarrow> 'addr execution) \<Rightarrow> 'addr request_handler \<Rightarrow> 'addr request_handler" where
  "update_execution e f h = h\<lparr>rh_executions := (rh_executions h)[e := f (execution_at h e)]\<rparr>"

abbreviation set_phase :: "nat \<Rightarrow> 'addr phase \<Rightarrow> 'addr request_handler \<Rightarrow> 'addr request_handler" where
  "set_phase e ph \<equiv> update_execution e (\<lambda>x. x\<lparr>ex_phase := ph\<rparr>)"

definition execution_set_state :: "nat \<Rightarrow> request_state \<Rightarrow> 'addr request_handler \<Rightarrow> 'addr request_handler" where
  "execution_set_state e s h =
     (case next_state (ex_state (execution_at h e)) s of
        Some s' \<Rightarrow> update_execution e (\<lambda>x. x\<lparr>ex_state := s'\<rparr>) h
      | None \<Rightarrow> h\<lparr>rh_assertion_failed := True\<rparr>)"

definition note_call :: "handler_notice \<Rightarrow> 'addr request_handler \<Rightarrow> 'addr request_handler" where
  "note_call n h = h\<lparr>rh_log := rh_log h @ [n]\<rparr>"

subsection \<open>The handler\<close>

definition add_execution :: "host_ptr option \<Rightarrow> 'addr request_handler \<Rightarrow> 'addr request_handler" where
  "add_execution host h =
     h\<lparr>rh_running := rh_running h + 1,
       rh_executions := rh_executions h @
         [\<lparr>ex_state = REQUEST_STATE_NEW, ex_host = host, ex_pool = None, ex_connection = None, ex_num_retries = 0,
           ex_consistency = CASS_CONSISTENCY_UNKNOWN, ex_phase = Idle\<rparr>]\<rparr>"

definition RequestHandler_next_host :: "'addr request_handler \<Rightarrow> 'addr request_handler" where
  "RequestHandler_next_host h =
     (case rh_plan h of
        [] \<Rightarrow> h\<lparr>rh_current_host := None\<rparr>
      | p # ps \<Rightarrow> h\<lparr>rh_current_host := Some p, rh_plan := ps\<rparr>)"

definition start_request :: "'addr request_handler \<Rightarrow> 'addr request_handler" where
  "start_request h = h\<lparr>rh_io_worker := True, rh_timer := rq_timeout_ms (rh_request h) > 0\<rparr>"

text \<open>\<open>RequestExecution::cancel\<close>; it stops the timer of an execution that is still to start.\<close>

definition cancel_execution :: "nat \<Rightarrow> 'addr request_handler \<Rightarrow> 'addr request_handler" where
  "cancel_execution e h =
     execution_set_state e REQUEST_STATE_CANCELLED
       (update_execution e (\<lambda>x. if ex_phase x = Scheduled then x\<lparr>ex_phase := Idle\<rparr> else x) h)"

definition stop_request :: "'addr request_handler \<Rightarrow> 'addr request_handler" where
  "stop_request h =
     (let h = fold cancel_execution [0 ..< length (rh_executions h)] (h\<lparr>rh_timer := False\<rparr>)
      in if rh_io_worker h then note_call Request_finished h else h)"

text \<open>The methods of \<open>ResponseFuture\<close> set it unless it is set and say whether they did.\<close>

definition future_set :: "'addr future_result \<Rightarrow> 'addr request_handler \<Rightarrow> bool \<times> 'addr request_handler" where
  "future_set r h = (case rh_future h of None \<Rightarrow> (True, h\<lparr>rh_future := Some r\<rparr>) | Some _ \<Rightarrow> (False, h))"

definition finish_with :: "'addr future_result \<Rightarrow> 'addr request_handler \<Rightarrow> 'addr request_handler" where
  "finish_with r h = (let (was_set, h) = future_set r h in if was_set then stop_request h else h)"

definition RequestHandler_set_response :: "host_ptr \<Rightarrow> 'addr message_body \<Rightarrow> 'addr request_handler \<Rightarrow> 'addr request_handler" where
  "RequestHandler_set_response host response = finish_with (Response_set host response)"

definition RequestHandler_set_error :: "request_failure \<Rightarrow> 'addr request_handler \<Rightarrow> 'addr request_handler" where
  "RequestHandler_set_error code = finish_with (Error_set None code None)"

definition RequestHandler_set_error_on_host ::
    "host_ptr option \<Rightarrow> request_failure \<Rightarrow> 'addr request_handler \<Rightarrow> 'addr request_handler" where
  "RequestHandler_set_error_on_host host code h =
     (let h = (if code = CASS_ERROR_LIB_NO_HOSTS_AVAILABLE then h\<lparr>rh_running := rh_running h - 1\<rparr> else h)
      in if code = CASS_ERROR_LIB_NO_HOSTS_AVAILABLE \<and> rh_running h > 0 then h
         else case host of
                Some p \<Rightarrow> finish_with (Error_set (Some p) code None) h
              | None \<Rightarrow> RequestHandler_set_error code h)"

definition RequestHandler_set_error_with_error_response ::
    "host_ptr \<Rightarrow> 'addr message_body \<Rightarrow> request_failure \<Rightarrow> 'addr request_handler \<Rightarrow> 'addr request_handler" where
  "RequestHandler_set_error_with_error_response host error code = finish_with (Error_set (Some host) code (Some error))"

definition RequestHandler_on_timeout :: "'addr request_handler \<Rightarrow> 'addr request_handler" where
  "RequestHandler_on_timeout h =
     RequestHandler_set_error (From_connection CASS_ERROR_LIB_REQUEST_TIMED_OUT) (h\<lparr>rh_timer := False\<rparr>)"

subsection \<open>Executions\<close>

definition execution_next_host :: "nat \<Rightarrow> 'addr request_handler \<Rightarrow> 'addr request_handler" where
  "execution_next_host e h =
     (let h = RequestHandler_next_host h in update_execution e (\<lambda>x. x\<lparr>ex_host := rh_current_host h\<rparr>) h)"

definition return_connection :: "nat \<Rightarrow> 'addr request_handler \<Rightarrow> 'addr request_handler" where
  "return_connection e h =
     (case (ex_pool (execution_at h e), ex_connection (execution_at h e)) of
        (Some pool, Some connection) \<Rightarrow> note_call (Return_connection pool connection) h
      | _ \<Rightarrow> h)"

definition execution_set_response :: "nat \<Rightarrow> 'addr message_body \<Rightarrow> 'addr request_handler \<Rightarrow> 'addr request_handler" where
  "execution_set_response e response h =
     (case ex_host (execution_at h e) of
        Some host \<Rightarrow> RequestHandler_set_response host response h
      | None \<Rightarrow> h\<lparr>rh_assertion_failed := True\<rparr>)"

definition execution_set_error :: "nat \<Rightarrow> request_failure \<Rightarrow> 'addr request_handler \<Rightarrow> 'addr request_handler" where
  "execution_set_error e code h = RequestHandler_set_error_on_host (ex_host (execution_at h e)) code h"

definition execution_set_error_with_error_response ::
    "nat \<Rightarrow> 'addr message_body \<Rightarrow> request_failure \<Rightarrow> 'addr request_handler \<Rightarrow> 'addr request_handler" where
  "execution_set_error_with_error_response e error code h =
     (case ex_host (execution_at h e) of
        Some host \<Rightarrow> RequestHandler_set_error_with_error_response host error code h
      | None \<Rightarrow> h\<lparr>rh_assertion_failed := True\<rparr>)"

text \<open>\<open>on_error\<close> for an error that is not one of the two that are retried.\<close>

definition on_unrecoverable_error :: "nat \<Rightarrow> request_failure \<Rightarrow> 'addr request_handler \<Rightarrow> 'addr request_handler" where
  "on_unrecoverable_error e code h = execution_set_error e code (return_connection e h)"

definition on_start :: "nat \<Rightarrow> 'addr request_handler \<Rightarrow> 'addr request_handler" where
  "on_start e h =
     (case ex_host (execution_at h e) of
        Some p \<Rightarrow> if rq_record_attempted_addresses (rh_request h) then note_call (Attempted_address p) h else h
      | None \<Rightarrow> h\<lparr>rh_assertion_failed := True\<rparr>)"

definition execution_start :: "host_ptr \<Rightarrow> nat \<Rightarrow> 'addr request_handler \<Rightarrow> 'addr request_handler" where
  "execution_start connection e h = on_start e (update_execution e (\<lambda>x. x\<lparr>ex_connection := Some connection\<rparr>) h)"

text \<open>What a connection does with a request: whether it uses the keyspace of the session, whether a stream id is left,
  and why the request can not be encoded.\<close>

datatype encode_error = Unsupported | Batch_with_named_values | Parameter_unset

primrec encode_error_code :: "encode_error \<Rightarrow> request_failure" where
  "encode_error_code Unsupported = From_connection CASS_ERROR_LIB_MESSAGE_ENCODE"
| "encode_error_code Batch_with_named_values = CASS_ERROR_LIB_BAD_PARAMS"
| "encode_error_code Parameter_unset = CASS_ERROR_LIB_PARAMETER_UNSET"

record write_answer =
  wa_same_keyspace :: bool
  wa_stream :: bool
  wa_encode_error :: "encode_error option"

definition write_execution ::
    "write_answer \<Rightarrow> host_ptr \<Rightarrow> nat \<Rightarrow> 'addr request_handler \<Rightarrow> bool \<times> 'addr request_handler" where
  "write_execution w connection e h =
     (if ex_state (execution_at h e) = REQUEST_STATE_CANCELLED then (True, h)
      else if \<not> wa_stream w then (False, h)
      else let h = execution_start connection e h
           in case wa_encode_error w of
                Some error \<Rightarrow> (True, on_unrecoverable_error e (encode_error_code error) h)
              | None \<Rightarrow> (True, set_phase e In_flight (execution_set_state e REQUEST_STATE_WRITING h)))"

definition Pool_write ::
    "write_answer \<Rightarrow> host_ptr \<Rightarrow> host_ptr \<Rightarrow> nat \<Rightarrow> 'addr request_handler \<Rightarrow> bool \<times> 'addr request_handler" where
  "Pool_write w pool connection e h =
     (let h = update_execution e (\<lambda>x. x\<lparr>ex_pool := Some pool\<rparr>) h
      in if wa_same_keyspace w then write_execution w connection e h
         else if wa_stream w then (True, set_phase e (Setting_keyspace connection) h)
         else (False, h))"

definition wait_for_connection :: "host_ptr \<Rightarrow> nat \<Rightarrow> 'addr request_handler \<Rightarrow> 'addr request_handler" where
  "wait_for_connection pool e h =
     (if ex_state (execution_at h e) = REQUEST_STATE_CANCELLED then h
      else update_execution e (\<lambda>x. x\<lparr>ex_pool := Some pool, ex_phase := Pending\<rparr>) h)"

text \<open>What the pool of a host answers: there is none or it is not ready, all of its connections are busy, or it has
  a connection for the execution. The answer may depend on the length of the plan that is left, and so differ
  between attempts. An execution that is not one of the handler has no host.\<close>

datatype pool_answer = Not_ready | Busy | Borrowed write_answer

type_synonym pools = "nat \<Rightarrow> host_ptr \<Rightarrow> pool_answer"

definition host_of :: "'addr request_handler \<Rightarrow> nat \<Rightarrow> host_ptr option" where
  "host_of h e = (if e < length (rh_executions h) then ex_host (execution_at h e) else None)"

definition give_up :: "nat \<Rightarrow> 'addr request_handler \<Rightarrow> 'addr request_handler" where
  "give_up e h = on_unrecoverable_error e CASS_ERROR_LIB_NO_HOSTS_AVAILABLE (set_phase e Exhausted h)"

definition hosts_left :: "nat \<Rightarrow> 'addr request_handler \<Rightarrow> nat" where
  "hosts_left e h = length (rh_plan h) + (if host_of h e = None then 0 else 1)"

lemma update_execution_simps [simp]:
  "rh_plan (update_execution e f h) = rh_plan h"
  "rh_current_host (update_execution e f h) = rh_current_host h"
  "rh_execution_plan (update_execution e f h) = rh_execution_plan h"
  "rh_future (update_execution e f h) = rh_future h"
  "rh_request (update_execution e f h) = rh_request h"
  "rh_retry_policy (update_execution e f h) = rh_retry_policy h"
  "rh_running (update_execution e f h) = rh_running h"
  "rh_io_worker (update_execution e f h) = rh_io_worker h"
  "rh_timer (update_execution e f h) = rh_timer h"
  "rh_log (update_execution e f h) = rh_log h"
  "rh_assertion_failed (update_execution e f h) = rh_assertion_failed h"
  "rh_executions (update_execution e f h) = (rh_executions h)[e := f (execution_at h e)]"
  by (simp_all add: update_execution_def)

lemma hosts_left_next_host: "host_of h e \<noteq> None \<Longrightarrow> hosts_left e (execution_next_host e h) < hosts_left e h"
  by (auto simp: hosts_left_def host_of_def execution_next_host_def RequestHandler_next_host_def
      split: list.split if_splits)

lemma write_execution_False: "write_execution w q e h = (False, h') \<Longrightarrow> h' = h"
  by (auto simp: write_execution_def Let_def split: if_splits option.splits)

lemma Pool_write_False: "Pool_write w p q e h = (False, h') \<Longrightarrow> h' = update_execution e (\<lambda>x. x\<lparr>ex_pool := Some p\<rparr>) h"
  by (auto simp: Pool_write_def Let_def dest: write_execution_False split: if_splits)

lemma hosts_left_pool [simp]: "hosts_left e (update_execution e (\<lambda>x. x\<lparr>ex_pool := Some p\<rparr>) h) = hosts_left e h"
  "host_of (update_execution e (\<lambda>x. x\<lparr>ex_pool := Some p\<rparr>) h) e = host_of h e"
  by (simp_all add: hosts_left_def host_of_def)

function IOWorker_retry :: "pools \<Rightarrow> nat \<Rightarrow> 'addr request_handler \<Rightarrow> 'addr request_handler" where
  "IOWorker_retry pools e h =
     (case host_of h e of
        None \<Rightarrow> give_up e h
      | Some p \<Rightarrow>
          (case pools (length (rh_plan h)) p of
             Not_ready \<Rightarrow> IOWorker_retry pools e (execution_next_host e h)
           | Busy \<Rightarrow> wait_for_connection p e h
           | Borrowed w \<Rightarrow>
               (case Pool_write w p p e h of
                  (True, h') \<Rightarrow> h'
                | (False, h') \<Rightarrow> IOWorker_retry pools e (execution_next_host e h'))))"
  by pat_completeness auto
termination
proof (relation "measure (\<lambda>(pools, e, h). hosts_left e h)", goal_cases)
  case 1
  show ?case by simp
next
  case (2 pools e h p)
  then show ?case by (simp add: hosts_left_next_host)
next
  case (3 pools e h p w was_written h')
  then have "h' = update_execution e (\<lambda>x. x\<lparr>ex_pool := Some p\<rparr>) h"
    by (auto intro: Pool_write_False)
  with 3 show ?case using hosts_left_next_host [of h' e] by simp
qed

declare IOWorker_retry.simps [simp del]

definition execution_retry_current_host :: "pools \<Rightarrow> nat \<Rightarrow> 'addr request_handler \<Rightarrow> 'addr request_handler" where
  "execution_retry_current_host pools e h =
     (if ex_state (execution_at h e) = REQUEST_STATE_CANCELLED then h
      else IOWorker_retry pools e
             (update_execution e (\<lambda>x. x\<lparr>ex_pool := None\<rparr>) (execution_set_state e REQUEST_STATE_NEW h)))"

definition execution_retry_next_host :: "pools \<Rightarrow> nat \<Rightarrow> 'addr request_handler \<Rightarrow> 'addr request_handler" where
  "execution_retry_next_host pools e h = execution_retry_current_host pools e (execution_next_host e h)"

definition execution_on_error :: "pools \<Rightarrow> nat \<Rightarrow> request_failure \<Rightarrow> 'addr request_handler \<Rightarrow> 'addr request_handler" where
  "execution_on_error pools e code h =
     (if code = From_connection CASS_ERROR_LIB_WRITE_ERROR \<or> code = CASS_ERROR_LIB_UNABLE_TO_SET_KEYSPACE
      then execution_retry_next_host pools e (return_connection e h)
      else on_unrecoverable_error e code h)"

definition execution_on_retry :: "pools \<Rightarrow> nat \<Rightarrow> bool \<Rightarrow> 'addr request_handler \<Rightarrow> 'addr request_handler" where
  "execution_on_retry pools e use_next_host h =
     (let h = return_connection e h
      in if use_next_host then execution_retry_next_host pools e h else execution_retry_current_host pools e h)"

definition execution_on_cancel :: "nat \<Rightarrow> 'addr request_handler \<Rightarrow> 'addr request_handler" where
  "execution_on_cancel e h = return_connection e h"

subsection \<open>Speculative executions\<close>

fun next_execution :: "speculative_plan \<Rightarrow> int \<times> speculative_plan" where
  "next_execution NoSpeculativeExecutionPlan = (-1, NoSpeculativeExecutionPlan)"
| "next_execution (ConstantSpeculativeExecutionPlan constant_delay_ms count) =
     (if count - 1 \<ge> 0 then constant_delay_ms else -1, ConstantSpeculativeExecutionPlan constant_delay_ms (count - 1))"

fun executions_left :: "speculative_plan \<Rightarrow> nat" where
  "executions_left NoSpeculativeExecutionPlan = 0"
| "executions_left (ConstantSpeculativeExecutionPlan constant_delay_ms count) = nat count"

lemma next_execution_less: "next_execution plan = (t, plan') \<Longrightarrow> t \<ge> 0 \<Longrightarrow> executions_left plan' < executions_left plan"
  by (cases plan) (auto split: if_splits)

lemma next_host_keeps [simp]:
  "rh_execution_plan (execution_next_host e h) = rh_execution_plan h"
  "length (rh_executions (execution_next_host e h)) = length (rh_executions h)"
  by (simp_all add: execution_next_host_def RequestHandler_next_host_def split: list.split)

text \<open>\<open>schedule_next_execution\<close>, \<open>schedule_next\<close> and \<open>execute\<close> call each other: with a delay of zero all the
  executions are made before the first one is written.\<close>

function execute :: "pools \<Rightarrow> nat \<Rightarrow> 'addr request_handler \<Rightarrow> 'addr request_handler" where
  "execute pools e h =
     IOWorker_retry pools e
       (if \<not> rq_is_idempotent (rh_request h) then h
        else let (timeout, plan) = next_execution (rh_execution_plan h);
                 h = h\<lparr>rh_execution_plan := plan\<rparr>;
                 e' = length (rh_executions h)
             in if timeout < 0 then h
                else if timeout > 0 then set_phase e' Scheduled (add_execution None h)
                else execute pools e' (execution_next_host e' (add_execution None h)))"
  by pat_completeness auto
termination
  by (relation "measure (\<lambda>(pools, e, h). executions_left (rh_execution_plan h))")
     (auto simp: add_execution_def dest!: next_execution_less [OF sym])

declare execute.simps [simp del]

text \<open>\<open>RequestExecution::on_execute\<close>, the timer of a scheduled execution.\<close>

definition on_execute :: "pools \<Rightarrow> nat \<Rightarrow> 'addr request_handler \<Rightarrow> 'addr request_handler" where
  "on_execute pools e h = execute pools e (execution_next_host e (set_phase e Idle h))"

text \<open>What \<open>IOWorker::on_execute\<close> does with a request it takes from its queue.\<close>

definition begin_request :: "pools \<Rightarrow> 'addr request_handler \<Rightarrow> 'addr request_handler" where
  "begin_request pools h =
     (let h = start_request h
      in execute pools (length (rh_executions h)) (add_execution (rh_current_host h) h))"

text \<open>What \<open>Session::on_execute\<close> does with a request: it is queued at an I/O worker for the first host of the plan that
  one of them accepts.\<close>

function choose_host :: "(nat \<Rightarrow> host_ptr \<Rightarrow> bool) \<Rightarrow> 'addr request_handler \<Rightarrow> bool \<times> 'addr request_handler" where
  "choose_host accepts h =
     (let h' = RequestHandler_next_host h
      in case rh_current_host h' of
           None \<Rightarrow> (False, RequestHandler_set_error CASS_ERROR_LIB_NO_HOSTS_AVAILABLE h')
         | Some p \<Rightarrow> if accepts (length (rh_plan h')) p then (True, h') else choose_host accepts h')"
  by pat_completeness auto
termination
  by (relation "measure (\<lambda>(accepts, h). length (rh_plan h))")
     (auto simp: RequestHandler_next_host_def split: list.splits)

declare choose_host.simps [simp del]

subsection \<open>Responses\<close>

text \<open>\<open>static_cast<CassConsistency>\<close>; a code that is not one of a level is taken as unknown.\<close>

definition consistency_of :: "u16 \<Rightarrow> cass_consistency" where
  "consistency_of code =
     (let levels = [CASS_CONSISTENCY_ANY, CASS_CONSISTENCY_ONE, CASS_CONSISTENCY_TWO, CASS_CONSISTENCY_THREE,
                    CASS_CONSISTENCY_QUORUM, CASS_CONSISTENCY_ALL, CASS_CONSISTENCY_LOCAL_QUORUM,
                    CASS_CONSISTENCY_EACH_QUORUM, CASS_CONSISTENCY_SERIAL, CASS_CONSISTENCY_LOCAL_SERIAL,
                    CASS_CONSISTENCY_LOCAL_ONE]
      in if unat code < length levels then levels ! unat code else CASS_CONSISTENCY_UNKNOWN)"

abbreviation CQL_OPCODE_EXECUTE :: u8 where "CQL_OPCODE_EXECUTE \<equiv> 0x0A"
abbreviation CQL_OPCODE_BATCH :: u8 where "CQL_OPCODE_BATCH \<equiv> 0x0D"

abbreviation CQL_ERROR_SERVER_ERROR :: i32 where "CQL_ERROR_SERVER_ERROR \<equiv> 0x0000"
abbreviation CQL_ERROR_OVERLOADED :: i32 where "CQL_ERROR_OVERLOADED \<equiv> 0x1001"
abbreviation CQL_ERROR_IS_BOOTSTRAPPING :: i32 where "CQL_ERROR_IS_BOOTSTRAPPING \<equiv> 0x1002"

definition connection_defunct :: "nat \<Rightarrow> 'addr request_handler \<Rightarrow> 'addr request_handler" where
  "connection_defunct e h = note_call (Make_defunct (ex_connection (execution_at h e))) h"

definition execution_on_result_response ::
    "pools \<Rightarrow> nat \<Rightarrow> 'addr message_body \<Rightarrow> result_response \<Rightarrow> 'addr request_handler \<Rightarrow> 'addr request_handler" where
  "execution_on_result_response pools e m result h =
     (if rr_kind result = CASS_RESULT_KIND_ROWS
      then let h = (case ex_host (execution_at h e) of Some p \<Rightarrow> note_call (Update_latency p) h | None \<Rightarrow> h)
           in if rq_opcode (rh_request h) = CQL_OPCODE_EXECUTE \<and> rr_metadata result = None
              then if \<not> rq_skip_metadata (rh_request h) then execution_on_error pools e CASS_ERROR_LIB_UNEXPECTED_RESPONSE h
                   else execution_set_response e
                          (m\<lparr>mb_body := ResultBody (result\<lparr>rr_metadata := rq_result_metadata (rh_request h)\<rparr>)\<rparr>) h
              else execution_set_response e m h
      else if rr_kind result = CASS_RESULT_KIND_SCHEMA_CHANGE then set_phase e (Agreeing m 0) h
      else if rr_kind result = CASS_RESULT_KIND_SET_KEYSPACE
      then execution_set_response e m (note_call (Keyspace_change (rr_keyspace result)) h)
      else execution_set_response e m h)"

text \<open>The answer to an error that says a statement is not prepared; the last argument but two says whether the
  connection has a stream id for the request that prepares it.\<close>

definition on_error_unprepared ::
    "pools \<Rightarrow> nat \<Rightarrow> bool \<Rightarrow> error_response \<Rightarrow> 'addr request_handler \<Rightarrow> 'addr request_handler" where
  "on_error_unprepared pools e stream error h =
     (if rq_opcode (rh_request h) = CQL_OPCODE_BATCH \<and> er_prepared_id error \<notin> set (rq_prepared_ids (rh_request h))
      then execution_set_error e CASS_ERROR_LIB_UNEXPECTED_RESPONSE h
      else if rq_opcode (rh_request h) = CQL_OPCODE_EXECUTE \<or> rq_opcode (rh_request h) = CQL_OPCODE_BATCH
      then if stream then set_phase e Preparing h else execution_retry_current_host pools e h
      else execution_set_error e CASS_ERROR_LIB_UNEXPECTED_RESPONSE (connection_defunct e h))"

text \<open>A handler may have no retry policy, and calls it all the same.\<close>

definition error_decision :: "retry_policy option \<Rightarrow> request \<Rightarrow> int \<Rightarrow> error_response \<Rightarrow> retry_decision option" where
  "error_decision policy request num_retries error =
     (let code = er_code error; cl = consistency_of (er_cl error);
          received = sint (er_received error); required = sint (er_required error)
      in if code = CQL_ERROR_READ_TIMEOUT
         then map_option (\<lambda>p. on_read_timeout p cl received required (er_data_present error > 0) num_retries) policy
         else if code = CQL_ERROR_WRITE_TIMEOUT \<and> rq_is_idempotent request
         then map_option (\<lambda>p. on_write_timeout p cl received required (er_write_type error) num_retries) policy
         else if code = CQL_ERROR_UNAVAILABLE
         then map_option (\<lambda>p. on_unavailable p cl required received num_retries) policy
         else if (code = CQL_ERROR_OVERLOADED \<or> code = CQL_ERROR_SERVER_ERROR) \<and> rq_is_idempotent request
         then map_option (\<lambda>p. on_request_error p (rq_consistency request) num_retries) policy
         else Some RetryDecision_return_error)"

definition apply_decision ::
    "pools \<Rightarrow> nat \<Rightarrow> 'addr message_body \<Rightarrow> error_response \<Rightarrow> retry_decision \<Rightarrow> 'addr request_handler \<Rightarrow> 'addr request_handler" where
  "apply_decision pools e m error decision h =
     (case decision_type decision of
        RETURN_ERROR \<Rightarrow> execution_set_error_with_error_response e m (From_server (er_code error)) h
      | RETRY \<Rightarrow>
          (let h = update_execution e (\<lambda>x. x\<lparr>ex_consistency := retry_cl decision\<rparr>) h;
               h = (if retry_current_host decision then execution_retry_current_host pools e h
                    else execution_retry_next_host pools e h)
           in update_execution e (\<lambda>x. x\<lparr>ex_num_retries := ex_num_retries x + 1\<rparr>) h)
      | IGNORE \<Rightarrow> execution_set_response e \<lparr>mb_warnings = [], mb_payload = [], mb_body = ResultBody ResultResponse_new\<rparr> h)"

definition execution_on_error_response ::
    "pools \<Rightarrow> nat \<Rightarrow> bool \<Rightarrow> 'addr message_body \<Rightarrow> error_response \<Rightarrow> 'addr request_handler \<Rightarrow> 'addr request_handler" where
  "execution_on_error_response pools e stream m error h =
     (if er_code error = CQL_ERROR_IS_BOOTSTRAPPING then execution_retry_next_host pools e h
      else if er_code error = CQL_ERROR_UNPREPARED then on_error_unprepared pools e stream error h
      else let h = (if er_code error = CQL_ERROR_SERVER_ERROR then connection_defunct e h else h)
           in case error_decision (rh_retry_policy h) (rh_request h) (ex_num_retries (execution_at h e)) error of
                Some decision \<Rightarrow> apply_decision pools e m error decision h
              | None \<Rightarrow> h\<lparr>rh_assertion_failed := True\<rparr>)"

definition execution_on_set ::
    "pools \<Rightarrow> nat \<Rightarrow> bool \<Rightarrow> 'addr message_body \<Rightarrow> 'addr request_handler \<Rightarrow> 'addr request_handler" where
  "execution_on_set pools e stream m h =
     (if ex_connection (execution_at h e) = None \<or> ex_host (execution_at h e) = None
      then h\<lparr>rh_assertion_failed := True\<rparr>
      else let h = return_connection e h
           in case mb_body m of
                ResultBody result \<Rightarrow> execution_on_result_response pools e m result h
              | ErrorBody error \<Rightarrow> execution_on_error_response pools e stream m error h
              | _ \<Rightarrow> execution_set_error e CASS_ERROR_LIB_UNEXPECTED_RESPONSE (connection_defunct e h))"

subsection \<open>Callbacks on behalf of an execution\<close>

text \<open>\<open>SetKeyspaceCallback\<close>, on the connection it was written to, and \<open>PrepareCallback\<close>. Neither does anything with a
  response that is neither a result nor an error.\<close>

definition defunct_connection :: "host_ptr \<Rightarrow> 'addr request_handler \<Rightarrow> 'addr request_handler" where
  "defunct_connection connection h = note_call (Make_defunct (Some connection)) h"

definition SetKeyspaceCallback_on_set ::
    "pools \<Rightarrow> write_answer \<Rightarrow> host_ptr \<Rightarrow> nat \<Rightarrow> 'addr message_body \<Rightarrow> 'addr request_handler \<Rightarrow> 'addr request_handler" where
  "SetKeyspaceCallback_on_set pools w connection e m h =
     (case mb_body m of
        ResultBody result \<Rightarrow>
          if rr_kind result = CASS_RESULT_KIND_SET_KEYSPACE
          then let (written, h) = write_execution w connection e h
               in if written then h else execution_retry_current_host pools e h
          else execution_on_error pools e CASS_ERROR_LIB_UNABLE_TO_SET_KEYSPACE (defunct_connection connection h)
      | ErrorBody error \<Rightarrow>
          execution_on_error pools e CASS_ERROR_LIB_UNABLE_TO_SET_KEYSPACE (defunct_connection connection h)
      | _ \<Rightarrow> h)"

definition SetKeyspaceCallback_on_internal_error ::
    "pools \<Rightarrow> host_ptr \<Rightarrow> nat \<Rightarrow> 'addr request_handler \<Rightarrow> 'addr request_handler" where
  "SetKeyspaceCallback_on_internal_error pools connection e h =
     execution_on_error pools e CASS_ERROR_LIB_UNABLE_TO_SET_KEYSPACE (defunct_connection connection h)"

definition SetKeyspaceCallback_on_internal_timeout :: "pools \<Rightarrow> nat \<Rightarrow> 'addr request_handler \<Rightarrow> 'addr request_handler" where
  "SetKeyspaceCallback_on_internal_timeout pools e h = execution_retry_next_host pools e h"

definition PrepareCallback_on_set :: "pools \<Rightarrow> nat \<Rightarrow> 'addr message_body \<Rightarrow> 'addr request_handler \<Rightarrow> 'addr request_handler" where
  "PrepareCallback_on_set pools e m h =
     (case mb_body m of
        ResultBody result \<Rightarrow>
          if rr_kind result = CASS_RESULT_KIND_PREPARED then execution_retry_current_host pools e h
          else execution_retry_next_host pools e h
      | ErrorBody error \<Rightarrow> execution_retry_next_host pools e h
      | _ \<Rightarrow> h)"

definition PrepareCallback_on_internal_error :: "pools \<Rightarrow> nat \<Rightarrow> 'addr request_handler \<Rightarrow> 'addr request_handler" where
  "PrepareCallback_on_internal_error pools e h = execution_retry_next_host pools e h"

definition PrepareCallback_on_internal_timeout :: "pools \<Rightarrow> nat \<Rightarrow> 'addr request_handler \<Rightarrow> 'addr request_handler" where
  "PrepareCallback_on_internal_timeout pools e h = execution_retry_next_host pools e h"

text \<open>\<open>SchemaChangeCallback\<close>: whether the hosts agree, and the time since the last attempt, are arguments. When they
  do not agree the attempt is repeated until ten seconds have passed.\<close>

abbreviation MAX_SCHEMA_AGREEMENT_WAIT_MS :: nat where "MAX_SCHEMA_AGREEMENT_WAIT_MS \<equiv> 10000"

definition SchemaChangeCallback_on_set ::
    "nat \<Rightarrow> 'addr message_body \<Rightarrow> nat \<Rightarrow> bool \<Rightarrow> nat \<Rightarrow> 'addr request_handler \<Rightarrow> 'addr request_handler" where
  "SchemaChangeCallback_on_set e m elapsed_ms has_agreement passed_ms h =
     (if ex_state (execution_at h e) = REQUEST_STATE_CANCELLED then h
      else if has_agreement \<or> elapsed_ms + passed_ms \<ge> MAX_SCHEMA_AGREEMENT_WAIT_MS then execution_set_response e m h
      else set_phase e (Agreeing m (elapsed_ms + passed_ms)) h)"

text \<open>\<open>on_error\<close>, \<open>on_timeout\<close> and \<open>on_closing\<close> of the callback.\<close>

definition SchemaChangeCallback_on_failure :: "nat \<Rightarrow> 'addr message_body \<Rightarrow> 'addr request_handler \<Rightarrow> 'addr request_handler" where
  "SchemaChangeCallback_on_failure e m h = execution_set_response e m h"

text \<open>What a pool does with an execution that waits for a connection: \<open>Pool::return_connection\<close> when it has one, and
  \<open>Pool::on_pending_request_timeout\<close> or \<open>Pool::~Pool\<close> when it gives up.\<close>

definition Pool_serve :: "pools \<Rightarrow> write_answer \<Rightarrow> host_ptr \<Rightarrow> host_ptr \<Rightarrow> nat \<Rightarrow> 'addr request_handler \<Rightarrow> 'addr request_handler" where
  "Pool_serve pools w pool connection e h =
     (let (written, h) = Pool_write w pool connection e h
      in if written then h else execution_retry_next_host pools e h)"

definition Pool_drop :: "pools \<Rightarrow> nat \<Rightarrow> 'addr request_handler \<Rightarrow> 'addr request_handler" where
  "Pool_drop pools e h = execution_retry_next_host pools e h"

subsection \<open>Runs\<close>

definition is_reply :: "'addr message_body \<Rightarrow> bool" where
  "is_reply m = (case mb_body m of ResultBody _ \<Rightarrow> True | ErrorBody _ \<Rightarrow> True | _ \<Rightarrow> False)"

text \<open>What an execution waits for happens: its phase is over.\<close>

definition waits :: "'addr request_handler \<Rightarrow> nat \<Rightarrow> 'addr phase \<Rightarrow> bool" where
  "waits h e ph \<longleftrightarrow> e < length (rh_executions h) \<and> ex_phase (execution_at h e) = ph"

abbreviation resume :: "nat \<Rightarrow> 'addr request_handler \<Rightarrow> 'addr request_handler" where
  "resume e \<equiv> set_phase e Idle"

text \<open>A request that is in flight on a connection, as the theory \<open>Connection\<close> has it: it is written, and a response may come
  before that is known; it ends with a call of \<open>on_set\<close>, \<open>on_error\<close>, \<open>on_retry\<close> or \<open>on_cancel\<close>.\<close>

inductive connection_moves :: "request_state \<Rightarrow> request_state \<Rightarrow> bool" where
  "connection_moves REQUEST_STATE_WRITING REQUEST_STATE_READING"
| "connection_moves REQUEST_STATE_WRITING REQUEST_STATE_READ_BEFORE_WRITE"
| "connection_moves REQUEST_STATE_CANCELLED_WRITING REQUEST_STATE_CANCELLED_READING"
| "connection_moves REQUEST_STATE_CANCELLED_WRITING REQUEST_STATE_CANCELLED_READ_BEFORE_WRITE"

definition finish_execution :: "request_state \<Rightarrow> nat \<Rightarrow> 'addr request_handler \<Rightarrow> 'addr request_handler" where
  "finish_execution s e h = resume e (execution_set_state e s h)"

definition live_states :: "request_state set" where
  "live_states = {REQUEST_STATE_WRITING, REQUEST_STATE_READING, REQUEST_STATE_READ_BEFORE_WRITE}"

definition cancelled_states :: "request_state set" where
  "cancelled_states =
     {REQUEST_STATE_CANCELLED_WRITING, REQUEST_STATE_CANCELLED_READING, REQUEST_STATE_CANCELLED_READ_BEFORE_WRITE}"

inductive handler_step :: "'addr request_handler \<Rightarrow> 'addr request_handler \<Rightarrow> bool" where
  timeout: "rh_timer h \<Longrightarrow> handler_step h (RequestHandler_on_timeout h)"
| scheduled: "waits h e Scheduled \<Longrightarrow> handler_step h (on_execute pools e h)"
| served: "waits h e Pending \<Longrightarrow> ex_pool (execution_at h e) = Some pool \<Longrightarrow>
    handler_step h (Pool_serve pools w pool connection e (resume e h))"
| dropped: "waits h e Pending \<Longrightarrow> handler_step h (Pool_drop pools e (resume e h))"
| moved: "waits h e In_flight \<Longrightarrow> connection_moves (ex_state (execution_at h e)) s \<Longrightarrow>
    handler_step h (execution_set_state e s h)"
| responded: "waits h e In_flight \<Longrightarrow> ex_state (execution_at h e) \<in> {REQUEST_STATE_READING, REQUEST_STATE_READ_BEFORE_WRITE} \<Longrightarrow>
    handler_step h (execution_on_set pools e stream m (finish_execution REQUEST_STATE_FINISHED e h))"
| write_error: "waits h e In_flight \<Longrightarrow> ex_state (execution_at h e) = REQUEST_STATE_WRITING \<Longrightarrow>
    handler_step h (execution_on_error pools e (From_connection CASS_ERROR_LIB_WRITE_ERROR)
      (finish_execution REQUEST_STATE_FINISHED e h))"
| closed: "waits h e In_flight \<Longrightarrow> ex_state (execution_at h e) \<in> {REQUEST_STATE_WRITING, REQUEST_STATE_READING} \<Longrightarrow>
    handler_step h
      (if rq_is_idempotent (rh_request h) then execution_on_retry pools e True (finish_execution REQUEST_STATE_FINISHED e h)
       else execution_on_error pools e (From_connection CASS_ERROR_LIB_REQUEST_TIMED_OUT)
              (finish_execution REQUEST_STATE_FINISHED e h))"
| cancelled: "waits h e In_flight \<Longrightarrow> ex_state (execution_at h e) \<in> cancelled_states \<Longrightarrow>
    handler_step h (execution_on_cancel e (finish_execution REQUEST_STATE_CANCELLED e h))"
| keyspace_reply: "waits h e (Setting_keyspace connection) \<Longrightarrow> is_reply m \<Longrightarrow>
    handler_step h (SetKeyspaceCallback_on_set pools w connection e m (resume e h))"
| keyspace_error: "waits h e (Setting_keyspace connection) \<Longrightarrow>
    handler_step h (SetKeyspaceCallback_on_internal_error pools connection e (resume e h))"
| keyspace_timeout: "waits h e (Setting_keyspace connection) \<Longrightarrow>
    handler_step h (SetKeyspaceCallback_on_internal_timeout pools e (resume e h))"
| prepare_reply: "waits h e Preparing \<Longrightarrow> is_reply m \<Longrightarrow>
    handler_step h (PrepareCallback_on_set pools e m (resume e h))"
| prepare_error: "waits h e Preparing \<Longrightarrow> handler_step h (PrepareCallback_on_internal_error pools e (resume e h))"
| prepare_timeout: "waits h e Preparing \<Longrightarrow> handler_step h (PrepareCallback_on_internal_timeout pools e (resume e h))"
| agreement: "waits h e (Agreeing m elapsed) \<Longrightarrow>
    handler_step h (SchemaChangeCallback_on_set e m elapsed agreed passed (resume e h))"
| agreement_failure: "waits h e (Agreeing m elapsed) \<Longrightarrow>
    handler_step h (SchemaChangeCallback_on_failure e m (resume e h))"

inductive handler_run :: "request \<Rightarrow> host_ptr list \<Rightarrow> 'addr request_handler \<Rightarrow> bool" for request plan where
  refused: "choose_host accepts (RequestHandler_new request (Some policy) plan execution_plan) = (False, h) \<Longrightarrow>
    handler_run request plan h"
| begun: "choose_host accepts (RequestHandler_new request (Some policy) plan execution_plan) = (True, h) \<Longrightarrow>
    handler_run request plan (begin_request pools h)"
| step: "handler_run request plan h \<Longrightarrow> handler_step h h' \<Longrightarrow> handler_run request plan h'"

end
