(* ===== verification/RequestRuns.thy ===== *)
theory RequestRuns
  imports RequestHandler
begin

text \<open>
  What holds in every run of a request.
\<close>

subsection \<open>The invariant\<close>

text \<open>An execution between two steps, before and after the future is set, and an execution whose code is running.\<close>

definition settled :: "bool \<Rightarrow> 'addr execution \<Rightarrow> bool" where
  "settled fin x \<longleftrightarrow>
     (if fin
      then ex_phase x \<noteq> Scheduled \<and>
           ex_state x \<in> (if ex_phase x = In_flight then cancelled_states else {REQUEST_STATE_CANCELLED}) \<and>
           (ex_phase x \<notin> {Idle, Exhausted} \<longrightarrow> ex_host x \<noteq> None)
      else case ex_phase x of
             Idle \<Rightarrow> False
           | Scheduled \<Rightarrow> ex_state x = REQUEST_STATE_NEW
           | Pending \<Rightarrow> ex_state x = REQUEST_STATE_NEW \<and> ex_host x \<noteq> None
           | In_flight \<Rightarrow> ex_state x \<in> live_states \<and> ex_host x \<noteq> None \<and> ex_connection x \<noteq> None
           | Setting_keyspace _ \<Rightarrow> ex_state x = REQUEST_STATE_NEW \<and> ex_host x \<noteq> None
           | Preparing \<Rightarrow> ex_state x = REQUEST_STATE_FINISHED \<and> ex_host x \<noteq> None
           | Agreeing _ _ \<Rightarrow> ex_state x = REQUEST_STATE_FINISHED \<and> ex_host x \<noteq> None
           | Exhausted \<Rightarrow> ex_state x = REQUEST_STATE_NEW)"

definition active :: "request_state \<Rightarrow> bool \<Rightarrow> 'addr execution \<Rightarrow> bool" where
  "active s fin x \<longleftrightarrow> ex_phase x = Idle \<and> ex_state x = (if fin then REQUEST_STATE_CANCELLED else s)"

text \<open>No host is in two places.\<close>

definition separate :: "'addr request_handler \<Rightarrow> bool" where
  "separate h \<longleftrightarrow> distinct (rh_plan h) \<and>
     (\<forall>e < length (rh_executions h). \<forall>p. ex_host (execution_at h e) = Some p \<longrightarrow>
        p \<notin> set (rh_plan h) \<and> (\<forall>e' < length (rh_executions h). e' \<noteq> e \<longrightarrow> ex_host (execution_at h e') \<noteq> Some p))"

definition unfinished :: "'addr request_handler \<Rightarrow> nat" where
  "unfinished h = length (filter (\<lambda>x. ex_phase x \<noteq> Exhausted) (rh_executions h))"

definition is_done :: "'addr request_handler \<Rightarrow> bool" where
  "is_done h \<longleftrightarrow> rh_future h \<noteq> None"

definition executions_ok :: "request_state \<Rightarrow> nat set \<Rightarrow> bool \<Rightarrow> 'addr execution list \<Rightarrow> bool" where
  "executions_ok s A fin xs \<longleftrightarrow> (\<forall>e < length xs. if e \<in> A then active s fin (xs ! e) else settled fin (xs ! e))"

definition handler_ok :: "bool \<Rightarrow> request_state \<Rightarrow> nat set \<Rightarrow> 'addr request_handler \<Rightarrow> bool" where
  "handler_ok D s A h \<longleftrightarrow>
     executions_ok s A (is_done h) (rh_executions h) \<and> A \<subseteq> {..< length (rh_executions h)} \<and>
     s \<in> {REQUEST_STATE_NEW, REQUEST_STATE_FINISHED} \<and>
     rh_running h = int (unfinished h) \<and> (\<not> is_done h \<longrightarrow> rh_running h > 0) \<and>
     (rh_timer h \<longrightarrow> \<not> is_done h) \<and>
     count_list (rh_log h) Request_finished = (if is_done h then 1 else 0) \<and>
     \<not> rh_assertion_failed h \<and> rh_io_worker h \<and> (D \<longrightarrow> separate h) \<and> rh_retry_policy h \<noteq> None"

lemma active_settled: "active s True x \<Longrightarrow> settled True x"
  by (simp add: active_def settled_def)

lemma handler_okI:
  assumes "executions_ok s A (is_done h) (rh_executions h)" "A \<subseteq> {..< length (rh_executions h)}"
    and "s \<in> {REQUEST_STATE_NEW, REQUEST_STATE_FINISHED}" "rh_running h = int (unfinished h)"
    and "\<not> is_done h \<Longrightarrow> rh_running h > 0" "rh_timer h \<Longrightarrow> \<not> is_done h"
    and "count_list (rh_log h) Request_finished = (if is_done h then 1 else 0)"
    and "\<not> rh_assertion_failed h" "rh_io_worker h" "D \<Longrightarrow> separate h" "rh_retry_policy h \<noteq> None"
  shows "handler_ok D s A h"
  using assms by (auto simp: handler_ok_def)

lemma handler_okD:
  assumes "handler_ok D s A h"
  shows "e \<in> A \<Longrightarrow> e < length (rh_executions h)"
    and "e \<in> A \<Longrightarrow> active s (is_done h) (execution_at h e)"
    and "e < length (rh_executions h) \<Longrightarrow> e \<notin> A \<Longrightarrow> settled (is_done h) (execution_at h e)"
    and "\<not> rh_assertion_failed h" "rh_io_worker h" "rh_timer h \<Longrightarrow> \<not> is_done h"
    and "rh_running h = int (unfinished h)" "\<not> is_done h \<Longrightarrow> rh_running h > 0"
    and "count_list (rh_log h) Request_finished = (if is_done h then 1 else 0)"
    and "D \<Longrightarrow> separate h" "s \<in> {REQUEST_STATE_NEW, REQUEST_STATE_FINISHED}" "rh_retry_policy h \<noteq> None"
  using assms unfolding handler_ok_def executions_ok_def by (auto simp: subset_iff split: if_splits)

text \<open>Once the future is set, any of the running executions may be taken as settled.\<close>

lemma handler_ok_done:
  assumes "handler_ok D s A h" "is_done h" "B \<subseteq> A" "s' \<in> {REQUEST_STATE_NEW, REQUEST_STATE_FINISHED}"
  shows "handler_ok D s' B h"
  using assms unfolding handler_ok_def executions_ok_def
  by (auto simp: active_def settled_def subset_iff split: if_splits)

lemma handler_ok_none: "handler_ok D s {} h \<Longrightarrow> s' \<in> {REQUEST_STATE_NEW, REQUEST_STATE_FINISHED} \<Longrightarrow> handler_ok D s' {} h"
  by (auto simp: handler_ok_def executions_ok_def)

lemma length_filter_update:
  "i < length xs \<Longrightarrow>
     length (filter P (xs[i := x])) + (if P (xs ! i) then 1 else 0) = length (filter P xs) + (if P x then 1 else 0)"
proof (induction xs arbitrary: i)
  case (Cons a xs)
  then show ?case by (cases i) auto
qed simp

lemma unfinished_update:
  assumes "e < length (rh_executions h)"
  shows "unfinished (update_execution e f h) + (if ex_phase (execution_at h e) = Exhausted then 0 else 1) =
    unfinished h + (if ex_phase (f (execution_at h e)) = Exhausted then 0 else 1)"
  using length_filter_update [OF assms, of "\<lambda>x. ex_phase x \<noteq> Exhausted" "f (execution_at h e)"]
  by (simp add: unfinished_def split: if_splits)

lemma is_done_update [simp]: "is_done (update_execution e f h) = is_done h"
  by (simp add: is_done_def)

lemma separate_update:
  assumes "e < length (rh_executions h)" "ex_host (f (execution_at h e)) = ex_host (execution_at h e)"
  shows "separate (update_execution e f h) = separate h"
proof -
  have "ex_host ((rh_executions h)[e := f (execution_at h e)] ! e') = ex_host (execution_at h e')" for e'
    using assms by (auto simp: nth_list_update)
  then show ?thesis by (simp add: separate_def)
qed

lemma executions_ok_update:
  assumes ok: "executions_ok s A fin xs" and i: "i < length xs" and sets: "B - {i} = A - {i}"
    and x: "if i \<in> B then active s fin x else settled fin x"
  shows "executions_ok s B fin (xs[i := x])"
  unfolding executions_ok_def
proof (intro allI impI)
  fix j assume j: "j < length (xs[i := x])"
  show "if j \<in> B then active s fin (xs[i := x] ! j) else settled fin (xs[i := x] ! j)"
  proof (cases "j = i")
    case True
    then show ?thesis using x i by simp
  next
    case False
    then have "j \<in> B \<longleftrightarrow> j \<in> A" using sets by blast
    then show ?thesis using ok j False by (simp add: executions_ok_def)
  qed
qed

lemma handler_ok_update:
  assumes ok: "handler_ok D s A h" and e: "e < length (rh_executions h)"
    and host: "ex_host (f (execution_at h e)) = ex_host (execution_at h e)"
    and phase: "(ex_phase (f (execution_at h e)) = Exhausted) = (ex_phase (execution_at h e) = Exhausted)"
    and state: "if e \<in> B then active s (is_done h) (f (execution_at h e)) else settled (is_done h) (f (execution_at h e))"
    and sets: "B - {e} = A - {e}"
  shows "handler_ok D s B (update_execution e f h)"
proof -
  have "unfinished (update_execution e f h) = unfinished h"
    using unfinished_update [OF e, of f] phase by (simp split: if_splits)
  moreover have "executions_ok s B (is_done h) (rh_executions (update_execution e f h))"
    using executions_ok_update [OF _ e sets state] ok by (simp add: handler_ok_def)
  moreover have "B \<subseteq> {..< length (rh_executions h)}"
    using handler_okD(1) [OF ok] e sets by (auto simp: subset_iff)
  ultimately show ?thesis
    using ok separate_update [of e h f, OF e host] unfolding handler_ok_def by auto
qed

lemma handler_ok_fields:
  assumes "handler_ok D s A h"
    and "rh_executions h' = rh_executions h" "rh_future h' = rh_future h" "rh_running h' = rh_running h"
    and "rh_timer h' \<Longrightarrow> rh_timer h" "count_list (rh_log h') Request_finished = count_list (rh_log h) Request_finished"
    and "rh_assertion_failed h' = rh_assertion_failed h" "rh_io_worker h' = rh_io_worker h" "rh_plan h' = rh_plan h"
    and "rh_retry_policy h' = rh_retry_policy h"
  shows "handler_ok D s A h'"
  using assms unfolding handler_ok_def unfinished_def separate_def is_done_def by auto

subsection \<open>Stopping a request\<close>

definition cancelled_execution :: "'addr execution \<Rightarrow> 'addr execution" where
  "cancelled_execution x =
     x\<lparr>ex_phase := (if ex_phase x = Scheduled then Idle else ex_phase x),
       ex_state := the (next_state (ex_state x) REQUEST_STATE_CANCELLED)\<rparr>"

lemma next_state_cancelled: "next_state s REQUEST_STATE_CANCELLED = Some (the (next_state s REQUEST_STATE_CANCELLED))"
  by (cases s) simp_all

lemma cancel_execution_eq:
  "e < length (rh_executions h) \<Longrightarrow>
     cancel_execution e h = h\<lparr>rh_executions := (rh_executions h)[e := cancelled_execution (execution_at h e)]\<rparr>"
  by (cases "ex_phase (execution_at h e) = Scheduled"; cases "ex_state (execution_at h e)")
     (simp_all add: cancel_execution_def execution_set_state_def cancelled_execution_def update_execution_def)

lemma fold_cancel_execution:
  "k \<le> length (rh_executions h) \<Longrightarrow>
     fold cancel_execution [0 ..< k] h =
       h\<lparr>rh_executions := map cancelled_execution (take k (rh_executions h)) @ drop k (rh_executions h)\<rparr>"
proof (induction k)
  case (Suc k)
  then have "fold cancel_execution [0 ..< k] h =
      h\<lparr>rh_executions := map cancelled_execution (take k (rh_executions h)) @ drop k (rh_executions h)\<rparr>"
    by simp
  then show ?case using Suc.prems
    by (simp add: cancel_execution_eq nth_append list_update_append take_Suc_conv_app_nth
        Cons_nth_drop_Suc [symmetric, of k "rh_executions h"])
qed simp

lemma stop_request_eq:
  "stop_request h =
     h\<lparr>rh_timer := False, rh_executions := map cancelled_execution (rh_executions h),
       rh_log := rh_log h @ (if rh_io_worker h then [Request_finished] else [])\<rparr>"
  by (simp add: stop_request_def fold_cancel_execution note_call_def)

lemma cancelled_settled:
  assumes "if e \<in> A then active s False x else settled False x" "s \<in> {REQUEST_STATE_NEW, REQUEST_STATE_FINISHED}"
  shows "if e \<in> A then active s True (cancelled_execution x) else settled True (cancelled_execution x)"
proof (cases "e \<in> A")
  case True
  then show ?thesis using assms by (auto simp: active_def cancelled_execution_def)
next
  case False
  with assms(1) have "settled False x" by simp
  then have "settled True (cancelled_execution x)"
    by (cases "ex_phase x") (auto simp: settled_def cancelled_execution_def live_states_def cancelled_states_def)
  then show ?thesis using False by simp
qed

lemma unfinished_cancelled: "length (filter ((\<lambda>x. ex_phase x \<noteq> Exhausted) \<circ> cancelled_execution) xs) =
    length (filter (\<lambda>x. ex_phase x \<noteq> Exhausted) xs)"
  by (induction xs) (simp_all add: cancelled_execution_def)

lemma separate_map:
  "(\<And>x. ex_host (f x) = ex_host x) \<Longrightarrow> rh_plan h' = rh_plan h \<Longrightarrow> rh_executions h' = map f (rh_executions h) \<Longrightarrow>
     separate h' = separate h"
  by (simp add: separate_def)

lemma finish_with_done: "is_done h \<Longrightarrow> finish_with r h = h"
  by (auto simp: finish_with_def future_set_def is_done_def split: option.split)

lemma finish_with_open: "\<not> is_done h \<Longrightarrow> finish_with r h = stop_request (h\<lparr>rh_future := Some r\<rparr>)"
  by (simp add: finish_with_def future_set_def is_done_def)

lemma finish_with_is_done [simp]: "is_done (finish_with r h)"
  by (cases "is_done h") (simp_all add: finish_with_done finish_with_open stop_request_eq, simp add: is_done_def)

text \<open>The invariant without the condition that some execution is left, which fails just before the request is given up.\<close>

lemma finish_with_ok':
  assumes "executions_ok s A (is_done h) (rh_executions h)" "A \<subseteq> {..< length (rh_executions h)}"
    and "s \<in> {REQUEST_STATE_NEW, REQUEST_STATE_FINISHED}" "rh_running h = int (unfinished h)"
    and "rh_timer h \<Longrightarrow> \<not> is_done h"
    and "count_list (rh_log h) Request_finished = (if is_done h then 1 else 0)"
    and "\<not> rh_assertion_failed h" "rh_io_worker h" "D \<Longrightarrow> separate h" "rh_retry_policy h \<noteq> None"
  shows "handler_ok D s A (finish_with r h)"
proof (cases "is_done h")
  case True
  with assms show ?thesis by (auto simp: finish_with_done handler_ok_def)
next
  case False
  let ?h = "finish_with r h"
  have h: "?h = h\<lparr>rh_future := Some r, rh_timer := False, rh_executions := map cancelled_execution (rh_executions h),
      rh_log := rh_log h @ [Request_finished]\<rparr>"
    using False assms(8) by (simp add: finish_with_open stop_request_eq)
  have "executions_ok s A True (map cancelled_execution (rh_executions h))"
    unfolding executions_ok_def length_map
  proof (intro allI impI)
    fix e assume "e < length (rh_executions h)"
    then show "if e \<in> A then active s True (map cancelled_execution (rh_executions h) ! e)
      else settled True (map cancelled_execution (rh_executions h) ! e)"
      using assms(1,3) False cancelled_settled [of e A s "execution_at h e"] by (simp add: executions_ok_def)
  qed
  moreover have "separate ?h = separate h" by (rule separate_map [of cancelled_execution]) (simp_all add: h cancelled_execution_def)
  moreover have "unfinished ?h = unfinished h" by (simp add: h unfinished_def unfinished_cancelled filter_map)
  moreover have "is_done ?h" by simp
  ultimately show ?thesis using assms False by (auto simp: handler_ok_def h)
qed

lemma finish_with_ok:
  assumes "handler_ok D s A h" "B \<subseteq> A" "s' \<in> {REQUEST_STATE_NEW, REQUEST_STATE_FINISHED}"
  shows "handler_ok D s' B (finish_with r h)"
proof -
  have "handler_ok D s A (finish_with r h)"
    using assms(1) by (intro finish_with_ok') (auto simp: handler_ok_def)
  then show ?thesis by (rule handler_ok_done) (use assms in simp_all)
qed

subsection \<open>The next host\<close>

lemma next_host_simps [simp]:
  "rh_executions (RequestHandler_next_host h) = rh_executions h"
  "rh_future (RequestHandler_next_host h) = rh_future h"
  "rh_request (RequestHandler_next_host h) = rh_request h"
  "rh_running (RequestHandler_next_host h) = rh_running h"
  "rh_retry_policy (RequestHandler_next_host h) = rh_retry_policy h"
  "rh_timer (RequestHandler_next_host h) = rh_timer h"
  "rh_log (RequestHandler_next_host h) = rh_log h"
  "rh_assertion_failed (RequestHandler_next_host h) = rh_assertion_failed h"
  "rh_io_worker (RequestHandler_next_host h) = rh_io_worker h"
  "is_done (RequestHandler_next_host h) = is_done h"
  by (simp_all add: RequestHandler_next_host_def is_done_def split: list.split)

lemma separateD:
  assumes "separate h" "e < length (rh_executions h)" "ex_host (execution_at h e) = Some p"
  shows "p \<notin> set (rh_plan h)" "e' < length (rh_executions h) \<Longrightarrow> ex_host (execution_at h e') = Some p \<Longrightarrow> e' = e"
  using assms unfolding separate_def by blast+

lemma separate_replace:
  assumes sep: "separate h" and len: "length (rh_executions h') = length (rh_executions h)"
    and hosts: "\<And>j. j < length (rh_executions h) \<Longrightarrow>
      ex_host (execution_at h' j) = (if j = e then new else ex_host (execution_at h j))"
    and plan: "distinct (rh_plan h')" "set (rh_plan h') \<subseteq> set (rh_plan h)"
    and new: "\<And>p. new = Some p \<Longrightarrow> p \<in> set (rh_plan h) \<and> p \<notin> set (rh_plan h')"
  shows "separate h'"
  unfolding separate_def len
proof (intro conjI allI impI)
  fix j p assume j: "j < length (rh_executions h)" and p: "ex_host (execution_at h' j) = Some p"
  show "p \<notin> set (rh_plan h')"
  proof (cases "j = e")
    case True
    then show ?thesis using p hosts [OF j] new by simp
  next
    case False
    then show ?thesis using p hosts [OF j] separateD(1) [OF sep j] plan(2) by auto
  qed
  fix k assume k: "k < length (rh_executions h)" "k \<noteq> j"
  show "ex_host (execution_at h' k) \<noteq> Some p"
  proof (cases "j = e")
    case True
    then have "p \<in> set (rh_plan h)" using p hosts [OF j] new by simp
    then show ?thesis using True hosts [OF k(1)] k(2) separateD(1) [OF sep k(1)] by auto
  next
    case False
    then show ?thesis using p hosts [OF j] hosts [OF k(1)] k new separateD [OF sep j] by auto
  qed
qed (rule plan(1))

lemma separate_next_host:
  assumes sep: "separate h" and e: "e < length (rh_executions h)"
  shows "separate (execution_next_host e h)"
proof -
  have "distinct (rh_plan h)" using sep by (simp add: separate_def)
  then show ?thesis
    by (intro separate_replace [OF sep, of _ e "rh_current_host (RequestHandler_next_host h)"])
       (use e in \<open>auto simp: execution_next_host_def RequestHandler_next_host_def nth_list_update split: list.splits\<close>)
qed

lemma next_host_ok:
  assumes ok: "handler_ok D s A h" and e: "e \<in> A"
  shows "handler_ok D s A (execution_next_host e h)"
proof -
  let ?h = "execution_next_host e h"
  have lt: "e < length (rh_executions h)" by (rule handler_okD [OF ok]) (rule e)
  have h: "?h = update_execution e (\<lambda>x. x\<lparr>ex_host := rh_current_host (RequestHandler_next_host h)\<rparr>) (RequestHandler_next_host h)"
    by (simp add: execution_next_host_def Let_def)
  have "unfinished ?h = unfinished h"
    unfolding h using unfinished_update
      [of e "RequestHandler_next_host h" "\<lambda>x. x\<lparr>ex_host := rh_current_host (RequestHandler_next_host h)\<rparr>"] lt
    by (simp add: unfinished_def split: if_splits)
  moreover have "executions_ok s A (is_done h) (rh_executions ?h)"
    unfolding h update_execution_simps next_host_simps
    using executions_ok_update [of s A "is_done h" "rh_executions h" e A] ok e lt handler_okD(2) [OF ok e]
    by (simp add: handler_ok_def active_def)
  moreover have "D \<Longrightarrow> separate ?h"
    using separate_next_host [OF _ lt] handler_okD(10) [OF ok] by blast
  moreover have "rh_running ?h = rh_running h" "is_done ?h = is_done h" "rh_timer ?h = rh_timer h"
    "rh_log ?h = rh_log h" "rh_assertion_failed ?h = rh_assertion_failed h" "rh_io_worker ?h = rh_io_worker h"
    "rh_retry_policy ?h = rh_retry_policy h" "length (rh_executions ?h) = length (rh_executions h)"
    by (simp_all add: h)
  moreover note handler_okD(4-9,12) [OF ok]
  ultimately show ?thesis using ok by (intro handler_okI) (simp_all add: handler_ok_def)
qed

subsection \<open>Calls that leave the handler\<close>

lemma note_call_simps [simp]:
  "rh_executions (note_call n h) = rh_executions h"
  "rh_future (note_call n h) = rh_future h"
  "rh_request (note_call n h) = rh_request h"
  "rh_plan (note_call n h) = rh_plan h"
  "rh_execution_plan (note_call n h) = rh_execution_plan h"
  "rh_retry_policy (note_call n h) = rh_retry_policy h"
  "rh_current_host (note_call n h) = rh_current_host h"
  "is_done (note_call n h) = is_done h"
  by (simp_all add: note_call_def is_done_def)

lemma note_call_ok: "n \<noteq> Request_finished \<Longrightarrow> handler_ok D s A h \<Longrightarrow> handler_ok D s A (note_call n h)"
  by (erule handler_ok_fields) (simp_all add: note_call_def)

lemma return_connection_simps [simp]:
  "rh_executions (return_connection e h) = rh_executions h"
  "rh_future (return_connection e h) = rh_future h"
  "rh_request (return_connection e h) = rh_request h"
  "rh_plan (return_connection e h) = rh_plan h"
  "rh_retry_policy (return_connection e h) = rh_retry_policy h"
  "is_done (return_connection e h) = is_done h"
  by (simp_all add: return_connection_def split: option.split)

lemma return_connection_ok: "handler_ok D s A h \<Longrightarrow> handler_ok D s A (return_connection e h)"
  by (auto simp: return_connection_def note_call_ok split: option.split)

lemma connection_defunct_ok: "handler_ok D s A h \<Longrightarrow> handler_ok D s A (connection_defunct e h)"
  by (simp add: connection_defunct_def note_call_ok)

lemma defunct_connection_ok: "handler_ok D s A h \<Longrightarrow> handler_ok D s A (defunct_connection c h)"
  by (simp add: defunct_connection_def note_call_ok)

subsection \<open>Errors\<close>

lemma set_error_on_host_ok:
  assumes "handler_ok D s A h" "code \<noteq> CASS_ERROR_LIB_NO_HOSTS_AVAILABLE" "B \<subseteq> A"
    and "s' \<in> {REQUEST_STATE_NEW, REQUEST_STATE_FINISHED}"
  shows "handler_ok D s' B (RequestHandler_set_error_on_host host code h)"
  using finish_with_ok [OF assms(1,3,4)] assms(2)
  by (simp add: RequestHandler_set_error_on_host_def RequestHandler_set_error_def split: option.split)

lemma on_unrecoverable_error_ok:
  assumes "handler_ok D s A h" "code \<noteq> CASS_ERROR_LIB_NO_HOSTS_AVAILABLE" "B \<subseteq> A"
    and "s' \<in> {REQUEST_STATE_NEW, REQUEST_STATE_FINISHED}"
  shows "handler_ok D s' B (on_unrecoverable_error e code h)"
  unfolding on_unrecoverable_error_def execution_set_error_def
  by (rule set_error_on_host_ok [OF return_connection_ok [OF assms(1)] assms(2-4)])

lemma encode_error_code_other: "encode_error_code error \<noteq> CASS_ERROR_LIB_NO_HOSTS_AVAILABLE"
  by (cases error) simp_all

text \<open>An execution that runs out of hosts ends the request when it is the last one.\<close>

lemma give_up_ok:
  assumes ok: "handler_ok D REQUEST_STATE_NEW (insert e A) h" and new: "e \<notin> A"
  shows "handler_ok D REQUEST_STATE_NEW A (give_up e h)"
proof -
  let ?h = "set_phase e Exhausted h"
  let ?r = "(return_connection e ?h)\<lparr>rh_running := rh_running h - 1\<rparr>"
  have e: "e < length (rh_executions h)" "active REQUEST_STATE_NEW (is_done h) (execution_at h e)"
    using handler_okD(1,2) [OF ok] by simp_all
  have executions: "executions_ok REQUEST_STATE_NEW A (is_done h) (rh_executions ?h)"
    using executions_ok_update [of REQUEST_STATE_NEW "insert e A" "is_done h" "rh_executions h" e A] ok e new
    by (auto simp: handler_ok_def active_def settled_def split: if_splits)
  have "unfinished ?h + 1 = unfinished h"
    using unfinished_update [OF e(1), of "\<lambda>x. x\<lparr>ex_phase := Exhausted\<rparr>"] e(2) by (simp add: active_def)
  then have running: "rh_running h - 1 = int (unfinished ?h)" using handler_okD(7) [OF ok] by simp
  have r: "rh_executions ?r = rh_executions ?h" "is_done ?r = is_done h" "unfinished ?r = unfinished ?h"
    "rh_running ?r = int (unfinished ?h)" "rh_timer ?r = rh_timer h" "rh_assertion_failed ?r = rh_assertion_failed h"
    "rh_io_worker ?r = rh_io_worker h" "separate ?r = separate ?h" "rh_retry_policy ?r = rh_retry_policy h"
    "count_list (rh_log ?r) Request_finished = count_list (rh_log h) Request_finished"
    using running
    by (simp_all add: is_done_def unfinished_def return_connection_def note_call_def separate_def split: option.split)
  have sep: "D \<Longrightarrow> separate ?r"
    using r separate_update [of e h "\<lambda>x. x\<lparr>ex_phase := Exhausted\<rparr>"] e(1) handler_okD(10) [OF ok] by simp
  have sub: "A \<subseteq> {..< length (rh_executions h)}" using ok by (simp add: handler_ok_def)
  have finish: "handler_ok D REQUEST_STATE_NEW A (finish_with q ?r)" for q
    by (rule finish_with_ok') (use r sep executions sub handler_okD(4-9,12) [OF ok] in simp_all)
  have skip: "handler_ok D REQUEST_STATE_NEW A ?r" if "rh_running ?r > 0"
    by (rule handler_okI) (use that r sep executions sub handler_okD(4-9,12) [OF ok] in simp_all)
  have running': "rh_running (return_connection e ?h) = rh_running h"
    by (simp add: return_connection_def note_call_def split: option.split)
  show ?thesis
    using finish skip running'
    by (simp add: give_up_def on_unrecoverable_error_def execution_set_error_def RequestHandler_set_error_on_host_def
        RequestHandler_set_error_def Let_def split: option.split)
qed

subsection \<open>Attempts\<close>

lemma active_update:
  assumes "handler_ok D s A h" "e \<in> A" "\<And>x. ex_host (f x) = ex_host x" "\<And>x. ex_phase (f x) = ex_phase x"
    and "\<And>x. ex_state (f x) = ex_state x"
  shows "handler_ok D s A (update_execution e f h)"
  by (rule handler_ok_update [OF assms(1)]) (use handler_okD(1,2) [OF assms(1,2)] assms in \<open>simp_all add: active_def\<close>)

lemma execution_start_ok:
  assumes "handler_ok D s A h" "e \<in> A" "ex_host (execution_at h e) \<noteq> None"
  shows "handler_ok D s A (execution_start c e h)"
proof -
  have "handler_ok D s A (update_execution e (\<lambda>x. x\<lparr>ex_connection := Some c\<rparr>) h)"
    by (rule active_update [OF assms(1,2)]) simp_all
  then show ?thesis
    using assms(3) handler_okD(1) [OF assms(1,2)] by (auto simp: execution_start_def on_start_def note_call_ok)
qed

lemma execution_start_simps:
  assumes "e < length (rh_executions h)" "ex_host (execution_at h e) \<noteq> None"
  shows "rh_executions (execution_start c e h) = (rh_executions h)[e := (execution_at h e)\<lparr>ex_connection := Some c\<rparr>]"
    and "is_done (execution_start c e h) = is_done h"
  using assms by (auto simp: execution_start_def on_start_def split: if_splits)

lemma write_execution_ok:
  assumes ok: "handler_ok D REQUEST_STATE_NEW (insert e A) h" and new: "e \<notin> A"
    and host: "ex_host (execution_at h e) \<noteq> None" and w: "write_execution w c e h = (True, h')"
  shows "handler_ok D REQUEST_STATE_NEW A h'"
proof (cases "ex_state (execution_at h e) = REQUEST_STATE_CANCELLED")
  case True
  have "active REQUEST_STATE_NEW (is_done h) (execution_at h e)" using handler_okD(2) [OF ok] by simp
  with True have "is_done h" by (simp add: active_def split: if_splits)
  then show ?thesis using w True handler_ok_done [OF ok, of A] by (auto simp: write_execution_def)
next
  case False
  let ?h = "execution_start c e h"
  have e: "e < length (rh_executions h)" "active REQUEST_STATE_NEW (is_done h) (execution_at h e)"
    using handler_okD(1,2) [OF ok] by simp_all
  have open': "\<not> is_done h" and state: "ex_state (execution_at h e) = REQUEST_STATE_NEW"
    using e(2) False by (auto simp: active_def split: if_splits)
  have start: "handler_ok D REQUEST_STATE_NEW (insert e A) ?h" by (rule execution_start_ok [OF ok _ host]) simp
  note start' = execution_start_simps [OF e(1) host, of c]
  show ?thesis
  proof (cases "wa_encode_error w")
    case None
    then have "h' = set_phase e In_flight (execution_set_state e REQUEST_STATE_WRITING ?h)"
      using w False by (simp add: write_execution_def Let_def split: if_splits)
    also have "\<dots> = update_execution e (\<lambda>x. x\<lparr>ex_state := REQUEST_STATE_WRITING, ex_phase := In_flight\<rparr>) ?h"
      using state e(1) start' by (simp add: execution_set_state_def update_execution_def)
    also have "handler_ok D REQUEST_STATE_NEW A \<dots>"
      using e start' host open' new
      by (intro handler_ok_update [OF start]) (auto simp: settled_def live_states_def active_def)
    finally show ?thesis .
  next
    case (Some error)
    then have "h' = on_unrecoverable_error e (encode_error_code error) ?h"
      using w False by (simp add: write_execution_def Let_def split: if_splits)
    then show ?thesis
      using on_unrecoverable_error_ok [OF start encode_error_code_other, of A REQUEST_STATE_NEW] by auto
  qed
qed

lemma settle_ok:
  assumes ok: "handler_ok D REQUEST_STATE_NEW (insert e A) h" and "e \<notin> A"
    and "\<And>x. ex_host (f x) = ex_host x" "\<And>x. ex_phase (f x) \<noteq> Exhausted"
    and "settled (is_done h) (f (execution_at h e))"
  shows "handler_ok D REQUEST_STATE_NEW A (update_execution e f h)"
  by (rule handler_ok_update [OF ok])
     (use handler_okD(1,2) [OF ok, of e] assms(2-) in \<open>auto simp: active_def split: if_splits\<close>)

lemma Pool_write_ok:
  assumes ok: "handler_ok D REQUEST_STATE_NEW (insert e A) h" and new: "e \<notin> A"
    and host: "ex_host (execution_at h e) \<noteq> None" and w: "Pool_write w p c e h = (True, h')"
  shows "handler_ok D REQUEST_STATE_NEW A h'"
proof -
  let ?h = "update_execution e (\<lambda>x. x\<lparr>ex_pool := Some p\<rparr>) h"
  have pool: "handler_ok D REQUEST_STATE_NEW (insert e A) ?h"
    by (rule active_update [OF ok]) simp_all
  have e: "e < length (rh_executions h)" "active REQUEST_STATE_NEW (is_done h) (execution_at h e)"
    using handler_okD(1,2) [OF ok] by simp_all
  show ?thesis
  proof (cases "wa_same_keyspace w")
    case True
    then show ?thesis using write_execution_ok [OF pool new, of w c h'] w host e(1) by (simp add: Pool_write_def)
  next
    case False
    then have "h' = set_phase e (Setting_keyspace c) ?h"
      using w by (simp add: Pool_write_def Let_def split: if_splits)
    also have "handler_ok D REQUEST_STATE_NEW A \<dots>"
      using e host new by (intro settle_ok [OF pool]) (auto simp: settled_def active_def)
    finally show ?thesis .
  qed
qed

lemma wait_for_connection_ok:
  assumes ok: "handler_ok D REQUEST_STATE_NEW (insert e A) h" and new: "e \<notin> A"
    and host: "ex_host (execution_at h e) \<noteq> None"
  shows "handler_ok D REQUEST_STATE_NEW A (wait_for_connection p e h)"
proof -
  have e: "e < length (rh_executions h)" "active REQUEST_STATE_NEW (is_done h) (execution_at h e)"
    using handler_okD(1,2) [OF ok] by simp_all
  show ?thesis
  proof (cases "is_done h")
    case True
    then show ?thesis
      using e(2) handler_ok_done [OF ok True, of A REQUEST_STATE_NEW] by (auto simp: wait_for_connection_def active_def)
  next
    case False
    then have "settled (is_done h) ((execution_at h e)\<lparr>ex_pool := Some p, ex_phase := Pending\<rparr>)"
      using e(2) host by (simp add: settled_def active_def)
    then have "handler_ok D REQUEST_STATE_NEW A (update_execution e (\<lambda>x. x\<lparr>ex_pool := Some p, ex_phase := Pending\<rparr>) h)"
      using new by (intro settle_ok [OF ok]) simp_all
    then show ?thesis using False e(2) by (simp add: wait_for_connection_def active_def)
  qed
qed

lemma IOWorker_retry_ok:
  assumes "handler_ok D REQUEST_STATE_NEW (insert e A) h" "e \<notin> A"
  shows "handler_ok D REQUEST_STATE_NEW A (IOWorker_retry pools e h)"
  using assms
proof (induction pools e h rule: IOWorker_retry.induct)
  case (1 pools e h)
  have lt: "e < length (rh_executions h)" using handler_okD(1) [OF 1(3)] by simp
  show ?case
  proof (cases "host_of h e")
    case None
    then show ?thesis using give_up_ok [OF 1(3,4)] by (subst IOWorker_retry.simps) simp
  next
    case (Some p)
    then have host: "ex_host (execution_at h e) \<noteq> None" using lt by (simp add: host_of_def)
    show ?thesis
    proof (cases "pools (length (rh_plan h)) p")
      case Not_ready
      then have "handler_ok D REQUEST_STATE_NEW A (IOWorker_retry pools e (execution_next_host e h))"
        using 1(1) [OF Some] next_host_ok [OF 1(3)] 1(4) by simp
      then show ?thesis using Some Not_ready by (subst IOWorker_retry.simps) simp
    next
      case Busy
      then show ?thesis using Some wait_for_connection_ok [OF 1(3,4) host] by (subst IOWorker_retry.simps) simp
    next
      case (Borrowed w)
      show ?thesis
      proof (cases "Pool_write w p p e h")
        case (Pair written h')
        show ?thesis
        proof (cases written)
          case True
          then show ?thesis
            using Some Borrowed Pair Pool_write_ok [OF 1(3,4) host] by (subst IOWorker_retry.simps) simp
        next
          case False
          then have h': "h' = update_execution e (\<lambda>x. x\<lparr>ex_pool := Some p\<rparr>) h"
            using Pair Pool_write_False by simp
          have "handler_ok D REQUEST_STATE_NEW (insert e A) h'"
            unfolding h' by (rule active_update [OF 1(3)]) simp_all
          then have "handler_ok D REQUEST_STATE_NEW A (IOWorker_retry pools e (execution_next_host e h'))"
            using 1(2) [OF Some Borrowed Pair [symmetric]] False next_host_ok [of D REQUEST_STATE_NEW "insert e A" h' e] 1(4) by simp
          then show ?thesis using Some Borrowed Pair False by (subst IOWorker_retry.simps) simp
        qed
      qed
    qed
  qed
qed

lemma executions_ok_single:
  assumes "executions_ok s A fin xs" "A \<subseteq> {e}" "e < length xs" "active s' fin x"
  shows "executions_ok s' {e} fin (xs[e := x])"
  using assms by (auto simp: executions_ok_def nth_list_update subset_iff split: if_splits)

lemma handler_ok_single:
  assumes ok: "handler_ok D s A h" and A: "A \<subseteq> {e}" and e: "e < length (rh_executions h)"
    and host: "ex_host (f (execution_at h e)) = ex_host (execution_at h e)"
    and phase: "ex_phase (execution_at h e) \<noteq> Exhausted"
    and active: "active s' (is_done h) (f (execution_at h e))" and s': "s' \<in> {REQUEST_STATE_NEW, REQUEST_STATE_FINISHED}"
  shows "handler_ok D s' {e} (update_execution e f h)"
proof -
  let ?h = "update_execution e f h"
  have "executions_ok s' {e} (is_done ?h) (rh_executions ?h)"
    using executions_ok_single [OF _ A e active, of s] ok by (simp add: handler_ok_def)
  moreover have "unfinished ?h = unfinished h"
    using unfinished_update [OF e, of f] phase active by (simp add: active_def)
  moreover have "separate ?h = separate h" by (rule separate_update [of e h f, OF e host])
  ultimately show ?thesis
    using e s' handler_okD(4-10,12) [OF ok] by (intro handler_okI) simp_all
qed

lemma retry_current_host_ok:
  assumes ok: "handler_ok D s {e} h"
  shows "handler_ok D REQUEST_STATE_NEW {} (execution_retry_current_host pools e h)"
proof (cases "is_done h")
  case True
  then have "ex_state (execution_at h e) = REQUEST_STATE_CANCELLED"
    using handler_okD(2) [OF ok, of e] by (simp add: active_def)
  then show ?thesis
    using handler_ok_done [OF ok True, of "{}" REQUEST_STATE_NEW] by (simp add: execution_retry_current_host_def)
next
  case False
  have e: "e < length (rh_executions h)" "active s False (execution_at h e)" "s \<in> {REQUEST_STATE_NEW, REQUEST_STATE_FINISHED}"
    using handler_okD(1,2,11) [OF ok] False by simp_all
  let ?f = "\<lambda>x. x\<lparr>ex_state := REQUEST_STATE_NEW, ex_pool := None\<rparr>"
  have "execution_retry_current_host pools e h = IOWorker_retry pools e (update_execution e ?f h)"
    using e by (auto simp: execution_retry_current_host_def execution_set_state_def active_def update_execution_def)
  moreover have "handler_ok D REQUEST_STATE_NEW {e} (update_execution e ?f h)"
    by (rule handler_ok_single [OF ok]) (use e False in \<open>simp_all add: active_def\<close>)
  ultimately show ?thesis using IOWorker_retry_ok [of D e "{}"] by simp
qed

lemma retry_next_host_ok:
  "handler_ok D s {e} h \<Longrightarrow> handler_ok D REQUEST_STATE_NEW {} (execution_retry_next_host pools e h)"
  unfolding execution_retry_next_host_def by (rule retry_current_host_ok, rule next_host_ok) simp_all

subsection \<open>Speculative executions\<close>

lemma add_execution_ok:
  assumes ok: "handler_ok D REQUEST_STATE_NEW A h" and open': "\<not> is_done h"
  shows "handler_ok D REQUEST_STATE_NEW (insert (length (rh_executions h)) A) (add_execution None h)"
proof (rule handler_okI)
  let ?h = "add_execution None h"
  have h: "is_done ?h = is_done h" "rh_timer ?h = rh_timer h" "rh_log ?h = rh_log h" "rh_running ?h = rh_running h + 1"
    "rh_assertion_failed ?h = rh_assertion_failed h" "rh_io_worker ?h = rh_io_worker h" "rh_plan ?h = rh_plan h"
    by (simp_all add: add_execution_def is_done_def)
  have "\<not> length (rh_executions h) \<in> A" using handler_okD(1) [OF ok] by blast
  then show "executions_ok REQUEST_STATE_NEW (insert (length (rh_executions h)) A) (is_done ?h) (rh_executions ?h)"
    using ok open' unfolding h handler_ok_def executions_ok_def
    by (auto simp: add_execution_def nth_append active_def less_Suc_eq)
  show "insert (length (rh_executions h)) A \<subseteq> {..< length (rh_executions ?h)}"
    using handler_okD(1) [OF ok] by (auto simp: add_execution_def less_Suc_eq)
  show "rh_running ?h = int (unfinished ?h)"
    using handler_okD(7) [OF ok] by (simp add: add_execution_def unfinished_def)
  show "separate ?h" if D
    using handler_okD(10) [OF ok that] by (auto simp: separate_def add_execution_def nth_append less_Suc_eq)
qed (use handler_okD(4-9,12) [OF ok] open' in \<open>simp_all add: add_execution_def is_done_def\<close>)

lemma execute_ok:
  assumes "handler_ok D REQUEST_STATE_NEW (insert e A) h" "e \<notin> A" "\<not> is_done h"
  shows "handler_ok D REQUEST_STATE_NEW A (execute pools e h)"
  using assms
proof (induction pools e h arbitrary: A rule: execute.induct)
  case (1 pools e h)
  obtain timeout plan where next': "next_execution (rh_execution_plan h) = (timeout, plan)" by force
  let ?h = "h\<lparr>rh_execution_plan := plan\<rparr>" and ?e = "length (rh_executions h)"
  have h: "handler_ok D REQUEST_STATE_NEW (insert e A) ?h"
    by (rule handler_ok_fields [OF 1(2)]) simp_all
  have added: "handler_ok D REQUEST_STATE_NEW (insert ?e (insert e A)) (add_execution None ?h)"
    using add_execution_ok [OF h] 1(4) by (simp add: is_done_def)
  have fresh: "?e \<notin> insert e A" using handler_okD(1) [OF 1(2)] by blast
  have open': "\<not> is_done (add_execution None ?h)" using 1(4) by (simp add: add_execution_def is_done_def)
  have new: "handler_ok D REQUEST_STATE_NEW (insert e A) (set_phase ?e Scheduled (add_execution None ?h))"
    by (rule settle_ok [OF added fresh]) (use open' in \<open>simp_all add: settled_def add_execution_def\<close>)
  have next_host: "handler_ok D REQUEST_STATE_NEW (insert ?e (insert e A)) (execution_next_host ?e (add_execution None ?h))"
    by (rule next_host_ok [OF added]) simp
  have open'': "\<not> is_done (execution_next_host ?e (add_execution None ?h))"
    using open' by (simp add: execution_next_host_def Let_def)
  let ?g = "if \<not> rq_is_idempotent (rh_request h) then h
        else let (timeout, plan) = next_execution (rh_execution_plan h);
                 h = h\<lparr>rh_execution_plan := plan\<rparr>;
                 e' = length (rh_executions h)
             in if timeout < 0 then h
                else if timeout > 0 then set_phase e' Scheduled (add_execution None h)
                else execute pools e' (execution_next_host e' (add_execution None h))"
  have "handler_ok D REQUEST_STATE_NEW (insert e A) ?g"
  proof (cases "rq_is_idempotent (rh_request h) \<and> timeout = 0")
    case True
    then have "handler_ok D REQUEST_STATE_NEW (insert e A) (execute pools ?e (execution_next_host ?e (add_execution None ?h)))"
      using 1(1) [OF _ next' [symmetric] refl refl, where A = "insert e A"] next_host open'' fresh by simp
    then show ?thesis using True next' by (simp add: Let_def)
  next
    case False
    then show ?thesis using next' h new 1(2) by (auto simp: Let_def)
  qed
  then have "handler_ok D REQUEST_STATE_NEW A (IOWorker_retry pools e ?g)"
    by (rule IOWorker_retry_ok) (rule 1(3))
  then show ?case by (subst execute.simps)
qed

subsection \<open>Responses\<close>

lemma set_response_ok:
  assumes "handler_ok D s A h" "B \<subseteq> A" "ex_host (execution_at h e) \<noteq> None"
  shows "handler_ok D REQUEST_STATE_NEW B (execution_set_response e m h)"
  using assms(3) finish_with_ok [OF assms(1,2)]
  by (auto simp: execution_set_response_def RequestHandler_set_response_def)

lemma set_error_with_response_ok:
  assumes "handler_ok D s A h" "B \<subseteq> A" "ex_host (execution_at h e) \<noteq> None"
  shows "handler_ok D REQUEST_STATE_NEW B (execution_set_error_with_error_response e m code h)"
  using assms(3) finish_with_ok [OF assms(1,2)]
  by (auto simp: execution_set_error_with_error_response_def RequestHandler_set_error_with_error_response_def)

lemma execution_on_error_ok:
  assumes "handler_ok D s {e} h" "code \<noteq> CASS_ERROR_LIB_NO_HOSTS_AVAILABLE"
  shows "handler_ok D REQUEST_STATE_NEW {} (execution_on_error pools e code h)"
  using retry_next_host_ok [OF return_connection_ok [OF assms(1)]] on_unrecoverable_error_ok [OF assms, of "{}"]
  by (simp add: execution_on_error_def)

lemma settle_finished:
  assumes ok: "handler_ok D REQUEST_STATE_FINISHED {e} h" and phase: "ph \<noteq> Exhausted" "ph \<noteq> Scheduled"
    and fin: "ph = In_flight \<Longrightarrow> \<not> is_done h"
    and settled: "settled (is_done h) ((execution_at h e)\<lparr>ex_phase := ph\<rparr>)"
  shows "handler_ok D REQUEST_STATE_NEW {} (set_phase e ph h)"
proof -
  have "handler_ok D REQUEST_STATE_FINISHED {} (set_phase e ph h)"
    by (rule handler_ok_update [OF ok])
       (use handler_okD(1,2) [OF ok, of e] assms in \<open>auto simp: active_def split: if_splits\<close>)
  then show ?thesis by (rule handler_ok_none) simp
qed

lemma on_result_response_ok:
  assumes ok: "handler_ok D REQUEST_STATE_FINISHED {e} h" and host: "ex_host (execution_at h e) \<noteq> None"
  shows "handler_ok D REQUEST_STATE_NEW {} (execution_on_result_response pools e m result h)"
proof -
  have e: "active REQUEST_STATE_FINISHED (is_done h) (execution_at h e)" using handler_okD(2) [OF ok] by simp
  have noted: "handler_ok D REQUEST_STATE_NEW {} (execution_set_response e m' (note_call n h))"
    if "n \<noteq> Request_finished" for n m'
    using host by (intro set_response_ok [OF note_call_ok [OF that ok]]) simp_all
  have rows: "handler_ok D REQUEST_STATE_NEW {} (execution_on_error pools e CASS_ERROR_LIB_UNEXPECTED_RESPONSE
      (note_call (Update_latency p) h))" for p
    by (rule execution_on_error_ok [OF note_call_ok [OF _ ok]]) simp_all
  have agreeing: "handler_ok D REQUEST_STATE_NEW {} (set_phase e (Agreeing m 0) h)"
    by (rule settle_finished [OF ok]) (use e host in \<open>auto simp: settled_def active_def\<close>)
  have plain: "handler_ok D REQUEST_STATE_NEW {} (execution_set_response e m h)"
    by (rule set_response_ok [OF ok _ host]) simp
  show ?thesis
    using host noted rows agreeing plain by (auto simp: execution_on_result_response_def Let_def)
qed

lemma on_error_unprepared_ok:
  assumes ok: "handler_ok D REQUEST_STATE_FINISHED {e} h" and host: "ex_host (execution_at h e) \<noteq> None"
  shows "handler_ok D REQUEST_STATE_NEW {} (on_error_unprepared pools e stream error h)"
proof -
  have e: "active REQUEST_STATE_FINISHED (is_done h) (execution_at h e)" using handler_okD(2) [OF ok] by simp
  have preparing: "handler_ok D REQUEST_STATE_NEW {} (set_phase e Preparing h)"
    by (rule settle_finished [OF ok]) (use e host in \<open>auto simp: settled_def active_def\<close>)
  have error: "handler_ok D REQUEST_STATE_NEW {} (execution_set_error e CASS_ERROR_LIB_UNEXPECTED_RESPONSE h)"
    "handler_ok D REQUEST_STATE_NEW {} (execution_set_error e CASS_ERROR_LIB_UNEXPECTED_RESPONSE (connection_defunct e h))"
    using set_error_on_host_ok [OF ok, of CASS_ERROR_LIB_UNEXPECTED_RESPONSE "{}" REQUEST_STATE_NEW]
      set_error_on_host_ok [OF connection_defunct_ok [OF ok], of CASS_ERROR_LIB_UNEXPECTED_RESPONSE "{}" REQUEST_STATE_NEW]
    by (simp_all add: execution_set_error_def)
  show ?thesis
    using preparing error retry_current_host_ok [OF ok] by (simp add: on_error_unprepared_def)
qed

lemma settled_num_retries [simp]:
  "settled fin (x\<lparr>ex_num_retries := n\<rparr>) = settled fin x" "settled fin (x\<lparr>ex_consistency := cl\<rparr>) = settled fin x"
  by (simp_all add: settled_def split: phase.split)

lemma apply_decision_ok:
  assumes ok: "handler_ok D REQUEST_STATE_FINISHED {e} h" and host: "ex_host (execution_at h e) \<noteq> None"
  shows "handler_ok D REQUEST_STATE_NEW {} (apply_decision pools e m error decision h)"
proof -
  have cl: "handler_ok D REQUEST_STATE_FINISHED {e} (update_execution e (\<lambda>x. x\<lparr>ex_consistency := cl\<rparr>) h)" for cl
    by (rule active_update [OF ok]) simp_all
  have retries: "handler_ok D REQUEST_STATE_NEW {} (update_execution e (\<lambda>x. x\<lparr>ex_num_retries := ex_num_retries x + 1\<rparr>) g)"
    if g: "handler_ok D REQUEST_STATE_NEW {} g" for g
  proof (cases "e < length (rh_executions g)")
    case True
    then show ?thesis by (rule handler_ok_update [OF g]) (use handler_okD(3) [OF g True] in simp_all)
  next
    case False
    then show ?thesis using g by (simp add: update_execution_def list_update_beyond)
  qed
  show ?thesis
  proof (cases "decision_type decision")
    case RETURN_ERROR
    then show ?thesis using set_error_with_response_ok [OF ok _ host] by (simp add: apply_decision_def)
  next
    case RETRY
    then show ?thesis
      using retries [OF retry_current_host_ok [OF cl]] retries [OF retry_next_host_ok [OF cl]]
      by (simp add: apply_decision_def Let_def)
  next
    case IGNORE
    then show ?thesis using set_response_ok [OF ok _ host] by (simp add: apply_decision_def)
  qed
qed

lemma error_decision_defined: "policy \<noteq> None \<Longrightarrow> \<exists>decision. error_decision policy request n error = Some decision"
  by (auto simp: error_decision_def Let_def)

lemma execution_on_set_ok:
  assumes ok: "handler_ok D REQUEST_STATE_FINISHED {e} h"
    and set: "ex_host (execution_at h e) \<noteq> None" "ex_connection (execution_at h e) \<noteq> None"
  shows "handler_ok D REQUEST_STATE_NEW {} (execution_on_set pools e stream m h)"
proof -
  let ?h = "return_connection e h"
  have ok': "handler_ok D REQUEST_STATE_FINISHED {e} ?h" by (rule return_connection_ok [OF ok])
  have host: "ex_host (execution_at ?h e) \<noteq> None" using set by simp
  have error: "handler_ok D REQUEST_STATE_NEW {} (execution_on_error_response pools e stream m error ?h)" for error
  proof -
    let ?g = "if er_code error = CQL_ERROR_SERVER_ERROR then connection_defunct e ?h else ?h"
    have g: "handler_ok D REQUEST_STATE_FINISHED {e} ?g" "ex_host (execution_at ?g e) \<noteq> None"
      using connection_defunct_ok [OF ok'] ok' host by (simp_all add: connection_defunct_def)
    obtain decision where
      "error_decision (rh_retry_policy ?g) (rh_request ?g) (ex_num_retries (execution_at ?g e)) error = Some decision"
      using error_decision_defined [OF handler_okD(12) [OF g(1)]] by blast
    then show ?thesis
      using retry_next_host_ok [OF ok'] on_error_unprepared_ok [OF ok' host] apply_decision_ok [OF g]
      by (simp add: execution_on_error_response_def Let_def)
  qed
  have unexpected: "handler_ok D REQUEST_STATE_NEW {}
      (execution_set_error e CASS_ERROR_LIB_UNEXPECTED_RESPONSE (connection_defunct e ?h))"
    using set_error_on_host_ok [OF connection_defunct_ok [OF ok'], of CASS_ERROR_LIB_UNEXPECTED_RESPONSE "{}" REQUEST_STATE_NEW]
    by (simp add: execution_set_error_def)
  show ?thesis
    using set error unexpected on_result_response_ok [OF ok' host]
    by (cases "mb_body m") (auto simp: execution_on_set_def Let_def)
qed

subsection \<open>Steps\<close>

lemma waitsD:
  assumes "waits h e ph" "handler_ok D REQUEST_STATE_NEW {} h"
  shows "e < length (rh_executions h)" "ex_phase (execution_at h e) = ph" "settled (is_done h) (execution_at h e)"
  using assms handler_okD(3) [OF assms(2)] by (auto simp: waits_def)

text \<open>The state an execution is in when what it waits for happens.\<close>

fun resumed_state :: "'addr phase \<Rightarrow> request_state" where
  "resumed_state Preparing = REQUEST_STATE_FINISHED"
| "resumed_state (Agreeing m n) = REQUEST_STATE_FINISHED"
| "resumed_state ph = REQUEST_STATE_NEW"

lemma resume_ok:
  assumes ok: "handler_ok D REQUEST_STATE_NEW {} h" and w: "waits h e ph"
    and ph: "ph \<notin> {Idle, In_flight, Exhausted}"
  shows "handler_ok D (resumed_state ph) {e} (resume e h)"
  by (rule handler_ok_single [OF ok])
     (use waitsD [OF w ok] ph in \<open>cases ph; auto simp: settled_def active_def split: if_splits\<close>)+

lemma finish_execution_ok:
  assumes ok: "handler_ok D REQUEST_STATE_NEW {} h" and w: "waits h e In_flight"
    and live: "ex_state (execution_at h e) \<in> live_states"
  shows "handler_ok D REQUEST_STATE_FINISHED {e} (finish_execution REQUEST_STATE_FINISHED e h)"
    and "ex_host (execution_at (finish_execution REQUEST_STATE_FINISHED e h) e) \<noteq> None"
    and "ex_connection (execution_at (finish_execution REQUEST_STATE_FINISHED e h) e) \<noteq> None"
proof -
  note e = waitsD [OF w ok]
  have open': "\<not> is_done h"
    using e live by (auto simp: settled_def live_states_def cancelled_states_def split: if_splits)
  have eq: "finish_execution REQUEST_STATE_FINISHED e h =
      update_execution e (\<lambda>x. x\<lparr>ex_state := REQUEST_STATE_FINISHED, ex_phase := Idle\<rparr>) h"
    using live e(1) by (auto simp: finish_execution_def execution_set_state_def update_execution_def live_states_def)
  show "handler_ok D REQUEST_STATE_FINISHED {e} (finish_execution REQUEST_STATE_FINISHED e h)"
    unfolding eq by (rule handler_ok_single [OF ok]) (use e open' in \<open>simp_all add: active_def\<close>)
  show "ex_host (execution_at (finish_execution REQUEST_STATE_FINISHED e h) e) \<noteq> None"
    "ex_connection (execution_at (finish_execution REQUEST_STATE_FINISHED e h) e) \<noteq> None"
    unfolding eq using e open' by (simp_all add: settled_def)
qed

lemma cancelled_step_ok:
  assumes ok: "handler_ok D REQUEST_STATE_NEW {} h" and w: "waits h e In_flight"
    and cancelled: "ex_state (execution_at h e) \<in> cancelled_states"
  shows "handler_ok D REQUEST_STATE_NEW {} (finish_execution REQUEST_STATE_CANCELLED e h)"
proof -
  note e = waitsD [OF w ok]
  have fin: "is_done h"
    using e cancelled by (auto simp: settled_def live_states_def cancelled_states_def split: if_splits)
  have eq: "finish_execution REQUEST_STATE_CANCELLED e h =
      update_execution e (\<lambda>x. x\<lparr>ex_state := REQUEST_STATE_CANCELLED, ex_phase := Idle\<rparr>) h"
    using cancelled e(1)
    by (auto simp: finish_execution_def execution_set_state_def update_execution_def cancelled_states_def)
  show ?thesis
    unfolding eq by (rule handler_ok_update [OF ok]) (use e fin in \<open>simp_all add: settled_def\<close>)
qed

lemma moved_ok:
  assumes ok: "handler_ok D REQUEST_STATE_NEW {} h" and w: "waits h e In_flight"
    and moves: "connection_moves (ex_state (execution_at h e)) s"
  shows "handler_ok D REQUEST_STATE_NEW {} (execution_set_state e s h)"
proof -
  note e = waitsD [OF w ok]
  have "execution_set_state e s h = update_execution e (\<lambda>x. x\<lparr>ex_state := s\<rparr>) h"
    using moves by (cases rule: connection_moves.cases) (simp_all add: execution_set_state_def)
  also have "settled (is_done h) ((execution_at h e)\<lparr>ex_state := s\<rparr>)"
    using moves e by (cases rule: connection_moves.cases) (auto simp: settled_def live_states_def cancelled_states_def split: if_splits)
  then have "handler_ok D REQUEST_STATE_NEW {} (update_execution e (\<lambda>x. x\<lparr>ex_state := s\<rparr>) h)"
    by (intro handler_ok_update [OF ok]) (use e in simp_all)
  finally show ?thesis .
qed

lemma resume_host:
  assumes "handler_ok D REQUEST_STATE_NEW {} h" "waits h e ph" "ph \<notin> {Idle, Scheduled, In_flight, Exhausted}"
  shows "ex_host (execution_at (resume e h) e) \<noteq> None"
  using waitsD [OF assms(2,1)] assms(3) by (cases ph) (auto simp: settled_def split: if_splits)

lemma Pool_serve_ok:
  assumes ok: "handler_ok D REQUEST_STATE_NEW {e} h" and host: "ex_host (execution_at h e) \<noteq> None"
  shows "handler_ok D REQUEST_STATE_NEW {} (Pool_serve pools w p c e h)"
proof (cases "Pool_write w p c e h")
  case (Pair written h')
  show ?thesis
  proof (cases written)
    case True
    then show ?thesis using Pool_write_ok [OF ok _ host] Pair by (simp add: Pool_serve_def)
  next
    case False
    then have h': "h' = update_execution e (\<lambda>x. x\<lparr>ex_pool := Some p\<rparr>) h" using Pair Pool_write_False by simp
    have "handler_ok D REQUEST_STATE_NEW {e} h'" unfolding h' by (rule active_update [OF ok]) simp_all
    then show ?thesis using False Pair retry_next_host_ok by (simp add: Pool_serve_def)
  qed
qed

lemma SetKeyspace_on_set_ok:
  assumes ok: "handler_ok D REQUEST_STATE_NEW {e} h" and host: "ex_host (execution_at h e) \<noteq> None" and m: "is_reply m"
  shows "handler_ok D REQUEST_STATE_NEW {} (SetKeyspaceCallback_on_set pools w c e m h)"
proof -
  have error: "handler_ok D REQUEST_STATE_NEW {}
      (execution_on_error pools e CASS_ERROR_LIB_UNABLE_TO_SET_KEYSPACE (defunct_connection c h))"
    by (rule execution_on_error_ok [OF defunct_connection_ok [OF ok]]) simp
  have attempt: "handler_ok D REQUEST_STATE_NEW {}
      (let (written, h) = write_execution w c e h in if written then h else execution_retry_current_host pools e h)"
  proof (cases "write_execution w c e h")
    case (Pair written h')
    then show ?thesis
      using write_execution_ok [OF ok _ host] write_execution_False [of w c e h h'] retry_current_host_ok [OF ok]
      by (cases written) auto
  qed
  show ?thesis using m error attempt by (cases "mb_body m") (auto simp: SetKeyspaceCallback_on_set_def is_reply_def)
qed

lemma PrepareCallback_on_set_ok:
  assumes "handler_ok D s {e} h" "is_reply m"
  shows "handler_ok D REQUEST_STATE_NEW {} (PrepareCallback_on_set pools e m h)"
  using assms(2) retry_current_host_ok [OF assms(1)] retry_next_host_ok [OF assms(1)]
  by (cases "mb_body m") (auto simp: PrepareCallback_on_set_def is_reply_def)

lemma SchemaChange_on_set_ok:
  assumes ok: "handler_ok D REQUEST_STATE_FINISHED {e} h" and host: "ex_host (execution_at h e) \<noteq> None"
  shows "handler_ok D REQUEST_STATE_NEW {} (SchemaChangeCallback_on_set e m elapsed agreed passed h)"
proof (cases "is_done h")
  case True
  then have "ex_state (execution_at h e) = REQUEST_STATE_CANCELLED"
    using handler_okD(2) [OF ok, of e] by (simp add: active_def)
  then show ?thesis
    using handler_ok_done [OF ok True, of "{}" REQUEST_STATE_NEW] by (simp add: SchemaChangeCallback_on_set_def)
next
  case False
  have e: "active REQUEST_STATE_FINISHED False (execution_at h e)" using handler_okD(2) [OF ok] False by simp
  have "handler_ok D REQUEST_STATE_NEW {} (set_phase e (Agreeing m (elapsed + passed)) h)"
    by (rule settle_finished [OF ok]) (use e host False in \<open>auto simp: settled_def active_def\<close>)
  then show ?thesis
    using set_response_ok [OF ok _ host] e by (simp add: SchemaChangeCallback_on_set_def active_def)
qed

lemma handler_step_ok:
  assumes step: "handler_step h h'" and ok: "handler_ok D REQUEST_STATE_NEW {} h"
  shows "handler_ok D REQUEST_STATE_NEW {} h'"
  using step
proof cases
  case timeout
  have "handler_ok D REQUEST_STATE_NEW {} (h\<lparr>rh_timer := False\<rparr>)" by (rule handler_ok_fields [OF ok]) simp_all
  then show ?thesis
    using finish_with_ok unfolding timeout(1) RequestHandler_on_timeout_def RequestHandler_set_error_def by blast
next
  case (scheduled e pools)
  have "\<not> is_done h" using waitsD [OF scheduled(2) ok] by (auto simp: settled_def split: if_splits)
  then have open': "\<not> is_done (execution_next_host e (resume e h))" by (simp add: execution_next_host_def Let_def)
  have "handler_ok D REQUEST_STATE_NEW {e} (execution_next_host e (resume e h))"
    using next_host_ok [OF resume_ok [OF ok scheduled(2)]] by simp
  then show ?thesis using execute_ok [of D e "{}", OF _ _ open'] unfolding scheduled(1) on_execute_def by simp
next
  case (served e pool pools w connection)
  show ?thesis unfolding served(1)
    by (rule Pool_serve_ok) (use resume_ok [OF ok served(2)] resume_host [OF ok served(2)] in simp_all)
next
  case (dropped e pools)
  show ?thesis unfolding dropped(1) Pool_drop_def
    by (rule retry_next_host_ok) (use resume_ok [OF ok dropped(2)] in simp)
next
  case (moved e s)
  show ?thesis unfolding moved(1) by (rule moved_ok [OF ok moved(2,3)])
next
  case (responded e pools stream m)
  then have "ex_state (execution_at h e) \<in> live_states" by (auto simp: live_states_def)
  then show ?thesis unfolding responded(1)
    by (intro execution_on_set_ok finish_execution_ok [OF ok responded(2)])
next
  case (write_error e pools)
  then have "ex_state (execution_at h e) \<in> live_states" by (simp add: live_states_def)
  then show ?thesis unfolding write_error(1)
    by (intro execution_on_error_ok [OF finish_execution_ok(1) [OF ok write_error(2)]]) simp_all
next
  case (closed e pools)
  then have "ex_state (execution_at h e) \<in> live_states" by (auto simp: live_states_def)
  then have "handler_ok D REQUEST_STATE_FINISHED {e} (finish_execution REQUEST_STATE_FINISHED e h)"
    by (rule finish_execution_ok [OF ok closed(2)])
  then show ?thesis
    using execution_on_error_ok retry_next_host_ok return_connection_ok
    unfolding closed(1) execution_on_retry_def Let_def by (simp split: if_split) blast
next
  case (cancelled e)
  show ?thesis unfolding cancelled(1) execution_on_cancel_def
    by (rule return_connection_ok [OF cancelled_step_ok [OF ok cancelled(2,3)]])
next
  case (keyspace_reply e connection m pools w)
  show ?thesis unfolding keyspace_reply(1)
    by (rule SetKeyspace_on_set_ok)
       (use resume_ok [OF ok keyspace_reply(2)] resume_host [OF ok keyspace_reply(2)] keyspace_reply(3) in simp_all)
next
  case (keyspace_error e connection pools)
  show ?thesis unfolding keyspace_error(1) SetKeyspaceCallback_on_internal_error_def
    by (rule execution_on_error_ok, rule defunct_connection_ok) (use resume_ok [OF ok keyspace_error(2)] in simp_all)
next
  case (keyspace_timeout e connection pools)
  show ?thesis unfolding keyspace_timeout(1) SetKeyspaceCallback_on_internal_timeout_def
    by (rule retry_next_host_ok) (use resume_ok [OF ok keyspace_timeout(2)] in simp)
next
  case (prepare_reply e m pools)
  show ?thesis unfolding prepare_reply(1)
    by (rule PrepareCallback_on_set_ok [OF resume_ok [OF ok prepare_reply(2)] prepare_reply(3)]) simp
next
  case (prepare_error e pools)
  show ?thesis unfolding prepare_error(1) PrepareCallback_on_internal_error_def
    by (rule retry_next_host_ok [OF resume_ok [OF ok prepare_error(2)]]) simp
next
  case (prepare_timeout e pools)
  show ?thesis unfolding prepare_timeout(1) PrepareCallback_on_internal_timeout_def
    by (rule retry_next_host_ok [OF resume_ok [OF ok prepare_timeout(2)]]) simp
next
  case (agreement e m elapsed agreed passed)
  show ?thesis unfolding agreement(1)
    by (rule SchemaChange_on_set_ok) (use resume_ok [OF ok agreement(2)] resume_host [OF ok agreement(2)] in simp_all)
next
  case (agreement_failure e m elapsed)
  show ?thesis unfolding agreement_failure(1) SchemaChangeCallback_on_failure_def
    by (rule set_response_ok [OF resume_ok [OF ok agreement_failure(2)]])
       (use resume_host [OF ok agreement_failure(2)] in simp_all)
qed

subsection \<open>The start of a run\<close>

lemma choose_host_accepted:
  "choose_host accepts h = (True, h') \<Longrightarrow>
     \<exists>p ps. h' = h\<lparr>rh_current_host := Some p, rh_plan := ps\<rparr> \<and> suffix (p # ps) (rh_plan h)"
proof (induction accepts h rule: choose_host.induct)
  case (1 accepts h)
  show ?case
  proof (cases "rh_plan h")
    case Nil
    then show ?thesis using "1.prems" by (subst (asm) choose_host.simps) (simp add: RequestHandler_next_host_def)
  next
    case (Cons p ps)
    let ?h = "h\<lparr>rh_current_host := Some p, rh_plan := ps\<rparr>"
    have h: "RequestHandler_next_host h = ?h" using Cons by (simp add: RequestHandler_next_host_def)
    show ?thesis
    proof (cases "accepts (length ps) p")
      case True
      then have "h' = ?h" using "1.prems" h by (subst (asm) choose_host.simps) simp
      then show ?thesis using Cons by auto
    next
      case False
      then have "choose_host accepts ?h = (True, h')" using "1.prems" h by (subst (asm) choose_host.simps) simp
      then obtain q qs where "h' = ?h\<lparr>rh_current_host := Some q, rh_plan := qs\<rparr>" "suffix (q # qs) ps"
        using "1.IH" [OF refl] h False by auto
      then show ?thesis using Cons by (auto intro: suffix_ConsI)
    qed
  qed
qed

lemma choose_host_refused:
  "choose_host accepts h = (False, h') \<Longrightarrow>
     h' = RequestHandler_set_error CASS_ERROR_LIB_NO_HOSTS_AVAILABLE (h\<lparr>rh_current_host := None, rh_plan := []\<rparr>)"
proof (induction accepts h rule: choose_host.induct)
  case (1 accepts h)
  show ?case
  proof (cases "rh_plan h")
    case Nil
    then have eq: "h\<lparr>rh_current_host := None, rh_plan := []\<rparr> = h\<lparr>rh_current_host := None\<rparr>" by simp
    have "h' = RequestHandler_set_error CASS_ERROR_LIB_NO_HOSTS_AVAILABLE (h\<lparr>rh_current_host := None\<rparr>)"
      using "1.prems" Nil by (subst (asm) choose_host.simps) (simp add: RequestHandler_next_host_def)
    then show ?thesis by (simp only: eq)
  next
    case (Cons p ps)
    let ?h = "h\<lparr>rh_current_host := Some p, rh_plan := ps\<rparr>"
    have h: "RequestHandler_next_host h = ?h" using Cons by (simp add: RequestHandler_next_host_def)
    have not: "\<not> accepts (length ps) p" using "1.prems" h by (subst (asm) choose_host.simps) (simp add: Let_def split: if_splits)
    then have "choose_host accepts ?h = (False, h')" using "1.prems" h by (subst (asm) choose_host.simps) simp
    then have "h' = RequestHandler_set_error CASS_ERROR_LIB_NO_HOSTS_AVAILABLE (?h\<lparr>rh_current_host := None, rh_plan := []\<rparr>)"
      using "1.IH" [OF refl] h not by auto
    then show ?thesis by simp
  qed
qed

text \<open>A request that no I/O worker takes is finished at once.\<close>

definition never_begun :: "'addr request_handler \<Rightarrow> bool" where
  "never_begun h \<longleftrightarrow> is_done h \<and> rh_executions h = [] \<and> rh_log h = [] \<and>
     \<not> rh_timer h \<and> \<not> rh_io_worker h \<and> \<not> rh_assertion_failed h"

lemma refused_ok:
  assumes "choose_host accepts (RequestHandler_new request (Some policy) plan execution_plan) = (False, h)"
  shows "never_begun h"
proof -
  let ?h = "(RequestHandler_new request (Some policy) plan execution_plan)\<lparr>rh_current_host := None, rh_plan := []\<rparr>"
  have h: "h = RequestHandler_set_error CASS_ERROR_LIB_NO_HOSTS_AVAILABLE ?h"
    by (rule choose_host_refused [OF assms])
  have "\<not> is_done ?h" by (simp add: is_done_def RequestHandler_new_def)
  then have "h = stop_request (?h\<lparr>rh_future := Some (Error_set None CASS_ERROR_LIB_NO_HOSTS_AVAILABLE None)\<rparr>)"
    unfolding h RequestHandler_set_error_def by (rule finish_with_open)
  then show ?thesis by (simp add: never_begun_def stop_request_eq is_done_def RequestHandler_new_def)
qed

lemma begun_ok:
  assumes "choose_host accepts (RequestHandler_new request (Some policy) plan execution_plan) = (True, h)"
  shows "handler_ok (distinct plan) REQUEST_STATE_NEW {} (begin_request pools h)"
proof -
  obtain p ps where h: "h = (RequestHandler_new request (Some policy) plan execution_plan)\<lparr>rh_current_host := Some p, rh_plan := ps\<rparr>"
    and suffix: "suffix (p # ps) plan"
    using choose_host_accepted [OF assms] by (auto simp: RequestHandler_new_def)
  have plan: "distinct (p # ps)" if "distinct plan" using suffix that by (auto simp: suffix_def)
  let ?h = "add_execution (rh_current_host (start_request h)) (start_request h)"
  have "handler_ok (distinct plan) REQUEST_STATE_NEW {0} ?h"
    by (rule handler_okI)
       (use plan in \<open>auto simp: h add_execution_def start_request_def RequestHandler_new_def executions_ok_def active_def
          unfinished_def is_done_def separate_def\<close>)
  moreover have "\<not> is_done ?h" by (simp add: h add_execution_def start_request_def RequestHandler_new_def is_done_def)
  ultimately show ?thesis
    using execute_ok [of "distinct plan" 0 "{}" ?h]
    by (simp add: begin_request_def Let_def h start_request_def RequestHandler_new_def)
qed

lemma handler_run_ok:
  assumes "handler_run request plan h"
  shows "never_begun h \<or> handler_ok (distinct plan) REQUEST_STATE_NEW {} h"
  using assms
proof induction
  case (step h h')
  show ?case
  proof (cases "never_begun h")
    case True
    with step(2) have False by (cases rule: handler_step.cases) (simp_all add: never_begun_def waits_def)
    then show ?thesis ..
  next
    case False
    then show ?thesis using step handler_step_ok by blast
  qed
qed (use refused_ok begun_ok in blast)+

subsection \<open>What no operation changes\<close>

definition continues :: "'addr request_handler \<Rightarrow> 'addr request_handler \<Rightarrow> bool" where
  "continues h h' \<longleftrightarrow> rh_request h' = rh_request h \<and> rh_retry_policy h' = rh_retry_policy h \<and>
     (is_done h \<longrightarrow> rh_future h' = rh_future h) \<and>
     (\<not> rq_is_idempotent (rh_request h) \<longrightarrow> length (rh_executions h') = length (rh_executions h))"

named_theorems continues_intros

lemma continues_refl [continues_intros]: "continues h h"
  by (simp add: continues_def)

lemma continues_trans: "continues h h' \<Longrightarrow> continues h' h'' \<Longrightarrow> continues h h''"
  by (auto simp: continues_def is_done_def)

lemma continues_update [continues_intros]: "continues h h' \<Longrightarrow> continues h (update_execution e f h')"
  by (simp add: continues_def)

lemma continues_note [continues_intros]: "continues h h' \<Longrightarrow> continues h (note_call n h')"
  by (simp add: continues_def)

lemma continues_assertion [continues_intros]: "continues h h' \<Longrightarrow> continues h (h'\<lparr>rh_assertion_failed := b\<rparr>)"
  by (simp add: continues_def)

lemma continues_timer [continues_intros]: "continues h h' \<Longrightarrow> continues h (h'\<lparr>rh_timer := b\<rparr>)"
  by (simp add: continues_def)

lemma continues_running [continues_intros]: "continues h h' \<Longrightarrow> continues h (h'\<lparr>rh_running := n\<rparr>)"
  by (simp add: continues_def)

lemma continues_next_host [continues_intros]: "continues h h' \<Longrightarrow> continues h (execution_next_host e h')"
  by (simp add: continues_def execution_next_host_def RequestHandler_next_host_def split: list.split)

lemma continues_state [continues_intros]: "continues h h' \<Longrightarrow> continues h (execution_set_state e s h')"
  by (auto simp: execution_set_state_def intro: continues_intros split: option.split)

lemma continues_finish [continues_intros]: "continues h h' \<Longrightarrow> continues h (finish_with r h')"
proof (rule continues_trans)
  show "continues h' (finish_with r h')"
    by (cases "is_done h'")
       (simp_all add: finish_with_done finish_with_open stop_request_eq continues_def)
qed

lemma continues_return [continues_intros]: "continues h h' \<Longrightarrow> continues h (return_connection e h')"
  by (auto simp: return_connection_def intro: continues_intros split: option.split)

lemma continues_error [continues_intros]: "continues h h' \<Longrightarrow> continues h (execution_set_error e code h')"
  by (auto simp: execution_set_error_def RequestHandler_set_error_on_host_def RequestHandler_set_error_def Let_def
      intro: continues_intros split: option.split)

lemma continues_error_response [continues_intros]:
  "continues h h' \<Longrightarrow> continues h (execution_set_error_with_error_response e m code h')"
  by (auto simp: execution_set_error_with_error_response_def RequestHandler_set_error_with_error_response_def
      intro: continues_intros split: option.split)

lemma continues_response [continues_intros]: "continues h h' \<Longrightarrow> continues h (execution_set_response e m h')"
  by (auto simp: execution_set_response_def RequestHandler_set_response_def intro: continues_intros split: option.split)

lemma continues_unrecoverable [continues_intros]: "continues h h' \<Longrightarrow> continues h (on_unrecoverable_error e code h')"
  by (simp add: on_unrecoverable_error_def continues_intros)

lemma continues_write [continues_intros]: "continues h h' \<Longrightarrow> continues h (snd (write_execution w c e h'))"
  by (auto simp: write_execution_def execution_start_def on_start_def Let_def intro!: continues_intros split: option.split)

lemma continues_Pool_write [continues_intros]: "continues h h' \<Longrightarrow> continues h (snd (Pool_write w p c e h'))"
  by (auto simp: Pool_write_def Let_def intro!: continues_intros)

lemma continues_retry [continues_intros]: "continues h h' \<Longrightarrow> continues h (IOWorker_retry pools e h')"
proof (induction pools e h' rule: IOWorker_retry.induct)
  case (1 pools e h')
  show ?case
  proof (cases "host_of h' e")
    case None
    then show ?thesis using "1.prems" by (subst IOWorker_retry.simps) (simp add: give_up_def continues_intros)
  next
    case (Some p)
    show ?thesis
    proof (cases "pools (length (rh_plan h')) p")
      case (Borrowed w)
      obtain written h'' where w: "Pool_write w p p e h' = (written, h'')" by force
      have "continues h h''" using continues_Pool_write [OF "1.prems", of w p p e] w by simp
      then show ?thesis
        using Some Borrowed w "1.IH"(2) [OF Some Borrowed w [symmetric]]
        by (subst IOWorker_retry.simps) (auto simp: continues_intros split: bool.split)
    qed (use "1.prems" "1.IH"(1) [OF Some] Some in
        \<open>subst IOWorker_retry.simps, simp add: wait_for_connection_def continues_intros\<close>)+
  qed
qed

lemma continues_retry_current [continues_intros]:
  "continues h h' \<Longrightarrow> continues h (execution_retry_current_host pools e h')"
  by (simp add: execution_retry_current_host_def continues_intros)

lemma continues_retry_next [continues_intros]:
  "continues h h' \<Longrightarrow> continues h (execution_retry_next_host pools e h')"
  by (simp add: execution_retry_next_host_def continues_intros)

lemma continues_on_error [continues_intros]: "continues h h' \<Longrightarrow> continues h (execution_on_error pools e code h')"
  by (simp add: execution_on_error_def continues_intros)

lemma continues_add: "rq_is_idempotent (rh_request h') \<Longrightarrow> continues h h' \<Longrightarrow> continues h (add_execution p h')"
  by (auto simp: continues_def add_execution_def)

lemma continues_execute [continues_intros]: "continues h h' \<Longrightarrow> continues h (execute pools e h')"
proof (induction pools e h' rule: execute.induct)
  case (1 pools e h')
  obtain timeout plan where next': "next_execution (rh_execution_plan h') = (timeout, plan)" by force
  have plan: "continues h (h'\<lparr>rh_execution_plan := plan\<rparr>)" using "1.prems" by (simp add: continues_def)
  show ?case
  proof (cases "rq_is_idempotent (rh_request h')")
    case True
    then have "continues h (add_execution None (h'\<lparr>rh_execution_plan := plan\<rparr>))"
      using continues_add [OF _ plan] by simp
    then show ?thesis
      using True next' plan "1.IH" [OF _ next' [symmetric] refl refl]
      by (subst execute.simps) (auto simp: Let_def intro!: continues_intros)
  next
    case False
    then show ?thesis using "1.prems" by (subst execute.simps) (simp add: continues_intros)
  qed
qed

lemma continues_on_set [continues_intros]: "continues h h' \<Longrightarrow> continues h (execution_on_set pools e stream m h')"
proof -
  assume h: "continues h h'"
  have result: "continues h (execution_on_result_response pools e m result (return_connection e h'))" for result
    using h by (auto simp: execution_on_result_response_def Let_def intro!: continues_intros split: option.split)
  have decision: "continues h (apply_decision pools e m error d h'')" if "continues h h''" for error d h''
    using that by (auto simp: apply_decision_def Let_def intro!: continues_intros split: decision_type.split)
  have error: "continues h (execution_on_error_response pools e stream m error (return_connection e h'))" for error
    using h
    by (auto simp: execution_on_error_response_def on_error_unprepared_def connection_defunct_def Let_def
        intro!: continues_intros decision split: option.split)
  show ?thesis
    using h by (cases "mb_body m")
      (auto simp: execution_on_set_def Let_def connection_defunct_def intro!: continues_intros result error)
qed

lemma continues_serve [continues_intros]: "continues h h' \<Longrightarrow> continues h (Pool_serve pools w p c e h')"
  using continues_Pool_write [of h h' w p c e]
  by (cases "Pool_write w p c e h'") (simp add: Pool_serve_def continues_intros)

lemma continues_keyspace [continues_intros]:
  "continues h h' \<Longrightarrow> continues h (SetKeyspaceCallback_on_set pools w c e m h')"
  using continues_write [of h h' w c e]
  by (cases "write_execution w c e h'"; cases "mb_body m")
     (auto simp: SetKeyspaceCallback_on_set_def defunct_connection_def intro!: continues_intros)

lemma handler_step_continues: "handler_step h h' \<Longrightarrow> continues h h'"
  by (cases rule: handler_step.cases, assumption)
     (auto simp: RequestHandler_on_timeout_def RequestHandler_set_error_def on_execute_def Pool_drop_def finish_execution_def
        execution_on_retry_def execution_on_cancel_def SetKeyspaceCallback_on_internal_error_def defunct_connection_def
        SetKeyspaceCallback_on_internal_timeout_def PrepareCallback_on_set_def PrepareCallback_on_internal_error_def
        PrepareCallback_on_internal_timeout_def SchemaChangeCallback_on_set_def SchemaChangeCallback_on_failure_def Let_def
        intro!: continues_intros split: response_body.split)

subsection \<open>Properties of runs\<close>



text \<open>C12. When the hosts of the query plan are distinct, no two executions of a request are on the same host, and none of them
  is on a host that the plan has yet to yield.\<close>

theorem executions_on_distinct_hosts:
  assumes "handler_run request plan h" "distinct plan" "e < length (rh_executions h)"
    and "ex_host (execution_at h e) = Some p"
  shows "p \<notin> set (rh_plan h) \<and>
    (\<forall>e' < length (rh_executions h). e' \<noteq> e \<longrightarrow> ex_host (execution_at h e') \<noteq> Some p)"
  using handler_run_ok [OF assms(1)] assms(2-) by (auto simp: never_begun_def handler_ok_def separate_def)

lemma handler_run_request:
  assumes "handler_run request plan h"
  shows "rh_request h = request \<and> (\<not> rq_is_idempotent request \<longrightarrow> length (rh_executions h) \<le> 1)"
  using assms
proof induction
  case (refused accepts policy execution_plan h)
  let ?h = "(RequestHandler_new request (Some policy) plan execution_plan)\<lparr>rh_current_host := None, rh_plan := []\<rparr>"
  have "continues ?h h"
    unfolding choose_host_refused [OF refused] RequestHandler_set_error_def by (intro continues_intros)
  then have "rh_request h = request" by (simp add: continues_def RequestHandler_new_def)
  then show ?case using refused_ok [OF refused] by (simp add: never_begun_def)
next
  case (begun accepts policy execution_plan h pools)
  obtain p ps where h: "h = (RequestHandler_new request (Some policy) plan execution_plan)\<lparr>rh_current_host := Some p, rh_plan := ps\<rparr>"
    using choose_host_accepted [OF begun] by auto
  let ?h = "add_execution (rh_current_host (start_request h)) (start_request h)"
  have "continues ?h (begin_request pools h)"
    by (simp add: begin_request_def Let_def continues_intros)
  then show ?case by (simp add: continues_def h add_execution_def start_request_def RequestHandler_new_def)
next
  case (step h h')
  then show ?case using handler_step_continues [OF step(2)] by (auto simp: continues_def)
qed

lemma handler_run_open:
  assumes "handler_run request plan h" "waits h e In_flight" "ex_state (execution_at h e) \<in> live_states"
  shows "\<not> is_done h" "e < length (rh_executions h)" "ex_host (execution_at h e) \<noteq> None"
    "ex_connection (execution_at h e) \<noteq> None"
proof -
  have e: "e < length (rh_executions h)" "ex_phase (execution_at h e) = In_flight" using assms(2) by (simp_all add: waits_def)
  then have ok: "handler_ok (distinct plan) REQUEST_STATE_NEW {} h"
    using handler_run_ok [OF assms(1)] by (auto simp: never_begun_def)
  show "\<not> is_done h" "e < length (rh_executions h)" "ex_host (execution_at h e) \<noteq> None"
    "ex_connection (execution_at h e) \<noteq> None"
    using waitsD [OF assms(2) ok] assms(3) e(1)
    by (auto simp: settled_def live_states_def cancelled_states_def split: if_splits)
qed

lemma finish_with_future: "\<not> is_done h \<Longrightarrow> rh_future (finish_with r h) = Some r"
  by (simp add: finish_with_open stop_request_eq)

lemma error_returned:
  assumes "error_decision (rh_retry_policy h) (rh_request h) (ex_num_retries (execution_at h e)) error = Some RetryDecision_return_error"
    and "er_code error \<notin> {CQL_ERROR_IS_BOOTSTRAPPING, CQL_ERROR_UNPREPARED}"
    and "mb_body m = ErrorBody error" "\<not> is_done h" "ex_host (execution_at h e) = Some p"
    and "ex_connection (execution_at h e) \<noteq> None"
  shows "rh_future (execution_on_set pools e stream m h) = Some (Error_set (Some p) (From_server (er_code error)) (Some m))"
  using assms
  by (auto simp: execution_on_set_def execution_on_error_response_def apply_decision_def RetryDecision_return_error_def
      execution_set_error_with_error_response_def RequestHandler_set_error_with_error_response_def connection_defunct_def
      finish_with_future Let_def)

text \<open>C5. A request that is not idempotent has one execution at most, and a server that may have applied it, because it timed out
  while writing, was overloaded or failed, is not asked again: whatever the retry policy, the error is the result
  of the request.\<close>

theorem non_idempotent_not_retried:
  assumes "handler_run request plan h" "\<not> rq_is_idempotent request"
  shows "length (rh_executions h) \<le> 1 \<and>
    (\<forall>e pools stream m error.
      waits h e In_flight \<longrightarrow> ex_state (execution_at h e) \<in> {REQUEST_STATE_READING, REQUEST_STATE_READ_BEFORE_WRITE} \<longrightarrow>
      mb_body m = ErrorBody error \<longrightarrow>
      er_code error \<in> {CQL_ERROR_WRITE_TIMEOUT, CQL_ERROR_OVERLOADED, CQL_ERROR_SERVER_ERROR} \<longrightarrow>
      rh_future (execution_on_set pools e stream m (finish_execution REQUEST_STATE_FINISHED e h)) =
        Some (Error_set (ex_host (execution_at h e)) (From_server (er_code error)) (Some m)))"
proof -
  note run = handler_run_request [OF assms(1)]
  have "length (rh_executions h) \<le> 1" using run assms(2) by blast
  moreover have "\<forall>e pools stream m error.
      waits h e In_flight \<longrightarrow> ex_state (execution_at h e) \<in> {REQUEST_STATE_READING, REQUEST_STATE_READ_BEFORE_WRITE} \<longrightarrow>
      mb_body m = ErrorBody error \<longrightarrow>
      er_code error \<in> {CQL_ERROR_WRITE_TIMEOUT, CQL_ERROR_OVERLOADED, CQL_ERROR_SERVER_ERROR} \<longrightarrow>
      rh_future (execution_on_set pools e stream m (finish_execution REQUEST_STATE_FINISHED e h)) =
        Some (Error_set (ex_host (execution_at h e)) (From_server (er_code error)) (Some m))"
  proof (intro allI impI)
    fix e :: nat and pools stream and m :: "'a message_body" and error
    assume w: "waits h e In_flight"
      and state: "ex_state (execution_at h e) \<in> {REQUEST_STATE_READING, REQUEST_STATE_READ_BEFORE_WRITE}"
      and m: "mb_body m = ErrorBody error"
      and code: "er_code error \<in> {CQL_ERROR_WRITE_TIMEOUT, CQL_ERROR_OVERLOADED, CQL_ERROR_SERVER_ERROR}"
    have live: "ex_state (execution_at h e) \<in> live_states" using state by (auto simp: live_states_def)
    note e = handler_run_open [OF assms(1) w live]
    let ?h = "finish_execution REQUEST_STATE_FINISHED e h"
    have h: "?h = update_execution e (\<lambda>x. x\<lparr>ex_state := REQUEST_STATE_FINISHED, ex_phase := Idle\<rparr>) h"
      using live e(2) by (auto simp: finish_execution_def execution_set_state_def update_execution_def live_states_def)
    have "error_decision policy (rh_request ?h) n error = Some RetryDecision_return_error" for policy n
      using code run assms(2) by (auto simp: error_decision_def Let_def h)
    moreover obtain p where p: "ex_host (execution_at h e) = Some p" using e(3) by blast
    ultimately show "rh_future (execution_on_set pools e stream m ?h) =
        Some (Error_set (ex_host (execution_at h e)) (From_server (er_code error)) (Some m))"
      unfolding p by (intro error_returned) (use e code m p in \<open>auto simp: h\<close>)
  qed
  ultimately show ?thesis by blast
qed

subsection \<open>Examples\<close>

definition example_query :: request where
  "example_query =
     \<lparr>rq_opcode = 7, rq_is_idempotent = False, rq_consistency = CASS_CONSISTENCY_ONE, rq_timeout_ms = 0,
      rq_record_attempted_addresses = False, rq_skip_metadata = False, rq_result_metadata = None, rq_prepared_ids = []\<rparr>"

definition writes :: pools where
  "writes n p = Borrowed \<lparr>wa_same_keyspace = True, wa_stream = True, wa_encode_error = None\<rparr>"

text \<open>The request is written to the first of two hosts.\<close>

definition example_written :: "unit request_handler" where
  "example_written =
     (RequestHandler_new example_query (Some DefaultRetryPolicy) [2] NoSpeculativeExecutionPlan)\<lparr>
       rh_current_host := Some 1, rh_io_worker := True, rh_running := 1,
       rh_executions := [\<lparr>ex_state = REQUEST_STATE_WRITING, ex_host = Some 1, ex_pool = Some 1, ex_connection = Some 1,
         ex_num_retries = 0, ex_consistency = CASS_CONSISTENCY_UNKNOWN, ex_phase = In_flight\<rparr>]\<rparr>"

lemmas handler_eval =
  RequestHandler_new_def RequestHandler_next_host_def choose_host.simps execute.simps IOWorker_retry.simps begin_request_def
  start_request_def add_execution_def host_of_def Pool_write_def write_execution_def execution_start_def on_start_def
  execution_set_state_def update_execution_def note_call_def Let_def

lemma example_written_run: "handler_run example_query [1, 2] example_written"
proof -
  have h: "choose_host (\<lambda>n p. True) (RequestHandler_new example_query (Some DefaultRetryPolicy) [1, 2] NoSpeculativeExecutionPlan :: unit request_handler) =
      (True, (RequestHandler_new example_query (Some DefaultRetryPolicy) [2] NoSpeculativeExecutionPlan)\<lparr>rh_current_host := Some 1\<rparr>)"
    by (simp add: handler_eval)
  have "begin_request writes ((RequestHandler_new example_query (Some DefaultRetryPolicy) [2] NoSpeculativeExecutionPlan)\<lparr>
      rh_current_host := Some 1\<rparr>) = example_written"
    by (simp add: handler_eval writes_def example_written_def example_query_def)
  then show ?thesis using handler_run.begun [OF h, of writes] by simp
qed

definition example_read :: "unit request_handler" where
  "example_read = execution_set_state 0 REQUEST_STATE_READING example_written"

lemma example_read_run: "handler_run example_query [1, 2] example_read"
  unfolding example_read_def
  by (rule handler_run.step [OF example_written_run], rule handler_step.moved)
     (simp_all add: waits_def example_written_def connection_moves.intros)

lemma example_read_eq: "example_read = update_execution 0 (\<lambda>x. x\<lparr>ex_state := REQUEST_STATE_READING\<rparr>) example_written"
  by (simp add: example_read_def execution_set_state_def example_written_def)



lemma executions_on_distinct_hosts_witness: "(1 :: nat) \<notin> set (rh_plan example_read) \<and> rh_plan example_read = [2]"
  using executions_on_distinct_hosts [OF example_read_run, of 0 1]
  by (simp add: example_read_eq example_written_def RequestHandler_new_def)

abbreviation overload_error :: "unit message_body" where
  "overload_error \<equiv> \<lparr>mb_warnings = [], mb_payload = [], mb_body = ErrorBody (ErrorResponse_new\<lparr>er_code := CQL_ERROR_OVERLOADED\<rparr>)\<rparr>"

lemma non_idempotent_not_retried_witness:
  "length (rh_executions example_read) \<le> 1 \<and>
   rh_future (execution_on_set writes 0 True overload_error (finish_execution REQUEST_STATE_FINISHED 0 example_read)) =
     Some (Error_set (Some 1) (From_server CQL_ERROR_OVERLOADED) (Some overload_error))"
proof -
  have r: "\<not> rq_is_idempotent example_query" by (simp add: example_query_def)
  have e: "waits example_read 0 In_flight" "ex_state (execution_at example_read 0) = REQUEST_STATE_READING"
    "ex_host (execution_at example_read 0) = Some 1"
    by (simp_all add: waits_def example_read_eq example_written_def)
  show ?thesis
    using non_idempotent_not_retried [OF example_read_run r, THEN conjunct1]
      non_idempotent_not_retried [OF example_read_run r, THEN conjunct2, rule_format, of 0 overload_error "ErrorResponse_new\<lparr>er_code := CQL_ERROR_OVERLOADED\<rparr>" writes True] e
    by simp
qed

subsection \<open>What goes wrong\<close>

text \<open>A write that fails is tried on the next host even when the request is not idempotent.\<close>

lemma write_error_retried:
  "\<exists>h. handler_run example_query [1, 2] h \<and> rh_future h = None \<and>
     handler_step example_written h \<and> ex_host (execution_at h 0) = Some 2 \<and> ex_phase (execution_at h 0) = In_flight"
proof -
  let ?h = "execution_on_error writes 0 (From_connection CASS_ERROR_LIB_WRITE_ERROR)
    (finish_execution REQUEST_STATE_FINISHED 0 example_written)"
  have step: "handler_step example_written ?h"
    by (rule handler_step.write_error) (simp_all add: waits_def example_written_def)
  have "rh_future ?h = None \<and> ex_host (execution_at ?h 0) = Some 2 \<and> ex_phase (execution_at ?h 0) = In_flight"
    by (simp add: execution_on_error_def execution_retry_next_host_def execution_retry_current_host_def finish_execution_def
        execution_next_host_def return_connection_def example_written_def handler_eval writes_def example_query_def)
  with step show ?thesis using handler_run.step [OF example_written_run step] by blast
qed

text \<open>A request that prepares a statement has no retry policy; the error that a host is unavailable makes the handler call it.\<close>

lemma prepare_calls_missing_policy:
  assumes "rh_retry_policy h = None" "ex_host (execution_at h e) \<noteq> None" "ex_connection (execution_at h e) \<noteq> None"
    and "mb_body m = ErrorBody error" "er_code error = CQL_ERROR_UNAVAILABLE"
  shows "rh_assertion_failed (execution_on_set pools e stream m h)"
  using assms by (auto simp: execution_on_set_def execution_on_error_response_def error_decision_def)

text \<open>A request whose keyspace is being set, or whose statement is being prepared, is forgotten when the reply is neither a
  result nor an error.\<close>

lemma unexpected_reply_forgotten:
  assumes "\<not> is_reply m"
  shows "SetKeyspaceCallback_on_set pools w c e m h = h" "PrepareCallback_on_set pools e m h = h"
  using assms by (cases "mb_body m"; simp add: is_reply_def SetKeyspaceCallback_on_set_def PrepareCallback_on_set_def)+

text \<open>When a connection to one host has failed and setting the keyspace on the next host fails too, the connection
  to the first host is returned to the pool of the second one. It may be gone by then, and if it is not, the requests that wait
  for the second host are written to the first.\<close>

definition sets_keyspace :: pools where
  "sets_keyspace n p = Borrowed \<lparr>wa_same_keyspace = False, wa_stream = True, wa_encode_error = None\<rparr>"

lemma stale_connection_returned:
  "\<exists>h :: unit request_handler. handler_run example_query [1, 2] h \<and> Return_connection 2 1 \<in> set (rh_log h)"
proof -
  let ?g = "execution_on_error sets_keyspace 0 (From_connection CASS_ERROR_LIB_WRITE_ERROR)
    (finish_execution REQUEST_STATE_FINISHED 0 example_written)"
  let ?h = "SetKeyspaceCallback_on_internal_error writes 2 0 (resume 0 ?g)"
  note eval = execution_on_error_def execution_retry_next_host_def execution_retry_current_host_def finish_execution_def
    execution_next_host_def return_connection_def example_written_def handler_eval writes_def sets_keyspace_def
    example_query_def SetKeyspaceCallback_on_internal_error_def defunct_connection_def give_up_def
    on_unrecoverable_error_def execution_set_error_def RequestHandler_set_error_on_host_def RequestHandler_set_error_def
  have "handler_step example_written ?g"
    by (rule handler_step.write_error) (simp_all add: waits_def example_written_def)
  then have g: "handler_run example_query [1, 2] ?g" by (rule handler_run.step [OF example_written_run])
  have "waits ?g 0 (Setting_keyspace 2)" by (simp add: waits_def eval)
  then have "handler_run example_query [1, 2] ?h"
    by (intro handler_run.step [OF g] handler_step.keyspace_error)
  moreover have "Return_connection 2 1 \<in> set (rh_log ?h)"
    by (simp add: eval finish_with_def future_set_def stop_request_eq)
  ultimately show ?thesis by blast
qed

subsection \<open>The order of attempts\<close>

definition takes :: "pools \<Rightarrow> nat \<Rightarrow> host_ptr \<Rightarrow> bool" where
  "takes pools n p = (case pools n p of Not_ready \<Rightarrow> False | Busy \<Rightarrow> True | Borrowed w \<Rightarrow> wa_stream w)"

fun first_taker :: "pools \<Rightarrow> host_ptr list \<Rightarrow> (host_ptr \<times> host_ptr list) option" where
  "first_taker pools [] = None"
| "first_taker pools (p # ps) = (if takes pools (length ps) p then Some (p, ps) else first_taker pools ps)"

lemma finish_with_keeps:
  "rh_plan (finish_with r h) = rh_plan h"
  "e < length (rh_executions h) \<Longrightarrow> ex_host (execution_at (finish_with r h) e) = ex_host (execution_at h e)"
  "e < length (rh_executions h) \<Longrightarrow> ex_phase (execution_at (finish_with r h) e) = Exhausted \<longleftrightarrow> ex_phase (execution_at h e) = Exhausted"
  by (cases "is_done h"; simp add: finish_with_done finish_with_open stop_request_eq cancelled_execution_def)+

lemma set_error_keeps:
  assumes "e < length (rh_executions h)"
  shows "rh_plan (on_unrecoverable_error e code h) = rh_plan h"
    and "ex_host (execution_at (on_unrecoverable_error e code h) e) = ex_host (execution_at h e)"
    and "ex_phase (execution_at (on_unrecoverable_error e code h) e) = Exhausted \<longleftrightarrow> ex_phase (execution_at h e) = Exhausted"
  using assms
  by (simp_all add: on_unrecoverable_error_def execution_set_error_def RequestHandler_set_error_on_host_def
      RequestHandler_set_error_def Let_def finish_with_keeps split: option.split)

lemma start_keeps:
  assumes "e < length (rh_executions h)"
  shows "rh_plan (execution_start c e h) = rh_plan h"
    and "length (rh_executions (execution_start c e h)) = length (rh_executions h)"
    and "ex_host (execution_at (execution_start c e h) e) = ex_host (execution_at h e)"
    and "ex_state (execution_at (execution_start c e h) e) = ex_state (execution_at h e)"
    and "ex_phase (execution_at (execution_start c e h) e) = ex_phase (execution_at h e)"
  using assms by (simp_all add: execution_start_def on_start_def split: option.split)

lemma Pool_write_new:
  assumes "e < length (rh_executions h)" "ex_state (execution_at h e) = REQUEST_STATE_NEW"
  shows "fst (Pool_write w p c e h) = wa_stream w"
    and "wa_stream w \<Longrightarrow> rh_plan (snd (Pool_write w p c e h)) = rh_plan h"
    and "wa_stream w \<Longrightarrow> ex_host (execution_at (snd (Pool_write w p c e h)) e) = ex_host (execution_at h e)"
  using assms
  by (simp_all add: Pool_write_def write_execution_def Let_def execution_set_state_def start_keeps set_error_keeps
      split: option.split)

text \<open>C13. A retry ends: it tries the current host of the execution and then the hosts of the query plan in their order, stays with the
  first one whose pool takes the request, and gives up when there is none.\<close>

theorem retry_in_plan_order:
  assumes "e < length (rh_executions h)" "ex_state (execution_at h e) = REQUEST_STATE_NEW"
    and "ex_host (execution_at h e) = Some p"
  shows "case first_taker pools (p # rh_plan h) of
      Some (q, qs) \<Rightarrow> ex_host (execution_at (IOWorker_retry pools e h) e) = Some q \<and> rh_plan (IOWorker_retry pools e h) = qs
    | None \<Rightarrow> ex_phase (execution_at (IOWorker_retry pools e h) e) = Exhausted \<and>
        ex_host (execution_at (IOWorker_retry pools e h) e) = None \<and> rh_plan (IOWorker_retry pools e h) = []"
  using assms
proof (induction "rh_plan h" arbitrary: p h rule: length_induct)
  case (1 h)
  have host: "host_of h e = Some p" using 1(2,4) by (simp add: host_of_def)
  have moves: ?case
    if retry: "IOWorker_retry pools e h = IOWorker_retry pools e (execution_next_host e h')"
      and h': "h' = h \<or> h' = update_execution e (\<lambda>x. x\<lparr>ex_pool := Some p\<rparr>) h"
      and takes: "\<not> takes pools (length (rh_plan h)) p" for h'
  proof (cases "rh_plan h")
    case Nil
    let ?h = "execution_next_host e h'"
    have "host_of ?h e = None" "e < length (rh_executions ?h)" "rh_plan ?h = []" "ex_host (execution_at ?h e) = None"
      using Nil h' 1(2) by (auto simp: execution_next_host_def RequestHandler_next_host_def host_of_def Let_def)
    then show ?thesis
      using takes Nil unfolding retry
      by (subst (1 2 3 4 5) IOWorker_retry.simps) (simp add: give_up_def set_error_keeps)
  next
    case (Cons q qs)
    let ?h = "execution_next_host e h'"
    have h: "rh_plan ?h = qs" "e < length (rh_executions ?h)" "ex_state (execution_at ?h e) = REQUEST_STATE_NEW"
      "ex_host (execution_at ?h e) = Some q"
      using Cons h' 1(2,3) by (auto simp: execution_next_host_def RequestHandler_next_host_def Let_def)
    have "length qs < length (rh_plan h)" using Cons by simp
    from 1(1) [rule_format, OF this h(1) [symmetric] h(2,3,4)] show ?thesis
      using Cons takes h(1) unfolding retry by simp
  qed
  show ?case
  proof (cases "pools (length (rh_plan h)) p")
    case Not_ready
    then show ?thesis
      using moves [of h] host by (simp add: IOWorker_retry.simps [of pools e h] takes_def)
  next
    case Busy
    then have "IOWorker_retry pools e h = wait_for_connection p e h" "takes pools (length (rh_plan h)) p"
      using host by (simp_all add: IOWorker_retry.simps [of pools e h] takes_def)
    then show ?thesis using 1(2-4) by (simp add: wait_for_connection_def)
  next
    case (Borrowed w)
    show ?thesis
    proof (cases "Pool_write w p p e h")
      case (Pair written h')
      then have written: "written = wa_stream w" using Pool_write_new(1) [OF 1(2,3), of w p p] by simp
      show ?thesis
      proof (cases written)
        case True
        then have "IOWorker_retry pools e h = h'" "takes pools (length (rh_plan h)) p"
          using host Borrowed Pair written by (simp_all add: IOWorker_retry.simps [of pools e h] takes_def)
        then show ?thesis using Pool_write_new(2,3) [OF 1(2,3), of w p p] Pair True written 1(4) by simp
      next
        case False
        then have "IOWorker_retry pools e h = IOWorker_retry pools e (execution_next_host e h')"
          "\<not> takes pools (length (rh_plan h)) p" "h' = update_execution e (\<lambda>x. x\<lparr>ex_pool := Some p\<rparr>) h"
          using host Borrowed Pair written Pool_write_False [of w p p e h h']
          by (simp_all add: IOWorker_retry.simps [of pools e h] takes_def)
        then show ?thesis using moves by blast
      qed
    qed
  qed
qed

lemma retry_in_plan_order_witness:
  "ex_host (execution_at (IOWorker_retry (\<lambda>n p. if p = 2 then Busy else Not_ready) 0
     (execution_set_state 0 REQUEST_STATE_NEW (execution_set_state 0 REQUEST_STATE_FINISHED example_read))) 0) = Some 2"
proof -
  let ?h = "execution_set_state 0 REQUEST_STATE_NEW (execution_set_state 0 REQUEST_STATE_FINISHED example_read)"
  have "0 < length (rh_executions ?h)" "ex_state (execution_at ?h 0) = REQUEST_STATE_NEW"
    "ex_host (execution_at ?h 0) = Some 1" "rh_plan ?h = [2]"
    by (simp_all add: example_read_eq example_written_def execution_set_state_def RequestHandler_new_def)
  then show ?thesis
    using retry_in_plan_order [of 0 ?h 1 "\<lambda>n p. if p = 2 then Busy else Not_ready"] by (simp add: takes_def)
qed

end
