(* ===== verification/Pool.thy ===== *)
theory Pool
  imports Connection
begin

text \<open>
  The connections of an I/O worker to one host: \<open>pool.hpp\<close>, \<open>pool.cpp\<close>.

  Connections are numbers, given out in the order in which they are made. What the pool reads of a connection is an
  argument of the operations, except which of its connections are in the state ready: that is kept in the
  list \<open>pl_ready\<close>, which the code does not have, because closing a ready connection calls back into the pool. Requests that
  wait for a connection are numbers too. The calls that leave the pool are written to a log, those
  that tell the I/O worker of the pool with what the I/O worker reads of it. A failed assertion is remembered in a
  flag. Log messages and metrics are left out.
\<close>

subsection \<open>State\<close>

datatype pool_state =
  POOL_STATE_NEW | POOL_STATE_CONNECTING | POOL_STATE_WAITING_TO_CONNECT | POOL_STATE_READY | POOL_STATE_CLOSING
| POOL_STATE_CLOSED

record pool_config =
  core_connections_per_host :: nat
  max_connections_per_host :: nat
  max_concurrent_creation :: nat
  max_concurrent_requests_threshold :: nat
  pending_requests_low_water_mark :: nat
  pending_requests_high_water_mark :: nat

text \<open>What a pool reads of a connection.\<close>

record connection_view =
  v_error_code :: connection_error
  v_is_defunct :: bool
  v_available_streams :: nat
  v_pending_request_count :: nat

datatype connect_timer = Wait_to_connect | Partial_reconnect

datatype pool_notice =
  Connect nat | Close nat | Flush nat | Write_request nat nat | Retry_next_host nat | Start_pending_request nat
| Host_is_available bool | Pool_ready bool bool | Pool_closed bool bool | Pending_flush

record pool =
  pl_state :: pool_state
  pl_error_code :: connection_error
  pl_connections :: "nat list"
  pl_pending_connections :: "nat list"
  pl_pending_requests :: "nat list"
  pl_available_connection_count :: int
  pl_is_available :: bool
  pl_is_initial_connection :: bool
  pl_is_pending_flush :: bool
  pl_cancel_reconnect :: bool
  pl_connect_timer :: "connect_timer option"
  pl_spawned :: nat
  pl_ready :: "nat list"
  pl_log :: "pool_notice list"
  pl_assertion_failed :: bool

definition Pool_new :: "bool \<Rightarrow> pool" where
  "Pool_new is_initial_connection =
     \<lparr>pl_state = POOL_STATE_NEW, pl_error_code = CONNECTION_OK, pl_connections = [], pl_pending_connections = [],
      pl_pending_requests = [], pl_available_connection_count = 0, pl_is_available = False,
      pl_is_initial_connection = is_initial_connection, pl_is_pending_flush = False, pl_cancel_reconnect = False,
      pl_connect_timer = None, pl_spawned = 0, pl_ready = [], pl_log = [], pl_assertion_failed = False\<rparr>"

definition tell :: "pool_notice \<Rightarrow> pool \<Rightarrow> pool" where
  "tell n p = p\<lparr>pl_log := pl_log p @ [n]\<rparr>"

definition Pool_is_ready :: "pool \<Rightarrow> bool" where
  "Pool_is_ready p \<longleftrightarrow> pl_state p = POOL_STATE_READY"

definition is_keyspace_error :: "pool \<Rightarrow> bool" where
  "is_keyspace_error p \<longleftrightarrow> pl_error_code p = CONNECTION_ERROR_KEYSPACE"

definition is_critical_failure :: "pool \<Rightarrow> bool" where
  "is_critical_failure p \<longleftrightarrow>
     pl_error_code p \<in> {CONNECTION_ERROR_INVALID_PROTOCOL, CONNECTION_ERROR_AUTH, CONNECTION_ERROR_SSL_HANDSHAKE,
       CONNECTION_ERROR_SSL_VERIFY}"

abbreviation pool_closing :: "pool \<Rightarrow> bool" where
  "pool_closing p \<equiv> pl_state p = POOL_STATE_CLOSING \<or> pl_state p = POOL_STATE_CLOSED"

definition notify_pool_ready :: "pool \<Rightarrow> pool" where
  "notify_pool_ready p = tell (Pool_ready (is_keyspace_error p) (Pool_is_ready p)) p"

definition notify_pool_closed :: "pool \<Rightarrow> pool" where
  "notify_pool_closed p = tell (Pool_closed (is_critical_failure p) (pl_cancel_reconnect p)) p"

subsection \<open>Availability\<close>

definition set_is_available :: "pool_config \<Rightarrow> bool \<Rightarrow> pool \<Rightarrow> pool" where
  "set_is_available cfg is_available p =
     (if is_available
      then if \<not> pl_is_available p \<and> pl_available_connection_count p > 0 \<and>
              length (pl_pending_requests p) < pending_requests_low_water_mark cfg
           then (tell (Host_is_available True) p)\<lparr>pl_is_available := True\<rparr> else p
      else if pl_is_available p then (tell (Host_is_available False) p)\<lparr>pl_is_available := False\<rparr> else p)"

text \<open>The argument says whether the connection is available now.\<close>

definition on_availability_change :: "pool_config \<Rightarrow> bool \<Rightarrow> pool \<Rightarrow> pool" where
  "on_availability_change cfg is_available p =
     (if is_available
      then set_is_available cfg True (p\<lparr>pl_available_connection_count := pl_available_connection_count p + 1\<rparr>)
      else let p = p\<lparr>pl_available_connection_count := pl_available_connection_count p - 1\<rparr>;
               p = (if pl_available_connection_count p < 0 then p\<lparr>pl_assertion_failed := True\<rparr> else p)
           in if pl_available_connection_count p = 0 then set_is_available cfg False p else p)"

text \<open>\<open>Connection::close\<close>: a ready connection tells the pool that it is no longer available.\<close>

definition close_connection :: "pool_config \<Rightarrow> nat \<Rightarrow> pool \<Rightarrow> pool" where
  "close_connection cfg c p =
     (let p = tell (Close c) p
      in if c \<in> set (pl_ready p)
         then on_availability_change cfg False (p\<lparr>pl_ready := remove1 c (pl_ready p)\<rparr>) else p)"

subsection \<open>Connecting and closing\<close>

definition maybe_notify_ready :: "pool \<Rightarrow> pool" where
  "maybe_notify_ready p =
     (if pl_state p = POOL_STATE_CONNECTING \<and> pl_pending_connections p = []
      then notify_pool_ready (p\<lparr>pl_state := POOL_STATE_READY\<rparr>) else p)"

definition Pool_maybe_close :: "pool \<Rightarrow> pool" where
  "Pool_maybe_close p =
     (if pl_state p = POOL_STATE_CLOSING \<and> pl_connections p = [] \<and> pl_pending_connections p = []
      then notify_pool_closed (p\<lparr>pl_state := POOL_STATE_CLOSED\<rparr>) else p)"

definition spawn_connection :: "pool \<Rightarrow> pool" where
  "spawn_connection p =
     (if pool_closing p then p
      else (tell (Connect (pl_spawned p)) p)\<lparr>
             pl_pending_connections := pl_pending_connections p @ [pl_spawned p], pl_spawned := pl_spawned p + 1\<rparr>)"

definition maybe_spawn_connection :: "pool_config \<Rightarrow> pool \<Rightarrow> pool" where
  "maybe_spawn_connection cfg p =
     (if length (pl_pending_connections p) \<ge> max_concurrent_creation cfg then p
      else if length (pl_connections p) + length (pl_pending_connections p) \<ge> max_connections_per_host cfg then p
      else if pl_state p \<noteq> POOL_STATE_READY then p
      else spawn_connection p)"

definition Pool_connect :: "pool_config \<Rightarrow> pool \<Rightarrow> pool" where
  "Pool_connect cfg p =
     (if pl_state p = POOL_STATE_NEW \<or> pl_state p = POOL_STATE_WAITING_TO_CONNECT
      then let p = (spawn_connection ^^ core_connections_per_host cfg) (p\<lparr>pl_connect_timer := None\<rparr>)
           in maybe_notify_ready (p\<lparr>pl_state := POOL_STATE_CONNECTING\<rparr>)
      else p)"

definition delayed_connect :: "pool \<Rightarrow> pool" where
  "delayed_connect p =
     (if pl_state p = POOL_STATE_NEW
      then p\<lparr>pl_state := POOL_STATE_WAITING_TO_CONNECT, pl_connect_timer := Some Wait_to_connect\<rparr> else p)"

definition Pool_close :: "pool_config \<Rightarrow> bool \<Rightarrow> pool \<Rightarrow> pool" where
  "Pool_close cfg cancel_reconnect p =
     Pool_maybe_close
       (if pool_closing p then p
        else let p = p\<lparr>pl_connect_timer := None\<rparr>;
                 p = (if pl_state p = POOL_STATE_CONNECTING
                      then notify_pool_ready (p\<lparr>pl_state := POOL_STATE_CLOSING\<rparr>)
                      else p\<lparr>pl_state := POOL_STATE_CLOSING\<rparr>);
                 p = (set_is_available cfg False p)\<lparr>pl_cancel_reconnect := cancel_reconnect\<rparr>
             in fold (close_connection cfg) (pl_connections p @ pl_pending_connections p) p)"

subsection \<open>Requests\<close>

text \<open>The first connection with the fewest pending requests, when it is ready and has a stream left.\<close>

fun least_busy :: "(nat \<Rightarrow> connection_view) \<Rightarrow> nat \<Rightarrow> nat list \<Rightarrow> nat" where
  "least_busy view c [] = c"
| "least_busy view c (d # ds) =
     (if v_pending_request_count (view d) < v_pending_request_count (view c) then least_busy view d ds
      else least_busy view c ds)"

definition find_least_busy :: "(nat \<Rightarrow> connection_view) \<Rightarrow> pool \<Rightarrow> nat option" where
  "find_least_busy view p =
     (case pl_connections p of
        [] \<Rightarrow> None
      | c # cs \<Rightarrow>
          let c = least_busy view c cs
          in if c \<in> set (pl_ready p) \<and> v_available_streams (view c) > 0 then Some c else None)"

definition borrow_connection :: "pool_config \<Rightarrow> (nat \<Rightarrow> connection_view) \<Rightarrow> pool \<Rightarrow> nat option \<times> pool" where
  "borrow_connection cfg view p =
     (if pl_connections p = [] then (None, (maybe_spawn_connection cfg ^^ core_connections_per_host cfg) p)
      else case find_least_busy view p of
             None \<Rightarrow> (None, maybe_spawn_connection cfg p)
           | Some c \<Rightarrow>
               (Some c, if v_pending_request_count (view c) \<ge> max_concurrent_requests_threshold cfg
                        then maybe_spawn_connection cfg p else p))"

definition remove_pending_request :: "pool_config \<Rightarrow> nat \<Rightarrow> pool \<Rightarrow> pool" where
  "remove_pending_request cfg e p =
     set_is_available cfg True (p\<lparr>pl_pending_requests := remove1 e (pl_pending_requests p)\<rparr>)"

text \<open>\<open>write\<close> for a request that the connection takes.\<close>

definition Pool_write_request :: "nat \<Rightarrow> nat \<Rightarrow> pool \<Rightarrow> pool" where
  "Pool_write_request c e p =
     (let p = tell (Write_request c e) p
      in (if pl_is_pending_flush p then p else tell Pending_flush p)\<lparr>pl_is_pending_flush := True\<rparr>)"

definition Pool_flush :: "pool \<Rightarrow> pool" where
  "Pool_flush p = fold (\<lambda>c. tell (Flush c)) (pl_connections p) (p\<lparr>pl_is_pending_flush := False\<rparr>)"

text \<open>The loop of \<open>return_connection\<close>; the arguments say, for the number of requests that wait, whether the connection is
  ready then and whether it takes the first of them.\<close>

function Pool_return_connection ::
    "pool_config \<Rightarrow> (nat \<Rightarrow> bool) \<Rightarrow> (nat \<Rightarrow> bool) \<Rightarrow> nat \<Rightarrow> pool \<Rightarrow> pool" where
  "Pool_return_connection cfg ready takes c p =
     (case pl_pending_requests p of
        [] \<Rightarrow> p
      | e # es \<Rightarrow>
          if ready (length (e # es))
          then let p' = remove_pending_request cfg e p
               in Pool_return_connection cfg ready takes c
                    (if takes (length (e # es)) then Pool_write_request c e p' else tell (Retry_next_host e) p')
          else p)"
  by pat_completeness auto
termination
  by (relation "measure (\<lambda>(cfg, ready, takes, c, p). length (pl_pending_requests p))")
     (auto simp: remove_pending_request_def set_is_available_def Pool_write_request_def tell_def Let_def)

declare Pool_return_connection.simps [simp del]

text \<open>\<open>wait_for_connection\<close> for a request that is not cancelled.\<close>

definition Pool_wait_for_connection :: "pool_config \<Rightarrow> nat \<Rightarrow> pool \<Rightarrow> pool" where
  "Pool_wait_for_connection cfg e p =
     (let p = tell (Start_pending_request e) (p\<lparr>pl_pending_requests := pl_pending_requests p @ [e]\<rparr>)
      in if length (pl_pending_requests p) > pending_requests_high_water_mark cfg then set_is_available cfg False p else p)"

definition on_pending_request_timeout :: "pool_config \<Rightarrow> nat \<Rightarrow> pool \<Rightarrow> pool" where
  "on_pending_request_timeout cfg e p =
     Pool_maybe_close (tell (Retry_next_host e) (remove_pending_request cfg e p))"

subsection \<open>Events of connections and timers\<close>

definition Pool_on_ready :: "pool_config \<Rightarrow> (nat \<Rightarrow> bool) \<Rightarrow> (nat \<Rightarrow> bool) \<Rightarrow> nat \<Rightarrow> pool \<Rightarrow> pool" where
  "Pool_on_ready cfg ready takes c p =
     (let p = p\<lparr>pl_pending_connections := filter (\<lambda>d. d \<noteq> c) (pl_pending_connections p),
                pl_connections := pl_connections p @ [c]\<rparr>
      in maybe_notify_ready (Pool_return_connection cfg ready takes c p))"

definition Pool_on_close :: "pool_config \<Rightarrow> connection_view \<Rightarrow> nat \<Rightarrow> pool \<Rightarrow> pool" where
  "Pool_on_close cfg connection c p =
     (let p = p\<lparr>pl_pending_connections := filter (\<lambda>d. d \<noteq> c) (pl_pending_connections p),
                pl_connections := remove1 c (pl_connections p)\<rparr>
      in if v_error_code connection = CONNECTION_ERROR_TIMEOUT \<and> pl_connections p \<noteq> []
         then maybe_notify_ready
                (if pl_connect_timer p = None then p\<lparr>pl_connect_timer := Some Partial_reconnect\<rparr> else p)
         else if v_is_defunct connection
         then Pool_close cfg False
                (if is_critical_failure p then p else p\<lparr>pl_error_code := v_error_code connection\<rparr>)
         else Pool_maybe_close (maybe_notify_ready p))"

definition on_partial_reconnect :: "pool_config \<Rightarrow> pool \<Rightarrow> pool" where
  "on_partial_reconnect cfg p =
     (let p = p\<lparr>pl_connect_timer := None\<rparr>;
          current = length (pl_connections p) + length (pl_pending_connections p)
      in (spawn_connection ^^ (core_connections_per_host cfg - current)) p)"

definition on_wait_to_connect :: "pool_config \<Rightarrow> pool \<Rightarrow> pool" where
  "on_wait_to_connect cfg p = Pool_connect cfg (p\<lparr>pl_connect_timer := None\<rparr>)"

end
