(* ===== verification/PoolRuns.thy ===== *)
theory PoolRuns
  imports Pool
begin

text \<open>
  The runs of a pool (\<open>pool.cpp\<close>): what can happen to it, the invariant that it keeps, and what follows for its connections and for the I/O
  worker that it belongs to.
\<close>

subsection \<open>Runs\<close>

text \<open>What can happen to a pool. A connection that was told to close does not become ready, and it is closed at last;
  it is told to be available before it is told to be ready.\<close>

inductive pool_step :: "pool_config \<Rightarrow> pool \<Rightarrow> pool \<Rightarrow> bool" for cfg where
  connect: "pool_step cfg p (Pool_connect cfg p)"
| delayed: "pool_step cfg p (delayed_connect p)"
| close: "pool_step cfg p (Pool_close cfg cancel_reconnect p)"
| available: "c \<in> set (pl_connections p) \<union> set (pl_pending_connections p) \<Longrightarrow> c \<notin> set (pl_ready p) \<Longrightarrow> Close c \<notin> set (pl_log p) \<Longrightarrow>
    pool_step cfg p (on_availability_change cfg True (p\<lparr>pl_ready := c # pl_ready p\<rparr>))"
| unavailable: "c \<in> set (pl_ready p) \<Longrightarrow>
    pool_step cfg p (on_availability_change cfg False (p\<lparr>pl_ready := remove1 c (pl_ready p)\<rparr>))"
| ready: "c \<in> set (pl_pending_connections p) \<Longrightarrow> Close c \<notin> set (pl_log p) \<Longrightarrow>
    pool_step cfg p (Pool_on_ready cfg ready takes c p)"
| closed: "c \<in> set (pl_connections p) \<union> set (pl_pending_connections p) \<Longrightarrow> c \<notin> set (pl_ready p) \<Longrightarrow>
    pool_step cfg p (Pool_on_close cfg connection c p)"
| wait_to_connect: "pl_connect_timer p = Some Wait_to_connect \<Longrightarrow> pool_step cfg p (on_wait_to_connect cfg p)"
| partial_reconnect: "pl_connect_timer p = Some Partial_reconnect \<Longrightarrow> pool_step cfg p (on_partial_reconnect cfg p)"
| borrow: "Pool_is_ready p \<Longrightarrow> borrow_connection cfg view p = (c, p') \<Longrightarrow> pool_step cfg p p'"
| wait: "Pool_is_ready p \<Longrightarrow> pool_step cfg p (Pool_wait_for_connection cfg e p)"
| return: "pool_step cfg p (Pool_return_connection cfg ready takes c p)"
| write_request: "pool_step cfg p (Pool_write_request c e p)"
| flush: "pool_step cfg p (Pool_flush p)"
| request_timeout: "e \<in> set (pl_pending_requests p) \<Longrightarrow> pool_step cfg p (on_pending_request_timeout cfg e p)"

inductive pool_run :: "pool_config \<Rightarrow> pool \<Rightarrow> bool" for cfg where
  new: "pool_run cfg (Pool_new is_initial)"
| step: "pool_run cfg p \<Longrightarrow> pool_step cfg p p' \<Longrightarrow> pool_run cfg p'"

subsection \<open>The invariant\<close>

primrec is_pool_ready :: "pool_notice \<Rightarrow> bool" where
  "is_pool_ready (Connect c) = False"
| "is_pool_ready (Close c) = False"
| "is_pool_ready (Flush c) = False"
| "is_pool_ready (Write_request c e) = False"
| "is_pool_ready (Retry_next_host e) = False"
| "is_pool_ready (Start_pending_request e) = False"
| "is_pool_ready (Host_is_available b) = False"
| "is_pool_ready (Pool_ready k r) = True"
| "is_pool_ready (Pool_closed k r) = False"
| "is_pool_ready Pending_flush = False"

primrec is_pool_closed :: "pool_notice \<Rightarrow> bool" where
  "is_pool_closed (Connect c) = False"
| "is_pool_closed (Close c) = False"
| "is_pool_closed (Flush c) = False"
| "is_pool_closed (Write_request c e) = False"
| "is_pool_closed (Retry_next_host e) = False"
| "is_pool_closed (Start_pending_request e) = False"
| "is_pool_closed (Host_is_available b) = False"
| "is_pool_closed (Pool_ready k r) = False"
| "is_pool_closed (Pool_closed k r) = True"
| "is_pool_closed Pending_flush = False"

text \<open>What the I/O worker has last been told of the availability of the host.\<close>

fun told_available :: "bool \<Rightarrow> pool_notice list \<Rightarrow> bool" where
  "told_available b [] = b"
| "told_available b (Host_is_available b' # ns) = told_available b' ns"
| "told_available b (n # ns) = told_available b ns"

definition times :: "(pool_notice \<Rightarrow> bool) \<Rightarrow> pool \<Rightarrow> nat" where
  "times P p = length (filter P (pl_log p))"

definition all_connections :: "pool \<Rightarrow> nat list" where
  "all_connections p = pl_connections p @ pl_pending_connections p"

definition counts_ok :: "pool \<Rightarrow> bool" where
  "counts_ok p \<longleftrightarrow> distinct (pl_ready p) \<and> pl_available_connection_count p = int (length (pl_ready p)) \<and>
     (pl_is_available p \<longrightarrow> pl_ready p \<noteq> []) \<and> told_available False (pl_log p) = pl_is_available p \<and>
     \<not> pl_assertion_failed p"

definition connections_ok :: "pool_config \<Rightarrow> pool \<Rightarrow> bool" where
  "connections_ok cfg p \<longleftrightarrow> distinct (all_connections p) \<and> (\<forall>c \<in> set (all_connections p). c < pl_spawned p) \<and>
     set (pl_ready p) \<subseteq> set (all_connections p) \<and>
     length (all_connections p) \<le> max (core_connections_per_host cfg) (max_connections_per_host cfg)"

definition states_ok :: "pool \<Rightarrow> bool" where
  "states_ok p \<longleftrightarrow>
     (pl_state p \<in> {POOL_STATE_NEW, POOL_STATE_WAITING_TO_CONNECT, POOL_STATE_CLOSED} \<longrightarrow> all_connections p = []) \<and>
     (pl_state p = POOL_STATE_CLOSING \<longrightarrow> all_connections p \<noteq> []) \<and>
     (pl_state p = POOL_STATE_CONNECTING \<longrightarrow> pl_pending_connections p \<noteq> []) \<and>
     (pool_closing p \<longrightarrow> pl_ready p = [] \<and> (\<forall>c \<in> set (all_connections p). Close c \<in> set (pl_log p))) \<and>
     times is_pool_closed p = (if pl_state p = POOL_STATE_CLOSED then 1 else 0) \<and>
     times is_pool_ready p \<le> 1 \<and>
     (pl_state p \<in> {POOL_STATE_NEW, POOL_STATE_WAITING_TO_CONNECT, POOL_STATE_CONNECTING} \<longrightarrow> times is_pool_ready p = 0) \<and>
     (pl_state p = POOL_STATE_READY \<longrightarrow> times is_pool_ready p = 1) \<and>
     (pl_connect_timer p = Some Partial_reconnect \<longrightarrow>
        pl_state p \<notin> {POOL_STATE_NEW, POOL_STATE_WAITING_TO_CONNECT})"

definition pool_ok :: "pool_config \<Rightarrow> pool \<Rightarrow> bool" where
  "pool_ok cfg p \<longleftrightarrow> counts_ok p \<and> connections_ok cfg p \<and> states_ok p"

lemmas pool_ok_defs = pool_ok_def counts_ok_def connections_ok_def states_ok_def all_connections_def times_def

lemma told_available_append: "told_available b (ns @ ns') = told_available (told_available b ns) ns'"
  by (induction b ns rule: told_available.induct) simp_all

lemma Pool_new_ok: "pool_ok cfg (Pool_new is_initial)"
  by (simp add: pool_ok_defs Pool_new_def)

text \<open>What the availability of a pool and its requests leave alone.\<close>

definition same_connections :: "pool \<Rightarrow> pool \<Rightarrow> bool" where
  "same_connections p p' \<longleftrightarrow> pl_state p' = pl_state p \<and> pl_connections p' = pl_connections p \<and>
     pl_pending_connections p' = pl_pending_connections p \<and> pl_spawned p' = pl_spawned p \<and>
     pl_connect_timer p' = pl_connect_timer p \<and> times is_pool_closed p' = times is_pool_closed p \<and> times is_pool_ready p' = times is_pool_ready p \<and>
     set (pl_log p) \<subseteq> set (pl_log p')"

lemma same_connections_refl: "same_connections p p"
  by (simp add: same_connections_def)

lemma same_connections_trans: "same_connections p p' \<Longrightarrow> same_connections p' p'' \<Longrightarrow> same_connections p p''"
  by (auto simp: same_connections_def)

lemma same_connections_ok:
  assumes "pool_ok cfg p" "same_connections p p'" "counts_ok p'" "set (pl_ready p') \<subseteq> set (pl_ready p)"
  shows "pool_ok cfg p'"
proof -
  have same: "pl_state p' = pl_state p" "all_connections p' = all_connections p" "pl_spawned p' = pl_spawned p"
    "pl_pending_connections p' = pl_pending_connections p" "times is_pool_closed p' = times is_pool_closed p"
    "times is_pool_ready p' = times is_pool_ready p"
    using assms(2) by (simp_all add: same_connections_def all_connections_def)
  have "connections_ok cfg p'" using assms(1,4) same by (auto simp: pool_ok_def connections_ok_def)
  moreover have "states_ok p'"
    using assms(1,2,4) unfolding states_ok_def same pool_ok_def same_connections_def by (auto split: if_splits)
  ultimately show ?thesis using assms(3) by (simp add: pool_ok_def)
qed

lemma tell_simps [simp]:
  "pl_state (tell n p) = pl_state p" "pl_connections (tell n p) = pl_connections p"
  "pl_pending_connections (tell n p) = pl_pending_connections p" "pl_ready (tell n p) = pl_ready p"
  "pl_log (tell n p) = pl_log p @ [n]" "pl_pending_requests (tell n p) = pl_pending_requests p"
  "pl_spawned (tell n p) = pl_spawned p" "pl_is_available (tell n p) = pl_is_available p"
  "pl_available_connection_count (tell n p) = pl_available_connection_count p"
  "pl_assertion_failed (tell n p) = pl_assertion_failed p" "pl_error_code (tell n p) = pl_error_code p"
  "pl_cancel_reconnect (tell n p) = pl_cancel_reconnect p" "pl_connect_timer (tell n p) = pl_connect_timer p" "pl_is_pending_flush (tell n p) = pl_is_pending_flush p"
  by (simp_all add: tell_def)

lemma set_is_available_frame: "same_connections p (set_is_available cfg b p)"
  by (auto simp: set_is_available_def same_connections_def times_def)

lemma set_is_available_simps [simp]:
  "pl_ready (set_is_available cfg b p) = pl_ready p" "pl_state (set_is_available cfg b p) = pl_state p"
  "pl_connections (set_is_available cfg b p) = pl_connections p"
  "pl_pending_connections (set_is_available cfg b p) = pl_pending_connections p"
  "pl_pending_requests (set_is_available cfg b p) = pl_pending_requests p"
  "pl_spawned (set_is_available cfg b p) = pl_spawned p"
  by (simp_all add: set_is_available_def)

lemma set_is_available_counts: "counts_ok p \<Longrightarrow> counts_ok (set_is_available cfg b p)"
  by (auto simp: set_is_available_def counts_ok_def told_available_append)

lemma set_is_available_ok: "pool_ok cfg p \<Longrightarrow> pool_ok cfg (set_is_available cfg b p)"
  by (rule same_connections_ok [OF _ set_is_available_frame]) (simp_all add: set_is_available_counts pool_ok_def)

subsection \<open>Availability\<close>

lemma available_counts:
  assumes "counts_ok p" "c \<notin> set (pl_ready p)"
  shows "counts_ok (on_availability_change cfg True (p\<lparr>pl_ready := c # pl_ready p\<rparr>))"
proof -
  let ?p = "p\<lparr>pl_ready := c # pl_ready p, pl_available_connection_count := pl_available_connection_count p + 1\<rparr>"
  have "counts_ok ?p" using assms by (simp add: counts_ok_def)
  then have "counts_ok (set_is_available cfg True ?p)" by (rule set_is_available_counts)
  then show ?thesis by (simp add: on_availability_change_def)
qed

lemma unavailable_counts:
  assumes ok: "counts_ok p" and c: "c \<in> set (pl_ready p)"
  shows "counts_ok (on_availability_change cfg False (p\<lparr>pl_ready := remove1 c (pl_ready p)\<rparr>))"
    and "same_connections p (on_availability_change cfg False (p\<lparr>pl_ready := remove1 c (pl_ready p)\<rparr>))"
    and "pl_ready (on_availability_change cfg False (p\<lparr>pl_ready := remove1 c (pl_ready p)\<rparr>)) = remove1 c (pl_ready p)"
proof -
  let ?p = "p\<lparr>pl_ready := remove1 c (pl_ready p), pl_available_connection_count := pl_available_connection_count p - 1\<rparr>"
  have len: "int (length (remove1 c (pl_ready p))) = int (length (pl_ready p)) - 1"
    using c by (cases "length (pl_ready p)") (auto simp: length_remove1)
  have eq: "on_availability_change cfg False (p\<lparr>pl_ready := remove1 c (pl_ready p)\<rparr>) =
      (if remove1 c (pl_ready p) = [] then set_is_available cfg False ?p else ?p)"
    using ok len by (auto simp: on_availability_change_def counts_ok_def Let_def)
  have "counts_ok (set_is_available cfg False ?p)"
    if "remove1 c (pl_ready p) = []"
    using ok len that by (auto simp: counts_ok_def set_is_available_def told_available_append)
  moreover have "counts_ok ?p" if "remove1 c (pl_ready p) \<noteq> []"
    using ok len that by (auto simp: counts_ok_def)
  ultimately show "counts_ok (on_availability_change cfg False (p\<lparr>pl_ready := remove1 c (pl_ready p)\<rparr>))"
    unfolding eq by simp
  show "same_connections p (on_availability_change cfg False (p\<lparr>pl_ready := remove1 c (pl_ready p)\<rparr>))"
  proof -
    have same: "same_connections p ?p" by (simp add: same_connections_def times_def)
    show ?thesis
      unfolding eq by (rule if_split [THEN iffD2]) (use same same_connections_trans [OF same set_is_available_frame] in blast)
  qed
  show "pl_ready (on_availability_change cfg False (p\<lparr>pl_ready := remove1 c (pl_ready p)\<rparr>)) = remove1 c (pl_ready p)"
    unfolding eq by simp
qed

lemma close_connection_facts:
  assumes ok: "counts_ok p"
  shows "counts_ok (close_connection cfg c p)" "same_connections p (close_connection cfg c p)"
    "pl_ready (close_connection cfg c p) = remove1 c (pl_ready p)"
    "Close c \<in> set (pl_log (close_connection cfg c p))"
proof -
  let ?p = "tell (Close c) p"
  have told: "counts_ok ?p" "same_connections p ?p"
    using ok by (auto simp: counts_ok_def told_available_append same_connections_def times_def)
  note facts = unavailable_counts [OF told(1), of c cfg]
  show "counts_ok (close_connection cfg c p)"
    using told(1) facts(1) by (simp add: close_connection_def Let_def)
  show "same_connections p (close_connection cfg c p)"
    using told(2) same_connections_trans [OF told(2) facts(2)] by (simp add: close_connection_def Let_def)
  show "pl_ready (close_connection cfg c p) = remove1 c (pl_ready p)"
    using facts(3) by (simp add: close_connection_def Let_def remove1_idem)
  show "Close c \<in> set (pl_log (close_connection cfg c p))"
    using facts(2) by (auto simp: close_connection_def Let_def same_connections_def)
qed

lemma close_all_facts:
  assumes "counts_ok p"
  shows "counts_ok (fold (close_connection cfg) cs p)" "same_connections p (fold (close_connection cfg) cs p)"
    "set (pl_ready (fold (close_connection cfg) cs p)) \<subseteq> set (pl_ready p) - set cs"
    "c \<in> set cs \<Longrightarrow> Close c \<in> set (pl_log (fold (close_connection cfg) cs p))"
  using assms
proof (induction cs arbitrary: p)
  case Nil
  {
    case 1
    then show ?case by simp
  next
    case 2
    then show ?case by (simp add: same_connections_refl)
  next
    case 3
    then show ?case by simp
  next
    case 4
    then show ?case by simp
  }
next
  case (Cons d ds)
  {
    case 1
    then show ?case using Cons(1) close_connection_facts(1) by simp
  next
    case 2
    then show ?case using Cons(2) close_connection_facts(1,2) same_connections_trans by (simp) blast
  next
    case 3
    have "distinct (pl_ready p)" using 3 by (simp add: counts_ok_def)
    then have "set (pl_ready (close_connection cfg d p)) = set (pl_ready p) - {d}"
      using close_connection_facts(3) [OF 3] by (simp add: set_remove1_eq)
    then show ?case using Cons(3) [OF close_connection_facts(1) [OF 3]] by auto
  next
    case 4
    note facts = close_connection_facts [OF 4(2), where cfg = cfg and c = d]
    have "set (pl_log (close_connection cfg d p)) \<subseteq> set (pl_log (fold (close_connection cfg) ds (close_connection cfg d p)))"
      using Cons(2) [OF facts(1)] by (simp add: same_connections_def)
    then show ?case using 4(1) facts(4) Cons(4) [OF _ facts(1)] by auto
  }
qed

subsection \<open>Closing\<close>

lemma subset_minus_empty: "S \<subseteq> T \<Longrightarrow> X \<subseteq> S - T \<Longrightarrow> X = {}"
  by blast

lemma Pool_maybe_close_simps [simp]:
  "pl_connections (Pool_maybe_close p) = pl_connections p"
  "pl_pending_connections (Pool_maybe_close p) = pl_pending_connections p"
  "pl_ready (Pool_maybe_close p) = pl_ready p" "pl_spawned (Pool_maybe_close p) = pl_spawned p"
  by (simp_all add: Pool_maybe_close_def notify_pool_closed_def)

text \<open>The conditions on states, without the one that a closing pool has connections left.\<close>

lemma Pool_maybe_close_ok:
  assumes "counts_ok p" "connections_ok cfg p" "pl_state p = POOL_STATE_CLOSING" "times is_pool_closed p = 0"
    and "times is_pool_ready p \<le> 1" "pl_ready p = []" "\<forall>c \<in> set (all_connections p). Close c \<in> set (pl_log p)"
  shows "pool_ok cfg (Pool_maybe_close p)"
  using assms
  by (cases "pl_connections p"; cases "pl_pending_connections p")
     (simp_all add: Pool_maybe_close_def notify_pool_closed_def pool_ok_defs told_available_append)

lemma Pool_close_again: "pool_ok cfg p \<Longrightarrow> pool_closing p \<Longrightarrow> Pool_close cfg b p = p"
  by (auto simp: Pool_close_def Pool_maybe_close_def pool_ok_defs)

text \<open>Pools are closed with their connections in any number, even none where the states otherwise ask for one.\<close>

lemma Pool_close_ok':
  assumes "counts_ok p" "connections_ok cfg p" "\<not> pool_closing p" "times is_pool_closed p = 0"
    and "times is_pool_ready p \<le> (if pl_state p = POOL_STATE_CONNECTING then 0 else 1)"
  shows "pool_ok cfg (Pool_close cfg b p)"
proof -
  let ?q = "if pl_state p = POOL_STATE_CONNECTING then notify_pool_ready (p\<lparr>pl_connect_timer := None, pl_state := POOL_STATE_CLOSING\<rparr>)
    else p\<lparr>pl_connect_timer := None, pl_state := POOL_STATE_CLOSING\<rparr>"
  let ?r = "(set_is_available cfg False ?q)\<lparr>pl_cancel_reconnect := b\<rparr>"
  let ?s = "fold (close_connection cfg) (pl_connections ?r @ pl_pending_connections ?r) ?r"
  have q: "counts_ok ?q" "pl_connections ?q = pl_connections p" "pl_pending_connections ?q = pl_pending_connections p"
    "pl_ready ?q = pl_ready p" "pl_spawned ?q = pl_spawned p" "times is_pool_closed ?q = 0" "times is_pool_ready ?q \<le> 1"
    using assms by (auto simp: notify_pool_ready_def counts_ok_def times_def told_available_append split: if_splits)
  have "counts_ok (set_is_available cfg False ?q)" using q(1) by (rule set_is_available_counts)
  then have r: "counts_ok ?r" by (simp add: counts_ok_def)
  have frame: "times is_pool_closed ?r = 0" "times is_pool_ready ?r \<le> 1"
    using set_is_available_frame [of ?q cfg False] q(6,7) by (simp_all add: same_connections_def times_def)
  note s = close_all_facts [OF r, where cfg = cfg and cs = "pl_connections ?r @ pl_pending_connections ?r"]
  have same: "pl_connections ?s = pl_connections p" "pl_pending_connections ?s = pl_pending_connections p"
    "pl_spawned ?s = pl_spawned p" "times is_pool_closed ?s = 0" "times is_pool_ready ?s \<le> 1" "pl_state ?s = POOL_STATE_CLOSING"
    using s(2) frame q by (simp_all add: same_connections_def notify_pool_ready_def)
  have "set (pl_ready p) \<subseteq> set (pl_connections p) \<union> set (pl_pending_connections p)"
    using assms(2) by (simp add: connections_ok_def all_connections_def)
  moreover have "set (pl_ready ?s) \<subseteq> set (pl_ready p) - (set (pl_connections p) \<union> set (pl_pending_connections p))"
    using s(3) q(2,3,4) by (simp only: set_append) simp
  ultimately have "set (pl_ready ?s) = {}" by (rule subset_minus_empty)
  then have none: "pl_ready ?s = []" by simp
  have "pool_ok cfg (Pool_maybe_close ?s)"
  proof (rule Pool_maybe_close_ok)
    show "connections_ok cfg ?s" using assms(2) same none by (simp add: connections_ok_def all_connections_def)
    show "\<forall>c \<in> set (all_connections ?s). Close c \<in> set (pl_log ?s)"
      using s(4) same q by (simp add: all_connections_def)
  qed (use s(1) same none in simp_all)
  then show ?thesis using assms(3) by (simp add: Pool_close_def Let_def)
qed

lemma Pool_close_ok: "pool_ok cfg p \<Longrightarrow> pool_ok cfg (Pool_close cfg b p)"
proof (cases "pool_closing p")
  case True
  then show "pool_ok cfg p \<Longrightarrow> pool_ok cfg (Pool_close cfg b p)" by (simp add: Pool_close_again)
next
  case False
  assume ok: "pool_ok cfg p"
  then have "states_ok p" by (simp add: pool_ok_def)
  then show "pool_ok cfg (Pool_close cfg b p)"
    using ok False by (intro Pool_close_ok') (auto simp: pool_ok_def states_ok_def)
qed

subsection \<open>Connecting\<close>

lemma spawn_counts: "counts_ok p \<Longrightarrow> counts_ok (spawn_connection p)"
  by (simp add: spawn_connection_def counts_ok_def told_available_append)

lemma spawn_connections:
  assumes "connections_ok cfg p" "length (all_connections p) < max (core_connections_per_host cfg) (max_connections_per_host cfg)"
  shows "connections_ok cfg (spawn_connection p)"
proof -
  have "c < pl_spawned p" if "c \<in> set (pl_connections p) \<union> set (pl_pending_connections p)" for c
    using assms(1) that by (simp add: connections_ok_def all_connections_def)
  then have "pl_spawned p \<notin> set (pl_connections p) \<union> set (pl_pending_connections p)" by blast
  then show ?thesis
    using assms by (auto simp: spawn_connection_def connections_ok_def all_connections_def less_Suc_eq)
qed

lemma spawn_connection_ok:
  assumes ok: "pool_ok cfg p" and bound: "length (all_connections p) < max (core_connections_per_host cfg) (max_connections_per_host cfg)"
    and state: "pl_state p \<in> {POOL_STATE_CONNECTING, POOL_STATE_READY}"
  shows "pool_ok cfg (spawn_connection p)"
proof -
  have "states_ok (spawn_connection p)"
    using ok state unfolding pool_ok_def states_ok_def spawn_connection_def times_def by auto
  then show ?thesis using ok spawn_counts spawn_connections [OF _ bound] by (simp add: pool_ok_def)
qed

lemma spawn_connection_simps:
  "pl_state (spawn_connection p) = pl_state p"
  "\<not> pool_closing p \<Longrightarrow> length (all_connections (spawn_connection p)) = length (all_connections p) + 1"
  by (simp_all add: spawn_connection_def all_connections_def)

lemma spawn_many_ok:
  assumes "pool_ok cfg p" "length (all_connections p) + n \<le> max (core_connections_per_host cfg) (max_connections_per_host cfg)"
    and "pl_state p \<in> {POOL_STATE_CONNECTING, POOL_STATE_READY}"
  shows "pool_ok cfg ((spawn_connection ^^ n) p) \<and> pl_state ((spawn_connection ^^ n) p) = pl_state p \<and>
    length (all_connections ((spawn_connection ^^ n) p)) = length (all_connections p) + n"
  using assms
proof (induction n)
  case (Suc n)
  let ?q = "(spawn_connection ^^ n) p"
  have q: "pool_ok cfg ?q" "pl_state ?q = pl_state p" "length (all_connections ?q) = length (all_connections p) + n"
    using Suc by simp_all
  then have "pool_ok cfg (spawn_connection ?q)"
    using Suc.prems by (intro spawn_connection_ok) simp_all
  then show ?case using q Suc.prems(3) by (auto simp: spawn_connection_simps)
qed simp

lemma spawn_many_closing: "pool_closing p \<Longrightarrow> (spawn_connection ^^ n) p = p"
  by (induction n) (auto simp: spawn_connection_def)

lemma maybe_spawn_ok: "pool_ok cfg p \<Longrightarrow> pool_ok cfg (maybe_spawn_connection cfg p)"
  by (auto simp: maybe_spawn_connection_def all_connections_def intro!: spawn_connection_ok)

lemma maybe_spawn_many_ok: "pool_ok cfg p \<Longrightarrow> pool_ok cfg ((maybe_spawn_connection cfg ^^ n) p)"
  by (induction n) (simp_all add: maybe_spawn_ok)

lemma maybe_notify_ready_ok':
  assumes "counts_ok p" "connections_ok cfg p" "pl_state p = POOL_STATE_CONNECTING" "times is_pool_closed p = 0"
    and "times is_pool_ready p = 0"
  shows "pool_ok cfg (maybe_notify_ready p)"
  using assms
  by (auto simp: maybe_notify_ready_def notify_pool_ready_def pool_ok_defs told_available_append)

lemma maybe_notify_ready_other: "pl_state p \<noteq> POOL_STATE_CONNECTING \<Longrightarrow> maybe_notify_ready p = p"
  by (simp add: maybe_notify_ready_def)

lemma spawn_many_facts:
  assumes "counts_ok p" "\<not> pool_closing p" "connections_ok cfg p"
    and "length (all_connections p) + n \<le> max (core_connections_per_host cfg) (max_connections_per_host cfg)"
  shows "counts_ok ((spawn_connection ^^ n) p) \<and> connections_ok cfg ((spawn_connection ^^ n) p) \<and>
    length (all_connections ((spawn_connection ^^ n) p)) = length (all_connections p) + n \<and>
    pl_state ((spawn_connection ^^ n) p) = pl_state p \<and>
    times is_pool_closed ((spawn_connection ^^ n) p) = times is_pool_closed p \<and>
    times is_pool_ready ((spawn_connection ^^ n) p) = times is_pool_ready p"
  using assms
proof (induction n)
  case (Suc n)
  let ?q = "(spawn_connection ^^ n) p"
  have q: "counts_ok ?q" "connections_ok cfg ?q" "length (all_connections ?q) = length (all_connections p) + n"
    "pl_state ?q = pl_state p" "times is_pool_closed ?q = times is_pool_closed p" "times is_pool_ready ?q = times is_pool_ready p"
    using Suc by simp_all
  have "connections_ok cfg (spawn_connection ?q)"
    using q(2,3) Suc.prems(4) by (intro spawn_connections) simp_all
  then show ?case
    using q Suc.prems(2) spawn_counts [OF q(1)]
    by (simp add: spawn_connection_simps) (simp add: spawn_connection_def times_def)
qed simp

lemma Pool_connect_ok:
  assumes ok: "pool_ok cfg p"
  shows "pool_ok cfg (Pool_connect cfg p)"
proof (cases "pl_state p = POOL_STATE_NEW \<or> pl_state p = POOL_STATE_WAITING_TO_CONNECT")
  case True
  let ?p = "p\<lparr>pl_connect_timer := None\<rparr>" and ?n = "core_connections_per_host cfg"
  have start: "counts_ok ?p" "connections_ok cfg ?p" "\<not> pool_closing ?p" "all_connections ?p = []"
    "times is_pool_closed ?p = 0" "times is_pool_ready ?p = 0"
    using ok True by (auto simp: pool_ok_defs)
  have facts: "counts_ok ((spawn_connection ^^ ?n) ?p)" "connections_ok cfg ((spawn_connection ^^ ?n) ?p)"
    "times is_pool_closed ((spawn_connection ^^ ?n) ?p) = 0" "times is_pool_ready ((spawn_connection ^^ ?n) ?p) = 0"
    using spawn_many_facts [OF start(1,3,2), of ?n] start by simp_all
  have "pool_ok cfg (maybe_notify_ready (((spawn_connection ^^ ?n) ?p)\<lparr>pl_state := POOL_STATE_CONNECTING\<rparr>))"
    by (rule maybe_notify_ready_ok')
       (use facts in \<open>simp_all add: counts_ok_def connections_ok_def all_connections_def times_def\<close>)
  then show ?thesis using True by (auto simp: Pool_connect_def Let_def)
next
  case False
  then show ?thesis using ok by (simp add: Pool_connect_def)
qed

lemma timer_ok: "pool_ok cfg p \<Longrightarrow> pool_ok cfg (p\<lparr>pl_connect_timer := None\<rparr>)"
  by (simp add: pool_ok_defs)

lemma delayed_connect_ok: "pool_ok cfg p \<Longrightarrow> pool_ok cfg (delayed_connect p)"
  by (auto simp: delayed_connect_def pool_ok_defs)

lemma on_partial_reconnect_ok:
  assumes ok: "pool_ok cfg p" and state: "pl_state p \<notin> {POOL_STATE_NEW, POOL_STATE_WAITING_TO_CONNECT}"
  shows "pool_ok cfg (on_partial_reconnect cfg p)"
proof (cases "pool_closing p")
  case True
  then show ?thesis using timer_ok [OF ok] spawn_many_closing by (simp add: on_partial_reconnect_def Let_def)
next
  case False
  then have "pl_state p \<in> {POOL_STATE_CONNECTING, POOL_STATE_READY}" using state by (cases "pl_state p") simp_all
  moreover let ?n = "core_connections_per_host cfg - length (all_connections p)"
  have "length (all_connections p) + ?n \<le> max (core_connections_per_host cfg) (max_connections_per_host cfg)"
    using ok by (auto simp: pool_ok_def connections_ok_def)
  moreover have "all_connections (p\<lparr>pl_connect_timer := None\<rparr>) = all_connections p" by (simp add: all_connections_def)
  ultimately have "pool_ok cfg ((spawn_connection ^^ ?n) (p\<lparr>pl_connect_timer := None\<rparr>))"
    using spawn_many_ok [OF timer_ok [OF ok], of ?n] by simp
  then show ?thesis by (simp add: on_partial_reconnect_def Let_def all_connections_def)
qed

subsection \<open>Requests\<close>

text \<open>Operations that change neither the connections nor which of them are ready.\<close>

definition quiet :: "pool \<Rightarrow> pool \<Rightarrow> bool" where
  "quiet p p' \<longleftrightarrow> (counts_ok p \<longrightarrow> counts_ok p') \<and> same_connections p p' \<and> pl_ready p' = pl_ready p"

lemma quiet_refl: "quiet p p"
  by (simp add: quiet_def same_connections_refl)

lemma quiet_trans: "quiet p p' \<Longrightarrow> quiet p' p'' \<Longrightarrow> quiet p p''"
  using same_connections_trans by (auto simp: quiet_def)

lemma quiet_ok: "pool_ok cfg p \<Longrightarrow> quiet p p' \<Longrightarrow> pool_ok cfg p'"
  by (rule same_connections_ok) (auto simp: quiet_def pool_ok_def)

lemma quiet_tell:
  assumes "\<not> is_pool_ready n" "\<not> is_pool_closed n" "\<And>b. told_available b [n] = b"
  shows "quiet p (tell n p)"
  using assms by (auto simp: quiet_def same_connections_def times_def counts_ok_def told_available_append)

lemma quiet_set_is_available: "quiet p (set_is_available cfg b p)"
  by (simp add: quiet_def set_is_available_counts set_is_available_frame)

lemma quiet_requests: "quiet p (p\<lparr>pl_pending_requests := es\<rparr>)" "quiet p (p\<lparr>pl_is_pending_flush := b\<rparr>)"
  by (simp_all add: quiet_def same_connections_def times_def counts_ok_def)

lemma quiet_write_request: "quiet p (Pool_write_request c e p)"
proof -
  let ?p = "tell (Write_request c e) p"
  have p: "quiet p ?p" by (rule quiet_tell) simp_all
  have "quiet ?p (if pl_is_pending_flush ?p then ?p else tell Pending_flush ?p)"
    using quiet_refl quiet_tell [of Pending_flush ?p] by simp
  then show ?thesis
    using quiet_trans [OF quiet_trans [OF p] quiet_requests(2)] by (simp add: Pool_write_request_def Let_def)
qed

lemma quiet_remove: "quiet p (remove_pending_request cfg e p)"
  unfolding remove_pending_request_def by (rule quiet_trans [OF quiet_requests(1) quiet_set_is_available])

lemma quiet_return: "quiet p (Pool_return_connection cfg ready takes c p)"
proof (induction cfg ready takes c p rule: Pool_return_connection.induct)
  case (1 cfg ready takes c p)
  show ?case
  proof (cases "pl_pending_requests p")
    case Nil
    then show ?thesis by (subst Pool_return_connection.simps) (simp add: quiet_refl)
  next
    case (Cons e es)
    let ?q = "remove_pending_request cfg e p"
    let ?r = "if takes (length (e # es)) then Pool_write_request c e ?q else tell (Retry_next_host e) ?q"
    have "quiet ?q ?r" using quiet_write_request quiet_tell [of "Retry_next_host e" ?q] by simp
    then have r: "quiet p ?r" by (rule quiet_trans [OF quiet_remove])
    have "quiet p (Pool_return_connection cfg ready takes c ?r)" if "ready (length (e # es))"
      by (rule quiet_trans [OF r]) (rule "1.IH" [OF Cons that refl])
    then show ?thesis using Cons quiet_refl by (subst Pool_return_connection.simps) (simp add: Let_def)
  qed
qed

lemma quiet_flush: "quiet p (Pool_flush p)"
proof -
  have "quiet q (fold (\<lambda>c. tell (Flush c)) cs q)" for q cs
  proof (induction cs arbitrary: q)
    case (Cons c cs)
    have "quiet q (tell (Flush c) q)" by (rule quiet_tell) simp_all
    then show ?case using quiet_trans [OF _ Cons] by simp
  qed (simp add: quiet_refl)
  then show ?thesis unfolding Pool_flush_def by (rule quiet_trans [OF quiet_requests(2)])
qed

lemma quiet_wait: "quiet p (Pool_wait_for_connection cfg e p)"
proof -
  let ?p = "p\<lparr>pl_pending_requests := pl_pending_requests p @ [e]\<rparr>"
  have "quiet p (tell (Start_pending_request e) ?p)"
    by (rule quiet_trans [OF quiet_requests(1)], rule quiet_tell) simp_all
  then show ?thesis
    using quiet_trans [OF _ quiet_set_is_available] by (simp add: Pool_wait_for_connection_def Let_def)
qed

lemma maybe_close_ok: "pool_ok cfg p \<Longrightarrow> Pool_maybe_close p = p"
  by (auto simp: Pool_maybe_close_def pool_ok_defs)

lemma request_timeout_ok:
  assumes "pool_ok cfg p"
  shows "pool_ok cfg (on_pending_request_timeout cfg e p)"
proof -
  have "quiet p (tell (Retry_next_host e) (remove_pending_request cfg e p))"
    by (rule quiet_trans [OF quiet_remove], rule quiet_tell) simp_all
  then have "pool_ok cfg (tell (Retry_next_host e) (remove_pending_request cfg e p))" by (rule quiet_ok [OF assms])
  then show ?thesis using maybe_close_ok by (simp add: on_pending_request_timeout_def)
qed

subsection \<open>Connections that become ready or close\<close>

lemma maybe_notify_ready_ok: "pool_ok cfg p \<Longrightarrow> maybe_notify_ready p = p"
  by (auto simp: maybe_notify_ready_def pool_ok_defs)

lemma on_ready_ok:
  assumes ok: "pool_ok cfg p" and c: "c \<in> set (pl_pending_connections p)" "Close c \<notin> set (pl_log p)"
  shows "pool_ok cfg (Pool_on_ready cfg ready takes c p)"
proof -
  let ?p = "p\<lparr>pl_pending_connections := filter (\<lambda>d. d \<noteq> c) (pl_pending_connections p), pl_connections := pl_connections p @ [c]\<rparr>"
  let ?q = "Pool_return_connection cfg ready takes c ?p"
  have parts: "counts_ok p" "connections_ok cfg p" "states_ok p" using ok by (simp_all add: pool_ok_def)
  have state: "pl_state p \<in> {POOL_STATE_CONNECTING, POOL_STATE_READY}"
    using parts(3) c by (cases "pl_state p") (auto simp: states_ok_def all_connections_def)
  have counts: "counts_ok ?p" using parts(1) by (simp add: counts_ok_def)
  have "length (filter (\<lambda>d. d \<noteq> c) (pl_pending_connections p)) < length (pl_pending_connections p)"
    using c(1) by (simp add: length_filter_less)
  then have connections: "connections_ok cfg ?p"
    using parts(2) c(1) by (auto simp: connections_ok_def all_connections_def)
  have q: "quiet ?p ?q" by (rule quiet_return)
  then have same: "counts_ok ?q" "pl_state ?q = pl_state p" "times is_pool_closed ?q = times is_pool_closed p"
    "times is_pool_ready ?q = times is_pool_ready p" "connections_ok cfg ?q"
    using counts connections by (simp_all add: quiet_def same_connections_def times_def connections_ok_def all_connections_def)
  show ?thesis
  proof (cases "pl_state p = POOL_STATE_CONNECTING")
    case True
    have "pool_ok cfg (maybe_notify_ready ?q)"
      by (rule maybe_notify_ready_ok') (use same True parts(3) in \<open>simp_all add: states_ok_def\<close>)
    then show ?thesis by (simp add: Pool_on_ready_def)
  next
    case False
    then have "pl_state p = POOL_STATE_READY" using state by simp
    then have "states_ok ?p" using parts(3) by (simp add: states_ok_def times_def)
    then have "pool_ok cfg ?p" using counts connections by (simp add: pool_ok_def)
    then have "pool_ok cfg ?q" by (rule quiet_ok [OF _ q])
    then show ?thesis using maybe_notify_ready_ok by (simp add: Pool_on_ready_def)
  qed
qed

text \<open>\<^term>\<open>dropped c p\<close> is the pool when \<open>on_close\<close> has erased the connection
  from both of its lists.\<close>

definition dropped :: "nat \<Rightarrow> pool \<Rightarrow> pool" where
  "dropped c p = p\<lparr>pl_pending_connections := filter (\<lambda>d. d \<noteq> c) (pl_pending_connections p),
     pl_connections := remove1 c (pl_connections p)\<rparr>"

lemma dropped_simps [simp]:
  "pl_state (dropped c p) = pl_state p" "pl_log (dropped c p) = pl_log p"
  "pl_ready (dropped c p) = pl_ready p" "pl_connect_timer (dropped c p) = pl_connect_timer p"
  by (simp_all add: dropped_def)

lemma dropped_ok:
  assumes counts: "counts_ok p" and connections: "connections_ok cfg p" and c: "c \<notin> set (pl_ready p)"
  shows "counts_ok (dropped c p)" "connections_ok cfg (dropped c p)" "set (all_connections (dropped c p)) \<subseteq> set (all_connections p)"
proof -
  show "counts_ok (dropped c p)" using counts by (simp add: counts_ok_def dropped_def)
  have distinct: "distinct (pl_connections p)" "distinct (pl_pending_connections p)"
    "set (pl_connections p) \<inter> set (pl_pending_connections p) = {}"
    using connections by (simp_all add: connections_ok_def all_connections_def)
  have all: "set (all_connections (dropped c p)) = set (all_connections p) - {c}"
    using distinct by (auto simp: all_connections_def dropped_def set_remove1_eq)
  then show "set (all_connections (dropped c p)) \<subseteq> set (all_connections p)" by blast
  have "length (all_connections (dropped c p)) \<le> length (all_connections p)"
    unfolding all_connections_def dropped_def by (simp add: length_remove1 add_mono)
  moreover have "distinct (all_connections (dropped c p))"
    using distinct by (simp add: all_connections_def dropped_def set_remove1_eq) blast
  moreover have "pl_spawned (dropped c p) = pl_spawned p" by (simp add: dropped_def)
  ultimately show "connections_ok cfg (dropped c p)"
    using connections c all unfolding connections_ok_def dropped_simps by auto
qed

text \<open>The parts of the invariant do not see the error code, nor the timer.\<close>

definition same_pool :: "pool \<Rightarrow> pool \<Rightarrow> bool" where
  "same_pool p q \<longleftrightarrow> counts_ok q = counts_ok p \<and> (\<forall>cfg. connections_ok cfg q = connections_ok cfg p) \<and>
     pl_state q = pl_state p \<and> all_connections q = all_connections p \<and> pl_connections q = pl_connections p \<and>
     pl_pending_connections q = pl_pending_connections p \<and> pl_log q = pl_log p \<and> pl_ready q = pl_ready p"

lemma same_pool_updates:
  "same_pool p p" "same_pool p (p\<lparr>pl_error_code := code\<rparr>)" "same_pool p (p\<lparr>pl_connect_timer := t\<rparr>)"
  by (simp_all add: same_pool_def counts_ok_def connections_ok_def all_connections_def)

lemma same_pool_times: "same_pool p q \<Longrightarrow> times P q = times P p"
  by (simp add: same_pool_def times_def)

lemma dropped_closing:
  assumes ok: "pool_ok cfg p" "c \<notin> set (pl_ready p)" "pl_state p = POOL_STATE_CLOSING" and q: "same_pool (dropped c p) q"
  shows "pool_ok cfg (Pool_maybe_close q)"
proof -
  have parts: "counts_ok p" "connections_ok cfg p" "states_ok p" using ok by (simp_all add: pool_ok_def)
  note d = dropped_ok [OF parts(1,2) ok(2)]
  show ?thesis
    by (rule Pool_maybe_close_ok)
       (use d q ok(3) parts(3) same_pool_times [OF q] in \<open>auto simp: same_pool_def states_ok_def times_def\<close>)
qed

lemma dropped_ready:
  assumes ok: "pool_ok cfg p" "c \<notin> set (pl_ready p)" "pl_state p = POOL_STATE_READY" and q: "same_pool (dropped c p) q"
  shows "pool_ok cfg q"
proof -
  have parts: "counts_ok p" "connections_ok cfg p" "states_ok p" using ok by (simp_all add: pool_ok_def)
  note d = dropped_ok [OF parts(1,2) ok(2)]
  have "states_ok q" using ok(3) parts(3) q unfolding states_ok_def same_pool_def times_def by simp
  then show ?thesis using d q by (simp add: pool_ok_def same_pool_def)
qed

lemma dropped_connecting:
  assumes ok: "pool_ok cfg p" "c \<notin> set (pl_ready p)" "pl_state p = POOL_STATE_CONNECTING" and q: "same_pool (dropped c p) q"
  shows "pool_ok cfg (maybe_notify_ready q)"
proof -
  have parts: "counts_ok p" "connections_ok cfg p" "states_ok p" using ok by (simp_all add: pool_ok_def)
  note d = dropped_ok [OF parts(1,2) ok(2)]
  show ?thesis
    by (rule maybe_notify_ready_ok')
       (use d q ok(3) parts(3) in \<open>simp_all add: same_pool_def states_ok_def times_def\<close>)
qed

text \<open>Whatever the state, when a connection is left a closing pool keeps waiting.\<close>

lemma dropped_notify:
  assumes ok: "pool_ok cfg p" "c \<notin> set (pl_ready p)" and c: "c \<in> set (all_connections p)"
    and q: "same_pool (dropped c p) q" and left: "pl_state p = POOL_STATE_CLOSING \<Longrightarrow> all_connections q \<noteq> []"
  shows "pool_ok cfg (maybe_notify_ready q)"
proof -
  have parts: "counts_ok p" "connections_ok cfg p" "states_ok p" using ok by (simp_all add: pool_ok_def)
  note d = dropped_ok [OF parts(1,2) ok(2)]
  consider "pl_state p = POOL_STATE_CONNECTING" | "pl_state p = POOL_STATE_READY" | (closing) "pl_state p = POOL_STATE_CLOSING"
    using parts(3) c by (cases "pl_state p") (auto simp: states_ok_def)
  then show ?thesis
  proof cases
    case 1
    then show ?thesis using dropped_connecting [OF ok _ q] by simp
  next
    case 2
    then show ?thesis using maybe_notify_ready_ok [OF dropped_ready [OF ok _ q]] dropped_ready [OF ok _ q] by simp
  next
    case closing
    then have "states_ok q"
      using left [OF closing] parts(3) q d(3) unfolding states_ok_def same_pool_def times_def by auto
    then have "pool_ok cfg q" using d q by (simp add: pool_ok_def same_pool_def)
    then show ?thesis using maybe_notify_ready_ok by simp
  qed
qed

lemma Pool_on_close_cases:
  "v_error_code connection = CONNECTION_ERROR_TIMEOUT \<and> pl_connections (dropped c p) \<noteq> [] \<Longrightarrow>
   Pool_on_close cfg connection c p = maybe_notify_ready
     (if pl_connect_timer (dropped c p) = None then (dropped c p)\<lparr>pl_connect_timer := Some Partial_reconnect\<rparr> else dropped c p)"
  "\<not> (v_error_code connection = CONNECTION_ERROR_TIMEOUT \<and> pl_connections (dropped c p) \<noteq> []) \<Longrightarrow> v_is_defunct connection \<Longrightarrow>
   Pool_on_close cfg connection c p = Pool_close cfg False
     (if is_critical_failure (dropped c p) then dropped c p else (dropped c p)\<lparr>pl_error_code := v_error_code connection\<rparr>)"
  "\<not> (v_error_code connection = CONNECTION_ERROR_TIMEOUT \<and> pl_connections (dropped c p) \<noteq> []) \<Longrightarrow> \<not> v_is_defunct connection \<Longrightarrow>
   Pool_on_close cfg connection c p = Pool_maybe_close (maybe_notify_ready (dropped c p))"
  unfolding Pool_on_close_def Let_def dropped_def [symmetric] by (simp_all only: if_P if_not_P if_True if_False simp_thms)

lemma on_close_ok:
  assumes ok: "pool_ok cfg p" "c \<notin> set (pl_ready p)" and c: "c \<in> set (all_connections p)"
  shows "pool_ok cfg (Pool_on_close cfg connection c p)"
proof -
  let ?p = "dropped c p"
  have parts: "counts_ok p" "connections_ok cfg p" "states_ok p" using ok by (simp_all add: pool_ok_def)
  note d = dropped_ok [OF parts(1,2) ok(2)]
  consider (timeout) "v_error_code connection = CONNECTION_ERROR_TIMEOUT" "pl_connections ?p \<noteq> []"
    | (defunct) "\<not> (v_error_code connection = CONNECTION_ERROR_TIMEOUT \<and> pl_connections ?p \<noteq> [])" "v_is_defunct connection"
    | (other) "\<not> (v_error_code connection = CONNECTION_ERROR_TIMEOUT \<and> pl_connections ?p \<noteq> [])" "\<not> v_is_defunct connection"
    by blast
  then show ?thesis
  proof cases
    case timeout
    define q where "q = (if pl_connect_timer ?p = None then ?p\<lparr>pl_connect_timer := Some Partial_reconnect\<rparr> else ?p)"
    have eq: "Pool_on_close cfg connection c p = maybe_notify_ready q"
      using Pool_on_close_cases(1) timeout unfolding q_def by blast
    have q: "same_pool ?p q" by (simp add: q_def same_pool_updates)
    have "all_connections q \<noteq> []" using timeout(2) by (simp add: q_def all_connections_def)
    then show ?thesis using dropped_notify [OF ok c q] by (simp add: eq)
  next
    case defunct
    define q where "q = (if is_critical_failure ?p then ?p else ?p\<lparr>pl_error_code := v_error_code connection\<rparr>)"
    have eq: "Pool_on_close cfg connection c p = Pool_close cfg False q"
      unfolding q_def by (rule Pool_on_close_cases(2) [OF defunct])
    have q: "same_pool ?p q" by (simp add: q_def same_pool_updates)
    show ?thesis
    proof (cases "pl_state p = POOL_STATE_CLOSING")
      case True
      then have "Pool_close cfg False q = Pool_maybe_close q" using q by (simp add: Pool_close_def same_pool_def)
      then show ?thesis using dropped_closing [OF ok True q] by (simp add: eq)
    next
      case False
      then have "pl_state p = POOL_STATE_CONNECTING \<or> pl_state p = POOL_STATE_READY"
        using parts(3) c by (cases "pl_state p") (auto simp: states_ok_def)
      then have "times is_pool_closed p = 0" "times is_pool_ready p \<le> (if pl_state p = POOL_STATE_CONNECTING then 0 else 1)"
        using parts(3) by (auto simp: states_ok_def)
      moreover have "pl_state q = pl_state p" "times P q = times P p" for P
        using q by (simp_all add: same_pool_def times_def)
      moreover have "counts_ok q" "connections_ok cfg q" using d q by (simp_all add: same_pool_def)
      ultimately show ?thesis unfolding eq using False \<open>pl_state p = POOL_STATE_CONNECTING \<or> _\<close>
        by (intro Pool_close_ok') auto
    qed
  next
    case other
    then have eq: "Pool_on_close cfg connection c p = Pool_maybe_close (maybe_notify_ready ?p)"
      by (intro Pool_on_close_cases(3))
    show ?thesis
    proof (cases "pl_state p = POOL_STATE_CLOSING")
      case True
      then show ?thesis
        using dropped_closing [OF ok True same_pool_updates(1)] by (simp add: eq maybe_notify_ready_other)
    next
      case False
      then show ?thesis
        using dropped_notify [OF ok c same_pool_updates(1)] maybe_close_ok by (simp add: eq)
    qed
  qed
qed

lemma available_ok:
  assumes ok: "pool_ok cfg p" and c: "c \<in> set (all_connections p)" "c \<notin> set (pl_ready p)" "Close c \<notin> set (pl_log p)"
  shows "pool_ok cfg (on_availability_change cfg True (p\<lparr>pl_ready := c # pl_ready p\<rparr>))"
proof -
  let ?p = "p\<lparr>pl_ready := c # pl_ready p, pl_available_connection_count := pl_available_connection_count p + 1\<rparr>"
  have "\<not> pool_closing p" using ok c by (auto simp: pool_ok_def states_ok_def)
  then have "states_ok ?p" using ok by (auto simp: pool_ok_def states_ok_def all_connections_def times_def)
  moreover have "counts_ok ?p" "connections_ok cfg ?p"
    using ok c by (auto simp: pool_ok_def counts_ok_def connections_ok_def all_connections_def)
  ultimately have "pool_ok cfg ?p" by (simp add: pool_ok_def)
  moreover have "quiet ?p (set_is_available cfg True ?p)" by (rule quiet_set_is_available)
  ultimately show ?thesis using quiet_ok by (simp add: on_availability_change_def)
qed

lemma unavailable_ok:
  assumes ok: "pool_ok cfg p" and c: "c \<in> set (pl_ready p)"
  shows "pool_ok cfg (on_availability_change cfg False (p\<lparr>pl_ready := remove1 c (pl_ready p)\<rparr>))"
proof -
  have counts: "counts_ok p" using ok by (simp add: pool_ok_def)
  note facts = unavailable_counts [OF counts c, where cfg = cfg]
  show ?thesis by (rule same_connections_ok [OF ok]) (use facts in \<open>simp_all add: set_remove1_subset\<close>)
qed

lemma borrow_ok: "pool_ok cfg p \<Longrightarrow> borrow_connection cfg view p = (c, p') \<Longrightarrow> pool_ok cfg p'"
  by (auto simp: borrow_connection_def maybe_spawn_ok maybe_spawn_many_ok split: if_splits option.splits)

lemma on_wait_to_connect_ok: "pool_ok cfg p \<Longrightarrow> pool_ok cfg (on_wait_to_connect cfg p)"
  by (simp add: on_wait_to_connect_def Pool_connect_ok timer_ok)

lemma pool_step_ok:
  assumes "pool_step cfg p p'" "pool_ok cfg p"
  shows "pool_ok cfg p'"
  using assms
proof cases
  case (partial_reconnect)
  then have "pl_state p \<notin> {POOL_STATE_NEW, POOL_STATE_WAITING_TO_CONNECT}"
    using assms(2) by (simp add: pool_ok_def states_ok_def)
  then show ?thesis using partial_reconnect on_partial_reconnect_ok [OF assms(2)] by simp
next
  case (available c)
  then show ?thesis using available_ok [OF assms(2)] by (simp add: all_connections_def)
next
  case (closed c connection)
  then show ?thesis using on_close_ok [OF assms(2)] by (simp add: all_connections_def)
qed (use assms(2) in \<open>simp_all add: Pool_connect_ok delayed_connect_ok Pool_close_ok unavailable_ok on_ready_ok on_wait_to_connect_ok
  request_timeout_ok borrow_ok quiet_ok [OF _ quiet_wait] quiet_ok [OF _ quiet_return] quiet_ok [OF _ quiet_write_request]
  quiet_ok [OF _ quiet_flush]\<close>)

lemma pool_run_ok: "pool_run cfg p \<Longrightarrow> pool_ok cfg p"
  by (induction rule: pool_run.induct) (auto intro: Pool_new_ok pool_step_ok)

subsection \<open>What the runs keep\<close>

text \<open>C15. A pool never has more connections, open or being opened, than the larger of the two limits that
  are configured per host, and it never has the same connection twice.\<close>

theorem pool_connections_bounded:
  "pool_run cfg p \<Longrightarrow> length (pl_connections p) + length (pl_pending_connections p)
     \<le> max (core_connections_per_host cfg) (max_connections_per_host cfg) \<and>
   distinct (pl_connections p @ pl_pending_connections p)"
  using pool_run_ok [of cfg p] by (simp add: pool_ok_def connections_ok_def all_connections_def)


lemma closing_drops:
  assumes ok: "pool_ok cfg p" and closing: "pool_closing p" and c: "c \<in> set (all_connections p)"
  shows "pool_ok cfg (Pool_on_close cfg connection c p) \<and> pool_closing (Pool_on_close cfg connection c p) \<and>
    set (all_connections (Pool_on_close cfg connection c p)) = set (all_connections p) - {c}"
proof -
  have state: "pl_state p = POOL_STATE_CLOSING" using ok closing c by (auto simp: pool_ok_def states_ok_def)
  have "pl_ready p = []" using ok closing by (auto simp: pool_ok_def states_ok_def)
  then have "pool_ok cfg (Pool_on_close cfg connection c p)" using on_close_ok [OF ok _ c] by simp
  moreover have "distinct (pl_connections p)" "set (pl_connections p) \<inter> set (pl_pending_connections p) = {}"
    using ok by (simp_all add: pool_ok_def connections_ok_def all_connections_def)
  then have "set (all_connections (dropped c p)) = set (all_connections p) - {c}"
    by (auto simp: all_connections_def dropped_def set_remove1_eq)
  moreover have "pl_state (Pool_on_close cfg connection c p) = POOL_STATE_CLOSING \<or>
      pl_state (Pool_on_close cfg connection c p) = POOL_STATE_CLOSED"
    "all_connections (Pool_on_close cfg connection c p) = all_connections (dropped c p)"
    using state by (simp_all add: Pool_on_close_def Let_def maybe_notify_ready_def Pool_close_def Pool_maybe_close_def
      notify_pool_closed_def dropped_def all_connections_def)
  ultimately show ?thesis by simp
qed

lemma closing_ends:
  assumes "pool_ok cfg p" "pool_closing p" "distinct cs" "set cs = set (all_connections p)"
  shows "pl_state (fold (\<lambda>c. Pool_on_close cfg (view c) c) cs p) = POOL_STATE_CLOSED"
  using assms
proof (induction cs arbitrary: p)
  case Nil
  then show ?case by (auto simp: pool_ok_def states_ok_def)
next
  case (Cons c cs)
  then have "c \<in> set (all_connections p)" by auto
  note drop = closing_drops [OF Cons.prems(1,2) this, where connection = "view c"]
  have "pl_state (fold (\<lambda>c. Pool_on_close cfg (view c) c) cs (Pool_on_close cfg (view c) c p)) = POOL_STATE_CLOSED"
    by (rule Cons.IH) (use drop Cons.prems(3,4) in auto)
  then show ?case by simp
qed

lemma close_connection_state: "pl_state (fold (close_connection cfg) cs p) = pl_state p"
  by (induction cs arbitrary: p)
     (simp_all add: close_connection_def on_availability_change_def set_is_available_def Let_def)

lemma Pool_close_closing: "pool_closing (Pool_close cfg b p)"
  by (auto simp: Pool_close_def Pool_maybe_close_def Let_def notify_pool_closed_def notify_pool_ready_def set_is_available_def
    close_connection_state)

text \<open>C16. Closing a pool ends: every connection the pool has left was told to close, and when all of them have closed, in any
  order and for any reason, the pool is closed.\<close>

theorem pool_close_ends:
  assumes "pool_run cfg p" "p' = Pool_close cfg cancel_reconnect p"
    and "distinct cs" "set cs = set (pl_connections p' @ pl_pending_connections p')"
  shows "(\<forall>c \<in> set cs. Close c \<in> set (pl_log p')) \<and>
    pl_state (fold (\<lambda>c. Pool_on_close cfg (view c) c) cs p') = POOL_STATE_CLOSED"
proof -
  have ok: "pool_ok cfg p'" using Pool_close_ok [OF pool_run_ok [OF assms(1)]] assms(2) by simp
  have closing: "pool_closing p'" unfolding assms(2) by (rule Pool_close_closing)
  show ?thesis
    using ok closing closing_ends [OF ok closing assms(3)] assms(4) by (auto simp: pool_ok_def states_ok_def all_connections_def)
qed

subsection \<open>Examples\<close>

definition example_pool_config :: pool_config where
  "example_pool_config =
     \<lparr>core_connections_per_host = 2, max_connections_per_host = 2, max_concurrent_creation = 1,
      max_concurrent_requests_threshold = 100, pending_requests_low_water_mark = 128, pending_requests_high_water_mark = 256\<rparr>"

text \<open>A pool whose first connection is ready, and whose second one is still being made.\<close>

definition example_pool :: pool where
  "example_pool =
     Pool_on_ready example_pool_config (\<lambda>_. True) (\<lambda>_. True) 0
       (let p = Pool_connect example_pool_config (Pool_new True)
        in on_availability_change example_pool_config True (p\<lparr>pl_ready := 0 # pl_ready p\<rparr>))"

lemma Pool_return_nothing: "pl_pending_requests p = [] \<Longrightarrow> Pool_return_connection cfg ready takes c p = p"
  by (subst Pool_return_connection.simps) simp

lemmas pool_computes =
  Pool_connect_def Pool_new_def spawn_connection_def tell_def maybe_notify_ready_def on_availability_change_def
  set_is_available_def Pool_on_ready_def Pool_return_nothing example_pool_config_def Pool_close_def close_connection_def
  Pool_maybe_close_def Let_def eval_nat_numeral

lemma example_pool_is:
  "example_pool =
     \<lparr>pl_state = POOL_STATE_CONNECTING, pl_error_code = CONNECTION_OK, pl_connections = [0], pl_pending_connections = [1],
      pl_pending_requests = [], pl_available_connection_count = 1, pl_is_available = True, pl_is_initial_connection = True,
      pl_is_pending_flush = False, pl_cancel_reconnect = False, pl_connect_timer = None, pl_spawned = 2, pl_ready = [0],
      pl_log = [Connect 0, Connect 1, Host_is_available True], pl_assertion_failed = False\<rparr>"
  by (simp add: example_pool_def pool_computes)

lemma example_pool_run: "pool_run example_pool_config example_pool"
proof -
  let ?p = "Pool_connect example_pool_config (Pool_new True)"
  let ?q = "on_availability_change example_pool_config True (?p\<lparr>pl_ready := 0 # pl_ready ?p\<rparr>)"
  have "pool_run example_pool_config (Pool_new True)" by (rule pool_run.new)
  then have "pool_run example_pool_config ?p" by (rule pool_run.step) (rule pool_step.connect)
  then have "pool_run example_pool_config ?q"
    by (rule pool_run.step) (rule pool_step.available, simp_all add: pool_computes)
  then have "pool_run example_pool_config (Pool_on_ready example_pool_config (\<lambda>_. True) (\<lambda>_. True) 0 ?q)"
    by (rule pool_run.step) (rule pool_step.ready, simp_all add: pool_computes)
  then show ?thesis by (simp add: example_pool_def Let_def)
qed

theorem pool_connections_bounded_witness:
  "length (pl_connections example_pool) + length (pl_pending_connections example_pool) \<le> 2"
  using pool_connections_bounded [OF example_pool_run] by (simp add: example_pool_config_def)


theorem pool_close_ends_witness:
  "pl_state (fold (\<lambda>c. Pool_on_close example_pool_config
       \<lparr>v_error_code = CONNECTION_OK, v_is_defunct = False, v_available_streams = 0, v_pending_request_count = 0\<rparr> c)
     [1, 0] (Pool_close example_pool_config True example_pool)) = POOL_STATE_CLOSED"
proof -
  have "pl_connections (Pool_close example_pool_config True example_pool) = [0]"
    "pl_pending_connections (Pool_close example_pool_config True example_pool) = [1]"
    by (simp_all add: example_pool_is pool_computes notify_pool_ready_def)
  then show ?thesis
    using pool_close_ends [OF example_pool_run refl, where cs = "[1, 0]" and cancel_reconnect = True
      and view = "\<lambda>_. \<lparr>v_error_code = CONNECTION_OK, v_is_defunct = False, v_available_streams = 0, v_pending_request_count = 0\<rparr>"]
    by auto
qed

subsection \<open>Where the pool differs from what is meant\<close>

text \<open>The second of two calls of \<open>close\<close> is ignored with its argument: a host that is removed while its pool is
  already closing, because of a failed connection, is reconnected to.\<close>

lemma close_again_keeps_reconnect:
  assumes "pool_run cfg p" "pool_closing p" "\<not> pl_cancel_reconnect p"
  shows "\<not> pl_cancel_reconnect (Pool_close cfg True p)"
  using Pool_close_again [OF pool_run_ok [OF assms(1)] assms(2)] assms(3) by simp

text \<open>The least busy connection is chosen before it is asked whether it is ready: with a ready connection that has streams
  left, the pool finds none.\<close>

lemma ready_connection_not_found:
  assumes "c \<notin> set (pl_ready p)" "pl_connections p = [c, d]" "v_pending_request_count (view c) \<le> v_pending_request_count (view d)"
  shows "find_least_busy view p = None"
  using assms by (simp add: find_least_busy_def)

text \<open>A connection that becomes ready after it was closed tells the pool of a change although it is not available. The pool
  takes it off the count of available connections, which it never was on.\<close>

lemma ready_after_close_counts_below_zero:
  assumes "pl_available_connection_count p = 0"
  shows "pl_available_connection_count (on_availability_change cfg False p) = -1 \<and>
    pl_assertion_failed (on_availability_change cfg False p)"
  using assms by (simp add: on_availability_change_def)

end
