(* ===== verification/Murmur3.thy ===== *)
theory Murmur3
  imports Prelude
begin

text \<open>
  The partition key hash: \<open>MurmurHash3_x64_128\<close> (\<open>murmur3.cpp\<close>), which returns the first half of the
  128-bit hash. \<open>int64_t\<close> arithmetic wraps around, blocks are read in little-endian order, the bytes
  of the tail are \<open>int8_t\<close> and are sign-extended before they are shifted, as Cassandra's own
  implementation does. The key is the list of its bytes; \<open>len\<close> is its length.
\<close>

definition rotl64 :: "i64 \<Rightarrow> nat \<Rightarrow> i64" where
  "rotl64 x r = push_bit r x OR drop_bit (64 - r) x"

text \<open>\<open>p[i]\<close> of a pointer to \<open>int64_t\<close>: the eight bytes from \<open>8 * i\<close>, least significant first.\<close>

primrec little_endian :: "byte list \<Rightarrow> i64" where
  "little_endian [] = 0"
| "little_endian (b # bs) = ucast b OR push_bit 8 (little_endian bs)"

definition getblock :: "byte list \<Rightarrow> nat \<Rightarrow> i64" where
  "getblock p i = little_endian (take 8 (drop (8 * i) p))"

definition fmix :: "i64 \<Rightarrow> i64" where
  "fmix k =
     (let k = k XOR drop_bit 33 k;
          k = k * 0xff51afd7ed558ccd;
          k = k XOR drop_bit 33 k;
          k = k * 0xc4ceb9fe1a85ec53
      in k XOR drop_bit 33 k)"

definition murmur_c1 :: i64 where
  "murmur_c1 = 0x87c37b91114253d5"

definition murmur_c2 :: i64 where
  "murmur_c2 = 0x4cf5ad432745937f"

definition murmur_body :: "byte list \<Rightarrow> nat \<Rightarrow> i64 \<times> i64 \<Rightarrow> i64 \<times> i64" where
  "murmur_body blocks i = (\<lambda>(h1, h2).
     let k1 = getblock blocks (i * 2 + 0);
         k2 = getblock blocks (i * 2 + 1);
         k1 = k1 * murmur_c1; k1 = rotl64 k1 31; k1 = k1 * murmur_c2; h1 = h1 XOR k1;
         h1 = rotl64 h1 27; h1 = h1 + h2; h1 = h1 * 5 + 0x52dce729;
         k2 = k2 * murmur_c2; k2 = rotl64 k2 33; k2 = k2 * murmur_c1; h2 = h2 XOR k2;
         h2 = rotl64 h2 31; h2 = h2 + h1; h2 = h2 * 5 + 0x38495ab5
     in (h1, h2))"

text \<open>The \<open>switch\<close> falls through: a label is executed when \<open>len & 15\<close> is at least its number.
  \<open>tail_xor r n s k\<close> is the statement of label \<open>n\<close>.\<close>

definition tail_xor :: "nat \<Rightarrow> byte list \<Rightarrow> nat \<Rightarrow> nat \<Rightarrow> i64 \<Rightarrow> i64" where
  "tail_xor r tail n s k = (if n \<le> r then k XOR push_bit s (scast (tail ! (n - 1))) else k)"

definition murmur_tail :: "byte list \<Rightarrow> nat \<Rightarrow> i64 \<times> i64 \<Rightarrow> i64 \<times> i64" where
  "murmur_tail tail r = (\<lambda>(h1, h2).
     let k2 = 0;
         k2 = tail_xor r tail 15 48 k2;
         k2 = tail_xor r tail 14 40 k2;
         k2 = tail_xor r tail 13 32 k2;
         k2 = tail_xor r tail 12 24 k2;
         k2 = tail_xor r tail 11 16 k2;
         k2 = tail_xor r tail 10 8 k2;
         k2 = tail_xor r tail 9 0 k2;
         h2 = (if 9 \<le> r then h2 XOR (rotl64 (k2 * murmur_c2) 33 * murmur_c1) else h2);
         k1 = 0;
         k1 = tail_xor r tail 8 56 k1;
         k1 = tail_xor r tail 7 48 k1;
         k1 = tail_xor r tail 6 40 k1;
         k1 = tail_xor r tail 5 32 k1;
         k1 = tail_xor r tail 4 24 k1;
         k1 = tail_xor r tail 3 16 k1;
         k1 = tail_xor r tail 2 8 k1;
         k1 = tail_xor r tail 1 0 k1;
         h1 = (if 1 \<le> r then h1 XOR (rotl64 (k1 * murmur_c1) 31 * murmur_c2) else h1)
     in (h1, h2))"

definition MurmurHash3_x64_128 :: "byte list \<Rightarrow> u32 \<Rightarrow> i64" where
  "MurmurHash3_x64_128 key seed =
     (let len = length key;
          nblocks = len div 16;
          (h1, h2) = fold (murmur_body key) [0..<nblocks] (ucast seed, ucast seed);
          (h1, h2) = murmur_tail (drop (nblocks * 16) key) (len mod 16) (h1, h2);
          h1 = h1 XOR of_nat len; h2 = h2 XOR of_nat len;
          h1 = h1 + h2;
          h2 = h2 + h1;
          h1 = fmix h1;
          h2 = fmix h2;
          h1 = h1 + h2
      in h1)"

subsection \<open>Reference\<close>

text \<open>The reference definition consumes the key sixteen bytes at a time. A lane of the tail is the
  exclusive or of its sign-extended bytes, each at eight times its position.\<close>

definition mix_k1 :: "i64 \<Rightarrow> i64" where
  "mix_k1 k = rotl64 (k * murmur_c1) 31 * murmur_c2"

definition mix_k2 :: "i64 \<Rightarrow> i64" where
  "mix_k2 k = rotl64 (k * murmur_c2) 33 * murmur_c1"

definition murmur_round :: "i64 \<Rightarrow> i64 \<Rightarrow> i64 \<times> i64 \<Rightarrow> i64 \<times> i64" where
  "murmur_round k1 k2 = (\<lambda>(h1, h2).
     let h1' = (rotl64 (h1 XOR mix_k1 k1) 27 + h2) * 5 + 0x52dce729
     in (h1', (rotl64 (h2 XOR mix_k2 k2) 31 + h1') * 5 + 0x38495ab5))"

fun signed_lane :: "byte list \<Rightarrow> i64" where
  "signed_lane [] = 0"
| "signed_lane (b # bs) = scast b XOR push_bit 8 (signed_lane bs)"

definition murmur_finish :: "nat \<Rightarrow> i64 \<times> i64 \<Rightarrow> i64" where
  "murmur_finish len = (\<lambda>(h1, h2).
     let a = (h1 XOR of_nat len) + (h2 XOR of_nat len)
     in fmix a + fmix ((h2 XOR of_nat len) + a))"

function murmur_ref :: "byte list \<Rightarrow> i64 \<times> i64 \<Rightarrow> i64 \<times> i64" where
  "murmur_ref key h =
     (if 16 \<le> length key
      then murmur_ref (drop 16 key)
             (murmur_round (little_endian (take 8 key)) (little_endian (take 8 (drop 8 key))) h)
      else (fst h XOR mix_k1 (signed_lane (take 8 key)), snd h XOR mix_k2 (signed_lane (drop 8 key))))"
  by pat_completeness auto
termination
  by (relation "measure (\<lambda>(key, h). length key)") auto

declare murmur_ref.simps [simp del]

subsection \<open>Equality with the reference\<close>

lemma murmur_body_round:
  "murmur_body key i =
     murmur_round (little_endian (take 8 (drop (16 * i) key)))
       (little_endian (take 8 (drop (16 * i + 8) key)))"
proof -
  have i: "8 * (i * 2 + 1) = 16 * i + 8" "8 * (i * 2 + 0) = 16 * i" by auto
  show ?thesis
    unfolding murmur_body_def murmur_round_def getblock_def mix_k1_def mix_k2_def Let_def i ..
qed

lemma murmur_body_Suc: "murmur_body key (Suc i) = murmur_body (drop 16 key) i"
  unfolding murmur_body_round by (simp add: add.commute)

lemma mix_0 [simp]: "mix_k1 0 = 0" "mix_k2 0 = 0"
  by (simp_all add: mix_k1_def mix_k2_def rotl64_def)

lemma push_bit_0_add: "push_bit m (push_bit n (w :: i64)) = push_bit (m + n) w"
  by (simp add: push_bit_push_bit)

lemma signed_lane_upt:
  "signed_lane (map f [i..<i]) = 0"
  "i < j \<Longrightarrow> signed_lane (map f [i..<j]) = scast (f i) XOR push_bit 8 (signed_lane (map f [Suc i..<j]))"
  by (simp_all add: upt_conv_Cons)

lemma upt_small:
  "[0..<1] = [0::nat]" "[0..<2] = [0, 1::nat]" "[0..<3] = [0, 1, 2::nat]"
  "[0..<4] = [0, 1, 2, 3::nat]" "[0..<5] = [0, 1, 2, 3, 4::nat]" "[0..<6] = [0, 1, 2, 3, 4, 5::nat]"
  "[0..<7] = [0, 1, 2, 3, 4, 5, 6::nat]" "[0..<8] = [0, 1, 2, 3, 4, 5, 6, 7::nat]"
  by (simp_all add: upt_rec)

lemma nat_less_8: "m < 8 \<longleftrightarrow> m = 0 \<or> m = 1 \<or> m = 2 \<or> m = 3 \<or> m = 4 \<or> m = 5 \<or> m = 6 \<or> m = (7::nat)"
  by arith

lemma lane1:
  assumes "length tail = r"
  shows "tail_xor r tail 1 0 (tail_xor r tail 2 8 (tail_xor r tail 3 16 (tail_xor r tail 4 24
    (tail_xor r tail 5 32 (tail_xor r tail 6 40 (tail_xor r tail 7 48 (tail_xor r tail 8 56 0))))))) =
    signed_lane (take 8 tail)"
proof -
  have t: "take 8 tail = map ((!) tail) [0..<min 8 r]"
    using assms by (simp add: list_eq_iff_nth_eq)
  show ?thesis
  proof (cases "8 \<le> r")
    case True
    then show ?thesis unfolding t
      by (simp add: tail_xor_def min_absorb1 upt_small push_bit_xor push_bit_push_bit ac_simps)
  next
    case False
    then have m: "min 8 r = r" "r < 8" by auto
    then show ?thesis unfolding t m(1) nat_less_8
      by (elim disjE) (simp_all add: tail_xor_def upt_small push_bit_xor push_bit_push_bit ac_simps)
  qed
qed

lemma lane2:
  assumes "length tail = r" "r < 16"
  shows "tail_xor r tail 9 0 (tail_xor r tail 10 8 (tail_xor r tail 11 16 (tail_xor r tail 12 24
    (tail_xor r tail 13 32 (tail_xor r tail 14 40 (tail_xor r tail 15 48 0)))))) =
    signed_lane (drop 8 tail)"
proof -
  have t: "drop 8 tail = map (\<lambda>i. tail ! (8 + i)) [0..<r - 8]"
    using assms by (simp add: list_eq_iff_nth_eq)
  define m where "m = r - 8"
  have m: "m < 8" "\<And>k. 8 + k \<le> r \<and> 0 < k \<longleftrightarrow> k \<le> m \<and> 0 < k" using assms by (auto simp: m_def)
  have le: "9 \<le> r \<longleftrightarrow> 1 \<le> m" "10 \<le> r \<longleftrightarrow> 2 \<le> m" "11 \<le> r \<longleftrightarrow> 3 \<le> m" "12 \<le> r \<longleftrightarrow> 4 \<le> m"
    "13 \<le> r \<longleftrightarrow> 5 \<le> m" "14 \<le> r \<longleftrightarrow> 6 \<le> m" "15 \<le> r \<longleftrightarrow> 7 \<le> m"
    by (auto simp: m_def)
  show ?thesis using m(1) unfolding t m_def [symmetric] tail_xor_def le nat_less_8
    by (elim disjE) (simp_all add: upt_small push_bit_xor push_bit_push_bit ac_simps)
qed

lemma murmur_tail_ref:
  assumes "length tail = r" "r < 16"
  shows "murmur_tail tail r h = murmur_ref tail h"
proof -
  have d: "drop 8 tail = []" if "\<not> 9 \<le> r" using that assms by simp
  have t: "tail = []" if "\<not> 1 \<le> r" using that assms by (cases tail) auto
  obtain h1 h2 where h: "h = (h1, h2)" by (cases h)
  show ?thesis using assms(2) d t
    unfolding h murmur_tail_def Let_def prod.case lane1 [OF assms(1)] lane2 [OF assms]
    by (subst murmur_ref.simps) (auto simp: mix_k1_def [symmetric] mix_k2_def [symmetric] assms(1))
qed

lemma murmur_fold_ref:
  "murmur_tail (drop (length key div 16 * 16) key) (length key mod 16)
     (fold (murmur_body key) [0..<length key div 16] h) = murmur_ref key h"
proof (induction key h rule: murmur_ref.induct)
  case (1 key h)
  show ?case
  proof (cases "16 \<le> length key")
    case True
    define n where "n = length (drop 16 key) div 16"
    have n: "length key div 16 = Suc n" "length key mod 16 = length (drop 16 key) mod 16"
      using True by (auto simp: n_def le_div_geq le_mod_geq)
    have b: "murmur_body key 0 h = murmur_round (little_endian (take 8 key))
        (little_endian (take 8 (drop 8 key))) h"
      by (simp add: murmur_body_round)
    have f: "fold (murmur_body key) [0..<Suc n] h =
        fold (murmur_body (drop 16 key)) [0..<n] (murmur_body key 0 h)"
      by (simp add: upt_conv_Cons map_Suc_upt [symmetric] fold_map o_def murmur_body_Suc
          del: upt_Suc)
    have d: "drop (Suc n * 16) key = drop (n * 16) (drop 16 key)" by (simp add: add.commute)
    have r: "murmur_ref key h = murmur_ref (drop 16 key) (murmur_body key 0 h)"
      using True b by (subst murmur_ref.simps) simp
    show ?thesis using 1 [OF True] unfolding n n_def [symmetric] f d r b .
  next
    case False
    then show ?thesis by (simp add: murmur_tail_ref)
  qed
qed

lemma murmur_equiv:
  "MurmurHash3_x64_128 key seed = murmur_finish (length key) (murmur_ref key (ucast seed, ucast seed))"
  unfolding MurmurHash3_x64_128_def Let_def case_prod_beta prod.collapse murmur_fold_ref
    murmur_finish_def ..

subsection \<open>The finalizer loses nothing\<close>

lemma xorshift33_involution:
  "(k XOR drop_bit 33 k) XOR drop_bit 33 (k XOR drop_bit 33 k) = (k :: i64)"
proof (rule bit_word_eqI)
  fix i assume "i < LENGTH(64)"
  have "\<not> bit k (33 + (33 + i))" by (auto dest: bit_imp_le_length)
  then show "bit ((k XOR drop_bit 33 k) XOR drop_bit 33 (k XOR drop_bit 33 k)) i = bit k i"
    by (auto simp: bit_xor_iff bit_drop_bit_eq)
qed

definition fmix_inverse :: "i64 \<Rightarrow> i64" where
  "fmix_inverse k =
     (let k = k XOR drop_bit 33 k;
          k = k * 0x9cb4b2f8129337db;
          k = k XOR drop_bit 33 k;
          k = k * 0x4f74430c22a54005
      in k XOR drop_bit 33 k)"

lemma fmix_constants:
  "(0xc4ceb9fe1a85ec53 :: i64) * 0x9cb4b2f8129337db = 1"
  "(0xff51afd7ed558ccd :: i64) * 0x4f74430c22a54005 = 1"
  by simp_all

lemma fmix_inverse_fmix: "fmix_inverse (fmix k) = k"
  unfolding fmix_inverse_def fmix_def Let_def xorshift33_involution mult.assoc fmix_constants mult_1_right
  ..

lemma fmix_fmix_inverse: "fmix (fmix_inverse k) = k"
proof -
  have "(0x9cb4b2f8129337db :: i64) * 0xc4ceb9fe1a85ec53 = 1"
    "(0x4f74430c22a54005 :: i64) * 0xff51afd7ed558ccd = 1" by simp_all
  then show ?thesis
    unfolding fmix_inverse_def fmix_def Let_def xorshift33_involution
    by (simp only: mult.assoc mult_1_right xorshift33_involution)
qed

subsection \<open>Properties\<close>

text \<open>C22. The hash computed with block indices and a fall-through switch is the reference
  definition, which consumes the key sixteen bytes at a time and sign-extends the bytes of the
  remainder, for keys of every length; and its finalizer is a bijection, so that mixing loses no
  bit of the state.\<close>

theorem murmur_is_reference:
  "MurmurHash3_x64_128 key seed =
     murmur_finish (length key) (murmur_ref key (ucast seed, ucast seed)) \<and> bij fmix"
proof -
  have "bij fmix" by (rule o_bij [of fmix_inverse]) (auto simp: fmix_inverse_fmix fmix_fmix_inverse)
  then show ?thesis using murmur_equiv by blast
qed

end
