(* ===== verification/Md5.thy ===== *)
theory Md5
  imports Prelude
begin

text \<open>
  The MD5 digest behind the random partitioner: \<open>Md5\<close> (\<open>md5.hpp\<close>, \<open>md5.cpp\<close>). The four registers and
  the two halves of the length counter are 32-bit words; \<open>md5_buffer\<close> is the 64-byte buffer, which the
  constructor leaves uninitialised: its contents are the argument \<open>junk\<close>. The reference that it is
  proved against is RFC 1321: pad the whole message, then process it block by block.
\<close>

datatype md5_op = MD5_F | MD5_G | MD5_H | MD5_I

fun md5_function :: "md5_op \<Rightarrow> u32 \<Rightarrow> u32 \<Rightarrow> u32 \<Rightarrow> u32" where
  "md5_function MD5_F x y z = z XOR (x AND (y XOR z))"
| "md5_function MD5_G x y z = y XOR (z AND (x XOR y))"
| "md5_function MD5_H x y z = x XOR y XOR z"
| "md5_function MD5_I x y z = y XOR (x OR NOT z)"

type_synonym md5_regs = "u32 \<times> u32 \<times> u32 \<times> u32"

text \<open>\<open>STEP\<close> changes its first register. The statements name the registers in the order \<open>abcd\<close>,
  \<open>dabc\<close>, \<open>cdab\<close>, \<open>bcda\<close> and again: the tuple is rotated after each step instead.\<close>

definition md5_word :: "byte list \<Rightarrow> nat \<Rightarrow> u32" where
  "md5_word ptr n = ucast (ptr ! (n * 4)) OR push_bit 8 (ucast (ptr ! (n * 4 + 1))) OR
     push_bit 16 (ucast (ptr ! (n * 4 + 2))) OR push_bit 24 (ucast (ptr ! (n * 4 + 3)))"

definition md5_STEP ::
    "(md5_op \<Rightarrow> u32 \<Rightarrow> u32 \<Rightarrow> u32 \<Rightarrow> u32) \<Rightarrow> byte list \<Rightarrow>
     md5_op \<times> nat \<times> u32 \<times> nat \<Rightarrow> md5_regs \<Rightarrow> md5_regs" where
  "md5_STEP fn ptr = (\<lambda>(f, n, t, s) (a, b, c, d).
     let a = a + (fn f b c d + md5_word ptr n + t);
         a = push_bit s a OR drop_bit (32 - s) (a AND 0xffffffff);
         a = a + b
     in (d, a, b, c))"

definition md5_steps :: "(md5_op \<times> nat \<times> u32 \<times> nat) list" where
  "md5_steps = [
   (MD5_F, 0, 0xd76aa478, 7), (MD5_F, 1, 0xe8c7b756, 12),
   (MD5_F, 2, 0x242070db, 17), (MD5_F, 3, 0xc1bdceee, 22),
   (MD5_F, 4, 0xf57c0faf, 7), (MD5_F, 5, 0x4787c62a, 12),
   (MD5_F, 6, 0xa8304613, 17), (MD5_F, 7, 0xfd469501, 22),
   (MD5_F, 8, 0x698098d8, 7), (MD5_F, 9, 0x8b44f7af, 12),
   (MD5_F, 10, 0xffff5bb1, 17), (MD5_F, 11, 0x895cd7be, 22),
   (MD5_F, 12, 0x6b901122, 7), (MD5_F, 13, 0xfd987193, 12),
   (MD5_F, 14, 0xa679438e, 17), (MD5_F, 15, 0x49b40821, 22),
   (MD5_G, 1, 0xf61e2562, 5), (MD5_G, 6, 0xc040b340, 9),
   (MD5_G, 11, 0x265e5a51, 14), (MD5_G, 0, 0xe9b6c7aa, 20),
   (MD5_G, 5, 0xd62f105d, 5), (MD5_G, 10, 0x02441453, 9),
   (MD5_G, 15, 0xd8a1e681, 14), (MD5_G, 4, 0xe7d3fbc8, 20),
   (MD5_G, 9, 0x21e1cde6, 5), (MD5_G, 14, 0xc33707d6, 9),
   (MD5_G, 3, 0xf4d50d87, 14), (MD5_G, 8, 0x455a14ed, 20),
   (MD5_G, 13, 0xa9e3e905, 5), (MD5_G, 2, 0xfcefa3f8, 9),
   (MD5_G, 7, 0x676f02d9, 14), (MD5_G, 12, 0x8d2a4c8a, 20),
   (MD5_H, 5, 0xfffa3942, 4), (MD5_H, 8, 0x8771f681, 11),
   (MD5_H, 11, 0x6d9d6122, 16), (MD5_H, 14, 0xfde5380c, 23),
   (MD5_H, 1, 0xa4beea44, 4), (MD5_H, 4, 0x4bdecfa9, 11),
   (MD5_H, 7, 0xf6bb4b60, 16), (MD5_H, 10, 0xbebfbc70, 23),
   (MD5_H, 13, 0x289b7ec6, 4), (MD5_H, 0, 0xeaa127fa, 11),
   (MD5_H, 3, 0xd4ef3085, 16), (MD5_H, 6, 0x04881d05, 23),
   (MD5_H, 9, 0xd9d4d039, 4), (MD5_H, 12, 0xe6db99e5, 11),
   (MD5_H, 15, 0x1fa27cf8, 16), (MD5_H, 2, 0xc4ac5665, 23),
   (MD5_I, 0, 0xf4292244, 6), (MD5_I, 7, 0x432aff97, 10),
   (MD5_I, 14, 0xab9423a7, 15), (MD5_I, 5, 0xfc93a039, 21),
   (MD5_I, 12, 0x655b59c3, 6), (MD5_I, 3, 0x8f0ccc92, 10),
   (MD5_I, 10, 0xffeff47d, 15), (MD5_I, 1, 0x85845dd1, 21),
   (MD5_I, 8, 0x6fa87e4f, 6), (MD5_I, 15, 0xfe2ce6e0, 10),
   (MD5_I, 6, 0xa3014314, 15), (MD5_I, 13, 0x4e0811a1, 21),
   (MD5_I, 4, 0xf7537e82, 6), (MD5_I, 11, 0xbd3af235, 10),
   (MD5_I, 2, 0x2ad7d2bb, 15), (MD5_I, 9, 0xeb86d391, 21)]"

definition md5_block ::
    "(md5_op \<Rightarrow> u32 \<Rightarrow> u32 \<Rightarrow> u32 \<Rightarrow> u32) \<Rightarrow> byte list \<Rightarrow> md5_regs \<Rightarrow> md5_regs" where
  "md5_block fn ptr saved =
     (let (a, b, c, d) = fold (md5_STEP fn ptr) md5_steps saved;
          (saved_a, saved_b, saved_c, saved_d) = saved
      in (a + saved_a, b + saved_b, c + saved_c, d + saved_d))"

text \<open>\<open>body\<close> is called with a positive multiple of 64 bytes; the loop takes one block at a time.\<close>

function md5_blocks ::
    "(md5_op \<Rightarrow> u32 \<Rightarrow> u32 \<Rightarrow> u32 \<Rightarrow> u32) \<Rightarrow> byte list \<Rightarrow> md5_regs \<Rightarrow> md5_regs" where
  "md5_blocks fn data regs =
     (if length data < 64 then regs else md5_blocks fn (drop 64 data) (md5_block fn (take 64 data) regs))"
  by pat_completeness auto
termination
  by (relation "measure (\<lambda>(fn, data, regs). length data)") auto

declare md5_blocks.simps [simp del]

record md5 =
  md5_lo :: u32
  md5_hi :: u32
  md5_regs :: md5_regs
  md5_buffer :: "byte list"

definition Md5_new :: "byte list \<Rightarrow> md5" where
  "Md5_new junk = \<lparr>md5_lo = 0, md5_hi = 0,
     md5_regs = (0x67452301, 0xefcdab89, 0x98badcfe, 0x10325476), md5_buffer = junk\<rparr>"

definition Md5_body :: "byte list \<Rightarrow> md5 \<Rightarrow> md5" where
  "Md5_body data st = st\<lparr>md5_regs := md5_blocks md5_function data (md5_regs st)\<rparr>"

text \<open>\<open>memcpy(&buffer_[used], data, size)\<close> inside the buffer.\<close>

definition buffer_write :: "byte list \<Rightarrow> nat \<Rightarrow> byte list \<Rightarrow> byte list" where
  "buffer_write buffer used data = take used buffer @ data @ drop (used + length data) buffer"

text \<open>The end of \<open>update\<close>: whole blocks, then what is left into the buffer.\<close>

definition md5_absorb :: "byte list \<Rightarrow> md5 \<Rightarrow> md5" where
  "md5_absorb data st =
     (let whole = length data div 64 * 64;
          (st, data) = (if length data \<ge> 64 then (Md5_body (take whole data) st, drop whole data)
                        else (st, data))
      in st\<lparr>md5_buffer := buffer_write (md5_buffer st) 0 data\<rparr>)"

definition Md5_update :: "byte list \<Rightarrow> md5 \<Rightarrow> md5" where
  "Md5_update data st =
     (let size = of_nat (length data) :: size_t;
          saved_lo = md5_lo st;
          lo = ucast ((ucast saved_lo + size) AND 0x1fffffff) :: u32;
          hi = md5_hi st + (if lo < saved_lo then 1 else 0) + ucast (drop_bit 29 size);
          st = st\<lparr>md5_lo := lo, md5_hi := hi\<rparr>;
          used = unat (saved_lo AND 0x3f)
      in if used \<noteq> 0
         then let free = 64 - used
              in if length data < free
                 then st\<lparr>md5_buffer := buffer_write (md5_buffer st) used data\<rparr>
                 else let buffer = buffer_write (md5_buffer st) used (take free data)
                      in md5_absorb (drop free data) (Md5_body buffer (st\<lparr>md5_buffer := buffer\<rparr>))
         else md5_absorb data st)"

definition le_bytes32 :: "u32 \<Rightarrow> byte list" where
  "le_bytes32 w = [ucast w, ucast (drop_bit 8 w), ucast (drop_bit 16 w), ucast (drop_bit 24 w)]"

definition regs_bytes :: "md5_regs \<Rightarrow> byte list" where
  "regs_bytes = (\<lambda>(a, b, c, d). le_bytes32 a @ le_bytes32 b @ le_bytes32 c @ le_bytes32 d)"

definition Md5_final :: "md5 \<Rightarrow> byte list \<times> md5" where
  "Md5_final st =
     (let used = unat (md5_lo st AND 0x3f);
          buffer = (md5_buffer st)[used := 0x80];
          used = used + 1;
          free = 64 - used;
          (st, buffer, used, free) =
            (if free < 8
             then let buffer = buffer_write buffer used (replicate free 0)
                  in (Md5_body buffer st, buffer, 0, 64)
             else (st, buffer, used, free));
          buffer = buffer_write buffer used (replicate (free - 8) 0);
          lo = push_bit 3 (md5_lo st);
          buffer = buffer_write buffer 56 (le_bytes32 lo @ le_bytes32 (md5_hi st));
          st = Md5_body buffer st
      in (regs_bytes (md5_regs st),
          \<lparr>md5_lo = 0, md5_hi = 0, md5_regs = (0, 0, 0, 0), md5_buffer = replicate 64 0\<rparr>))"

subsection \<open>Reference\<close>

fun rfc_function :: "md5_op \<Rightarrow> u32 \<Rightarrow> u32 \<Rightarrow> u32 \<Rightarrow> u32" where
  "rfc_function MD5_F x y z = (x AND y) OR (NOT x AND z)"
| "rfc_function MD5_G x y z = (x AND z) OR (y AND NOT z)"
| "rfc_function MD5_H x y z = x XOR y XOR z"
| "rfc_function MD5_I x y z = y XOR (x OR NOT z)"

definition md5_padding :: "nat \<Rightarrow> byte list" where
  "md5_padding len = [0x80] @ replicate ((119 - len mod 64) mod 64) 0 @
     le_bytes32 (of_nat (8 * len)) @ le_bytes32 (of_nat (8 * len div 2 ^ 32))"

definition rfc_md5 :: "byte list \<Rightarrow> byte list" where
  "rfc_md5 m = regs_bytes (md5_blocks rfc_function (m @ md5_padding (length m))
     (0x67452301, 0xefcdab89, 0x98badcfe, 0x10325476))"

subsection \<open>Blocks and what is left over\<close>

lemma rfc_function_eq: "md5_function = rfc_function"
proof (intro ext)
  fix f x y z
  show "md5_function f x y z = rfc_function f x y z"
    by (cases f; simp; rule bit_word_eqI) (auto simp: bit_simps)
qed

definition left_over :: "byte list \<Rightarrow> byte list" where
  "left_over m = drop (length m div 64 * 64) m"

lemma length_left_over: "length (left_over m) = length m mod 64"
  by (simp add: left_over_def minus_div_mult_eq_mod)

lemma left_over_short: "length m < 64 \<Longrightarrow> left_over m = m"
  by (simp add: left_over_def)

lemma md5_blocks_short: "length m < 64 \<Longrightarrow> md5_blocks fn m r = r"
  by (subst md5_blocks.simps) simp

lemma md5_blocks_step:
  "length b = 64 \<Longrightarrow> md5_blocks fn (b @ m) r = md5_blocks fn m (md5_block fn b r)"
  by (subst md5_blocks.simps) simp

lemma left_over_step:
  assumes "length b = 64"
  shows "left_over (b @ m) = left_over m"
proof -
  have "length (b @ m) div 64 = Suc (length m div 64)" using assms by (simp add: div_add_self1)
  then show ?thesis using assms by (simp add: left_over_def)
qed

lemma split_block: "64 \<le> length m \<Longrightarrow> \<exists>b m'. m = b @ m' \<and> length b = 64"
  by (intro exI [of _ "take 64 m"] exI [of _ "drop 64 m"]) simp

lemma md5_blocks_append:
  "md5_blocks fn (m @ n) r = md5_blocks fn (left_over m @ n) (md5_blocks fn m r)"
proof (induction "length m" arbitrary: m r rule: less_induct)
  case less
  show ?case
  proof (cases "length m < 64")
    case False
    then have "64 \<le> length m" by simp
    then obtain b m' where m: "m = b @ m'" "length b = 64" using split_block by blast
    then show ?thesis using less [of m'] by (simp add: md5_blocks_step left_over_step)
  qed (simp add: md5_blocks_short left_over_short)
qed

lemma left_over_append: "left_over (m @ n) = left_over (left_over m @ n)"
proof (induction "length m" arbitrary: m rule: less_induct)
  case less
  show ?case
  proof (cases "length m < 64")
    case False
    then have "64 \<le> length m" by simp
    then obtain b m' where m: "m = b @ m'" "length b = 64" using split_block by blast
    then show ?thesis using less [of m'] by (simp add: left_over_step)
  qed (simp add: left_over_short)
qed

lemma md5_blocks_whole: "md5_blocks fn (take (length m div 64 * 64) m) r = md5_blocks fn m r"
proof -
  let ?k = "length m div 64 * 64"
  have "md5_blocks fn (take ?k m @ left_over m) r =
      md5_blocks fn (left_over (take ?k m) @ left_over m) (md5_blocks fn (take ?k m) r)"
    by (rule md5_blocks_append)
  moreover have "left_over (take ?k m) = []" by (simp add: left_over_def min_absorb2)
  moreover have "take ?k m @ left_over m = m" by (simp add: left_over_def)
  ultimately show ?thesis by (simp add: md5_blocks_short length_left_over)
qed

subsection \<open>The state after a message\<close>

definition md5_holds :: "byte list \<Rightarrow> md5_regs \<Rightarrow> md5 \<Rightarrow> bool" where
  "md5_holds m init st \<longleftrightarrow> length (md5_buffer st) = 64 \<and>
     md5_regs st = md5_blocks md5_function m init \<and>
     take (length m mod 64) (md5_buffer st) = left_over m \<and>
     unat (md5_lo st) = length m mod 2 ^ 29 \<and> unat (md5_hi st) = length m div 2 ^ 29 mod 2 ^ 32"

lemma length_buffer_write [simp]:
  "used + length data \<le> length buffer \<Longrightarrow> length (buffer_write buffer used data) = length buffer"
  by (simp add: buffer_write_def)

lemma take_buffer_write:
  "used + length data \<le> length buffer \<Longrightarrow>
     take (used + length data) (buffer_write buffer used data) = take used buffer @ data"
  by (simp add: buffer_write_def)

lemma md5_absorb_eq:
  "md5_absorb data st = st\<lparr>md5_regs := md5_blocks md5_function data (md5_regs st),
     md5_buffer := buffer_write (md5_buffer st) 0 (left_over data)\<rparr>"
proof (cases "64 \<le> length data")
  case True
  then show ?thesis
    by (simp add: md5_absorb_def Let_def Md5_body_def md5_blocks_whole left_over_def)
next
  case False
  then show ?thesis
    by (simp add: md5_absorb_def Let_def md5_blocks_short left_over_short)
qed

lemma low_six_bits: "unat (w :: u32) = n mod 2 ^ 29 \<Longrightarrow> unat (w AND 0x3f) = n mod 64"
proof -
  assume w: "unat w = n mod 2 ^ 29"
  have m: "(0x3f :: u32) = mask 6" by (simp add: mask_eq_exp_minus_1)
  have "unat (w AND 0x3f) = unat w mod 64"
    unfolding m by (simp add: take_bit_eq_mask [symmetric] unsigned_take_bit_eq take_bit_eq_mod unat_mod)
  then show ?thesis using w mod_mod_cancel [of 64 "2 ^ 29" n] by simp
qed

lemma mod_add3: "(a mod m + c + b mod m) mod m = (a + b + c) mod (m :: nat)"
proof -
  have "(a mod m + c + b mod m) mod m = (a + (c + b mod m)) mod m"
    unfolding add.assoc by (rule mod_add_left_eq)
  also have "\<dots> = (a + c + b) mod m" unfolding add.assoc [symmetric] by (rule mod_add_right_eq)
  finally show ?thesis by (simp only: ac_simps)
qed

lemma unat_add3: "unat (a + b + c :: u32) = (unat a + unat b + unat c) mod 2 ^ 32"
  by (simp add: unat_word_ariths mod_simps)

lemma md5_counters:
  fixes lo hi :: u32 and size :: size_t
  assumes "unat lo = n mod 2 ^ 29" "unat hi = n div 2 ^ 29 mod 2 ^ 32" "unat size = s"
  defines "lo' \<equiv> ucast ((ucast lo + size) AND 0x1fffffff) :: u32"
  shows "unat lo' = (n + s) mod 2 ^ 29"
    "unat (hi + (if lo' < lo then 1 else 0) + ucast (drop_bit 29 size)) = (n + s) div 2 ^ 29 mod 2 ^ 32"
proof -
  have m: "(0x1fffffff :: size_t) = mask 29" by (simp add: mask_eq_exp_minus_1)
  have u: "unat (ucast lo + size) = (n mod 2 ^ 29 + s) mod 2 ^ 64"
    using assms(1,3) by (simp add: unat_word_ariths unat_ucast_up)
  have "unat ((ucast lo + size) AND 0x1fffffff) = unat (ucast lo + size) mod 2 ^ 29"
    unfolding m by (simp add: take_bit_eq_mask [symmetric] unsigned_take_bit_eq take_bit_eq_mod unat_mod)
  also have "\<dots> = (n mod 2 ^ 29 + s) mod 2 ^ 29" unfolding u by (rule mod_mod_cancel) simp
  also have "\<dots> = (n + s) mod 2 ^ 29" by (simp add: mod_add_left_eq)
  finally have a: "unat ((ucast lo + size) AND 0x1fffffff) = (n + s) mod 2 ^ 29" .
  moreover have "(n + s) mod 2 ^ 29 < 2 ^ 32"
    by (rule less_trans [OF mod_less_divisor]) simp_all
  ultimately show lo: "unat lo' = (n + s) mod 2 ^ 29"
    unfolding lo'_def by (simp add: unat_ucast_mod)
  have "(n + s) div 2 ^ 29 = n div 2 ^ 29 + s div 2 ^ 29 + (n mod 2 ^ 29 + s mod 2 ^ 29) div 2 ^ 29"
    by (rule div_add1_eq)
  moreover have "(n mod 2 ^ 29 + s mod 2 ^ 29) div 2 ^ 29 = (if lo' < lo then 1 else 0)"
  proof -
    let ?a = "n mod 2 ^ 29" and ?b = "s mod 2 ^ 29"
    have ab: "?a < 2 ^ 29" "?b < 2 ^ 29" by (simp_all only: mod_less_divisor zero_less_power zero_less_numeral)
    have l: "unat lo' = (?a + ?b) mod 2 ^ 29" unfolding lo by (rule mod_add_eq [symmetric])
    show ?thesis
    proof (cases "?a + ?b < 2 ^ 29")
      case True
      then have "\<not> lo' < lo" using l assms(1) by (simp add: word_less_nat_alt)
      then show ?thesis using True by simp
    next
      case False
      then have ge: "2 ^ 29 \<le> ?a + ?b" by (rule leI)
      have "(?a + ?b) div 2 ^ 29 = 1" by (rule div_nat_eqI) (use ge ab in simp)+
      moreover have "(?a + ?b) mod 2 ^ 29 = ?a + ?b - 2 ^ 29"
        unfolding le_mod_geq [OF ge] by (rule mod_less) (use ab in linarith)
      moreover from this have "lo' < lo" unfolding word_less_nat_alt using l assms(1) ab ge by linarith
      ultimately show ?thesis by simp
    qed
  qed
  moreover have "unat (ucast (drop_bit 29 size) :: u32) = s div 2 ^ 29 mod 2 ^ 32"
    using assms(3) by (simp add: unat_ucast_mod unat_drop_bit_div)
  moreover have "unat (if lo' < lo then 1 else 0 :: u32) = (if lo' < lo then 1 else 0)" by simp
  ultimately show "unat (hi + (if lo' < lo then 1 else 0) + ucast (drop_bit 29 size)) =
      (n + s) div 2 ^ 29 mod 2 ^ 32"
    unfolding unat_add3 assms(2) by (simp only: mod_add3)
qed

subsection \<open>Updating and finishing\<close>

lemma md5_holds_new: "length junk = 64 \<Longrightarrow> md5_holds [] (md5_regs (Md5_new junk)) (Md5_new junk)"
  by (simp add: md5_holds_def Md5_new_def md5_blocks_short left_over_def)

lemma md5_update_holds:
  assumes st: "md5_holds m init st" and size: "length data < 2 ^ 64"
  shows "md5_holds (m @ data) init (Md5_update data st)"
proof -
  define used where "used = length m mod 64"
  have u64: "used < 64" by (simp add: used_def)
  have st': "length (md5_buffer st) = 64" "md5_regs st = md5_blocks md5_function m init"
    "take used (md5_buffer st) = left_over m" "unat (md5_lo st) = length m mod 2 ^ 29"
    "unat (md5_hi st) = length m div 2 ^ 29 mod 2 ^ 32"
    using st by (simp_all add: md5_holds_def used_def)
  have used: "unat (md5_lo st AND 0x3f) = used" using low_six_bits [OF st'(4)] by (simp add: used_def)
  have "unat (of_nat (length data) :: size_t) = length data" using size by simp
  note cnt = md5_counters [OF st'(4,5) this]
  define lo :: u32 where
    "lo = ucast ((ucast (md5_lo st) + of_nat (length data) :: size_t) AND 0x1fffffff)"
  define hi where "hi = md5_hi st + (if lo < md5_lo st then 1 else 0) +
    ucast (drop_bit 29 (of_nat (length data) :: size_t))"
  let ?st = "st\<lparr>md5_lo := lo, md5_hi := hi\<rparr>"
  have lohi: "unat lo = length (m @ data) mod 2 ^ 29" "unat hi = length (m @ data) div 2 ^ 29 mod 2 ^ 32"
    unfolding lo_def hi_def length_append by (fact cnt)+
  have regs: "md5_blocks md5_function (m @ data) init =
      md5_blocks md5_function (left_over m @ data) (md5_regs st)"
    unfolding st'(2) by (rule md5_blocks_append)
  have over: "left_over (m @ data) = left_over (left_over m @ data)" by (rule left_over_append)
  have lm: "length (left_over m) = used" by (simp add: length_left_over used_def)
  have len: "length (m @ data) mod 64 = (used + length data) mod 64"
    by (simp add: used_def mod_simps)
  have goal: "md5_holds (m @ data) init (st\<lparr>md5_lo := lo, md5_hi := hi,
      md5_regs := r, md5_buffer := buf\<rparr>)"
    if "length buf = 64" "r = md5_blocks md5_function (left_over m @ data) (md5_regs st)"
      "take (length (left_over (left_over m @ data))) buf = left_over (left_over m @ data)" for buf r
    using that lohi len over regs lm by (simp add: md5_holds_def length_left_over)
  show ?thesis
  proof (cases "used \<noteq> 0 \<and> length data < 64 - used")
    case True
    then have short: "length (left_over m @ data) < 64" using lm by auto
    have "Md5_update data st = ?st\<lparr>md5_buffer := buffer_write (md5_buffer st) used data\<rparr>"
      using True used by (simp add: Md5_update_def Let_def lo_def hi_def)
    moreover have "md5_holds (m @ data) init (st\<lparr>md5_lo := lo, md5_hi := hi, md5_regs := md5_regs st,
        md5_buffer := buffer_write (md5_buffer st) used data\<rparr>)"
      using True st'(1,3) short take_buffer_write [of used data "md5_buffer st"] lm
      by (intro goal) (simp_all add: md5_blocks_short left_over_short)
    ultimately show ?thesis by simp
  next
    case False
    define rest where "rest = (if used = 0 then data else drop (64 - used) data)"
    define block where "block = left_over m @ take (64 - used) data"
    define buf where
      "buf = (if used = 0 then md5_buffer st else buffer_write (md5_buffer st) used (take (64 - used) data))"
    define regs1 where "regs1 = (if used = 0 then md5_regs st else md5_block md5_function block (md5_regs st))"
    have b64: "used \<noteq> 0 \<Longrightarrow> length block = 64 \<and> buf = block"
      using False u64 lm st'(1,3) by (auto simp: block_def buf_def buffer_write_def)
    have buf: "length buf = 64" using b64 st'(1) by (cases "used = 0") (auto simp: buf_def)
    have eq: "left_over m @ data = (if used = 0 then rest else block @ rest)"
      using lm by (auto simp: rest_def block_def)
    have r: "md5_blocks md5_function (left_over m @ data) (md5_regs st) = md5_blocks md5_function rest regs1"
      using b64 by (simp add: eq regs1_def md5_blocks_step)
    have o: "left_over (left_over m @ data) = left_over rest" using b64 by (simp add: eq left_over_step)
    have "Md5_body block (?st\<lparr>md5_buffer := buf\<rparr>) =
        ?st\<lparr>md5_regs := regs1, md5_buffer := buf\<rparr>" if "used \<noteq> 0"
      using that b64 md5_blocks_step [of block md5_function "[]" "md5_regs st"]
      by (simp add: Md5_body_def regs1_def md5_blocks_short)
    then have "Md5_update data st = md5_absorb rest (?st\<lparr>md5_regs := regs1, md5_buffer := buf\<rparr>)"
      using False used b64
      by (auto simp: Md5_update_def Let_def lo_def [symmetric] hi_def [symmetric] rest_def buf_def regs1_def)
    moreover have "length (left_over rest) < 64" by (simp add: length_left_over)
    then have "md5_holds (m @ data) init (st\<lparr>md5_lo := lo, md5_hi := hi,
        md5_regs := md5_blocks md5_function rest regs1, md5_buffer := buffer_write buf 0 (left_over rest)\<rparr>)"
      using r o buf take_buffer_write [of 0 "left_over rest" buf] by (intro goal) simp_all
    ultimately show ?thesis by (simp add: md5_absorb_eq)
  qed
qed

lemma md5_length_words:
  assumes "unat lo = n mod 2 ^ 29" "unat hi = n div 2 ^ 29 mod 2 ^ 32"
  shows "push_bit 3 lo = (of_nat (8 * n) :: u32)" "hi = (of_nat (8 * n div 2 ^ 32) :: u32)"
proof -
  have "8 * n mod 2 ^ 32 = 8 * (n mod 2 ^ 29)"
    using mult_mod_right [of 8 n "2 ^ 29"] by simp
  then have "unat (of_nat (8 * n) :: u32) = 8 * (n mod 2 ^ 29)"
    by (simp add: unat_of_nat del: of_nat_mult)
  moreover have "unat (push_bit 3 lo) = 8 * (n mod 2 ^ 29)"
    using assms(1) \<open>8 * n mod 2 ^ 32 = 8 * (n mod 2 ^ 29)\<close>
    by (simp add: push_bit_eq_mult unat_word_ariths mult.commute)
  ultimately show "push_bit 3 lo = (of_nat (8 * n) :: u32)" by (simp only: word_unat_eq_iff)
  have "8 * n div 2 ^ 32 = n div 2 ^ 29" using div_mult_mult1 [of 8 n "2 ^ 29"] by simp
  then show "hi = (of_nat (8 * n div 2 ^ 32) :: u32)"
    using assms(2) by (simp add: word_unat_eq_iff unat_of_nat)
qed

lemma buffer_set_end:
  assumes "take u buffer = p" "length buffer = 64" "u < 64"
  shows "take (u + 1) (buffer[u := b]) = p @ [b]"
proof -
  have "length p = u" using assms by auto
  then show ?thesis
    using assms by (simp add: take_update_swap take_Suc_conv_app_nth list_update_append)
qed

lemma length_le_bytes32 [simp]: "length (le_bytes32 w) = 4"
  by (simp add: le_bytes32_def)

lemma md5_final_holds:
  assumes st: "md5_holds m init st"
  shows "fst (Md5_final st) =
    regs_bytes (md5_blocks md5_function (m @ md5_padding (length m)) init)"
proof -
  define u where "u = length m mod 64"
  have u: "u < 64" by (simp add: u_def)
  have st': "length (md5_buffer st) = 64" "md5_regs st = md5_blocks md5_function m init"
    "take u (md5_buffer st) = left_over m" "unat (md5_lo st) = length m mod 2 ^ 29"
    "unat (md5_hi st) = length m div 2 ^ 29 mod 2 ^ 32"
    using st by (simp_all add: md5_holds_def u_def)
  have used: "unat (md5_lo st AND 0x3f) = u" using low_six_bits [OF st'(4)] by (simp add: u_def)
  define ls where "ls = le_bytes32 (of_nat (8 * length m)) @ le_bytes32 (of_nat (8 * length m div 2 ^ 32))"
  have ls: "le_bytes32 (push_bit 3 (md5_lo st)) @ le_bytes32 (md5_hi st) = ls" "length ls = 8"
    using md5_length_words [OF st'(4,5)] by (simp_all add: ls_def)
  define b0 where "b0 = (md5_buffer st)[u := 0x80]"
  have b0: "length b0 = 64" "take (u + 1) b0 = left_over m @ [0x80]"
    using st'(1) buffer_set_end [OF st'(3,1) u] by (simp_all add: b0_def)
  have lm: "length (left_over m) = u" by (simp add: length_left_over u_def)
  have pad: "md5_padding (length m) = [0x80] @ replicate ((119 - u) mod 64) 0 @ ls"
    by (simp add: md5_padding_def u_def ls_def)
  have blocks: "md5_blocks md5_function (m @ md5_padding (length m)) init =
      md5_blocks md5_function (left_over m @ md5_padding (length m)) (md5_regs st)"
    unfolding st'(2) by (rule md5_blocks_append)
  have one: "md5_blocks md5_function b r = md5_block md5_function b r" if "length b = 64" for b r
    using md5_blocks_step [OF that, of md5_function "[]" r] by (simp add: md5_blocks_short)
  show ?thesis
  proof (cases "64 - (u + 1) < 8")
    case True
    have z: "(119 - u) mod 64 = (63 - u) + 56" using True u by simp
    define b1 where "b1 = left_over m @ [0x80] @ replicate (63 - u) (0 :: byte)"
    have w1: "buffer_write b0 (u + 1) (replicate (64 - (u + 1)) 0) = b1"
      using b0 u by (simp add: buffer_write_def b1_def)
    have l1: "length b1 = 64" using lm u by (simp add: b1_def)
    have w2: "buffer_write (buffer_write b1 0 (replicate 56 0)) 56 ls = replicate 56 0 @ ls"
      using l1 ls(2) by (simp add: buffer_write_def)
    have "fst (Md5_final st) = regs_bytes (md5_block md5_function (replicate 56 0 @ ls)
        (md5_block md5_function b1 (md5_regs st)))"
      using True used w1 w2 ls l1
      by (simp add: Md5_final_def Let_def b0_def [symmetric] Md5_body_def one)
    moreover have "left_over m @ md5_padding (length m) = b1 @ (replicate 56 0 @ ls)"
      unfolding pad z replicate_add by (simp add: b1_def)
    moreover have "length (replicate 56 (0 :: byte) @ ls) = 64" using ls(2) by simp
    ultimately show ?thesis using l1 by (simp add: blocks md5_blocks_step one)
  next
    case False
    have z: "(119 - u) mod 64 = 55 - u" using False by (simp add: mod_if)
    define b1 where "b1 = left_over m @ [0x80] @ replicate (55 - u) (0 :: byte) @ ls"
    have w: "buffer_write (buffer_write b0 (u + 1) (replicate (64 - (u + 1) - 8) 0)) 56 ls = b1"
    proof -
      have "56 - u = Suc (55 - u)" using False by simp
      then show ?thesis using b0 u False ls(2) lm by (simp add: buffer_write_def b1_def)
    qed
    have l1: "length b1 = 64" using lm False ls(2) by (simp add: b1_def)
    have "fst (Md5_final st) = regs_bytes (md5_block md5_function b1 (md5_regs st))"
      using False used w ls l1
      by (simp add: Md5_final_def Let_def b0_def [symmetric] Md5_body_def one)
    moreover have "left_over m @ md5_padding (length m) = b1" unfolding pad z by (simp add: b1_def)
    ultimately show ?thesis using l1 by (simp add: blocks one)
  qed
qed

lemma md5_updates_hold:
  "md5_holds m init st \<Longrightarrow> \<forall>c \<in> set chunks. length c < 2 ^ 64 \<Longrightarrow>
     md5_holds (m @ concat chunks) init (fold Md5_update chunks st)"
proof (induction chunks arbitrary: m st)
  case (Cons c chunks)
  then have "md5_holds ((m @ c) @ concat chunks) init (fold Md5_update chunks (Md5_update c st))"
    by (intro Cons.IH md5_update_holds) auto
  then show ?case by simp
qed simp

subsection \<open>Properties\<close>

text \<open>C23. However the message is cut into calls of \<open>update\<close>, and whatever the uninitialised buffer
  holds, the digest is the one RFC 1321 defines on the whole padded message; the rewritten \<open>F\<close> and \<open>G\<close>
  agree with the RFC's, and the 29-bit and 32-bit counters carry into each other correctly.\<close>

theorem md5_is_rfc1321:
  assumes "length junk = 64" "\<forall>c \<in> set chunks. length c < 2 ^ 64"
  shows "fst (Md5_final (fold Md5_update chunks (Md5_new junk))) = rfc_md5 (concat chunks)"
proof -
  have "md5_holds (concat chunks) (md5_regs (Md5_new junk)) (fold Md5_update chunks (Md5_new junk))"
    using md5_updates_hold [OF md5_holds_new [OF assms(1)] assms(2)] by simp
  from md5_final_holds [OF this] show ?thesis
    by (simp add: rfc_md5_def rfc_function_eq Md5_new_def)
qed

theorem md5_is_rfc1321_witness:
  "fst (Md5_final (fold Md5_update [[97], [], [98, 99]] (Md5_new (replicate 64 7)))) = rfc_md5 [97, 98, 99]"
  using md5_is_rfc1321 [of "replicate 64 7" "[[97], [], [98, 99]]"] by simp

end
