(* ===== verification/Partitioner.thy ===== *)
theory Partitioner
  imports Murmur3 Md5 "HOL-Library.List_Lexorder"
begin

text \<open>
  Tokens and partitioners: the number parsers and the three \<open>Partitioner\<close> structs of
  \<open>token_map_impl.hpp\<close> and \<open>token_map_impl.cpp\<close>. A \<open>StringRef\<close> is its bytes. Each token type is a
  datatype of its own with the order of the source's \<open>operator<\<close>, so that the token map can be
  generic in it: signed 64-bit integers, unsigned 128-bit integers in two words, byte strings.
\<close>

subsection \<open>Parsing numbers\<close>

definition isspace_byte :: "byte \<Rightarrow> bool" where
  "isspace_byte c \<longleftrightarrow> c = 32 \<or> 9 \<le> c \<and> c \<le> 13"

definition isdigit_byte :: "byte \<Rightarrow> bool" where
  "isdigit_byte c \<longleftrightarrow> 48 \<le> c \<and> c \<le> 57"

fun parse_digits64 :: "i64 \<Rightarrow> byte list \<Rightarrow> i64" where
  "parse_digits64 value [] = value"
| "parse_digits64 value (c # s) =
     (if isdigit_byte c then parse_digits64 (value * 10 + (ucast c - 48)) s else value)"

definition parse_int64 :: "byte list \<Rightarrow> i64" where
  "parse_int64 p =
     (case dropWhile isspace_byte p of
        [] \<Rightarrow> 0
      | c # s \<Rightarrow>
          let (sign, s) = (if c = 0x2D then (- 1, s) else (1, c # s))
          in sign * parse_digits64 0 s)"

definition int128_step :: "u64 \<times> u64 \<Rightarrow> byte \<Rightarrow> u64 \<times> u64" where
  "int128_step = (\<lambda>(hi, lo) c.
     let hi_tmp = hi;
         lo_tmp = lo;
         lo = push_bit 1 lo_tmp;
         hi = drop_bit 63 lo_tmp + push_bit 1 hi_tmp;
         lo_tmp2 = lo;
         lo = lo + push_bit 3 lo_tmp;
         hi = hi + (drop_bit 61 lo_tmp + push_bit 3 hi_tmp + (if lo < lo_tmp2 then 1 else 0));
         lo_tmp = lo;
         lo = lo + (ucast c - 48);
         hi = hi + (if lo < lo_tmp then 1 else 0)
     in (hi, lo))"

fun parse_digits128 :: "u64 \<times> u64 \<Rightarrow> byte list \<Rightarrow> u64 \<times> u64" where
  "parse_digits128 value [] = value"
| "parse_digits128 value (c # s) =
     (if isdigit_byte c then parse_digits128 (int128_step value c) s else value)"

definition parse_int128 :: "byte list \<Rightarrow> u64 \<times> u64" where
  "parse_int128 p = parse_digits128 (0, 0) (dropWhile isspace_byte p)"

subsection \<open>The Murmur3 partitioner\<close>

lemma sint_inject: "sint v = sint w \<Longrightarrow> v = w"
  by (rule signed_word_eqI)

datatype murmur3_token = Murmur3Token (token_value: i64)

definition Murmur3Partitioner_from_string :: "byte list \<Rightarrow> murmur3_token" where
  "Murmur3Partitioner_from_string str = Murmur3Token (parse_int64 str)"

definition Murmur3Partitioner_hash :: "byte list \<Rightarrow> murmur3_token" where
  "Murmur3Partitioner_hash str = Murmur3Token (MurmurHash3_x64_128 str 0)"

instantiation murmur3_token :: linorder
begin

definition less_eq_murmur3_token :: "murmur3_token \<Rightarrow> murmur3_token \<Rightarrow> bool" where
  "less_eq_murmur3_token a b \<longleftrightarrow> sint (token_value a) \<le> sint (token_value b)"

definition less_murmur3_token :: "murmur3_token \<Rightarrow> murmur3_token \<Rightarrow> bool" where
  "less_murmur3_token a b \<longleftrightarrow> sint (token_value a) < sint (token_value b)"

instance
  by standard
    (auto simp: less_eq_murmur3_token_def less_murmur3_token_def
      intro!: murmur3_token.expand sint_inject)

end

subsection \<open>The random partitioner\<close>

datatype random_token = RandomToken (token_hi: u64) (token_lo: u64)

definition RandomPartitioner_from_string :: "byte list \<Rightarrow> random_token" where
  "RandomPartitioner_from_string str = (case parse_int128 str of (hi, lo) \<Rightarrow> RandomToken hi lo)"

definition RandomPartitioner_encode :: "byte list \<Rightarrow> u64" where
  "RandomPartitioner_encode bytes =
     fold (\<lambda>i result. result OR push_bit (8 * (8 - i - 1)) (ucast (bytes ! i))) [0..<8] 0"

definition RandomPartitioner_abs :: "random_token \<Rightarrow> random_token" where
  "RandomPartitioner_abs token =
     (if token_hi token AND 0x8000000000000000 \<noteq> 0
      then let hi = NOT (token_hi token);
               old_lo = NOT (token_lo token);
               lo = old_lo + 1
           in RandomToken (if lo < old_lo then hi + 1 else hi) lo
      else token)"

text \<open>The digest object is a local variable; its buffer starts with arbitrary contents, on which
  the digest does not depend.\<close>

definition RandomPartitioner_hash :: "byte list \<Rightarrow> random_token" where
  "RandomPartitioner_hash str =
     (let digest = fst (Md5_final (Md5_update str (Md5_new (replicate 64 0))))
      in RandomPartitioner_abs (RandomToken (RandomPartitioner_encode digest)
           (RandomPartitioner_encode (drop 8 digest))))"

instantiation random_token :: linorder
begin

definition less_random_token :: "random_token \<Rightarrow> random_token \<Rightarrow> bool" where
  "less_random_token a b \<longleftrightarrow>
     (if token_hi a = token_hi b then token_lo a < token_lo b else token_hi a < token_hi b)"

definition less_eq_random_token :: "random_token \<Rightarrow> random_token \<Rightarrow> bool" where
  "less_eq_random_token a b \<longleftrightarrow> a = b \<or> a < b"

instance
  by standard
    (auto simp: less_eq_random_token_def less_random_token_def
      intro!: random_token.expand split: if_splits)

end

subsection \<open>The byte ordered partitioner\<close>

datatype byte_ordered_token = ByteOrderedToken (token_bytes: "byte list")

definition ByteOrderedPartitioner_from_string :: "byte list \<Rightarrow> byte_ordered_token" where
  "ByteOrderedPartitioner_from_string str = ByteOrderedToken str"

definition ByteOrderedPartitioner_hash :: "byte list \<Rightarrow> byte_ordered_token" where
  "ByteOrderedPartitioner_hash str = ByteOrderedToken str"

instantiation byte_ordered_token :: linorder
begin

definition less_eq_byte_ordered_token :: "byte_ordered_token \<Rightarrow> byte_ordered_token \<Rightarrow> bool" where
  "less_eq_byte_ordered_token a b \<longleftrightarrow> token_bytes a \<le> token_bytes b"

definition less_byte_ordered_token :: "byte_ordered_token \<Rightarrow> byte_ordered_token \<Rightarrow> bool" where
  "less_byte_ordered_token a b \<longleftrightarrow> token_bytes a < token_bytes b"

instance
  by standard
    (auto simp: less_eq_byte_ordered_token_def less_byte_ordered_token_def
      intro!: byte_ordered_token.expand)

end

subsection \<open>The numbers parsed\<close>

definition ascii :: "nat \<Rightarrow> byte" where
  "ascii d = of_nat (48 + d)"

definition digits_value :: "nat list \<Rightarrow> nat" where
  "digits_value ds = foldl (\<lambda>v d. 10 * v + d) 0 ds"

definition no_digit :: "byte list \<Rightarrow> bool" where
  "no_digit rest \<longleftrightarrow> (case rest of [] \<Rightarrow> True | c # _ \<Rightarrow> \<not> isdigit_byte c)"

lemma unat_ascii: "d < 10 \<Longrightarrow> unat (ascii d) = 48 + d"
  unfolding ascii_def by (rule of_nat_word_nat) simp

lemma isdigit_ascii: "d < 10 \<Longrightarrow> isdigit_byte (ascii d)"
  using unat_ascii [of d] by (simp add: isdigit_byte_def word_le_nat_alt)

lemma ascii_not_special: "d < 10 \<Longrightarrow> ascii d \<noteq> 0x2D \<and> \<not> isspace_byte (ascii d)"
  using unat_ascii [of d] by (auto simp: isspace_byte_def word_le_nat_alt word_unat_eq_iff)

lemma ucast_ascii: "d < 10 \<Longrightarrow> (ucast (ascii d) - 48 :: 64 word) = of_nat d"
proof -
  assume d: "d < 10"
  then have "unat (ucast (ascii d) :: 64 word) = 48 + d" by (simp add: unat_ascii)
  then have "(ucast (ascii d) :: 64 word) = of_nat (48 + d)"
    using d by (simp only: word_unat_eq_iff) (simp add: unat_of_nat del: of_nat_add)
  then show ?thesis by simp
qed

lemma parse_digits64_eq:
  "\<forall>d \<in> set ds. d < 10 \<Longrightarrow> no_digit rest \<Longrightarrow>
     parse_digits64 (of_nat n) (map ascii ds @ rest) = of_nat (foldl (\<lambda>v d. 10 * v + d) n ds)"
proof (induction ds arbitrary: n)
  case Nil
  then show ?case by (cases rest) (auto simp: no_digit_def)
next
  case (Cons d ds)
  then show ?case using Cons.IH [of "10 * n + d"]
    by (simp add: isdigit_ascii ucast_ascii mult.commute)
qed

lemma dropWhile_spaces:
  "\<forall>c \<in> set ws. P c \<Longrightarrow> xs \<noteq> [] \<Longrightarrow> \<not> P (hd xs) \<Longrightarrow> dropWhile P (ws @ xs) = xs"
  by (induction ws) (auto simp: dropWhile_eq_self_iff)

lemma parse_int64_eq:
  assumes "\<forall>c \<in> set ws. isspace_byte c" "\<forall>d \<in> set ds. d < 10" "ds \<noteq> []" "no_digit rest"
  shows "parse_int64 (ws @ map ascii ds @ rest) = of_nat (digits_value ds)"
    "parse_int64 (ws @ 0x2D # map ascii ds @ rest) = - of_nat (digits_value ds)"
proof -
  obtain d ds' where ds: "ds = d # ds'" "d < 10" using assms(2,3) by (cases ds) auto
  have "dropWhile isspace_byte (ws @ map ascii ds @ rest) = map ascii ds @ rest"
    using assms(1) ds ascii_not_special by (intro dropWhile_spaces) auto
  then show "parse_int64 (ws @ map ascii ds @ rest) = of_nat (digits_value ds)"
    using ds ascii_not_special parse_digits64_eq [OF assms(2,4), of 0]
    by (simp add: parse_int64_def digits_value_def)
  have "dropWhile isspace_byte (ws @ 0x2D # map ascii ds @ rest) = 0x2D # map ascii ds @ rest"
    using assms(1) by (intro dropWhile_spaces) (auto simp: isspace_byte_def)
  then show "parse_int64 (ws @ 0x2D # map ascii ds @ rest) = - of_nat (digits_value ds)"
    using parse_digits64_eq [OF assms(2,4), of 0]
    by (simp add: parse_int64_def digits_value_def)
qed

definition pair_value :: "u64 \<times> u64 \<Rightarrow> nat" where
  "pair_value = (\<lambda>(hi, lo). unat hi * 2 ^ 64 + unat lo)"

lemma unat_add_carry:
  "unat (a + b :: u64) + 2 ^ 64 * (if a + b < a then 1 else 0) = unat a + unat b"
proof (cases "unat a + unat b < 2 ^ 64")
  case True
  then have "unat (a + b) = unat a + unat b" by (subst unat_add_lem [THEN iffD1]) simp_all
  then show ?thesis by (simp add: word_less_nat_alt)
next
  case False
  have b: "unat a < 2 ^ 64" "unat b < 2 ^ 64" using unsigned_less [of a] unsigned_less [of b] by simp_all
  have "unat (a + b) = (unat a + unat b) mod 2 ^ 64" by (simp add: unat_word_ariths)
  also have "\<dots> = unat a + unat b - 2 ^ 64" using False b by (simp add: le_mod_geq)
  finally show ?thesis using False b by (simp add: word_less_nat_alt)
qed

lemma shift_split:
  fixes w :: u64
  assumes "k < 64"
  shows "unat (push_bit k w) + 2 ^ 64 * unat (drop_bit (64 - k) w) = 2 ^ k * unat w"
proof -
  have e: "(2 :: nat) ^ 64 = 2 ^ k * 2 ^ (64 - k)" using assms by (simp add: power_add [symmetric])
  have "unat (push_bit k w) = 2 ^ k * unat w mod 2 ^ 64"
    using assms by (simp add: push_bit_eq_mult unat_word_ariths mult.commute)
  also have "\<dots> = 2 ^ k * (unat w mod 2 ^ (64 - k))" unfolding e mult_mod_right ..
  finally have "unat (push_bit k w) = 2 ^ k * (unat w mod 2 ^ (64 - k))" .
  then have "unat (push_bit k w) + 2 ^ 64 * unat (drop_bit (64 - k) w) =
      2 ^ k * (2 ^ (64 - k) * (unat w div 2 ^ (64 - k)) + unat w mod 2 ^ (64 - k))"
    unfolding unat_drop_bit_div e by (simp only: distrib_left mult.assoc add.commute)
  then show ?thesis by (simp only: mult_div_mod_eq)
qed

lemma pair_mod:
  assumes "unat lo < (m :: nat)" "unat hi = h mod m"
  shows "unat hi * m + unat lo = (h * m + unat lo) mod (m * m)"
proof -
  have m: "0 < m" using assms(1) by simp
  have "(h * m + unat lo) mod (m * m) = m * ((h * m + unat lo) div m mod m) + (h * m + unat lo) mod m"
    by (rule mod_mult2_eq)
  also have "(h * m + unat lo) div m = h" using assms(1) m by simp
  also have "(h * m + unat lo) mod m = unat lo" using assms(1) by simp
  finally show ?thesis using assms(2) by (simp add: mult.commute)
qed

lemma int128_step_value:
  assumes "d < 10"
  shows "pair_value (int128_step v (ascii d)) = (10 * pair_value v + d) mod 2 ^ 128"
proof -
  obtain hi lo where v: "v = (hi, lo)" by (cases v)
  define lo1 lo2 lo3 where "lo1 = push_bit 1 lo" "lo2 = lo1 + push_bit 3 lo" "lo3 = lo2 + of_nat d"
  define c1 c2 :: nat where "c1 = (if lo2 < lo1 then 1 else 0)" "c2 = (if lo3 < lo2 then 1 else 0)"
  define k where "k = unat (drop_bit 63 lo) + unat (drop_bit 61 lo) + c1 + c2"
  define hi' where "hi' = drop_bit 63 lo + push_bit 1 hi +
    (drop_bit 61 lo + push_bit 3 hi + of_nat c1) + of_nat c2"
  have c: "of_nat c1 = (if lo2 < lo1 then 1 else 0 :: u64)"
    "of_nat c2 = (if lo3 < lo2 then 1 else 0 :: u64)"
    by (simp_all add: c1_c2_def)
  have step: "int128_step v (ascii d) = (hi', lo3)"
    unfolding v int128_step_def prod.case Let_def ucast_ascii [OF assms] hi'_def c lo1_lo2_lo3_def ..
  have "unat lo3 + 2 ^ 64 * c2 = unat lo2 + d"
    using unat_add_carry [of lo2 "of_nat d"] assms by (simp add: lo1_lo2_lo3_def c1_c2_def unat_of_nat)
  moreover have "unat lo2 + 2 ^ 64 * c1 = unat lo1 + unat (push_bit 3 lo)"
    using unat_add_carry [of lo1 "push_bit 3 lo"] by (simp add: lo1_lo2_lo3_def c1_c2_def)
  moreover have "unat lo1 + 2 ^ 64 * unat (drop_bit 63 lo) = 2 * unat lo"
    using shift_split [of 1 lo] by (simp add: lo1_lo2_lo3_def)
  moreover have "unat (push_bit 3 lo) + 2 ^ 64 * unat (drop_bit 61 lo) = 8 * unat lo"
    using shift_split [of 3 lo] by simp
  ultimately have low: "unat lo3 + 2 ^ 64 * k = 10 * unat lo + d"
    unfolding k_def by (simp only: distrib_left)
  have "hi' = of_nat (10 * unat hi + k)"
    by (simp add: hi'_def k_def push_bit_eq_mult)
  then have "unat hi' = (10 * unat hi + k) mod 2 ^ 64" by (simp only: unat_of_nat len_num1) simp
  moreover have "unat lo3 < 2 ^ 64" using unsigned_less [of lo3] by simp
  ultimately have "unat hi' * 2 ^ 64 + unat lo3 = ((10 * unat hi + k) * 2 ^ 64 + unat lo3) mod (2 ^ 64 * 2 ^ 64)"
    by (intro pair_mod)
  also have "(10 * unat hi + k) * 2 ^ 64 + unat lo3 = 10 * (unat hi * 2 ^ 64 + unat lo) + d"
    using low by (simp add: algebra_simps)
  finally have "unat hi' * 2 ^ 64 + unat lo3 =
      (10 * (unat hi * 2 ^ 64 + unat lo) + d) mod (2 ^ 64 * 2 ^ 64)" .
  moreover have "(2 :: nat) ^ 64 * 2 ^ 64 = 2 ^ 128" by simp
  ultimately show ?thesis unfolding step unfolding v pair_value_def prod.case by (simp only:)
qed

lemma parse_digits128_value:
  "\<forall>d \<in> set ds. d < 10 \<Longrightarrow> no_digit rest \<Longrightarrow> pair_value v = n mod 2 ^ 128 \<Longrightarrow>
     pair_value (parse_digits128 v (map ascii ds @ rest)) = foldl (\<lambda>v d. 10 * v + d) n ds mod 2 ^ 128"
proof (induction ds arbitrary: v n)
  case Nil
  then show ?case by (cases rest) (auto simp: no_digit_def)
next
  case (Cons d ds)
  have "pair_value (int128_step v (ascii d)) = (10 * (n mod 2 ^ 128) + d) mod 2 ^ 128"
    using Cons.prems by (simp add: int128_step_value)
  also have "\<dots> = (10 * n + d) mod 2 ^ 128" by (metis mod_add_left_eq mod_mult_right_eq)
  finally show ?case using Cons.IH [of "int128_step v (ascii d)" "10 * n + d"] Cons.prems
    by (simp add: isdigit_ascii)
qed

lemma parse_int128_value:
  assumes "\<forall>c \<in> set ws. isspace_byte c" "\<forall>d \<in> set ds. d < 10" "ds \<noteq> []" "no_digit rest"
  shows "pair_value (parse_int128 (ws @ map ascii ds @ rest)) = digits_value ds mod 2 ^ 128"
proof -
  obtain d ds' where ds: "ds = d # ds'" "d < 10" using assms(2,3) by (cases ds) auto
  have "dropWhile isspace_byte (ws @ map ascii ds @ rest) = map ascii ds @ rest"
    using assms(1) ds ascii_not_special by (intro dropWhile_spaces) auto
  then show ?thesis
    using parse_digits128_value [OF assms(2,4), of "(0, 0)" 0]
    by (simp add: parse_int128_def digits_value_def pair_value_def)
qed

subsection \<open>128-bit tokens as numbers\<close>

definition random_value :: "random_token \<Rightarrow> nat" where
  "random_value t = pair_value (token_hi t, token_lo t)"

lemma random_less_iff: "a < b \<longleftrightarrow> random_value a < random_value b"
proof -
  have lo: "unat (token_lo a) < 2 ^ 64" "unat (token_lo b) < 2 ^ 64"
    using unsigned_less [of "token_lo a"] unsigned_less [of "token_lo b"] by simp_all
  consider "token_hi a = token_hi b" | "token_hi a < token_hi b" | "token_hi b < token_hi a"
    by (rule linorder_cases)
  then show ?thesis
  proof cases
    case 2
    then have "unat (token_hi a) + 1 \<le> unat (token_hi b)" by (simp add: word_less_nat_alt)
    then have "(unat (token_hi a) + 1) * 2 ^ 64 \<le> unat (token_hi b) * 2 ^ 64" by (rule mult_le_mono1)
    then show ?thesis using 2 lo by (auto simp: less_random_token_def random_value_def pair_value_def)
  next
    case 3
    then have "unat (token_hi b) + 1 \<le> unat (token_hi a)" by (simp add: word_less_nat_alt)
    then have "(unat (token_hi b) + 1) * 2 ^ 64 \<le> unat (token_hi a) * 2 ^ 64" by (rule mult_le_mono1)
    then show ?thesis using 3 lo by (auto simp: less_random_token_def random_value_def pair_value_def)
  qed (simp add: less_random_token_def random_value_def pair_value_def word_less_nat_alt)
qed

lemma unat_neg_1: "unat (- 1 :: u64) = 2 ^ 64 - 1"
  by (simp add: unsigned_minus_1_eq_mask mask_eq_exp_minus_1)

lemma unat_not: "unat (NOT w :: u64) = 2 ^ 64 - 1 - unat w"
proof -
  have "unat (- 1 - w) = unat (- 1 :: u64) - unat w" by (rule unat_sub) simp
  moreover have "NOT w = - 1 - w" by (simp add: not_eq_complement)
  ultimately show ?thesis by (simp add: unat_neg_1)
qed

lemma sign_bit_iff: "w AND 0x8000000000000000 \<noteq> 0 \<longleftrightarrow> 2 ^ 63 \<le> unat (w :: u64)"
proof -
  have "(0x8000000000000000 :: u64) = 2 ^ 63" by simp
  then have "w AND 0x8000000000000000 \<noteq> 0 \<longleftrightarrow> bit w 63"
    by (simp only: and_exp_eq_0_iff_not_bit not_not)
  also have "\<dots> \<longleftrightarrow> odd (unat w div 2 ^ 63)"
    by (simp only: bit_iff_odd [symmetric]) (simp add: bit_unsigned_iff)
  also have "\<dots> \<longleftrightarrow> 2 ^ 63 \<le> unat w"
  proof (cases "2 ^ 63 \<le> unat w")
    case True
    have "unat w < 2 ^ 64" using unsigned_less [of w] by simp
    then have "unat w div 2 ^ 63 = 1" using True by (intro div_nat_eqI) simp_all
    then show ?thesis using True by simp
  qed simp
  finally show ?thesis .
qed

lemma random_abs_value:
  "random_value (RandomPartitioner_abs t) =
     (if 2 ^ 127 \<le> random_value t then 2 ^ 128 - random_value t else random_value t)"
proof (cases t)
  case (RandomToken hi lo)
  have h: "unat hi < 2 ^ 64" and l: "unat lo < 2 ^ 64"
    using unsigned_less [of hi] unsigned_less [of lo] by simp_all
  have big: "2 ^ 127 \<le> random_value t \<longleftrightarrow> 2 ^ 63 \<le> unat hi"
    using l by (simp add: RandomToken random_value_def pair_value_def) linarith
  show ?thesis
  proof (cases "2 ^ 63 \<le> unat hi")
    case True
    have nh: "unat (NOT hi) = 2 ^ 64 - 1 - unat hi" "unat (NOT lo) = 2 ^ 64 - 1 - unat lo"
      by (rule unat_not)+
    show ?thesis
    proof (cases "lo = 0")
      case lo: True
      have "unat (NOT hi + 1) = 2 ^ 64 - unat hi"
        using nh(1) h True by (subst unat_add_lem [THEN iffD1]) simp_all
      then show ?thesis using True big h lo
        by (simp add: RandomPartitioner_abs_def sign_bit_iff RandomToken random_value_def pair_value_def
            word_less_nat_alt Let_def unat_neg_1 diff_mult_distrib)
    next
      case lo: False
      then have "0 < unat lo" by (simp add: unat_gt_0)
      then have nl: "unat (NOT lo + 1) = 2 ^ 64 - unat lo"
        using nh(2) l by (subst unat_add_lem [THEN iffD1]) simp_all
      then have "\<not> NOT lo + 1 < NOT lo" using nh(2) l by (simp add: word_less_nat_alt)
      then show ?thesis using True big h l nl nh(1) \<open>0 < unat lo\<close>
        by (simp add: RandomPartitioner_abs_def sign_bit_iff RandomToken random_value_def pair_value_def
            Let_def)
    qed
  next
    case False
    then show ?thesis using big by (simp add: RandomPartitioner_abs_def sign_bit_iff RandomToken)
  qed
qed

subsection \<open>The interface of a partitioner\<close>

text \<open>What the token map relies on: the text in which the server writes a token parses to that
  token.\<close>

locale partitioner =
  fixes from_string :: "byte list \<Rightarrow> 'tok::linorder" and text_of :: "'tok \<Rightarrow> byte list \<Rightarrow> bool"
  assumes from_string_text: "text_of t s \<Longrightarrow> from_string s = t"
begin

lemma text_determines: "text_of t s \<Longrightarrow> text_of u s \<Longrightarrow> t = u"
  using from_string_text by metis

lemma from_strings: "list_all2 text_of ts ss \<Longrightarrow> map from_string ss = ts"
  by (induction rule: list_all2_induct) (auto simp: from_string_text)

end

lemma random_abs_bound: "random_value (RandomPartitioner_abs t) \<le> 2 ^ 127"
  unfolding random_abs_value by auto

definition decimal_digits :: "nat list \<Rightarrow> bool" where
  "decimal_digits ds \<longleftrightarrow> ds \<noteq> [] \<and> (\<forall>d \<in> set ds. d < 10)"

definition murmur3_text :: "murmur3_token \<Rightarrow> byte list \<Rightarrow> bool" where
  "murmur3_text t s \<longleftrightarrow> (\<exists>ds. decimal_digits ds \<and>
     (s = map ascii ds \<and> sint (token_value t) = int (digits_value ds) \<or>
      s = 0x2D # map ascii ds \<and> sint (token_value t) = - int (digits_value ds)))"

definition random_text :: "random_token \<Rightarrow> byte list \<Rightarrow> bool" where
  "random_text t s \<longleftrightarrow> (\<exists>ds. decimal_digits ds \<and> s = map ascii ds \<and> random_value t = digits_value ds)"

definition byte_ordered_text :: "byte_ordered_token \<Rightarrow> byte list \<Rightarrow> bool" where
  "byte_ordered_text t s \<longleftrightarrow> token_bytes t = s"

lemma random_value_inject: "random_value a = random_value b \<Longrightarrow> a = b"
  using random_less_iff [of a b] random_less_iff [of b a] by (metis less_irrefl neqE)

lemma sint_of_nat_parts:
  "n < 2 ^ 63 \<Longrightarrow> sint (of_nat n :: i64) = int n" "n \<le> 2 ^ 63 \<Longrightarrow> sint (- of_nat n :: i64) = - int n"
proof -
  show "n < 2 ^ 63 \<Longrightarrow> sint (of_nat n :: i64) = int n" by (rule sint_of_nat_small) simp
  assume n: "n \<le> 2 ^ 63"
  have "sint (of_int (- int n) :: i64) = signed_take_bit 63 (- int n)"
    by (simp only: signed_of_int) simp
  also have "\<dots> = - int n" by (rule signed_take_bit_int_eq_self) (use n in simp_all)
  finally have "sint (of_int (- int n) :: i64) = - int n" .
  then show "sint (- of_nat n :: i64) = - int n" by simp
qed

interpretation murmur3: partitioner Murmur3Partitioner_from_string murmur3_text
proof
  fix t s assume "murmur3_text t s"
  then obtain ds where ds: "decimal_digits ds"
    and s: "s = map ascii ds \<and> sint (token_value t) = int (digits_value ds) \<or>
      s = 0x2D # map ascii ds \<and> sint (token_value t) = - int (digits_value ds)"
    unfolding murmur3_text_def by blast
  note p = parse_int64_eq [of "[]" ds "[]"]
  have t: "- (2 ^ 63) \<le> sint (token_value t)" "sint (token_value t) < 2 ^ 63"
    using sint_greater_eq [of "token_value t"] sint_less [of "token_value t"] by simp_all
  have "sint (parse_int64 s) = sint (token_value t)"
    using s p ds t sint_of_nat_parts [of "digits_value ds"]
    by (auto simp: decimal_digits_def no_digit_def)
  then show "Murmur3Partitioner_from_string s = t"
    by (simp add: Murmur3Partitioner_from_string_def sint_inject murmur3_token.expand)
qed

interpretation random: partitioner RandomPartitioner_from_string random_text
proof
  fix t s assume "random_text t s"
  then obtain ds where ds: "decimal_digits ds" "s = map ascii ds" "random_value t = digits_value ds"
    unfolding random_text_def by blast
  have "unat (token_hi t) < 2 ^ 64" "unat (token_lo t) < 2 ^ 64"
    using unsigned_less [of "token_hi t"] unsigned_less [of "token_lo t"] by simp_all
  then have "digits_value ds < 2 ^ 128" using ds(3) by (simp add: random_value_def pair_value_def)
  then have "pair_value (parse_int128 s) = random_value t"
    using parse_int128_value [of "[]" ds "[]"] ds by (simp add: decimal_digits_def no_digit_def)
  then show "RandomPartitioner_from_string s = t"
    by (intro random_value_inject)
      (auto simp: RandomPartitioner_from_string_def random_value_def split: prod.splits)
qed

interpretation byte_ordered: partitioner ByteOrderedPartitioner_from_string byte_ordered_text
  by unfold_locales
    (auto simp: ByteOrderedPartitioner_from_string_def byte_ordered_text_def)

subsection \<open>Properties\<close>



text \<open>The 128-bit arithmetic of the random partitioner is exact: parsing digits computes the
  number modulo \<open>2 ^ 128\<close>, \<open>abs\<close> is the absolute value of the two's complement number (so that every
  hash lies between 0 and \<open>2 ^ 127\<close>), and comparing tokens compares the numbers.\<close>

theorem random_partitioner_arithmetic:
  assumes "decimal_digits ds" "no_digit rest"
  shows "random_value (RandomPartitioner_from_string (map ascii ds @ rest)) = digits_value ds mod 2 ^ 128 \<and>
    random_value (RandomPartitioner_abs t) =
      (if 2 ^ 127 \<le> random_value t then 2 ^ 128 - random_value t else random_value t) \<and>
    random_value (RandomPartitioner_hash key) \<le> 2 ^ 127 \<and>
    (a < b \<longleftrightarrow> random_value a < random_value b)"
proof -
  have "random_value (RandomPartitioner_hash key) \<le> 2 ^ 127"
    unfolding RandomPartitioner_hash_def Let_def by (rule random_abs_bound)
  moreover have "random_value (RandomPartitioner_from_string (map ascii ds @ rest)) =
      digits_value ds mod 2 ^ 128"
    using parse_int128_value [of "[]" ds rest] assms
    by (auto simp: RandomPartitioner_from_string_def random_value_def decimal_digits_def split: prod.splits)
  ultimately show ?thesis using random_abs_value random_less_iff by blast
qed

theorem random_partitioner_arithmetic_witness:
  "random_value (RandomPartitioner_from_string (map ascii [7, 0] @ [0x20])) = 70 \<and>
   random_value (RandomPartitioner_hash [1]) \<le> 2 ^ 127"
  using random_partitioner_arithmetic [of "[7, 0]" "[0x20]" "RandomToken 0 0" "[1]"
      "RandomToken 0 0" "RandomToken 0 0"]
  by (simp add: decimal_digits_def digits_value_def no_digit_def isdigit_byte_def)

end
