(* ===== verification/Replication.thy ===== *)
theory Replication
  imports Utils Partitioner Host "HOL-Library.Product_Lexorder" "HOL-Library.Multiset"
begin

text \<open>
  Replication strategies (the first half of \<open>token_map_impl.hpp\<close>): identifiers of racks and
  datacenters, the options of a keyspace and the replica lists of every token of the ring.

  \<open>ReplicationStrategy\<close> is a template over the partitioner; the definitions are generic in the token
  type. The hash tables are association lists where the code iterates over them and maps elsewhere.
  The columns of a keyspace row arrive decoded; the JSON text of the strategy options of old servers
  arrives parsed. Options have nonempty names, as the hash table of replication factors requires.
\<close>

subsection \<open>Identifiers of racks and datacenters\<close>

type_synonym id_map = "(string \<times> u32) list"

definition IdGenerator_get :: "string \<Rightarrow> id_map \<Rightarrow> u32 \<times> id_map" where
  "IdGenerator_get key ids =
     (if key = [] then (0, ids)
      else case map_of ids key of
             Some i \<Rightarrow> (i, ids)
           | None \<Rightarrow> let i = of_nat (length ids + 1) in (i, ids @ [(key, i)]))"

subsection \<open>Datacenters\<close>

record datacenter =
  num_nodes :: nat
  racks :: "u32 list"

definition Datacenter_new :: datacenter where
  "Datacenter_new = \<lparr>num_nodes = 0, racks = []\<rparr>"

definition count_node :: "heap \<Rightarrow> host_ptr \<Rightarrow> (u32 \<rightharpoonup> datacenter) \<Rightarrow> (u32 \<rightharpoonup> datacenter)" where
  "count_node h p dcs =
     (let d = dc_id (h p); r = rack_id (h p) in
      if d \<noteq> 0 \<and> r \<noteq> 0
      then let datacenter = (case dcs d of Some x \<Rightarrow> x | None \<Rightarrow> Datacenter_new)
           in dcs(d \<mapsto> datacenter\<lparr>racks := List.insert r (racks datacenter),
                                num_nodes := num_nodes datacenter + 1\<rparr>)
      else dcs)"

definition build_datacenters :: "heap \<Rightarrow> host_ptr list \<Rightarrow> (u32 \<rightharpoonup> datacenter)" where
  "build_datacenters h hosts = fold (count_node h) hosts Map.empty"

subsection \<open>Replication strategies\<close>

record replication_factor =
  rf_count :: nat
  rf_name :: string

datatype strategy_type = NETWORK_TOPOLOGY_STRATEGY | SIMPLE_STRATEGY | NON_REPLICATED

record replication_strategy =
  strategy_type :: strategy_type
  replication_factors :: "(u32 \<times> replication_factor) list"

definition ReplicationStrategy_new :: replication_strategy where
  "ReplicationStrategy_new = \<lparr>strategy_type = NON_REPLICATED, replication_factors = []\<rparr>"

text \<open>\<open>operator!=\<close>: two hash maps are equal when they have the same size and every entry of one is
  found in the other.\<close>

definition factors_equal ::
    "(u32 \<times> replication_factor) list \<Rightarrow> (u32 \<times> replication_factor) list \<Rightarrow> bool" where
  "factors_equal a b \<longleftrightarrow> length a = length b \<and> (\<forall>(k, v) \<in> set a. map_of b k = Some v)"

definition ReplicationStrategy_ne :: "replication_strategy \<Rightarrow> replication_strategy \<Rightarrow> bool" where
  "ReplicationStrategy_ne s other \<longleftrightarrow> strategy_type s \<noteq> strategy_type other \<or>
     \<not> factors_equal (replication_factors s) (replication_factors other)"

text \<open>\<open>strtoul\<close> in base ten, for a 64-bit \<open>unsigned long\<close>: white space, an optional sign, the digits up
  to the first other character; the largest value on overflow.\<close>

definition isdigit_char :: "char \<Rightarrow> bool" where
  "isdigit_char c \<longleftrightarrow> 48 \<le> (of_char c :: nat) \<and> (of_char c :: nat) \<le> 57"

definition strtoul :: "string \<Rightarrow> nat" where
  "strtoul s =
     (let t = dropWhile isspace s;
          (negative, u) = (case t of [] \<Rightarrow> (False, [])
                           | c # cs \<Rightarrow> if c = CHR ''-'' then (True, cs)
                                       else if c = CHR ''+'' then (False, cs) else (False, t));
          n = foldl (\<lambda>v c. 10 * v + (of_char c - 48)) 0 (takeWhile isdigit_char u)
      in if 2 ^ 64 \<le> n then 2 ^ 64 - 1
         else if negative then (2 ^ 64 - n) mod 2 ^ 64 else n)"

definition ends_with :: "string \<Rightarrow> string \<Rightarrow> bool" where
  "ends_with input target \<longleftrightarrow>
     length target \<le> length input \<and> drop (length input - length target) input = target"

text \<open>One option of a keyspace's replication settings.\<close>

definition add_factor ::
    "string \<times> string \<Rightarrow> replication_strategy \<times> id_map \<Rightarrow> replication_strategy \<times> id_map" where
  "add_factor = (\<lambda>(key, value) (s, dc_ids).
     let count = strtoul value in
     if count > 0
     then let rf = \<lparr>rf_count = count, rf_name = key\<rparr> in
          if key = ''replication_factor''
          then (s\<lparr>replication_factors := AList.update 1 rf (replication_factors s)\<rparr>, dc_ids)
          else let (i, dc_ids') = IdGenerator_get key dc_ids
               in (s\<lparr>replication_factors := AList.update i rf (replication_factors s)\<rparr>, dc_ids')
     else (s, dc_ids))"

fun add_replication_entries ::
    "(string \<times> string) list \<Rightarrow> string \<times> replication_strategy \<times> id_map \<Rightarrow>
      string \<times> replication_strategy \<times> id_map" where
  "add_replication_entries [] st = st"
| "add_replication_entries ((key, value) # entries) (strategy_class, s, dc_ids) =
     (if key = ''class'' then add_replication_entries entries (value, s, dc_ids)
      else add_replication_entries entries (strategy_class, add_factor (key, value) (s, dc_ids)))"

record keyspace_row =
  keyspace_name :: "string option"
  replication :: "(string \<times> string) list option"
  strategy_class :: "string option"
  strategy_options :: "(string \<times> string) list option"

definition ReplicationStrategy_init ::
    "version_number \<Rightarrow> keyspace_row \<Rightarrow> replication_strategy \<times> id_map \<Rightarrow>
      replication_strategy \<times> id_map" where
  "ReplicationStrategy_init version row st =
     (let (cls, s, dc_ids) =
        (if VersionNumber_ge version (VersionNumber 3 0 0)
         then add_replication_entries (case replication row of Some m \<Rightarrow> m | None \<Rightarrow> []) ([], st)
         else ((case strategy_class row of Some c \<Rightarrow> c | None \<Rightarrow> []),
               fold add_factor (case strategy_options row of Some m \<Rightarrow> m | None \<Rightarrow> []) st))
      in if ends_with cls ''NetworkTopologyStrategy''
         then (s\<lparr>strategy_type := NETWORK_TOPOLOGY_STRATEGY\<rparr>, dc_ids)
         else if ends_with cls ''SimpleStrategy''
         then (s\<lparr>strategy_type := SIMPLE_STRATEGY\<rparr>, dc_ids)
         else (s, dc_ids))"

subsection \<open>Building the replicas of every token\<close>

type_synonym 'tok token_hosts = "('tok \<times> host_ptr) list"
type_synonym 'tok token_replicas = "('tok \<times> host_ptr list) list"

text \<open>The iterator that runs around the ring: past the last token it is the first one again.\<close>

definition next_token :: "nat \<Rightarrow> nat \<Rightarrow> nat" where
  "next_token n it = (if it + 1 = n then 0 else it + 1)"

record rack_info =
  replica_count :: nat
  info_factor :: nat
  racks_observed :: "u32 list"
  rack_count :: nat
  skipped_endpoints :: "host_ptr list"

type_synonym rack_infos = "u32 \<rightharpoonup> rack_info"

text \<open>The first loop: the datacenters that have both a replication factor and hosts.\<close>

definition populate ::
    "(u32 \<rightharpoonup> datacenter) \<Rightarrow> u32 \<times> replication_factor \<Rightarrow> nat \<times> rack_infos \<Rightarrow> nat \<times> rack_infos" where
  "populate datacenters = (\<lambda>(d, rf) (num_replicas, dc_racks).
     case datacenters d of
       Some x \<Rightarrow>
         let factor = min (rf_count rf) (num_nodes x)
         in (num_replicas + factor,
             dc_racks(d \<mapsto> \<lparr>replica_count = 0, info_factor = factor, racks_observed = [],
                             rack_count = length (racks x), skipped_endpoints = []\<rparr>))
     | None \<Rightarrow> (num_replicas, dc_racks))"

definition clear_infos :: "rack_infos \<Rightarrow> rack_infos" where
  "clear_infos dc_racks = (\<lambda>d. map_option (\<lambda>info.
     info\<lparr>replica_count := 0, racks_observed := [], skipped_endpoints := []\<rparr>) (dc_racks d))"

fun use_skipped :: "rack_info \<Rightarrow> host_ptr list \<Rightarrow> host_ptr list \<Rightarrow> rack_info \<times> host_ptr list" where
  "use_skipped info [] replicas = (info\<lparr>skipped_endpoints := []\<rparr>, replicas)"
| "use_skipped info (p # skipped) replicas =
     (if replica_count info < info_factor info
      then use_skipped (info\<lparr>replica_count := replica_count info + 1\<rparr>) skipped (replicas @ [p])
      else (info\<lparr>skipped_endpoints := p # skipped\<rparr>, replicas))"

definition consider_host ::
    "heap \<Rightarrow> host_ptr \<Rightarrow> rack_infos \<times> host_ptr list \<Rightarrow> rack_infos \<times> host_ptr list" where
  "consider_host h p = (\<lambda>(dc_racks, replicas).
     let d = dc_id (h p); r = rack_id (h p) in
     case dc_racks d of
       None \<Rightarrow> (dc_racks, replicas)
     | Some info \<Rightarrow>
         if replica_count info \<ge> info_factor info then (dc_racks, replicas)
         else if r = 0 \<or> length (racks_observed info) = rack_count info
         then (dc_racks(d \<mapsto> info\<lparr>replica_count := replica_count info + 1\<rparr>), replicas @ [p])
         else if r \<in> set (racks_observed info)
         then (dc_racks(d \<mapsto> info\<lparr>skipped_endpoints := skipped_endpoints info @ [p]\<rparr>), replicas)
         else let info' = info\<lparr>replica_count := replica_count info + 1,
                              racks_observed := List.insert r (racks_observed info)\<rparr>
              in if length (racks_observed info') = rack_count info'
                 then let (info'', replicas') =
                        use_skipped info' (skipped_endpoints info') (replicas @ [p])
                      in (dc_racks(d \<mapsto> info''), replicas')
                 else (dc_racks(d \<mapsto> info'), replicas @ [p]))"

text \<open>The inner loop, with the number of its remaining rounds.\<close>

primrec walk_ring ::
    "heap \<Rightarrow> 'tok token_hosts \<Rightarrow> nat \<Rightarrow> nat \<Rightarrow> nat \<Rightarrow> rack_infos \<times> host_ptr list \<Rightarrow>
      rack_infos \<times> host_ptr list" where
  "walk_ring h tokens num_replicas 0 it st = st"
| "walk_ring h tokens num_replicas (Suc rounds) it st =
     (if length (snd st) < num_replicas
      then walk_ring h tokens num_replicas rounds (next_token (length tokens) it)
             (consider_host h (snd (tokens ! it)) st)
      else st)"

text \<open>The outer loop over the tokens; the datacenter information is cleared, not rebuilt, for each of
  them.\<close>

fun network_tokens ::
    "heap \<Rightarrow> 'tok token_hosts \<Rightarrow> nat \<Rightarrow> nat list \<Rightarrow> rack_infos \<Rightarrow> 'tok token_replicas" where
  "network_tokens h tokens num_replicas [] dc_racks = []"
| "network_tokens h tokens num_replicas (i # is) dc_racks =
     (let (dc_racks', replicas) =
        walk_ring h tokens num_replicas (length tokens) i (clear_infos dc_racks, [])
      in (fst (tokens ! i), replicas) # network_tokens h tokens num_replicas is dc_racks')"

definition build_replicas_network_topology ::
    "heap \<Rightarrow> replication_strategy \<Rightarrow> 'tok token_hosts \<Rightarrow> (u32 \<rightharpoonup> datacenter) \<Rightarrow> 'tok token_replicas" where
  "build_replicas_network_topology h s tokens datacenters =
     (if replication_factors s = [] then []
      else let (num_replicas, dc_racks) =
             fold (populate datacenters) (replication_factors s) (0, Map.empty)
           in if num_replicas = 0 then []
              else network_tokens h tokens num_replicas [0 ..< length tokens] dc_racks)"

function simple_loop :: "'tok token_hosts \<Rightarrow> nat \<Rightarrow> nat \<Rightarrow> host_ptr list \<Rightarrow> host_ptr list" where
  "simple_loop tokens num_replicas it replicas =
     (let replicas' = replicas @ [snd (tokens ! it)]; it' = next_token (length tokens) it
      in if length replicas' < num_replicas then simple_loop tokens num_replicas it' replicas'
         else replicas')"
  by pat_completeness auto
termination
  by (relation "measure (\<lambda>(tokens, num_replicas, it, replicas). num_replicas - length replicas)") auto

declare simple_loop.simps [simp del]

definition build_replicas_simple ::
    "replication_strategy \<Rightarrow> 'tok token_hosts \<Rightarrow> 'tok token_replicas" where
  "build_replicas_simple s tokens =
     (case map_of (replication_factors s) 1 of
        None \<Rightarrow> []
      | Some rf \<Rightarrow>
          let num_replicas = min (rf_count rf) (length tokens)
          in map (\<lambda>i. (fst (tokens ! i), simple_loop tokens num_replicas i [])) [0 ..< length tokens])"

definition build_replicas_non_replicated :: "'tok token_hosts \<Rightarrow> 'tok token_replicas" where
  "build_replicas_non_replicated tokens = map (\<lambda>(token, p). (token, [p])) tokens"

definition ReplicationStrategy_build_replicas ::
    "heap \<Rightarrow> replication_strategy \<Rightarrow> 'tok token_hosts \<Rightarrow> (u32 \<rightharpoonup> datacenter) \<Rightarrow> 'tok token_replicas" where
  "ReplicationStrategy_build_replicas h s tokens datacenters =
     (case strategy_type s of
        NETWORK_TOPOLOGY_STRATEGY \<Rightarrow> build_replicas_network_topology h s tokens datacenters
      | SIMPLE_STRATEGY \<Rightarrow> build_replicas_simple s tokens
      | NON_REPLICATED \<Rightarrow> build_replicas_non_replicated tokens)"

subsection \<open>Identifiers are distinct\<close>

definition ids_ok :: "id_map \<Rightarrow> bool" where
  "ids_ok ids \<longleftrightarrow> distinct (map fst ids) \<and> [] \<notin> fst ` set ids \<and>
     map snd ids = map (\<lambda>i. of_nat (i + 1)) [0 ..< length ids]"

lemma ids_ok_get: "ids_ok ids \<Longrightarrow> ids_ok (snd (IdGenerator_get key ids))"
  by (auto simp: IdGenerator_get_def ids_ok_def Let_def map_of_eq_None_iff split: option.splits)

lemma ids_nth: "ids_ok ids \<Longrightarrow> i < length ids \<Longrightarrow> snd (ids ! i) = of_nat (i + 1)"
proof -
  assume a: "ids_ok ids" "i < length ids"
  have "snd (ids ! i) = map snd ids ! i" using a(2) by simp
  also have "map snd ids = map (\<lambda>i. of_nat (i + 1)) [0 ..< length ids]" using a(1) by (simp add: ids_ok_def)
  finally show ?thesis using a(2) by simp
qed

lemma id_nonzero: "ids_ok ids \<Longrightarrow> length ids < 2 ^ 32 \<Longrightarrow> (key, i) \<in> set ids \<Longrightarrow>
    \<exists>j < length ids. ids ! j = (key, i) \<and> unat i = j + 1"
proof -
  assume a: "ids_ok ids" "length ids < 2 ^ 32" "(key, i) \<in> set ids"
  obtain j where j: "j < length ids" "ids ! j = (key, i)" using a(3) by (auto simp: in_set_conv_nth)
  have "i = of_nat (j + 1)" using ids_nth [OF a(1) j(1)] j(2) by simp
  moreover have "j + 1 < 2 ^ LENGTH(32)" using j(1) a(2) by simp
  ultimately have "unat i = j + 1" using of_nat_word_nat by blast
  then show ?thesis using j by blast
qed

lemma id_inject:
  assumes "ids_ok ids" "length ids < 2 ^ 32" "(a, i) \<in> set ids" "(b, i) \<in> set ids"
  shows "a = b"
  using id_nonzero [OF assms(1-3)] id_nonzero [OF assms(1,2,4)] by auto

lemma get_in_map: "key \<noteq> [] \<Longrightarrow> (key, fst (IdGenerator_get key ids)) \<in> set (snd (IdGenerator_get key ids))"
  by (auto simp: IdGenerator_get_def Let_def split: option.splits dest: map_of_SomeD)

lemma get_keeps: "set ids \<subseteq> set (snd (IdGenerator_get key ids))"
  by (auto simp: IdGenerator_get_def Let_def split: option.splits)

definition ring_lookup :: "'tok :: linorder \<Rightarrow> 'tok token_replicas \<Rightarrow> host_ptr list option" where
  "ring_lookup token rs =
     (case List.find (\<lambda>(t, _). token < t) rs of
        Some (_, ps) \<Rightarrow> Some ps
      | None \<Rightarrow> (case rs of [] \<Rightarrow> None | (_, ps) # _ \<Rightarrow> Some ps))"

subsection \<open>What every strategy promises\<close>

text \<open>A strategy gives a replica list to every token, or to none, and takes the replicas from the
  hosts of the ring. The token map relies on nothing else.\<close>

locale replication =
  fixes build :: "('tok :: linorder) token_hosts \<Rightarrow> 'tok token_replicas"
  assumes build_tokens: "build ts = [] \<or> map fst (build ts) = map fst ts"
    and build_hosts: "(t, ps) \<in> set (build ts) \<Longrightarrow> set ps \<subseteq> snd ` set ts"
begin

lemma build_sorted: "sorted (map fst ts) \<Longrightarrow> sorted (map fst (build ts))"
  using build_tokens [of ts] by auto

lemma lookup_hosts: "ring_lookup token (build ts) = Some ps \<Longrightarrow> set ps \<subseteq> snd ` set ts"
proof -
  assume "ring_lookup token (build ts) = Some ps"
  then obtain t where "(t, ps) \<in> set (build ts)"
    by (auto simp: ring_lookup_def find_Some_iff split: option.splits list.splits) (metis nth_mem)
  then show ?thesis by (rule build_hosts)
qed

lemma build_empty [simp]: "build [] = []"
  using build_tokens [of "[]"] by auto

end

lemma next_token_less: "it < n \<Longrightarrow> next_token n it < n"
  by (simp add: next_token_def)

lemma simple_loop_hosts:
  "it < length ts \<Longrightarrow> set rs \<subseteq> snd ` set ts \<Longrightarrow> set (simple_loop ts n it rs) \<subseteq> snd ` set ts"
proof (induction ts n it rs rule: simple_loop.induct)
  case (1 ts n it rs)
  have "set (rs @ [snd (ts ! it)]) \<subseteq> snd ` set ts" using 1(2,3) by (simp add: nth_mem)
  then show ?case
    using 1(1) [OF refl refl _ next_token_less [OF 1(2)]]
    by (subst simple_loop.simps) (simp add: Let_def)
qed

lemma use_skipped_hosts:
  "use_skipped info skipped rs = (info', rs') \<Longrightarrow>
    set (skipped_endpoints info') \<subseteq> set skipped \<and> set rs' \<subseteq> set rs \<union> set skipped"
  by (induction info skipped rs arbitrary: info' rs' rule: use_skipped.induct)
    (force split: if_splits)+

lemma consider_host_cases:
  obtains
    (pass) "consider_host h p (infos, rs) = (infos, rs)"
      "\<And>info. infos (dc_id (h p)) = Some info \<Longrightarrow> info_factor info \<le> replica_count info"
  | (use) info where "infos (dc_id (h p)) = Some info" "replica_count info < info_factor info"
      "rack_id (h p) = 0 \<or> length (racks_observed info) = rack_count info"
      "consider_host h p (infos, rs) =
        (infos(dc_id (h p) \<mapsto> info\<lparr>replica_count := replica_count info + 1\<rparr>), rs @ [p])"
  | (skip) info where "infos (dc_id (h p)) = Some info" "replica_count info < info_factor info"
      "rack_id (h p) \<noteq> 0" "length (racks_observed info) \<noteq> rack_count info"
      "rack_id (h p) \<in> set (racks_observed info)"
      "consider_host h p (infos, rs) =
        (infos(dc_id (h p) \<mapsto> info\<lparr>skipped_endpoints := skipped_endpoints info @ [p]\<rparr>), rs)"
  | (new) info info' where "infos (dc_id (h p)) = Some info" "replica_count info < info_factor info"
      "rack_id (h p) \<noteq> 0" "length (racks_observed info) \<noteq> rack_count info"
      "rack_id (h p) \<notin> set (racks_observed info)"
      "info' = info\<lparr>replica_count := replica_count info + 1,
                    racks_observed := rack_id (h p) # racks_observed info\<rparr>"
      "Suc (length (racks_observed info)) \<noteq> rack_count info"
      "consider_host h p (infos, rs) = (infos(dc_id (h p) \<mapsto> info'), rs @ [p])"
  | (last) info info' info'' rs' where "infos (dc_id (h p)) = Some info" "replica_count info < info_factor info"
      "rack_id (h p) \<noteq> 0" "rack_id (h p) \<notin> set (racks_observed info)"
      "info' = info\<lparr>replica_count := replica_count info + 1,
                    racks_observed := rack_id (h p) # racks_observed info\<rparr>"
      "Suc (length (racks_observed info)) = rack_count info"
      "use_skipped info' (skipped_endpoints info) (rs @ [p]) = (info'', rs')"
      "consider_host h p (infos, rs) = (infos(dc_id (h p) \<mapsto> info''), rs')"
proof (cases "infos (dc_id (h p))")
  case None
  then show thesis by (intro pass) (simp_all add: consider_host_def)
next
  case (Some info)
  let ?info = "info\<lparr>replica_count := replica_count info + 1,
                    racks_observed := rack_id (h p) # racks_observed info\<rparr>"
  obtain i' rs' where u: "use_skipped ?info (skipped_endpoints info) (rs @ [p]) = (i', rs')" by fastforce
  consider "info_factor info \<le> replica_count info"
    | "replica_count info < info_factor info" "rack_id (h p) = 0 \<or> length (racks_observed info) = rack_count info"
    | "replica_count info < info_factor info" "rack_id (h p) \<noteq> 0" "length (racks_observed info) \<noteq> rack_count info"
      "rack_id (h p) \<in> set (racks_observed info)"
    | "replica_count info < info_factor info" "rack_id (h p) \<noteq> 0" "length (racks_observed info) \<noteq> rack_count info"
      "rack_id (h p) \<notin> set (racks_observed info)" "Suc (length (racks_observed info)) \<noteq> rack_count info"
    | "replica_count info < info_factor info" "rack_id (h p) \<noteq> 0" "rack_id (h p) \<notin> set (racks_observed info)"
      "Suc (length (racks_observed info)) = rack_count info"
    by linarith
  then show thesis
  proof cases
    case 1 then show thesis using Some by (intro pass) (auto simp: consider_host_def)
  next
    case 2 then show thesis using Some by (intro use) (auto simp: consider_host_def)
  next
    case 3 then show thesis using Some by (intro skip) (auto simp: consider_host_def)
  next
    case 4 then show thesis using Some by (intro new [OF Some _ _ _ _ refl]) (auto simp: consider_host_def)
  next
    case 5
    then show thesis using Some u by (intro last [OF Some _ _ _ refl _ u]) (auto simp: consider_host_def)
  qed
qed

definition infos_within :: "host_ptr set \<Rightarrow> rack_infos \<times> host_ptr list \<Rightarrow> bool" where
  "infos_within ps st \<longleftrightarrow> set (snd st) \<subseteq> ps \<and>
     (\<forall>d info. fst st d = Some info \<longrightarrow> set (skipped_endpoints info) \<subseteq> ps)"

lemma infos_within_upd:
  "infos_within ps (infos, rs) \<Longrightarrow> set (skipped_endpoints info) \<subseteq> ps \<Longrightarrow> set rs' \<subseteq> ps \<Longrightarrow>
    infos_within ps (infos(d \<mapsto> info), rs')"
  by (simp add: infos_within_def)

lemma consider_host_within:
  assumes "p \<in> ps" "infos_within ps (infos, rs)"
  shows "infos_within ps (consider_host h p (infos, rs))"
proof (cases rule: consider_host_cases [of h p infos rs])
  case pass
  then show ?thesis using assms by simp
next
  case (last info info' info'' rs')
  have "set (skipped_endpoints info) \<subseteq> ps" "set (rs @ [p]) \<subseteq> ps"
    using assms last(1) by (auto simp: infos_within_def)
  then show ?thesis using use_skipped_hosts [OF last(7)]
    unfolding last(8) by (intro infos_within_upd [OF assms(2)]) blast+
qed (use assms in \<open>auto simp: infos_within_def split: if_splits\<close>)

lemma walk_ring_within:
  "it < length ts \<Longrightarrow> infos_within (snd ` set ts) st \<Longrightarrow>
    infos_within (snd ` set ts) (walk_ring h ts n rounds it st)"
proof (induction rounds arbitrary: it st)
  case (Suc rounds)
  then show ?case
    using Suc(1) [OF next_token_less [OF Suc(2)]]
      consider_host_within [of "snd (ts ! it)" "snd ` set ts" "fst st" "snd st" h]
    by (simp add: nth_mem)
qed simp

lemma network_tokens_fst: "map fst (network_tokens h ts n is infos) = map (\<lambda>i. fst (ts ! i)) is"
  by (induction "is" arbitrary: infos) (auto simp: case_prod_beta)

lemma network_tokens_hosts:
  "(t, ps) \<in> set (network_tokens h ts n is infos) \<Longrightarrow> (\<And>i. i \<in> set is \<Longrightarrow> i < length ts) \<Longrightarrow>
    set ps \<subseteq> snd ` set ts"
proof (induction "is" arbitrary: infos)
  case (Cons i "is")
  have "infos_within (snd ` set ts) (clear_infos infos, [])"
    by (auto simp: infos_within_def clear_infos_def)
  from walk_ring_within [OF _ this, of i h n "length ts"]
  have "set (snd (walk_ring h ts n (length ts) i (clear_infos infos, []))) \<subseteq> snd ` set ts"
    using Cons(3) by (simp add: infos_within_def)
  then show ?case using Cons by (auto simp: case_prod_beta)
qed simp

lemma map_fst_upt: "map (\<lambda>i. fst (ts ! i)) [0 ..< length ts] = map fst ts"
  by (rule nth_equalityI) auto

interpretation network: replication "\<lambda>ts. build_replicas_network_topology h s ts dcs" for h s dcs
proof
  fix t ps and ts :: "('a :: linorder) token_hosts"
  show "build_replicas_network_topology h s ts dcs = [] \<or>
      map fst (build_replicas_network_topology h s ts dcs) = map fst ts"
    by (auto simp: build_replicas_network_topology_def case_prod_beta network_tokens_fst map_fst_upt)
  show "(t, ps) \<in> set (build_replicas_network_topology h s ts dcs) \<Longrightarrow> set ps \<subseteq> snd ` set ts"
    using network_tokens_hosts [of t ps h ts _ "[0 ..< length ts]"]
    by (fastforce simp: build_replicas_network_topology_def case_prod_beta split: if_splits)
qed

interpretation simple: replication "build_replicas_simple s" for s
proof
  fix t ps and ts :: "('a :: linorder) token_hosts"
  show "build_replicas_simple s ts = [] \<or> map fst (build_replicas_simple s ts) = map fst ts"
    by (auto simp: build_replicas_simple_def Let_def o_def map_fst_upt split: option.splits)
  show "(t, ps) \<in> set (build_replicas_simple s ts) \<Longrightarrow> set ps \<subseteq> snd ` set ts"
    using simple_loop_hosts [of _ ts "[]"]
    by (fastforce simp: build_replicas_simple_def Let_def split: option.splits)
qed

interpretation non_replicated: replication build_replicas_non_replicated
  by unfold_locales (auto simp: build_replicas_non_replicated_def case_prod_beta image_iff, force)

interpretation strategy: replication "\<lambda>ts. ReplicationStrategy_build_replicas h s ts dcs" for h s dcs
proof
  fix t ps and ts :: "('a :: linorder) token_hosts"
  show "ReplicationStrategy_build_replicas h s ts dcs = [] \<or>
      map fst (ReplicationStrategy_build_replicas h s ts dcs) = map fst ts"
    using network.build_tokens [of h s ts dcs] simple.build_tokens [of s ts] non_replicated.build_tokens [of ts]
    by (cases "strategy_type s") (simp_all add: ReplicationStrategy_build_replicas_def)
  show "(t, ps) \<in> set (ReplicationStrategy_build_replicas h s ts dcs) \<Longrightarrow> set ps \<subseteq> snd ` set ts"
    using network.build_hosts [of t ps h s ts dcs] simple.build_hosts [of t ps s ts]
      non_replicated.build_hosts [of t ps ts]
    by (cases "strategy_type s") (simp_all add: ReplicationStrategy_build_replicas_def)
qed

lemma ids_ok_add_factor: "ids_ok (snd st) \<Longrightarrow> ids_ok (snd (add_factor kv st))"
proof -
  assume a: "ids_ok (snd st)"
  obtain k v where kv: "kv = (k, v)" by fastforce
  show ?thesis using a ids_ok_get [OF a, of k] by (auto simp: add_factor_def kv case_prod_beta Let_def)
qed

lemma ids_ok_entries:
  "ids_ok (snd (snd st)) \<Longrightarrow> ids_ok (snd (snd (add_replication_entries entries st)))"
proof (induction entries st rule: add_replication_entries.induct)
  case (2 key val entries cls s ids)
  then show ?case using ids_ok_add_factor [of "(s, ids)" "(key, val)"] by simp
qed simp

lemma ids_ok_fold: "ids_ok (snd st) \<Longrightarrow> ids_ok (snd (fold add_factor kvs st))"
  by (induction kvs arbitrary: st) (simp_all add: ids_ok_add_factor)

lemma ids_ok_init: "ids_ok (snd st) \<Longrightarrow> ids_ok (snd (ReplicationStrategy_init version row st))"
  using ids_ok_entries [of "([], st)"] ids_ok_fold [of st]
  by (auto simp: ReplicationStrategy_init_def Let_def case_prod_beta split: option.splits if_splits)

subsection \<open>Replicas of the simple strategy\<close>

lemma next_token_mod: "it < n \<Longrightarrow> next_token n it = (it + 1) mod n"
  by (auto simp: next_token_def)

lemma simple_loop_eq:
  "it < length ts \<Longrightarrow> length rs < n \<Longrightarrow>
    simple_loop ts n it rs = rs @ map (\<lambda>j. snd (ts ! ((it + j) mod length ts))) [0 ..< n - length rs]"
proof (induction ts n it rs rule: simple_loop.induct)
  case (1 ts n it rs)
  let ?rs = "rs @ [snd (ts ! it)]" and ?it = "next_token (length ts) it"
  have up: "[0 ..< n - length rs] = 0 # map Suc [0 ..< n - Suc (length rs)]"
    using 1(3) by (simp add: map_Suc_upt upt_conv_Cons Suc_diff_Suc)
  have shift: "(?it + j) mod length ts = (it + Suc j) mod length ts" for j
    using 1(2) by (simp add: next_token_mod mod_add_left_eq)
  show ?case
  proof (cases "length ?rs < n")
    case True
    have "simple_loop ts n it rs = simple_loop ts n ?it ?rs"
      using True by (subst simple_loop.simps) (simp add: Let_def)
    also have "\<dots> = ?rs @ map (\<lambda>j. snd (ts ! ((?it + j) mod length ts))) [0 ..< n - length ?rs]"
      using 1(1) [OF refl refl True next_token_less [OF 1(2)] True] .
    finally show ?thesis unfolding shift up using 1(2) by (simp add: o_def)
  next
    case False
    have "simple_loop ts n it rs = ?rs" using False by (subst simple_loop.simps) (simp add: Let_def)
    moreover have "n - Suc (length rs) = 0" using False by simp
    ultimately show ?thesis unfolding up using 1(2) by simp
  qed
qed

subsection \<open>Replicas of the network topology strategy\<close>

lemma use_skipped_eq:
  "use_skipped info sk rs =
    (let k = min (length sk) (info_factor info - replica_count info)
     in (info\<lparr>replica_count := replica_count info + k, skipped_endpoints := drop k sk\<rparr>, rs @ take k sk))"
proof (induction info sk rs rule: use_skipped.induct)
  case (2 info p sk rs)
  have "min (Suc (length sk)) (info_factor info - replica_count info) =
      Suc (min (length sk) (info_factor info - Suc (replica_count info)))"
    if "replica_count info < info_factor info"
    using that by (simp add: min_def) linarith
  then show ?case using 2 by (cases "replica_count info < info_factor info") (simp_all add: Let_def)
qed simp

definition dc_hosts :: "heap \<Rightarrow> u32 \<Rightarrow> host_ptr list \<Rightarrow> host_ptr list" where
  "dc_hosts h d ps = filter (\<lambda>p. dc_id (h p) = d) ps"

text \<open>The state of one datacenter while the ring is walked, after the hosts \<open>seen\<close>, when the racks of
  the datacenter are \<open>R\<close>.\<close>

definition dc_ok :: "heap \<Rightarrow> u32 set \<Rightarrow> u32 \<Rightarrow> host_ptr list \<Rightarrow> host_ptr list \<Rightarrow> rack_info \<Rightarrow> bool" where
  "dc_ok h R d seen rs info \<longleftrightarrow>
     length (dc_hosts h d rs) = replica_count info \<and> replica_count info \<le> info_factor info \<and>
     set (skipped_endpoints info) \<subseteq> {p. dc_id (h p) = d} \<and>
     distinct (racks_observed info) \<and> set (racks_observed info) \<subseteq> R \<and> finite R \<and> card R = rack_count info \<and>
     (replica_count info < info_factor info \<longrightarrow>
        replica_count info + length (skipped_endpoints info) = length (dc_hosts h d seen) \<and>
        set (racks_observed info) = (\<lambda>p. rack_id (h p)) ` set (dc_hosts h d seen) - {0} \<and>
        (length (racks_observed info) = rack_count info \<longrightarrow> skipped_endpoints info = [])) \<and>
     (info_factor info \<le> rack_count info \<and> (\<forall>q \<in> set (dc_hosts h d seen). rack_id (h q) \<noteq> 0) \<longrightarrow>
        racks_observed info = rev (map (\<lambda>p. rack_id (h p)) (dc_hosts h d rs)))"

lemma dc_hosts_append [simp]: "dc_hosts h d (ps @ qs) = dc_hosts h d ps @ dc_hosts h d qs"
  by (simp add: dc_hosts_def)

lemma dc_hosts_Cons [simp]:
  "dc_hosts h d [] = []" "dc_hosts h d (p # ps) = (if dc_id (h p) = d then p # dc_hosts h d ps else dc_hosts h d ps)"
  by (simp_all add: dc_hosts_def)

lemma dc_hosts_all: "set ps \<subseteq> {p. dc_id (h p) = d} \<Longrightarrow> dc_hosts h d ps = ps"
  by (auto simp: dc_hosts_def filter_id_conv)

lemma dc_hosts_none: "set ps \<subseteq> {p. dc_id (h p) = e} \<Longrightarrow> d \<noteq> e \<Longrightarrow> dc_hosts h d ps = []"
  by (auto simp: dc_hosts_def filter_empty_conv)

lemma observed_full:
  "dc_ok h R d seen rs info \<Longrightarrow> length (racks_observed info) = rack_count info \<Longrightarrow> set (racks_observed info) = R"
  by (rule card_subset_eq) (auto simp: dc_ok_def distinct_card)

lemma dc_ok_use:
  assumes "dc_ok h R d seen rs info" "dc_id (h p) = d" "replica_count info < info_factor info"
    "rack_id (h p) = 0 \<or> rack_id (h p) \<in> R"
    "rack_id (h p) = 0 \<or> length (racks_observed info) = rack_count info"
  shows "dc_ok h R d (seen @ [p]) (rs @ [p]) (info\<lparr>replica_count := replica_count info + 1\<rparr>)"
proof -
  have "rack_id (h p) = 0 \<or> rack_id (h p) \<in> set (racks_observed info)"
    using assms(4,5) observed_full [OF assms(1)] by blast
  moreover have "racks_observed info = rev (map (\<lambda>p. rack_id (h p)) (dc_hosts h d rs)) \<Longrightarrow>
      length (racks_observed info) = replica_count info"
    using assms(1) by (simp add: dc_ok_def)
  ultimately show ?thesis using assms(1-3,5) by (auto simp: dc_ok_def)
qed

lemma dc_ok_skip:
  assumes "dc_ok h R d seen rs info" "dc_id (h p) = d"
    "length (racks_observed info) \<noteq> rack_count info" "rack_id (h p) \<in> set (racks_observed info)"
  shows "dc_ok h R d (seen @ [p]) rs (info\<lparr>skipped_endpoints := skipped_endpoints info @ [p]\<rparr>)"
  using assms by (auto simp: dc_ok_def)

lemma dc_ok_new:
  assumes "dc_ok h R d seen rs info" "dc_id (h p) = d" "replica_count info < info_factor info"
    "rack_id (h p) \<noteq> 0" "rack_id (h p) \<in> R" "rack_id (h p) \<notin> set (racks_observed info)"
    "Suc (length (racks_observed info)) \<noteq> rack_count info"
  shows "dc_ok h R d (seen @ [p]) (rs @ [p]) (info\<lparr>replica_count := replica_count info + 1,
                    racks_observed := rack_id (h p) # racks_observed info\<rparr>)"
  using assms by (auto simp: dc_ok_def)

lemma dc_ok_last:
  assumes "dc_ok h R d seen rs info" "dc_id (h p) = d" "replica_count info < info_factor info"
    "rack_id (h p) \<noteq> 0" "rack_id (h p) \<in> R" "rack_id (h p) \<notin> set (racks_observed info)"
    "Suc (length (racks_observed info)) = rack_count info"
    "info' = info\<lparr>replica_count := replica_count info + 1,
                  racks_observed := rack_id (h p) # racks_observed info\<rparr>"
    "use_skipped info' (skipped_endpoints info) (rs @ [p]) = (info'', rs')"
  shows "dc_ok h R d (seen @ [p]) rs' info''"
proof -
  define sk where "sk = skipped_endpoints info"
  define k where "k = min (length sk) (info_factor info - (replica_count info + 1))"
  have i: "info'' = info\<lparr>replica_count := replica_count info + 1 + k, skipped_endpoints := drop k sk,
      racks_observed := rack_id (h p) # racks_observed info\<rparr>" "rs' = rs @ [p] @ take k sk"
    using assms(9) unfolding use_skipped_eq assms(8)
    by (cases info; auto simp: Let_def sk_def k_def)+
  have sub: "set (take k sk) \<subseteq> {p. dc_id (h p) = d}" "set (drop k sk) \<subseteq> {p. dc_id (h p) = d}"
    using assms(1) set_take_subset [of k sk] set_drop_subset [of k sk] by (auto simp: dc_ok_def sk_def)
  have "replica_count info + 1 + k < info_factor info \<Longrightarrow> k = length sk" by (auto simp: k_def)
  moreover have "replica_count info + 1 + k \<le> info_factor info" using assms(3) by (auto simp: k_def)
  moreover have "k \<le> length sk" by (simp add: k_def)
  moreover have "racks_observed info = rev (map (\<lambda>p. rack_id (h p)) (dc_hosts h d rs)) \<Longrightarrow>
      info_factor info \<le> rack_count info \<Longrightarrow> k = 0"
    using assms(1,7) by (simp add: dc_ok_def k_def)
  ultimately show ?thesis
    using assms(1-6) dc_hosts_all [OF sub(1)] sub
    unfolding i by (auto simp: dc_ok_def sk_def [symmetric])
qed

text \<open>All datacenters: \<open>F\<close> gives their replication factors and \<open>R\<close> their racks.\<close>

definition walk_ok ::
    "heap \<Rightarrow> (u32 \<Rightarrow> u32 set) \<Rightarrow> (u32 \<rightharpoonup> nat) \<Rightarrow> host_ptr list \<Rightarrow> rack_infos \<times> host_ptr list \<Rightarrow> bool" where
  "walk_ok h R F seen st \<longleftrightarrow> (\<forall>d. map_option info_factor (fst st d) = F d) \<and>
     (\<forall>d info. fst st d = Some info \<longrightarrow> dc_ok h (R d) d seen (snd st) info) \<and>
     (\<forall>p \<in> set (snd st). F (dc_id (h p)) \<noteq> None)"

definition in_racks :: "heap \<Rightarrow> (u32 \<Rightarrow> u32 set) \<Rightarrow> host_ptr \<Rightarrow> bool" where
  "in_racks h R p \<longleftrightarrow> rack_id (h p) = 0 \<or> rack_id (h p) \<in> R (dc_id (h p))"

lemma dc_ok_other:
  "dc_ok h R d seen rs info \<Longrightarrow> dc_hosts h d rs' = [] \<Longrightarrow> dc_id (h p) \<noteq> d \<Longrightarrow>
    dc_ok h R d (seen @ [p]) (rs @ rs') info"
  by (simp add: dc_ok_def)

lemma walk_ok_upd:
  assumes ok: "walk_ok h R F seen (infos, rs)" and i: "infos (dc_id (h p)) = Some info"
    and new: "dc_ok h (R (dc_id (h p))) (dc_id (h p)) (seen @ [p]) (rs @ rs') info'"
    and f: "info_factor info' = info_factor info" and s: "set rs' \<subseteq> {q. dc_id (h q) = dc_id (h p)}"
  shows "walk_ok h R F (seen @ [p]) (infos(dc_id (h p) \<mapsto> info'), rs @ rs')"
proof -
  have "F (dc_id (h p)) = Some (info_factor info)" using ok i by (simp add: walk_ok_def) (metis option.simps(9))
  moreover have "dc_ok h (R d) d (seen @ [p]) (rs @ rs') info2" if "d \<noteq> dc_id (h p)" "infos d = Some info2" for d info2
    using ok that dc_hosts_none [OF s that(1)] by (intro dc_ok_other) (auto simp: walk_ok_def)
  ultimately show ?thesis using ok new f s by (auto simp: walk_ok_def)
qed

lemma walk_ok_step:
  assumes ok: "walk_ok h R F seen (infos, rs)" and r: "F (dc_id (h p)) \<noteq> None \<Longrightarrow> in_racks h R p"
  shows "walk_ok h R F (seen @ [p]) (consider_host h p (infos, rs))"
proof -
  have dc: "dc_ok h (R (dc_id (h p))) (dc_id (h p)) seen rs info" "in_racks h R p"
    if "infos (dc_id (h p)) = Some info" for info
    using ok r that by (auto simp: walk_ok_def) (metis option.distinct(1) option.simps(9))
  show ?thesis
  proof (cases rule: consider_host_cases [of h p infos rs])
    case pass
    have "dc_ok h (R d) d (seen @ [p]) rs info" if "infos d = Some info" for d info
    proof (cases "dc_id (h p) = d")
      case True
      then show ?thesis using dc(1) [of info] pass(2) [of info] that by (auto simp: dc_ok_def)
    next
      case False
      then show ?thesis using ok that dc_ok_other [of h "R d" d seen rs info "[]" p] by (simp add: walk_ok_def)
    qed
    then show ?thesis unfolding pass(1) using ok by (simp add: walk_ok_def)
  next
    case (use info)
    show ?thesis unfolding use(4)
      using dc [OF use(1)] use by (intro walk_ok_upd [OF ok use(1)] dc_ok_use) (auto simp: in_racks_def)
  next
    case (skip info)
    show ?thesis unfolding skip(6)
      using walk_ok_upd [OF ok skip(1), of "[]" "info\<lparr>skipped_endpoints := skipped_endpoints info @ [p]\<rparr>"]
        dc_ok_skip [OF dc(1) [OF skip(1)] refl skip(4,5)] by simp
  next
    case (new info info')
    show ?thesis unfolding new(8) new(6)
      using dc [OF new(1)] new by (intro walk_ok_upd [OF ok new(1)] dc_ok_new) (auto simp: in_racks_def)
  next
    case (last info info' info'' rs')
    have fresh: "dc_ok h (R (dc_id (h p))) (dc_id (h p)) (seen @ [p]) rs' info''"
    proof (rule dc_ok_last [OF dc(1) [OF last(1)] refl last(2,3) _ last(4,6,5,7)])
      show "rack_id (h p) \<in> R (dc_id (h p))" using dc(2) [OF last(1)] last(3) by (simp add: in_racks_def)
    qed
    obtain k where k: "rs' = rs @ p # take k (skipped_endpoints info)" "info_factor info'' = info_factor info"
      using last(5,7) by (auto simp: use_skipped_eq Let_def)
    have "set (take k (skipped_endpoints info)) \<subseteq> {q. dc_id (h q) = dc_id (h p)}"
      using dc(1) [OF last(1)] set_take_subset [of k "skipped_endpoints info"] by (auto simp: dc_ok_def)
    then show ?thesis unfolding last(8)
      using walk_ok_upd [OF ok last(1), of "p # take k (skipped_endpoints info)" info''] fresh k by simp
  qed
qed

lemma walk_ring_ok:
  assumes "it < length ts" "walk_ok h R F seen st" "\<And>p. p \<in> snd ` set ts \<Longrightarrow> F (dc_id (h p)) \<noteq> None \<Longrightarrow> in_racks h R p"
  shows "\<exists>seen'. walk_ok h R F seen' (walk_ring h ts n rounds it st) \<and>
    set seen' \<subseteq> set seen \<union> snd ` set ts \<and>
    (n \<le> length (snd (walk_ring h ts n rounds it st)) \<or>
     seen' = seen @ map (\<lambda>j. snd (ts ! ((it + j) mod length ts))) [0 ..< rounds])"
  using assms(1,2)
proof (induction rounds arbitrary: it seen st)
  case (Suc rounds)
  let ?p = "snd (ts ! it)"
  show ?case
  proof (cases "length (snd st) < n")
    case True
    have "walk_ok h R F (seen @ [?p]) (consider_host h ?p st)"
      using walk_ok_step [of h R F seen "fst st" "snd st" ?p] Suc(2,3) assms(3) [of ?p] by (simp add: nth_mem)
    moreover have "?p \<in> snd ` set ts" using Suc(2) by (simp add: nth_mem)
    ultimately show ?thesis
      using Suc(1) [OF next_token_less [OF Suc(2)], of "seen @ [?p]"] True Suc(2)
      by (fastforce simp: next_token_mod mod_add_left_eq upt_conv_Cons o_def
          map_Suc_upt [symmetric] simp del: upt_Suc)
  next
    case False
    then show ?thesis using Suc(3) by auto
  qed
qed auto

lemma rotate_map: "i < length ts \<Longrightarrow>
    map (\<lambda>j. snd (ts ! ((i + j) mod length ts))) [0 ..< length ts] = map snd (rotate i ts)"
  by (rule nth_equalityI) (auto simp: nth_rotate)

lemma dc_hosts_rotate: "length (dc_hosts h d (map snd (rotate i ts))) = length (dc_hosts h d (map snd ts))"
proof -
  have "mset (rotate i ts) = mset ts"
    by (metis append_take_drop_id mset_append rotate_drop_take union_commute)
  then have "mset (map snd (rotate i ts)) = mset (map snd ts)" by simp
  then have "mset (dc_hosts h d (map snd (rotate i ts))) = mset (dc_hosts h d (map snd ts))"
    unfolding dc_hosts_def mset_filter by presburger
  then show ?thesis using mset_eq_length by blast
qed

text \<open>What the table of datacenters holds.\<close>

definition placed :: "heap \<Rightarrow> u32 \<Rightarrow> host_ptr list \<Rightarrow> host_ptr list" where
  "placed h d hs = filter (\<lambda>p. dc_id (h p) = d \<and> d \<noteq> 0 \<and> rack_id (h p) \<noteq> 0) hs"

definition rack_set :: "heap \<Rightarrow> host_ptr list \<Rightarrow> u32 \<Rightarrow> u32 set" where
  "rack_set h hs d = (\<lambda>p. rack_id (h p)) ` set (placed h d hs)"

definition table_ok :: "heap \<Rightarrow> host_ptr list \<Rightarrow> (u32 \<rightharpoonup> datacenter) \<Rightarrow> bool" where
  "table_ok h hs dcs \<longleftrightarrow> (\<forall>d. case dcs d of
       None \<Rightarrow> placed h d hs = []
     | Some x \<Rightarrow> num_nodes x = length (placed h d hs) \<and> placed h d hs \<noteq> [] \<and>
         set (racks x) = rack_set h hs d \<and> distinct (racks x))"

lemma table_ok_count: "table_ok h hs dcs \<Longrightarrow> table_ok h (hs @ [p]) (count_node h p dcs)"
  unfolding table_ok_def
proof
  fix d
  assume a: "\<forall>d. case dcs d of None \<Rightarrow> placed h d hs = []
     | Some x \<Rightarrow> num_nodes x = length (placed h d hs) \<and> placed h d hs \<noteq> [] \<and>
         set (racks x) = rack_set h hs d \<and> distinct (racks x)"
  show "case count_node h p dcs d of None \<Rightarrow> placed h d (hs @ [p]) = []
     | Some x \<Rightarrow> num_nodes x = length (placed h d (hs @ [p])) \<and> placed h d (hs @ [p]) \<noteq> [] \<and>
         set (racks x) = rack_set h (hs @ [p]) d \<and> distinct (racks x)"
    using spec [OF a, of d]
    by (cases "dcs d") (auto simp: count_node_def Let_def placed_def rack_set_def Datacenter_new_def filter_empty_conv
      split: if_splits)
qed

lemma table_ok_Some:
  "table_ok h hs dcs \<Longrightarrow> dcs d = Some x \<Longrightarrow> num_nodes x = length (placed h d hs) \<and> placed h d hs \<noteq> [] \<and>
     set (racks x) = rack_set h hs d \<and> distinct (racks x)"
  unfolding table_ok_def by (drule spec [of _ d]) simp

lemma table_ok_build: "table_ok h hs (build_datacenters h hs)"
proof -
  have "table_ok h (hs0 @ hs) (fold (count_node h) hs dcs)" if "table_ok h hs0 dcs" for hs0 dcs
    using that
  proof (induction hs arbitrary: hs0 dcs)
    case (Cons p hs)
    from Cons(1) [OF table_ok_count [OF Cons(2), of p]] show ?case by simp
  qed simp
  from this [of "[]" Map.empty] show ?thesis
    by (simp add: build_datacenters_def table_ok_def placed_def)
qed

text \<open>What the first loop of the strategy leaves.\<close>

definition factor_of :: "replication_strategy \<Rightarrow> (u32 \<rightharpoonup> datacenter) \<Rightarrow> u32 \<rightharpoonup> nat" where
  "factor_of s dcs d = (case (map_of (replication_factors s) d, dcs d) of
     (Some rf, Some x) \<Rightarrow> Some (min (rf_count rf) (num_nodes x)) | _ \<Rightarrow> None)"

definition fresh_infos :: "(u32 \<rightharpoonup> datacenter) \<Rightarrow> (u32 \<rightharpoonup> nat) \<Rightarrow> rack_infos \<Rightarrow> bool" where
  "fresh_infos dcs F infos \<longleftrightarrow> (\<forall>d. map_option info_factor (infos d) = F d) \<and>
     (\<forall>d info. infos d = Some info \<longrightarrow> (\<exists>x. dcs d = Some x \<and> rack_count info = length (racks x)))"

lemma populate_fold:
  assumes "distinct (map fst rfs)" "fst ` set rfs \<inter> dom F = {}" "finite (dom F)"
    "fresh_infos dcs F infos" "n = (\<Sum>d \<in> dom F. the (F d))"
    "F' = F ++ (\<lambda>d. case (map_of rfs d, dcs d) of
       (Some rf, Some x) \<Rightarrow> Some (min (rf_count rf) (num_nodes x)) | _ \<Rightarrow> None)"
  shows "\<exists>infos'. fold (populate dcs) rfs (n, infos) = ((\<Sum>d \<in> dom F'. the (F' d)), infos') \<and>
    fresh_infos dcs F' infos' \<and> finite (dom F')"
  using assms
proof (induction rfs arbitrary: F infos n F')
  case Nil
  then show ?case by simp
next
  case (Cons kv rfs)
  obtain k rf where kv: "kv = (k, rf)" by fastforce
  have k: "k \<notin> dom F" "map_of rfs k = None" using Cons(2,3) by (auto simp: kv map_of_eq_None_iff)
  show ?case
  proof (cases "dcs k")
    case None
    have "F' = F ++ (\<lambda>d. case (map_of rfs d, dcs d) of
       (Some rf, Some x) \<Rightarrow> Some (min (rf_count rf) (num_nodes x)) | _ \<Rightarrow> None)"
      unfolding Cons(7) by (rule arg_cong [of _ _ "(++) F"]) (auto simp: kv None split: option.splits)
    from Cons(1) [OF _ _ Cons(4-6) this] show ?thesis
      using Cons(2,3) by (simp add: populate_def kv None)
  next
    case (Some x)
    let ?f = "min (rf_count rf) (num_nodes x)"
    let ?info = "\<lparr>replica_count = 0, info_factor = ?f, racks_observed = [],
                   rack_count = length (racks x), skipped_endpoints = []\<rparr>"
    have F': "F' = F(k \<mapsto> ?f) ++ (\<lambda>d. case (map_of rfs d, dcs d) of
       (Some rf, Some x) \<Rightarrow> Some (min (rf_count rf) (num_nodes x)) | _ \<Rightarrow> None)"
      unfolding Cons(7) using k by (auto simp: kv Some map_add_def fun_eq_iff split: option.splits)
    have "n + ?f = (\<Sum>d \<in> dom (F(k \<mapsto> ?f)). the ((F(k \<mapsto> ?f)) d))"
    proof -
      have "(\<Sum>d \<in> dom F. the ((F(k \<mapsto> ?f)) d)) = n"
        unfolding Cons(6) using k(1) by (intro sum.cong) auto
      then show ?thesis using k(1) Cons(4) by simp
    qed
    moreover have "fresh_infos dcs (F(k \<mapsto> ?f)) (infos(k \<mapsto> ?info))"
      using Cons(5) Some by (auto simp: fresh_infos_def)
    moreover have "distinct (map fst rfs)" "fst ` set rfs \<inter> dom (F(k \<mapsto> ?f)) = {}" "finite (dom (F(k \<mapsto> ?f)))"
      using Cons(2-4) by (auto simp: kv)
    ultimately have "\<exists>infos'. fold (populate dcs) rfs (n + ?f, infos(k \<mapsto> ?info)) =
        ((\<Sum>d \<in> dom F'. the (F' d)), infos') \<and> fresh_infos dcs F' infos' \<and> finite (dom F')"
      using Cons(1) [OF _ _ _ _ _ F'] by blast
    moreover have "populate dcs kv (n, infos) = (n + ?f, infos(k \<mapsto> ?info))"
      by (simp add: populate_def kv Some Let_def)
    ultimately show ?thesis by (simp only: fold.simps o_apply)
  qed
qed

lemma populate_all:
  assumes "distinct (map fst (replication_factors s))"
  obtains infos where "fold (populate dcs) (replication_factors s) (0, Map.empty) =
      ((\<Sum>d \<in> dom (factor_of s dcs). the (factor_of s dcs d)), infos)"
    "fresh_infos dcs (factor_of s dcs) infos" "finite (dom (factor_of s dcs))"
  using populate_fold [OF assms, of Map.empty dcs Map.empty 0 "factor_of s dcs"]
  by (auto simp: fresh_infos_def factor_of_def [abs_def])

lemma fresh_walk_ok:
  assumes "table_ok h hs dcs" "fresh_infos dcs F infos"
  shows "walk_ok h (rack_set h hs) F [] (clear_infos infos, [])"
proof -
  have "dc_ok h (rack_set h hs d) d [] [] (info\<lparr>replica_count := 0, racks_observed := [], skipped_endpoints := []\<rparr>)"
    if i: "infos d = Some info" for d info
  proof -
    obtain x where x: "dcs d = Some x" "rack_count info = length (racks x)"
      using assms(2) i unfolding fresh_infos_def by blast
    have "set (racks x) = rack_set h hs d" "distinct (racks x)"
      using table_ok_Some [OF assms(1) x(1)] by blast+
    then show ?thesis using x(2) by (auto simp: dc_ok_def distinct_card [symmetric])
  qed
  moreover have "map_option info_factor (clear_infos infos d) = F d" for d
    using assms(2) by (auto simp: fresh_infos_def clear_infos_def option.map_comp o_def)
  ultimately show ?thesis by (auto simp: walk_ok_def clear_infos_def)
qed

lemma walk_ok_fresh:
  assumes "table_ok h hs dcs" "walk_ok h (rack_set h hs) F seen st" "\<And>d. F d \<noteq> None \<Longrightarrow> dcs d \<noteq> None"
  shows "fresh_infos dcs F (fst st)"
proof -
  have "\<exists>x. dcs d = Some x \<and> rack_count info = length (racks x)" if "fst st d = Some info" for d info
  proof -
    have "F d \<noteq> None" using assms(2) that by (auto simp: walk_ok_def) (metis option.distinct(1) option.simps(9))
    then obtain x where x: "dcs d = Some x" using assms(3) by blast
    have "set (racks x) = rack_set h hs d" "distinct (racks x)"
      using table_ok_Some [OF assms(1) x] by blast+
    moreover have "card (rack_set h hs d) = rack_count info"
      using assms(2) that by (auto simp: walk_ok_def dc_ok_def)
    ultimately show ?thesis using x by (metis distinct_card)
  qed
  then show ?thesis using assms(2) by (auto simp: fresh_infos_def walk_ok_def)
qed

lemma length_by_dc:
  "finite D \<Longrightarrow> (\<And>p. p \<in> set rs \<Longrightarrow> dc_id (h p) \<in> D) \<Longrightarrow> length rs = (\<Sum>d \<in> D. length (dc_hosts h d rs))"
proof (induction rs)
  case (Cons p rs)
  have "(\<Sum>d \<in> D. length (dc_hosts h d (p # rs))) =
      (\<Sum>d \<in> D. (if dc_id (h p) = d then 1 else 0) + length (dc_hosts h d rs))"
    by (intro sum.cong) auto
  then show ?case using Cons by (simp add: sum.distrib)
qed simp

lemma walk_ok_factor:
  "walk_ok h R F seen st \<Longrightarrow> F d = Some f \<Longrightarrow> \<exists>info. fst st d = Some info \<and> info_factor info = f \<and>
    dc_ok h (R d) d seen (snd st) info"
proof -
  assume a: "walk_ok h R F seen st" "F d = Some f"
  then have "map_option info_factor (fst st d) = Some f" unfolding walk_ok_def by metis
  then obtain info where "fst st d = Some info" "info_factor info = f" by blast
  then show ?thesis using a(1) unfolding walk_ok_def by blast
qed

lemma walk_ok_none: "walk_ok h R F seen st \<Longrightarrow> F d = None \<Longrightarrow> dc_hosts h d (snd st) = []"
  by (auto simp: walk_ok_def dc_hosts_def filter_empty_conv)

text \<open>A walk that has collected all replicas has them in every datacenter, and so has a walk that
  went around the whole ring.\<close>

lemma full_walk:
  assumes ok: "walk_ok h R F seen st" and fin: "finite (dom F)"
    and n: "(\<Sum>d \<in> dom F. the (F d)) \<le> length (snd st)" and d: "F d = Some f"
  shows "length (dc_hosts h d (snd st)) = f"
proof (rule ccontr)
  assume ne: "length (dc_hosts h d (snd st)) \<noteq> f"
  have le: "length (dc_hosts h e (snd st)) \<le> the (F e)" if "e \<in> dom F" for e
    using walk_ok_factor [OF ok, of e] that by (auto simp: dc_ok_def)
  have "length (snd st) = (\<Sum>d \<in> dom F. length (dc_hosts h d (snd st)))"
    using ok fin by (intro length_by_dc) (auto simp: walk_ok_def)
  also have "\<dots> < (\<Sum>d \<in> dom F. the (F d))"
  proof (rule sum_strict_mono_ex1 [OF fin])
    show "\<forall>e \<in> dom F. length (dc_hosts h e (snd st)) \<le> the (F e)" using le by blast
    have "length (dc_hosts h d (snd st)) < the (F d)" using le [of d] d ne by (simp add: domI [of F d f])
    then show "\<exists>e \<in> dom F. length (dc_hosts h e (snd st)) < the (F e)" using d by blast
  qed
  finally show False using n by simp
qed

lemma placed_count:
  assumes "distinct hs" "set hs \<subseteq> snd ` set ts"
  shows "length (placed h d hs) \<le> length (dc_hosts h d (map snd ts))"
proof -
  have "length (placed h d hs) = card (set (placed h d hs))"
    using distinct_card [of "placed h d hs"] assms(1) unfolding placed_def by simp
  also have "\<dots> \<le> card (set (dc_hosts h d (map snd ts)))"
    using assms(2) by (intro card_mono) (auto simp: placed_def dc_hosts_def)
  also have "\<dots> \<le> length (dc_hosts h d (map snd ts))" by (rule card_length)
  finally show ?thesis .
qed

lemma round_walk:
  assumes t: "table_ok h hs dcs" and hs: "distinct hs" "snd ` set ts = set hs"
    and ok: "walk_ok h (rack_set h hs) F seen st" and seen: "seen = map snd (rotate i ts)"
    and F: "F d = Some f" "dcs d = Some x" "f \<le> num_nodes x"
  shows "length (dc_hosts h d (snd st)) = f"
proof -
  obtain info where i: "info_factor info = f" "dc_ok h (rack_set h hs d) d seen (snd st) info"
    using walk_ok_factor [OF ok F(1)] by blast
  have len: "length (dc_hosts h d (snd st)) = replica_count info" "replica_count info \<le> f"
    using i by (auto simp: dc_ok_def)
  have "\<not> replica_count info < f"
  proof
    assume less: "replica_count info < f"
    have "d \<noteq> 0" using table_ok_Some [OF t F(2)] by (auto simp: placed_def)
    then have "rack_set h hs d = (\<lambda>p. rack_id (h p)) ` set (dc_hosts h d seen) - {0}"
      using hs(2) by (auto simp: rack_set_def placed_def dc_hosts_def seen image_iff)
    then have obs: "set (racks_observed info) = rack_set h hs d" using i less by (simp add: dc_ok_def)
    then have "length (racks_observed info) = rack_count info"
      using i(2) distinct_card [of "racks_observed info"] by (simp add: dc_ok_def)
    then have "replica_count info = length (dc_hosts h d (map snd ts))"
      using i less by (auto simp: dc_ok_def seen dc_hosts_rotate)
    moreover have "num_nodes x \<le> length (dc_hosts h d (map snd ts))"
      using table_ok_Some [OF t F(2)] placed_count [OF hs(1), of ts] hs(2) by simp
    ultimately show False using less F(3) by simp
  qed
  then show ?thesis using len by simp
qed

lemma walk_exact:
  assumes t: "table_ok h hs dcs" and hs: "distinct hs" "snd ` set ts = set hs"
    and F: "F = factor_of s dcs" "finite (dom F)" "n = (\<Sum>d \<in> dom F. the (F d))"
    and fresh: "fresh_infos dcs F infos" and i: "i < length ts"
  shows "\<exists>seen. walk_ok h (rack_set h hs) F seen (walk_ring h ts n (length ts) i (clear_infos infos, [])) \<and>
    set seen \<subseteq> set hs \<and>
    (\<forall>d. length (dc_hosts h d (snd (walk_ring h ts n (length ts) i (clear_infos infos, [])))) =
      (case F d of Some f \<Rightarrow> f | None \<Rightarrow> 0))"
proof -
  let ?st = "walk_ring h ts n (length ts) i (clear_infos infos, [])"
  have Fd: "\<exists>x. dcs d = Some x \<and> f \<le> num_nodes x" if "F d = Some f" for d f
    using that by (auto simp: F(1) factor_of_def split: option.splits)
  have r: "in_racks h (rack_set h hs) p" if p: "p \<in> snd ` set ts" "F (dc_id (h p)) \<noteq> None" for p
  proof -
    obtain x where "dcs (dc_id (h p)) = Some x" using Fd p(2) by blast
    then have "dc_id (h p) \<noteq> 0" using table_ok_Some [OF t] by (fastforce simp: placed_def filter_empty_conv)
    then show ?thesis using p(1) hs(2) by (auto simp: in_racks_def rack_set_def placed_def)
  qed
  obtain seen where seen: "walk_ok h (rack_set h hs) F seen ?st" "set seen \<subseteq> snd ` set ts"
    "n \<le> length (snd ?st) \<or> seen = map snd (rotate i ts)"
    using walk_ring_ok [OF i fresh_walk_ok [OF t fresh], of n "length ts"] r unfolding rotate_map [OF i] by auto
  have "length (dc_hosts h d (snd ?st)) = (case F d of Some f \<Rightarrow> f | None \<Rightarrow> 0)" for d
  proof (cases "F d")
    case None
    then show ?thesis using walk_ok_none [OF seen(1)] by simp
  next
    case (Some f)
    obtain x where x: "dcs d = Some x" "f \<le> num_nodes x" using Fd [OF Some] by blast
    from seen(3) have "length (dc_hosts h d (snd ?st)) = f"
      using full_walk [OF seen(1) F(2) _ Some] round_walk [OF t hs seen(1) _ Some x] F(3) by blast
    then show ?thesis using Some by simp
  qed
  then show ?thesis using seen(1,2) hs(2) by blast
qed


lemma network_tokens_exact:
  assumes t: "table_ok h hs dcs" and hs: "distinct hs" "snd ` set ts = set hs"
    and F: "F = factor_of s dcs" "finite (dom F)" "n = (\<Sum>d \<in> dom F. the (F d))"
  shows "fresh_infos dcs F infos \<Longrightarrow> (\<And>i. i \<in> set is \<Longrightarrow> i < length ts) \<Longrightarrow>
    (t, ps) \<in> set (network_tokens h ts n is infos) \<Longrightarrow>
    (\<exists>seen infos'. walk_ok h (rack_set h hs) F seen (infos', ps) \<and> set seen \<subseteq> set hs) \<and>
    (\<forall>d. length (dc_hosts h d ps) = (case F d of Some f \<Rightarrow> f | None \<Rightarrow> 0))"
proof (induction "is" arbitrary: infos)
  case (Cons i "is")
  let ?st = "walk_ring h ts n (length ts) i (clear_infos infos, [])"
  obtain seen where w: "walk_ok h (rack_set h hs) F seen ?st" "set seen \<subseteq> set hs"
    "\<And>d. length (dc_hosts h d (snd ?st)) = (case F d of Some f \<Rightarrow> f | None \<Rightarrow> 0)"
    using walk_exact [OF t hs F Cons(2) Cons(3) [OF list.set_intros(1)]] by blast
  have "fresh_infos dcs F (fst ?st)"
    using w(1) by (rule walk_ok_fresh [OF t]) (auto simp: F(1) factor_of_def split: option.splits)
  from Cons(1) [OF this] have later: "(t, ps) \<in> set (network_tokens h ts n is (fst ?st)) \<Longrightarrow> ?case"
    using Cons(3) by simp
  have "ps = snd ?st \<or> (t, ps) \<in> set (network_tokens h ts n is (fst ?st))"
    using Cons(4) by (auto simp: case_prod_beta)
  then show ?case
  proof
    assume "ps = snd ?st"
    then show ?case using w(1,2,3) prod.collapse [of ?st] by (intro conjI) (rule exI [of _ seen], rule exI [of _ "fst ?st"], simp_all)
  qed (rule later)
qed simp

lemma network_exact:
  assumes "strategy_type s = NETWORK_TOPOLOGY_STRATEGY" "distinct (map fst (replication_factors s))"
    and hs: "distinct hs" "snd ` set ts = set hs"
    and e: "(t, ps) \<in> set (ReplicationStrategy_build_replicas h s ts (build_datacenters h hs))"
  shows "\<exists>F seen infos. F = factor_of s (build_datacenters h hs) \<and>
    walk_ok h (rack_set h hs) F seen (infos, ps) \<and> set seen \<subseteq> set hs \<and>
    (\<forall>d. length (dc_hosts h d ps) = (case F d of Some f \<Rightarrow> f | None \<Rightarrow> 0))"
proof -
  let ?dcs = "build_datacenters h hs"
  let ?F = "factor_of s ?dcs"
  obtain infos where p: "fold (populate ?dcs) (replication_factors s) (0, Map.empty) = ((\<Sum>d \<in> dom ?F. the (?F d)), infos)"
    "fresh_infos ?dcs ?F infos" "finite (dom ?F)"
    using populate_all [OF assms(2)] .
  have "(t, ps) \<in> set (network_tokens h ts (\<Sum>d \<in> dom ?F. the (?F d)) [0 ..< length ts] infos)"
    using e assms(1) p(1)
    by (auto simp: ReplicationStrategy_build_replicas_def build_replicas_network_topology_def split: if_splits)
  from network_tokens_exact [OF table_ok_build hs refl p(3) refl p(2) _ this] show ?thesis by auto
qed

lemma factor_of_build:
  "(case factor_of s (build_datacenters h hs) d of Some f \<Rightarrow> f | None \<Rightarrow> 0) =
     (case map_of (replication_factors s) d of
        Some rf \<Rightarrow> min (rf_count rf) (length (placed h d hs)) | None \<Rightarrow> 0)"
proof (cases "build_datacenters h hs d")
  case None
  then have "placed h d hs = []"
    using spec [OF table_ok_build [of h hs, unfolded table_ok_def], of d] by simp
  then show ?thesis using None by (auto simp: factor_of_def split: option.splits)
next
  case (Some x)
  then show ?thesis using table_ok_Some [OF table_ok_build Some] by (auto simp: factor_of_def split: option.splits)
qed

subsection \<open>Properties\<close>


text \<open>C21. The network topology strategy spreads the replicas over racks: when a datacenter has at
  least as many racks as it must hold replicas, no two of its replicas for a token are in the same
  rack, hence they are different hosts.\<close>

theorem network_topology_spreads_racks:
  assumes "strategy_type s = NETWORK_TOPOLOGY_STRATEGY" "distinct (map fst (replication_factors s))"
    "distinct hs" "snd ` set ts = set hs"
    "(t, ps) \<in> set (ReplicationStrategy_build_replicas h s ts (build_datacenters h hs))"
    "map_of (replication_factors s) d = Some rf"
    "\<forall>p \<in> set hs. dc_id (h p) = d \<longrightarrow> rack_id (h p) \<noteq> 0"
    "rf_count rf \<le> card ((\<lambda>p. rack_id (h p)) ` set (filter (\<lambda>p. dc_id (h p) = d) hs))"
  shows "distinct (map (\<lambda>p. rack_id (h p)) (filter (\<lambda>p. dc_id (h p) = d) ps))"
proof (cases "factor_of s (build_datacenters h hs) d")
  case None
  then have "length (dc_hosts h d ps) = 0" using network_exact [OF assms(1-5)] by (metis option.simps(4))
  then show ?thesis by (simp add: dc_hosts_def)
next
  case (Some f)
  obtain seen infos where w: "walk_ok h (rack_set h hs) (factor_of s (build_datacenters h hs)) seen (infos, ps)"
    "set seen \<subseteq> set hs"
    using network_exact [OF assms(1-5)] by blast
  obtain info where i: "info_factor info = f" "dc_ok h (rack_set h hs d) d seen ps info"
    using walk_ok_factor [OF w(1) Some] by auto
  obtain x where x: "build_datacenters h hs d = Some x" "f = min (rf_count rf) (num_nodes x)"
    using Some assms(6) by (auto simp: factor_of_def split: option.splits)
  have "d \<noteq> 0" using table_ok_Some [OF table_ok_build x(1)] by (auto simp: placed_def)
  then have "set (placed h d hs) = set (filter (\<lambda>p. dc_id (h p) = d) hs)" using assms(7) by (auto simp: placed_def)
  then have "f \<le> rack_count info" using i(2) assms(8) x(2) by (simp add: dc_ok_def rack_set_def)
  moreover have "\<forall>q \<in> set (dc_hosts h d seen). rack_id (h q) \<noteq> 0" using w(2) assms(7) by (auto simp: dc_hosts_def)
  ultimately have "racks_observed info = rev (map (\<lambda>p. rack_id (h p)) (dc_hosts h d ps))"
    using i unfolding dc_ok_def by blast
  then have "distinct (rev (map (\<lambda>p. rack_id (h p)) (dc_hosts h d ps)))" using i(2) unfolding dc_ok_def by metis
  then show ?thesis by (simp only: distinct_rev dc_hosts_def)
qed

definition sample_heap :: heap where
  "sample_heap p = (Host_new (AddressIn 9042 (of_nat p)) True)\<lparr>dc_id := 1, rack_id := (if p = 2 then 2 else 1)\<rparr>"

definition sample_ring :: "nat token_hosts" where
  "sample_ring = [(10, 0), (20, 1), (30, 2), (40, 0)]"

definition sample_network :: replication_strategy where
  "sample_network = \<lparr>strategy_type = NETWORK_TOPOLOGY_STRATEGY,
     replication_factors = [(1, \<lparr>rf_count = 2, rf_name = ''dc1''\<rparr>)]\<rparr>"

lemma sample_build:
  "ReplicationStrategy_build_replicas sample_heap sample_network sample_ring (build_datacenters sample_heap [0, 1, 2]) =
     [(10, [0, 2]), (20, [1, 2]), (30, [2, 0]), (40, [0, 2])]"
  by code_simp



text \<open>Under the simple strategy the replicas of a token are the hosts of that token and of the
  tokens that follow it on the ring, as many as the replication factor or, if those are fewer, the
  tokens. Tokens are counted, not hosts: a host that owns two neighbouring tokens is listed twice, and
  fewer than the wanted number of hosts are found.\<close>

theorem simple_strategy_replicas:
  assumes "strategy_type s = SIMPLE_STRATEGY" "map_of (replication_factors s) 1 = Some rf" "0 < rf_count rf"
    "i < length ts"
  shows "length (ReplicationStrategy_build_replicas h s ts dcs) = length ts \<and>
    ReplicationStrategy_build_replicas h s ts dcs ! i =
      (fst (ts ! i), map (\<lambda>j. snd (ts ! ((i + j) mod length ts))) [0 ..< min (rf_count rf) (length ts)])"
  using assms simple_loop_eq [of i ts "[]" "min (rf_count rf) (length ts)"]
  by (cases "ts = []") (simp_all add: ReplicationStrategy_build_replicas_def build_replicas_simple_def)

theorem simple_strategy_replicas_witness:
  "ReplicationStrategy_build_replicas sample_heap
     \<lparr>strategy_type = SIMPLE_STRATEGY, replication_factors = [(1, \<lparr>rf_count = 2, rf_name = []\<rparr>)]\<rparr>
     [(10 :: nat, 0), (20, 0), (30, 1)] Map.empty ! 0 = (10, [0, 0])"
  using simple_strategy_replicas [of
      "\<lparr>strategy_type = SIMPLE_STRATEGY, replication_factors = [(1, \<lparr>rf_count = 2, rf_name = []\<rparr>)]\<rparr>"
      "\<lparr>rf_count = 2, rf_name = []\<rparr>" 0 "[(10 :: nat, 0), (20, 0), (30, 1)]" sample_heap Map.empty]
  by (simp add: upt_rec)

theorem network_topology_spreads_racks_witness:
  "(30, [2, 0]) \<in> set (ReplicationStrategy_build_replicas sample_heap sample_network sample_ring
      (build_datacenters sample_heap [0, 1, 2])) \<and>
   distinct (map (\<lambda>p. rack_id (sample_heap p)) (filter (\<lambda>p. dc_id (sample_heap p) = 1) [2, 0]))"
proof -
  have e: "(30, [2, 0]) \<in> set (ReplicationStrategy_build_replicas sample_heap sample_network sample_ring
      (build_datacenters sample_heap [0, 1, 2]))"
    unfolding sample_build by simp
  have s: "strategy_type sample_network = NETWORK_TOPOLOGY_STRATEGY"
    "distinct (map fst (replication_factors sample_network))"
    "distinct [0, 1, 2 :: host_ptr]" "snd ` set sample_ring = set [0, 1, 2]"
    "map_of (replication_factors sample_network) 1 = Some \<lparr>rf_count = 2, rf_name = ''dc1''\<rparr>"
    "\<forall>p \<in> set [0, 1, 2]. dc_id (sample_heap p) = 1 \<longrightarrow> rack_id (sample_heap p) \<noteq> 0"
    by (auto simp: sample_network_def sample_ring_def sample_heap_def)
  have "rf_count \<lparr>rf_count = 2, rf_name = ''dc1''\<rparr> \<le>
      card ((\<lambda>p. rack_id (sample_heap p)) ` set (filter (\<lambda>p. dc_id (sample_heap p) = 1) [0, 1, 2]))"
    by (simp add: sample_heap_def)
  then show ?thesis
    using network_topology_spreads_racks [OF s(1-4) e s(5,6)] e by blast
qed

end
