(* ===== verification/TokenMap.thy ===== *)
theory TokenMap
  imports Replication
begin

text \<open>
  The token map (\<open>TokenMapImpl\<close> in \<open>token_map_impl.hpp\<close>, \<open>token_map.cpp\<close>): the ring of tokens, the
  replicas of the keyspaces and the lookup of the replicas of a routing key.

  The operations are generic in the token type and take the partitioner's \<open>from_string\<close> or \<open>hash\<close> as an
  argument. Operations that write the rack and datacenter ids of a host take and return the heap.
  \<open>hosts_\<close> is a set of pointers (the hash is that of the address but the comparison is that of the
  pointers), kept as a list without repetition in some iteration order.
\<close>

subsection \<open>The token map\<close>

record 'tok token_map =
  tokens :: "'tok token_hosts"
  hosts :: "host_ptr list"
  datacenters :: "u32 \<rightharpoonup> datacenter"
  replicas :: "string \<rightharpoonup> 'tok token_replicas"
  strategies :: "(string \<times> replication_strategy) list"
  rack_ids :: id_map
  dc_ids :: id_map

definition TokenMapImpl_new :: "'tok token_map" where
  "TokenMapImpl_new = \<lparr>tokens = [], hosts = [], datacenters = Map.empty, replicas = Map.empty,
     strategies = [], rack_ids = [], dc_ids = []\<rparr>"

datatype partitioner_kind = Murmur3Partitioner | RandomPartitioner | ByteOrderedPartitioner

definition TokenMap_from_partitioner :: "string \<Rightarrow> partitioner_kind option" where
  "TokenMap_from_partitioner name =
     (if ends_with name ''Murmur3Partitioner'' then Some Murmur3Partitioner
      else if ends_with name ''RandomPartitioner'' then Some RandomPartitioner
      else if ends_with name ''ByteOrderedPartitioner'' then Some ByteOrderedPartitioner
      else None)"

definition update_host_ids ::
    "host_ptr \<Rightarrow> heap \<times> 'tok token_map \<Rightarrow> heap \<times> 'tok token_map" where
  "update_host_ids p = (\<lambda>(h, m).
     let (r, rack_ids') = IdGenerator_get (rack (h p)) (rack_ids m);
         (d, dc_ids') = IdGenerator_get (dc (h p)) (dc_ids m)
     in (h(p := Host_set_rack_and_dc_ids r d (h p)), m\<lparr>rack_ids := rack_ids', dc_ids := dc_ids'\<rparr>))"

definition remove_host_tokens :: "heap \<Rightarrow> host_ptr \<Rightarrow> 'tok token_map \<Rightarrow> 'tok token_map" where
  "remove_host_tokens h p m =
     m\<lparr>tokens := filter (\<lambda>(_, q). \<not> Address_eq (addr h q) (addr h p)) (tokens m)\<rparr>"

text \<open>\<open>build_replicas\<close> assigns to \<open>replicas_[keyspace_name]\<close>, which creates the entry when it is missing.\<close>

definition TokenMapImpl_build_replicas :: "heap \<Rightarrow> 'tok token_map \<Rightarrow> 'tok token_map" where
  "TokenMapImpl_build_replicas h m =
     (let dcs = build_datacenters h (hosts m)
      in m\<lparr>datacenters := dcs,
           replicas := fold (\<lambda>(name, s) rs.
             rs(name \<mapsto> ReplicationStrategy_build_replicas h s (tokens m) dcs)) (strategies m) (replicas m)\<rparr>)"

definition TokenMapImpl_add_host ::
    "(byte list \<Rightarrow> 'tok) \<Rightarrow> host_ptr \<Rightarrow> byte list list \<Rightarrow> heap \<times> 'tok token_map \<Rightarrow>
      heap \<times> 'tok token_map" where
  "TokenMapImpl_add_host from_string p values st =
     (let (h, m) = update_host_ids p st
      in (h, m\<lparr>hosts := List.insert p (hosts m),
               tokens := tokens m @ map (\<lambda>v. (from_string v, p)) values\<rparr>))"

text \<open>\<open>std::merge\<close> of two ranges by token; equal tokens come from the first range first.\<close>

fun merge_tokens :: "('tok :: linorder) token_hosts \<Rightarrow> 'tok token_hosts \<Rightarrow> 'tok token_hosts" where
  "merge_tokens [] ys = ys"
| "merge_tokens xs [] = xs"
| "merge_tokens (x # xs) (y # ys) =
     (if fst y < fst x then y # merge_tokens (x # xs) ys else x # merge_tokens xs (y # ys))"

definition TokenMapImpl_update_host_and_build ::
    "(byte list \<Rightarrow> 'tok) \<Rightarrow> host_ptr \<Rightarrow> byte list list \<Rightarrow> heap \<times> ('tok :: linorder) token_map \<Rightarrow>
      heap \<times> 'tok token_map" where
  "TokenMapImpl_update_host_and_build from_string p values = (\<lambda>(h, m).
     let m1 = remove_host_tokens h p m;
         (h2, m2) = update_host_ids p (h, m1);
         m3 = m2\<lparr>hosts := List.insert p (hosts m2)\<rparr>;
         new_tokens = sort (map (\<lambda>v. (from_string v, p)) values);
         m4 = m3\<lparr>tokens := merge_tokens (tokens m3) new_tokens\<rparr>
     in (h2, TokenMapImpl_build_replicas h2 m4))"

definition TokenMapImpl_remove_host_and_build ::
    "host_ptr \<Rightarrow> heap \<times> 'tok token_map \<Rightarrow> heap \<times> 'tok token_map" where
  "TokenMapImpl_remove_host_and_build p = (\<lambda>(h, m).
     let m1 = remove_host_tokens h p m
     in (h, TokenMapImpl_build_replicas h (m1\<lparr>hosts := removeAll p (hosts m1)\<rparr>)))"

definition TokenMapImpl_clear_tokens_and_hosts :: "'tok token_map \<Rightarrow> 'tok token_map" where
  "TokenMapImpl_clear_tokens_and_hosts m = m\<lparr>tokens := [], hosts := []\<rparr>"

definition update_keyspace_row ::
    "heap \<Rightarrow> version_number \<Rightarrow> bool \<Rightarrow> keyspace_row \<Rightarrow> 'tok token_map \<Rightarrow> 'tok token_map" where
  "update_keyspace_row h version should_build_replicas row m =
     (case keyspace_name row of
        None \<Rightarrow> m
      | Some name \<Rightarrow>
          let (s, ids) = ReplicationStrategy_init version row (ReplicationStrategy_new, dc_ids m);
              m1 = m\<lparr>dc_ids := ids\<rparr>
          in if (case map_of (strategies m1) name of None \<Rightarrow> True | Some old \<Rightarrow> ReplicationStrategy_ne old s)
             then let m2 = m1\<lparr>strategies := AList.update name s (strategies m1)\<rparr>
                  in if should_build_replicas
                     then let dcs = build_datacenters h (hosts m2)
                          in m2\<lparr>datacenters := dcs, replicas := (replicas m2)(name \<mapsto>
                               ReplicationStrategy_build_replicas h s (tokens m2) dcs)\<rparr>
                     else m2
             else m1)"

definition TokenMapImpl_update_keyspace ::
    "heap \<Rightarrow> version_number \<Rightarrow> keyspace_row list \<Rightarrow> bool \<Rightarrow> 'tok token_map \<Rightarrow> 'tok token_map" where
  "TokenMapImpl_update_keyspace h version rows should_build_replicas m =
     fold (update_keyspace_row h version should_build_replicas) rows m"

definition TokenMapImpl_add_keyspaces ::
    "heap \<Rightarrow> version_number \<Rightarrow> keyspace_row list \<Rightarrow> 'tok token_map \<Rightarrow> 'tok token_map" where
  "TokenMapImpl_add_keyspaces h version rows m = TokenMapImpl_update_keyspace h version rows False m"

definition TokenMapImpl_update_keyspaces_and_build ::
    "heap \<Rightarrow> version_number \<Rightarrow> keyspace_row list \<Rightarrow> 'tok token_map \<Rightarrow> 'tok token_map" where
  "TokenMapImpl_update_keyspaces_and_build h version rows m =
     TokenMapImpl_update_keyspace h version rows True m"

definition TokenMapImpl_drop_keyspace :: "string \<Rightarrow> 'tok token_map \<Rightarrow> 'tok token_map" where
  "TokenMapImpl_drop_keyspace name m =
     m\<lparr>replicas := (replicas m)(name := None), strategies := AList.delete name (strategies m)\<rparr>"

definition TokenMapImpl_clear_replicas_and_strategies :: "'tok token_map \<Rightarrow> 'tok token_map" where
  "TokenMapImpl_clear_replicas_and_strategies m = m\<lparr>replicas := Map.empty, strategies := []\<rparr>"

definition TokenMapImpl_build :: "heap \<Rightarrow> ('tok :: linorder) token_map \<Rightarrow> 'tok token_map" where
  "TokenMapImpl_build h m = TokenMapImpl_build_replicas h (m\<lparr>tokens := sort (tokens m)\<rparr>)"

text \<open>\<open>std::upper_bound\<close>: the binary search for the first entry whose token is greater.\<close>

function upper_bound :: "'tok :: linorder \<Rightarrow> 'tok token_replicas \<Rightarrow> nat \<Rightarrow> nat \<Rightarrow> nat" where
  "upper_bound token rs first len =
     (if len = 0 then first
      else let half = len div 2; middle = first + half
           in if token < fst (rs ! middle) then upper_bound token rs first half
              else upper_bound token rs (middle + 1) (len - half - 1))"
  by pat_completeness auto
termination
  by (relation "measure (\<lambda>(token, rs, first, len). len)") auto

declare upper_bound.simps [simp del]

definition TokenMapImpl_get_replicas ::
    "(byte list \<Rightarrow> 'tok) \<Rightarrow> ('tok :: linorder) token_map \<Rightarrow> string \<Rightarrow> byte list \<Rightarrow> host_ptr list option" where
  "TokenMapImpl_get_replicas hash m name routing_key =
     (case replicas m name of
        None \<Rightarrow> None
      | Some rs \<Rightarrow>
          let token = hash routing_key; i = upper_bound token rs 0 (length rs)
          in if i \<noteq> length rs then Some (snd (rs ! i))
             else if rs \<noteq> [] then Some (snd (rs ! 0))
             else None)"

subsection \<open>The binary search\<close>

lemma upper_bound_partition:
  assumes "sorted (map fst rs)" "first + len \<le> length rs"
    "\<And>j. j < first \<Longrightarrow> fst (rs ! j) \<le> token"
    "\<And>j. first + len \<le> j \<Longrightarrow> j < length rs \<Longrightarrow> token < fst (rs ! j)"
  shows "upper_bound token rs first len \<le> length rs \<and>
    (\<forall>j < upper_bound token rs first len. fst (rs ! j) \<le> token) \<and>
    (\<forall>j. upper_bound token rs first len \<le> j \<and> j < length rs \<longrightarrow> token < fst (rs ! j))"
  using assms
proof (induction token rs first len rule: upper_bound.induct)
  case (1 token rs first len)
  have mono: "fst (rs ! i) \<le> fst (rs ! j)" if "i \<le> j" "j < length rs" for i j
    using sorted_nth_mono [OF 1(3), of i j] that by simp
  show ?case
  proof (cases "len = 0")
    case True
    then have "upper_bound token rs first len = first" by (simp add: upper_bound.simps)
    then show ?thesis using True 1(4-6) by simp
  next
    case False
    define half where "half = len div 2"
    have hl: "half < len" using False by (simp add: half_def)
    show ?thesis
    proof (cases "token < fst (rs ! (first + half))")
      case True
      have ub: "upper_bound token rs first len = upper_bound token rs first half"
        using False True by (simp add: upper_bound.simps [of token rs first len] half_def)
      have "upper_bound token rs first half \<le> length rs \<and>
        (\<forall>j < upper_bound token rs first half. fst (rs ! j) \<le> token) \<and>
        (\<forall>j. upper_bound token rs first half \<le> j \<and> j < length rs \<longrightarrow> token < fst (rs ! j))"
      proof (rule 1(1) [OF False half_def refl _ 1(3)])
        show "token < fst (rs ! (first + half))" by (rule True)
        show "first + half \<le> length rs" using hl 1(4) by simp
        show "fst (rs ! j) \<le> token" if "j < first" for j using 1(5) that .
        show "token < fst (rs ! j)" if "first + half \<le> j" "j < length rs" for j
          using mono [OF that] True by order
      qed
      then show ?thesis unfolding ub .
    next
      case le: False
      have ub: "upper_bound token rs first len = upper_bound token rs (first + half + 1) (len - half - 1)"
        using False le by (simp add: upper_bound.simps [of token rs first len] half_def Let_def)
      have "upper_bound token rs (first + half + 1) (len - half - 1) \<le> length rs \<and>
        (\<forall>j < upper_bound token rs (first + half + 1) (len - half - 1). fst (rs ! j) \<le> token) \<and>
        (\<forall>j. upper_bound token rs (first + half + 1) (len - half - 1) \<le> j \<and> j < length rs \<longrightarrow>
          token < fst (rs ! j))"
      proof (rule 1(2) [OF False half_def refl _ 1(3)])
        show "\<not> token < fst (rs ! (first + half))" by (rule le)
        show "first + half + 1 + (len - half - 1) \<le> length rs" using hl 1(4) by simp
        show "fst (rs ! j) \<le> token" if "j < first + half + 1" for j
        proof -
          have "fst (rs ! j) \<le> fst (rs ! (first + half))" using that hl 1(4) by (intro mono) auto
          then show ?thesis using le by order
        qed
        show "token < fst (rs ! j)" if "first + half + 1 + (len - half - 1) \<le> j" "j < length rs" for j
          using 1(6) that hl by simp
      qed
      then show ?thesis unfolding ub .
    qed
  qed
qed

lemma find_first_index:
  assumes "i \<le> length rs" "\<And>j. j < i \<Longrightarrow> \<not> P (rs ! j)" "\<And>j. i \<le> j \<Longrightarrow> j < length rs \<Longrightarrow> P (rs ! j)"
  shows "List.find P rs = (if i = length rs then None else Some (rs ! i))"
  using assms
proof (induction rs arbitrary: i)
  case (Cons r rs)
  show ?case
  proof (cases i)
    case 0
    then show ?thesis using Cons(4) [of 0] by simp
  next
    case (Suc k)
    have "List.find P rs = (if k = length rs then None else Some (rs ! k))"
    proof (rule Cons(1))
      show "k \<le> length rs" using Cons(2) Suc by simp
      show "\<not> P (rs ! j)" if "j < k" for j using Cons(3) [of "Suc j"] that Suc by simp
      show "P (rs ! j)" if "k \<le> j" "j < length rs" for j using Cons(4) [of "Suc j"] that Suc by simp
    qed
    then show ?thesis using Cons(3) [of 0] Suc by simp
  qed
qed simp

lemma get_replicas_lookup:
  assumes "replicas m name = Some rs" "sorted (map fst rs)"
  shows "TokenMapImpl_get_replicas hash m name key = ring_lookup (hash key) rs"
proof -
  define i where "i = upper_bound (hash key) rs 0 (length rs)"
  have p: "i \<le> length rs" "\<And>j. j < i \<Longrightarrow> fst (rs ! j) \<le> hash key"
    "\<And>j. i \<le> j \<Longrightarrow> j < length rs \<Longrightarrow> hash key < fst (rs ! j)"
    using upper_bound_partition [OF assms(2), of 0 "length rs" "hash key"] by (auto simp: i_def)
  have "List.find (\<lambda>(t, _). hash key < t) rs = (if i = length rs then None else Some (rs ! i))"
    by (rule find_first_index) (use p in \<open>auto simp: case_prod_beta not_less\<close>)
  moreover have "TokenMapImpl_get_replicas hash m name key =
      (if i \<noteq> length rs then Some (snd (rs ! i)) else if rs \<noteq> [] then Some (snd (rs ! 0)) else None)"
    by (simp add: TokenMapImpl_get_replicas_def assms(1) Let_def i_def)
  ultimately show ?thesis using p(1) by (cases rs) (auto simp: ring_lookup_def case_prod_beta)
qed

subsection \<open>The ring through the operations\<close>

text \<open>\<open>ring_inv\<close> holds at every moment: \<open>tokens_\<close> holds raw pointers, and each of them is kept alive by
  \<open>hosts_\<close>; replicas are kept for known keyspaces only. \<open>ring_built\<close> holds from a \<open>build\<close> on, until hosts
  are added one by one or cleared.\<close>

definition ring_inv :: "'tok token_map \<Rightarrow> bool" where
  "ring_inv m \<longleftrightarrow> snd ` set (tokens m) \<subseteq> set (hosts m) \<and> distinct (hosts m) \<and>
     dom (replicas m) \<subseteq> fst ` set (strategies m) \<and> distinct (map fst (strategies m)) \<and>
     ids_ok (rack_ids m) \<and> ids_ok (dc_ids m)"

definition replicas_built :: "('tok :: linorder) token_map \<Rightarrow> 'tok token_replicas \<Rightarrow> bool" where
  "replicas_built m rs \<longleftrightarrow> (rs = [] \<or> map fst rs = map fst (tokens m)) \<and>
     (\<forall>(t, ps) \<in> set rs. set ps \<subseteq> snd ` set (tokens m))"

definition ring_built :: "('tok :: linorder) token_map \<Rightarrow> bool" where
  "ring_built m \<longleftrightarrow> sorted (map fst (tokens m)) \<and>
     (\<forall>name rs. replicas m name = Some rs \<longrightarrow> replicas_built m rs)"

lemma replicas_built_strategy: "replicas_built m (ReplicationStrategy_build_replicas h s (tokens m) dcs)"
  using strategy.build_tokens [of h s "tokens m" dcs] strategy.build_hosts [of _ _ h s "tokens m" dcs]
  by (auto simp: replicas_built_def)

lemma fold_assign:
  "distinct (map fst ss) \<Longrightarrow> fold (\<lambda>(name, s) rs. rs(name \<mapsto> f s)) ss rs0 name =
     (case map_of ss name of Some s \<Rightarrow> Some (f s) | None \<Rightarrow> rs0 name)"
proof (induction ss arbitrary: rs0)
  case (Cons x ss)
  have "map_of ss (fst x) = None" using Cons(2) by (simp add: map_of_eq_None_iff)
  then show ?case using Cons by (cases x) (auto split: option.splits)
qed simp

lemma build_replicas_lookup:
  "distinct (map fst (strategies m)) \<Longrightarrow>
    replicas (TokenMapImpl_build_replicas h m) name =
     (case map_of (strategies m) name of
        Some s \<Rightarrow> Some (ReplicationStrategy_build_replicas h s (tokens m) (build_datacenters h (hosts m)))
      | None \<Rightarrow> replicas m name)"
  by (simp add: TokenMapImpl_build_replicas_def Let_def fold_assign)

lemma build_replicas_frame [simp]:
  "tokens (TokenMapImpl_build_replicas h m) = tokens m" "hosts (TokenMapImpl_build_replicas h m) = hosts m"
  "strategies (TokenMapImpl_build_replicas h m) = strategies m"
  "rack_ids (TokenMapImpl_build_replicas h m) = rack_ids m" "dc_ids (TokenMapImpl_build_replicas h m) = dc_ids m"
  by (simp_all add: TokenMapImpl_build_replicas_def Let_def)

lemma ring_inv_build_replicas: "ring_inv m \<Longrightarrow> ring_inv (TokenMapImpl_build_replicas h m)"
  by (auto simp: ring_inv_def build_replicas_lookup dom_def map_of_eq_None_iff image_iff
      split: option.splits dest: map_of_SomeD)

lemma ring_built_build_replicas:
  "ring_inv m \<Longrightarrow> sorted (map fst (tokens m)) \<Longrightarrow> ring_built (TokenMapImpl_build_replicas h m)"
proof -
  assume a: "ring_inv m" "sorted (map fst (tokens m))"
  have "replicas_built (TokenMapImpl_build_replicas h m) rs"
    if "replicas (TokenMapImpl_build_replicas h m) name = Some rs" for name rs
  proof (cases "map_of (strategies m) name")
    case None
    then have "name \<notin> dom (replicas m)" using a(1) by (auto simp: ring_inv_def map_of_eq_None_iff)
    then show ?thesis using that None a(1) by (auto simp: build_replicas_lookup ring_inv_def)
  next
    case (Some s)
    then show ?thesis using that a(1) replicas_built_strategy [of "TokenMapImpl_build_replicas h m" h s]
      by (auto simp: build_replicas_lookup ring_inv_def)
  qed
  then show ?thesis using a(2) by (auto simp: ring_built_def)
qed

lemma update_host_ids_frame:
  assumes "update_host_ids p (h, m) = (h', m')"
  shows "tokens m' = tokens m" "hosts m' = hosts m" "replicas m' = replicas m" "strategies m' = strategies m"
    "addr h' q = addr h q" "ids_ok (rack_ids m) \<Longrightarrow> ids_ok (rack_ids m')" "ids_ok (dc_ids m) \<Longrightarrow> ids_ok (dc_ids m')"
  using assms ids_ok_get [of "rack_ids m" "rack (h p)"] ids_ok_get [of "dc_ids m" "dc (h p)"]
  by (auto simp: update_host_ids_def Host_set_rack_and_dc_ids_def case_prod_beta)

lemma merge_mset: "mset (merge_tokens xs ys) = mset xs + mset ys"
  by (induction xs ys rule: merge_tokens.induct) auto

lemma merge_set: "set (merge_tokens xs ys) = set xs \<union> set ys"
  using arg_cong [OF merge_mset, of set_mset xs ys] by simp

lemma merge_sorted:
  "sorted (map fst xs) \<Longrightarrow> sorted (map fst ys) \<Longrightarrow> sorted (map fst (merge_tokens xs ys))"
  by (induction xs ys rule: merge_tokens.induct) (auto simp: merge_set not_less intro: order_trans less_imp_le)

lemma sorted_fst: "sorted xs \<Longrightarrow> sorted (map fst (xs :: ('a :: linorder \<times> 'b :: linorder) list))"
  by (induction xs) (auto simp: less_eq_prod_def)

lemma sorted_fst_sort: "sorted (map fst (sort xs :: ('a :: linorder \<times> 'b :: linorder) list))"
  by (rule sorted_fst) simp

lemma update_keyspace_row_cases:
  assumes "ring_inv m"
  obtains
    (same) "update_keyspace_row h version b row m = m"
  | (known) ids where "ids_ok ids" "update_keyspace_row h version b row m = m\<lparr>dc_ids := ids\<rparr>"
  | (set) ids name s where "ids_ok ids" "\<not> b" "update_keyspace_row h version b row m =
      m\<lparr>dc_ids := ids, strategies := AList.update name s (strategies m)\<rparr>"
  | (build) ids name s dcs where "ids_ok ids" "b" "update_keyspace_row h version b row m =
      m\<lparr>dc_ids := ids, strategies := AList.update name s (strategies m), datacenters := dcs,
        replicas := (replicas m)(name \<mapsto> ReplicationStrategy_build_replicas h s (tokens m) dcs)\<rparr>"
proof (cases "keyspace_name row")
  case None
  then show thesis using same by (simp add: update_keyspace_row_def)
next
  case (Some name)
  obtain s ids where i: "ReplicationStrategy_init version row (ReplicationStrategy_new, dc_ids m) = (s, ids)"
    by fastforce
  have ok: "ids_ok ids"
    using ids_ok_init [of "(ReplicationStrategy_new, dc_ids m)" version row] assms i by (simp add: ring_inv_def)
  let ?changed = "case map_of (strategies m) name of None \<Rightarrow> True | Some old \<Rightarrow> ReplicationStrategy_ne old s"
  consider "\<not> ?changed" | "?changed" "\<not> b" | "?changed" b by blast
  then show thesis
  proof cases
    case 1
    then show thesis using Some i by (intro known [OF ok]) (simp add: update_keyspace_row_def)
  next
    case 2
    then show thesis using Some i by (intro set [OF ok]) (simp_all add: update_keyspace_row_def)
  next
    case 3
    then show thesis using Some i by (intro build [OF ok]) (simp_all add: update_keyspace_row_def Let_def)
  qed
qed

lemma fst_update: "fst ` set (AList.update k v xs) = insert k (fst ` set xs)"
  by (simp add: dom_update)

lemma ring_inv_row: "ring_inv m \<Longrightarrow> ring_inv (update_keyspace_row h version b row m)"
  by (rule update_keyspace_row_cases [of m h version b row])
    (auto simp: ring_inv_def fst_update distinct_update)

lemma ring_built_row: "ring_inv m \<Longrightarrow> ring_built m \<Longrightarrow> ring_built (update_keyspace_row h version b row m)"
  by (rule update_keyspace_row_cases [of m h version b row])
    (use replicas_built_strategy [of m] in \<open>auto simp: ring_built_def replicas_built_def\<close>)

lemma ring_inv_update_keyspace:
  "ring_inv m \<Longrightarrow> ring_inv (TokenMapImpl_update_keyspace h version rows b m)"
  unfolding TokenMapImpl_update_keyspace_def
  by (induction rows arbitrary: m) (auto intro: ring_inv_row)

lemma ring_built_update_keyspace:
  "ring_inv m \<Longrightarrow> ring_built m \<Longrightarrow> ring_built (TokenMapImpl_update_keyspace h version rows b m)"
  unfolding TokenMapImpl_update_keyspace_def
  by (induction rows arbitrary: m) (auto intro: ring_inv_row ring_built_row)

lemma ring_inv_add_host:
  assumes "ring_inv m" "TokenMapImpl_add_host fs p vs (h, m) = (h', m')"
  shows "ring_inv m'"
proof -
  obtain h1 m1 where u: "update_host_ids p (h, m) = (h1, m1)" by fastforce
  note f = update_host_ids_frame [OF u]
  have "m' = m1\<lparr>hosts := List.insert p (hosts m1), tokens := tokens m1 @ map (\<lambda>v. (fs v, p)) vs\<rparr>"
    using assms(2) by (simp add: TokenMapImpl_add_host_def u)
  moreover have "snd ` (\<lambda>v. (fs v, p)) ` set vs \<subseteq> {p}" by auto
  ultimately show ?thesis using assms(1) f by (simp add: ring_inv_def image_Un) blast
qed

definition updated_map :: "(byte list \<Rightarrow> 'tok) \<Rightarrow> host_ptr \<Rightarrow> byte list list \<Rightarrow> heap \<Rightarrow>
    ('tok :: linorder) token_map \<Rightarrow> 'tok token_map \<Rightarrow> 'tok token_map" where
  "updated_map fs p vs h m m2 = m2\<lparr>hosts := List.insert p (hosts m),
     tokens := merge_tokens (filter (\<lambda>(_, q). addr h q \<noteq> addr h p) (tokens m))
       (sort (map (\<lambda>v. (fs v, p)) vs))\<rparr>"

lemma update_host_and_build_eq:
  assumes "TokenMapImpl_update_host_and_build fs p vs (h, m) = (h', m')"
  obtains m2 where "m' = TokenMapImpl_build_replicas h' (updated_map fs p vs h m m2)"
    "\<And>q. addr h' q = addr h q" "replicas m2 = replicas m" "strategies m2 = strategies m"
    "ids_ok (rack_ids m) \<Longrightarrow> ids_ok (rack_ids m2)" "ids_ok (dc_ids m) \<Longrightarrow> ids_ok (dc_ids m2)"
proof -
  obtain h2 m2 where u: "update_host_ids p (h, remove_host_tokens h p m) = (h2, m2)" by fastforce
  note f = update_host_ids_frame [OF u]
  have "TokenMapImpl_update_host_and_build fs p vs (h, m) = (h2, TokenMapImpl_build_replicas h2
      (m2\<lparr>hosts := List.insert p (hosts m2), tokens := merge_tokens (tokens m2) (sort (map (\<lambda>v. (fs v, p)) vs))\<rparr>))"
    unfolding TokenMapImpl_update_host_and_build_def by (simp add: u Let_def)
  then have "h' = h2" "m' = TokenMapImpl_build_replicas h' (updated_map fs p vs h m m2)"
    using assms f(1,2) by (simp_all add: updated_map_def remove_host_tokens_def)
  then show thesis using that f(3-7) by (simp add: remove_host_tokens_def)
qed

lemma ring_inv_updated_map:
  "ring_inv m \<Longrightarrow> replicas m2 = replicas m \<Longrightarrow> strategies m2 = strategies m \<Longrightarrow> ids_ok (rack_ids m2) \<Longrightarrow>
    ids_ok (dc_ids m2) \<Longrightarrow> ring_inv (updated_map fs p vs h m m2)"
  by (auto simp: ring_inv_def updated_map_def merge_set)

lemma sorted_fst_filter: "sorted (map fst xs) \<Longrightarrow> sorted (map fst (filter P xs))"
  by (induction xs) auto

lemma sorted_updated_map: "sorted (map fst (tokens m)) \<Longrightarrow> sorted (map fst (tokens (updated_map fs p vs h m m2)))"
  by (simp add: updated_map_def merge_sorted sorted_fst_filter sorted_fst_sort)

definition removed_map :: "host_ptr \<Rightarrow> heap \<Rightarrow> 'tok token_map \<Rightarrow> 'tok token_map" where
  "removed_map p h m = m\<lparr>tokens := filter (\<lambda>(_, q). addr h q \<noteq> addr h p) (tokens m),
     hosts := removeAll p (hosts m)\<rparr>"

lemma remove_host_and_build_eq:
  "TokenMapImpl_remove_host_and_build p (h, m) = (h, TokenMapImpl_build_replicas h (removed_map p h m))"
  by (simp add: TokenMapImpl_remove_host_and_build_def remove_host_tokens_def removed_map_def)

lemma ring_inv_removed_map: "ring_inv m \<Longrightarrow> ring_inv (removed_map p h m)"
  by (auto simp: ring_inv_def removed_map_def distinct_removeAll)

text \<open>A run of the map: its operations in any order, and changes of the host objects by their other
  owners, which never change an address. The flag says whether the ring is built.\<close>

inductive token_run :: "(byte list \<Rightarrow> 'tok) \<Rightarrow> bool \<Rightarrow> heap \<Rightarrow> ('tok :: linorder) token_map \<Rightarrow> bool"
  for fs :: "byte list \<Rightarrow> 'tok :: linorder" where
  start: "token_run fs True h TokenMapImpl_new"
| host_changed: "token_run fs b h m \<Longrightarrow> (\<And>p. addr h' p = addr h p) \<Longrightarrow> token_run fs b h' m"
| add_host: "token_run fs b h m \<Longrightarrow> TokenMapImpl_add_host fs p vs (h, m) = (h', m') \<Longrightarrow>
    token_run fs False h' m'"
| clear_hosts: "token_run fs b h m \<Longrightarrow> token_run fs False h (TokenMapImpl_clear_tokens_and_hosts m)"
| build: "token_run fs b h m \<Longrightarrow> token_run fs True h (TokenMapImpl_build h m)"
| update_host: "token_run fs b h m \<Longrightarrow> TokenMapImpl_update_host_and_build fs p vs (h, m) = (h', m') \<Longrightarrow>
    token_run fs b h' m'"
| remove_host: "token_run fs b h m \<Longrightarrow> TokenMapImpl_remove_host_and_build p (h, m) = (h', m') \<Longrightarrow>
    token_run fs b h' m'"
| add_keyspaces: "token_run fs b h m \<Longrightarrow> token_run fs b h (TokenMapImpl_add_keyspaces h version rows m)"
| update_keyspaces: "token_run fs b h m \<Longrightarrow>
    token_run fs b h (TokenMapImpl_update_keyspaces_and_build h version rows m)"
| drop_keyspace: "token_run fs b h m \<Longrightarrow> token_run fs b h (TokenMapImpl_drop_keyspace name m)"
| clear_keyspaces: "token_run fs b h m \<Longrightarrow>
    token_run fs b h (TokenMapImpl_clear_replicas_and_strategies m)"

lemma build_sorts: "ring_inv m \<Longrightarrow> ring_inv (TokenMapImpl_build h m) \<and> ring_built (TokenMapImpl_build h m)"
  unfolding TokenMapImpl_build_def
  by (intro conjI ring_inv_build_replicas ring_built_build_replicas)
    (simp_all add: ring_inv_def sorted_fst_sort)

lemma token_run_inv: "token_run fs b h m \<Longrightarrow> ring_inv m \<and> (b \<longrightarrow> ring_built m)"
proof (induction rule: token_run.induct)
  case (start h)
  show ?case by (simp add: ring_inv_def ring_built_def TokenMapImpl_new_def ids_ok_def)
next
  case (add_host b h m p vs h' m')
  then show ?case using ring_inv_add_host by blast
next
  case (build b h m)
  then show ?case using build_sorts by blast
next
  case (update_host b h m p vs h' m')
  show ?case
  proof (rule update_host_and_build_eq [OF update_host(2)])
    fix m2
    assume e: "m' = TokenMapImpl_build_replicas h' (updated_map fs p vs h m m2)"
      "replicas m2 = replicas m" "strategies m2 = strategies m"
      "ids_ok (rack_ids m) \<Longrightarrow> ids_ok (rack_ids m2)" "ids_ok (dc_ids m) \<Longrightarrow> ids_ok (dc_ids m2)"
    have inv: "ring_inv (updated_map fs p vs h m m2)"
      using update_host(3) e(2-5) by (intro ring_inv_updated_map) (auto simp: ring_inv_def)
    show ?case unfolding e(1)
      using update_host(3) ring_inv_build_replicas [OF inv] ring_built_build_replicas [OF inv sorted_updated_map]
      unfolding ring_built_def by blast
  qed
next
  case (remove_host b h m p h' m')
  have inv: "ring_inv (removed_map p h m)" using remove_host(3) ring_inv_removed_map by blast
  have "sorted (map fst (tokens m)) \<Longrightarrow> sorted (map fst (tokens (removed_map p h m)))"
    by (simp add: removed_map_def sorted_fst_filter)
  then show ?case
    using remove_host(2,3) ring_inv_build_replicas [OF inv, of h] ring_built_build_replicas [OF inv, of h]
    by (auto simp: remove_host_and_build_eq ring_built_def)
next
  case (add_keyspaces b h m version rows)
  then show ?case unfolding TokenMapImpl_add_keyspaces_def
    using ring_inv_update_keyspace ring_built_update_keyspace by blast
next
  case (update_keyspaces b h m version rows)
  then show ?case unfolding TokenMapImpl_update_keyspaces_and_build_def
    using ring_inv_update_keyspace ring_built_update_keyspace by blast
next
  case (drop_keyspace b h m name)
  then show ?case
    by (auto simp: TokenMapImpl_drop_keyspace_def ring_inv_def ring_built_def replicas_built_def
      keys_delete distinct_delete split: if_splits)
qed (auto simp: ring_inv_def ring_built_def TokenMapImpl_clear_tokens_and_hosts_def
    TokenMapImpl_clear_replicas_and_strategies_def)

lemma upper_bound_le: "upper_bound token rs first len \<le> first + len"
proof (induction token rs first len rule: upper_bound.induct)
  case (1 token rs first len)
  show ?case
  proof (cases "len = 0")
    case False
    have "len div 2 < len" using False by simp
    then show ?thesis using 1(1) [OF False refl refl] 1(2) [OF False refl refl] False
      by (subst upper_bound.simps) (auto simp: Let_def split: if_splits)
  qed (simp add: upper_bound.simps)
qed

lemma get_replicas_in:
  "TokenMapImpl_get_replicas hash m name key = Some ps \<Longrightarrow>
    \<exists>rs t. replicas m name = Some rs \<and> (t, ps) \<in> set rs"
proof -
  assume a: "TokenMapImpl_get_replicas hash m name key = Some ps"
  then obtain rs where rs: "replicas m name = Some rs"
    by (auto simp: TokenMapImpl_get_replicas_def split: option.splits)
  have "upper_bound (hash key) rs 0 (length rs) \<le> length rs"
    using upper_bound_le [of "hash key" rs 0 "length rs"] by simp
  then have "\<exists>i < length rs. ps = snd (rs ! i)"
    using a rs by (auto simp: TokenMapImpl_get_replicas_def Let_def split: if_splits)
      (metis le_neq_implies_less length_greater_0_conv)+
  then show ?thesis using rs by (metis nth_mem prod.collapse)
qed

subsection \<open>Properties\<close>

lemma ids_distinct:
  assumes "ids_ok ids" "length ids < 2 ^ 32"
  shows "\<forall>(a, i) \<in> set ids. i \<noteq> 0 \<and> (\<forall>(b, j) \<in> set ids. i = j \<longrightarrow> a = b)"
proof
  fix x assume x: "x \<in> set ids"
  obtain a i where ai: "x = (a, i)" by fastforce
  have "i \<noteq> 0" using id_nonzero [OF assms] x ai by fastforce
  moreover have "a = b" if "(b, i) \<in> set ids" for b
    using id_inject [OF assms _ that] x ai by blast
  ultimately show "case x of (a, i) \<Rightarrow> i \<noteq> 0 \<and> (\<forall>(b, j) \<in> set ids. i = j \<longrightarrow> a = b)"
    unfolding ai by auto
qed



text \<open>C19. After a host is removed, no lookup in any keyspace returns a host with its address, even if
  the ring was not yet built, and the tokens of all other hosts are kept.\<close>

theorem removed_host_gone:
  assumes "token_run fs built h m" "TokenMapImpl_remove_host_and_build p (h, m) = (h', m')"
    "TokenMapImpl_get_replicas hash m' name key = Some ps"
  shows "(\<forall>q \<in> set ps. addr h q \<noteq> addr h p) \<and>
    tokens m' = filter (\<lambda>(_, q). addr h q \<noteq> addr h p) (tokens m)"
proof -
  define n where "n = removed_map p h m"
  have inv: "ring_inv n" using token_run_inv [OF assms(1)] ring_inv_removed_map n_def by blast
  have m': "m' = TokenMapImpl_build_replicas h n"
    using assms(2) by (auto simp: remove_host_and_build_eq n_def)
  obtain rs t where rs: "replicas m' name = Some rs" "(t, ps) \<in> set rs" using get_replicas_in [OF assms(3)] by blast
  have "map_of (strategies n) name = None \<Longrightarrow> replicas n name = None"
    using inv by (auto simp: ring_inv_def map_of_eq_None_iff)
  then obtain s where "rs = ReplicationStrategy_build_replicas h s (tokens n) (build_datacenters h (hosts n))"
    using rs(1) inv build_replicas_lookup [of n h name] unfolding m'
    by (cases "map_of (strategies n) name") (auto simp: ring_inv_def)
  then have "set ps \<subseteq> snd ` set (tokens n)" using strategy.build_hosts rs(2) by blast
  moreover have t: "tokens n = filter (\<lambda>(_, q). addr h q \<noteq> addr h p) (tokens m)" by (simp add: n_def removed_map_def)
  ultimately have "\<forall>q \<in> set ps. addr h q \<noteq> addr h p" by auto
  then show ?thesis using t by (simp add: m')
qed

text \<open>Updating a host replaces exactly its tokens: the new ring holds the tokens of the hosts with
  other addresses and the given tokens for this one, and merging keeps a built ring sorted.\<close>

theorem updated_host_tokens:
  assumes "token_run fs built h m" "TokenMapImpl_update_host_and_build fs p vs (h, m) = (h', m')"
  shows "mset (tokens m') = mset (filter (\<lambda>(_, q). addr h q \<noteq> addr h p) (tokens m)) +
      mset (map (\<lambda>v. (fs v, p)) vs) \<and>
    (built \<longrightarrow> sorted (map fst (tokens m')))"
proof
  show "built \<longrightarrow> sorted (map fst (tokens m'))"
    using token_run_inv [OF token_run.update_host [OF assms]] by (simp add: ring_built_def)
  obtain m2 where "m' = TokenMapImpl_build_replicas h' (updated_map fs p vs h m m2)"
    using update_host_and_build_eq [OF assms(2)] .
  then show "mset (tokens m') = mset (filter (\<lambda>(_, q). addr h q \<noteq> addr h p) (tokens m)) +
      mset (map (\<lambda>v. (fs v, p)) vs)"
    by (simp add: updated_map_def merge_mset)
qed

definition sample_hosts :: heap where
  "sample_hosts p = Host_new (AddressIn 9042 (of_nat p)) True"

definition sample_keyspace :: keyspace_row where
  "sample_keyspace = \<lparr>keyspace_name = Some ''ks'',
     replication = Some [(''class'', ''SimpleStrategy''), (''replication_factor'', ''1'')],
     strategy_class = None, strategy_options = None\<rparr>"

definition sample_state :: "heap \<times> byte_ordered_token token_map" where
  "sample_state =
     TokenMapImpl_update_host_and_build ByteOrderedPartitioner_from_string 1 [[20]]
       (TokenMapImpl_update_host_and_build ByteOrderedPartitioner_from_string 0 [[30], [10]]
         (sample_hosts, TokenMapImpl_update_keyspaces_and_build sample_hosts (VersionNumber 3 0 0)
            [sample_keyspace] TokenMapImpl_new))"

lemma run_update_host:
  "token_run fs b (fst st) (snd st) \<Longrightarrow>
    token_run fs b (fst (TokenMapImpl_update_host_and_build fs p vs st))
      (snd (TokenMapImpl_update_host_and_build fs p vs st))"
  by (rule token_run.update_host [of fs b "fst st" "snd st" p vs]) simp_all

lemma sample_run: "token_run ByteOrderedPartitioner_from_string True (fst sample_state) (snd sample_state)"
  unfolding sample_state_def
  by (intro run_update_host) (simp add: token_run.update_keyspaces token_run.start)


lemma sample_init: "ReplicationStrategy_init (VersionNumber 3 0 0) sample_keyspace (ReplicationStrategy_new, []) =
  (\<lparr>strategy_type = SIMPLE_STRATEGY, replication_factors = [(1, \<lparr>rf_count = 1, rf_name = ''replication_factor''\<rparr>)]\<rparr>, [])"
  by (simp add: ReplicationStrategy_init_def sample_keyspace_def VersionNumber_ge_def VersionNumber_compare_def
    VersionNumber_def add_factor_def strtoul_def isspace_def isdigit_char_def ReplicationStrategy_new_def ends_with_def)


lemma sample_start: "TokenMapImpl_update_keyspaces_and_build sample_hosts (VersionNumber 3 0 0)
            [sample_keyspace] TokenMapImpl_new = TokenMapImpl_new\<lparr>strategies :=
  [(''ks'', \<lparr>strategy_type = SIMPLE_STRATEGY, replication_factors = [(1, \<lparr>rf_count = 1, rf_name = ''replication_factor''\<rparr>)]\<rparr>)],
  replicas := [''ks'' \<mapsto> []]\<rparr>"
  using sample_init
  by (simp add: TokenMapImpl_update_keyspaces_and_build_def TokenMapImpl_update_keyspace_def
     update_keyspace_row_def TokenMapImpl_new_def sample_keyspace_def build_datacenters_def
     ReplicationStrategy_build_replicas_def build_replicas_simple_def)

lemma sample_eval:
  "tokens (snd sample_state) =
    [(ByteOrderedToken [10], 0), (ByteOrderedToken [20], 1), (ByteOrderedToken [30], 0)]"
  "replicas (snd sample_state) ''ks'' =
    Some [(ByteOrderedToken [10], [0]), (ByteOrderedToken [20], [1]), (ByteOrderedToken [30], [0])]"
  "addr (fst sample_state) p = AddressIn 9042 (of_nat p)"
  "strategies (snd sample_state) = [(''ks'', \<lparr>strategy_type = SIMPLE_STRATEGY,
     replication_factors = [(1, \<lparr>rf_count = 1, rf_name = ''replication_factor''\<rparr>)]\<rparr>)]"
  unfolding sample_state_def sample_start
  by (simp_all add: TokenMapImpl_update_host_and_build_def remove_host_tokens_def update_host_ids_def
    TokenMapImpl_new_def sample_hosts_def Host_new_def IdGenerator_get_def TokenMapImpl_build_replicas_def
    Host_set_rack_and_dc_ids_def ByteOrderedPartitioner_from_string_def less_eq_prod_def less_byte_ordered_token_def
    less_eq_byte_ordered_token_def ReplicationStrategy_build_replicas_def build_replicas_simple_def simple_loop.simps)




theorem updated_host_tokens_witness:
  "mset (tokens (snd (TokenMapImpl_update_host_and_build ByteOrderedPartitioner_from_string 0 [[40]] sample_state))) =
     {#(ByteOrderedToken [20], 1), (ByteOrderedToken [40], 0)#}"
proof -
  obtain h m where s: "sample_state = (h, m)" by fastforce
  obtain h' m' where u: "TokenMapImpl_update_host_and_build ByteOrderedPartitioner_from_string 0 [[40]] (h, m) = (h', m')"
    by fastforce
  have "token_run ByteOrderedPartitioner_from_string True h m" using sample_run by (simp add: s)
  from updated_host_tokens [OF this u] show ?thesis
    using sample_eval u by (simp add: s ByteOrderedPartitioner_from_string_def)
qed

theorem removed_host_gone_witness:
  "\<exists>h m. TokenMapImpl_remove_host_and_build 0 sample_state = (h, m) \<and>
     tokens m = [(ByteOrderedToken [20], 1)] \<and>
     TokenMapImpl_get_replicas ByteOrderedPartitioner_hash m ''ks'' [99] = Some [1]"
proof -
  obtain h m where s: "sample_state = (h, m)" by fastforce
  obtain h' m' where r: "TokenMapImpl_remove_host_and_build 0 (h, m) = (h', m')" by fastforce
  have run: "token_run ByteOrderedPartitioner_from_string True h m" using sample_run by (simp add: s)
  have ev: "TokenMapImpl_get_replicas ByteOrderedPartitioner_hash m' ''ks'' [99] = Some [1]"
    using sample_eval r
    by (auto simp: s remove_host_and_build_eq removed_map_def TokenMapImpl_get_replicas_def
      TokenMapImpl_build_replicas_def ReplicationStrategy_build_replicas_def build_replicas_simple_def
      simple_loop.simps upper_bound.simps ByteOrderedPartitioner_hash_def less_byte_ordered_token_def)
  have "tokens m' = [(ByteOrderedToken [20], 1)]"
    using removed_host_gone [OF run r ev] sample_eval by (simp add: s)
  then show ?thesis using s r ev by auto
qed

end
