(* ===== verification/LoadBalancing.thy ===== *)
theory LoadBalancing
  imports TokenMap RetryPolicy "HOL-Library.Char_ord"
begin

text \<open>
  Load balancing (\<open>load_balancing.hpp\<close> and the policies): the distance of a host, the order in which
  the hosts are tried for a request, and how the policies follow hosts as they come and go.

  A policy that wraps another one holds it as its child, so a chain of policies is a datatype and the
  virtual methods are recursive functions on it. A query plan remembers its position, and reads its
  policy and the host objects again on every call; both are arguments of \<open>compute_next\<close>. A policy may
  return the plan of its child; such a plan is marked \<open>ForwardedPlan\<close>, which only names the policy
  that handed it on.

  Arguments stand for code that is not part of the driver or not a computation: the text of an
  address, the clock, the floating-point product \<open>exclusion_threshold * min\<close>, the random numbers.
\<close>

subsection \<open>Policies\<close>

datatype cass_host_distance =
  CASS_HOST_DISTANCE_LOCAL | CASS_HOST_DISTANCE_REMOTE | CASS_HOST_DISTANCE_IGNORE

definition is_dc_local :: "cass_consistency \<Rightarrow> bool" where
  "is_dc_local cl \<longleftrightarrow> cl = CASS_CONSISTENCY_LOCAL_ONE \<or> cl = CASS_CONSISTENCY_LOCAL_QUORUM"

record round_robin =
  rr_hosts :: "host_ptr list"
  rr_index :: u64

text \<open>\<open>std::map\<close> iterates in the order of its keys; the association list is kept in that order.\<close>

type_synonym per_dc = "(string \<times> host_ptr list) list"

record dc_aware =
  local_dc :: string
  used_hosts_per_remote_dc :: nat
  skip_remote_dcs_for_local_cl :: bool
  local_dc_live_hosts :: "host_ptr list"
  per_remote_dc_live_hosts :: per_dc
  dc_index :: u64

datatype list_kind =
  Whitelist "string list" | Blacklist "string list" | WhitelistDC "string list" | BlacklistDC "string list"

record token_aware =
  ta_random :: bool
  ta_index :: u64
  shuffle_replicas :: bool

record latency_settings =
  setting_scale_ns :: u64
  retry_period_ns :: u64
  update_rate_ms :: u64
  min_measured :: u64

record latency_aware =
  min_average :: i64
  task_started :: bool
  settings :: latency_settings
  la_hosts :: "host_ptr list"

type_synonym available = "(address \<times> host_ptr) list"

datatype policy =
  RoundRobinPolicy round_robin
| DCAwarePolicy dc_aware
| ListPolicy list_kind policy
| TokenAwarePolicy token_aware policy
| LatencyAwarePolicy latency_aware policy
| HostTargetingPolicy available policy

record environment =
  env_heap :: heap
  env_now :: u64
  env_text :: "address \<Rightarrow> string"
  env_exclude :: "i64 \<Rightarrow> i64"

abbreviation host_of :: "environment \<Rightarrow> host_ptr \<Rightarrow> host" where
  "host_of e p \<equiv> env_heap e p"

abbreviation up :: "environment \<Rightarrow> host_ptr \<Rightarrow> bool" where
  "up e p \<equiv> Host_is_up (host_of e p)"

definition Whitelist_is_valid_host :: "environment \<Rightarrow> string list \<Rightarrow> host_ptr \<Rightarrow> bool" where
  "Whitelist_is_valid_host e names p \<longleftrightarrow> list_ex (\<lambda>s. env_text e (host_address (host_of e p)) = s) names"

definition Blacklist_is_valid_host :: "environment \<Rightarrow> string list \<Rightarrow> host_ptr \<Rightarrow> bool" where
  "Blacklist_is_valid_host e names p \<longleftrightarrow> \<not> list_ex (\<lambda>s. env_text e (host_address (host_of e p)) = s) names"

definition WhitelistDC_is_valid_host :: "environment \<Rightarrow> string list \<Rightarrow> host_ptr \<Rightarrow> bool" where
  "WhitelistDC_is_valid_host e names p \<longleftrightarrow> list_ex (\<lambda>s. dc (host_of e p) = s) names"

definition BlacklistDC_is_valid_host :: "environment \<Rightarrow> string list \<Rightarrow> host_ptr \<Rightarrow> bool" where
  "BlacklistDC_is_valid_host e names p \<longleftrightarrow> \<not> list_ex (\<lambda>s. dc (host_of e p) = s) names"

fun is_valid_host :: "environment \<Rightarrow> list_kind \<Rightarrow> host_ptr \<Rightarrow> bool" where
  "is_valid_host e (Whitelist names) p = Whitelist_is_valid_host e names p"
| "is_valid_host e (Blacklist names) p = Blacklist_is_valid_host e names p"
| "is_valid_host e (WhitelistDC names) p = WhitelistDC_is_valid_host e names p"
| "is_valid_host e (BlacklistDC names) p = BlacklistDC_is_valid_host e names p"

subsection \<open>Hosts of the remote datacenters\<close>

definition get_hosts :: "string \<Rightarrow> per_dc \<Rightarrow> host_ptr list" where
  "get_hosts d m = (case map_of m d of Some hs \<Rightarrow> hs | None \<Rightarrow> [])"

definition add_host_to_dc :: "heap \<Rightarrow> string \<Rightarrow> host_ptr \<Rightarrow> per_dc \<Rightarrow> per_dc" where
  "add_host_to_dc h d p m =
     (case map_of m d of
        None \<Rightarrow> insort_key fst (d, [p]) m
      | Some hs \<Rightarrow> AList.update d (add_host h hs p) m)"

definition remove_host_from_dc :: "heap \<Rightarrow> string \<Rightarrow> host_ptr \<Rightarrow> per_dc \<Rightarrow> per_dc" where
  "remove_host_from_dc h d p m =
     (case map_of m d of None \<Rightarrow> m | Some hs \<Rightarrow> AList.update d (remove_host h hs p) m)"

definition copy_dcs :: "per_dc \<Rightarrow> string list" where
  "copy_dcs m = map fst m"

subsection \<open>Distance\<close>

definition DCAware_distance :: "environment \<Rightarrow> dc_aware \<Rightarrow> host_ptr \<Rightarrow> cass_host_distance" where
  "DCAware_distance e d p =
     (if local_dc d = [] \<or> dc (host_of e p) = local_dc d then CASS_HOST_DISTANCE_LOCAL
      else let hs = get_hosts (dc (host_of e p)) (per_remote_dc_live_hosts d);
               num_hosts = min (length hs) (used_hosts_per_remote_dc d)
           in if list_ex (\<lambda>q. Address_eq (host_address (host_of e q)) (host_address (host_of e p)))
                   (take num_hosts hs)
              then CASS_HOST_DISTANCE_REMOTE else CASS_HOST_DISTANCE_IGNORE)"

definition ListPolicy_distance ::
    "environment \<Rightarrow> list_kind \<Rightarrow> (host_ptr \<Rightarrow> cass_host_distance) \<Rightarrow> host_ptr \<Rightarrow> cass_host_distance" where
  "ListPolicy_distance e k child p = (if is_valid_host e k p then child p else CASS_HOST_DISTANCE_IGNORE)"

primrec distance :: "environment \<Rightarrow> policy \<Rightarrow> host_ptr \<Rightarrow> cass_host_distance" where
  "distance e (RoundRobinPolicy r) p = CASS_HOST_DISTANCE_LOCAL"
| "distance e (DCAwarePolicy d) p = DCAware_distance e d p"
| "distance e (ListPolicy k child) p = ListPolicy_distance e k (distance e child) p"
| "distance e (TokenAwarePolicy t child) p = distance e child p"
| "distance e (LatencyAwarePolicy l child) p = distance e child p"
| "distance e (HostTargetingPolicy available child) p = distance e child p"

subsection \<open>Hosts come and go\<close>

definition set_host :: "host_ptr \<Rightarrow> (host \<Rightarrow> host) \<Rightarrow> environment \<Rightarrow> environment" where
  "set_host p f e = e\<lparr>env_heap := (env_heap e)(p := f (env_heap e p))\<rparr>"

definition DCAware_on_add :: "heap \<Rightarrow> host_ptr \<Rightarrow> dc_aware \<Rightarrow> dc_aware" where
  "DCAware_on_add h p d =
     (let d1 = (if local_dc d = [] \<and> dc (h p) \<noteq> [] then d\<lparr>local_dc := dc (h p)\<rparr> else d)
      in if dc (h p) = local_dc d1
         then d1\<lparr>local_dc_live_hosts := local_dc_live_hosts d1 @ [p]\<rparr>
         else d1\<lparr>per_remote_dc_live_hosts := add_host_to_dc h (dc (h p)) p (per_remote_dc_live_hosts d1)\<rparr>)"

definition DCAware_on_remove :: "heap \<Rightarrow> host_ptr \<Rightarrow> dc_aware \<Rightarrow> dc_aware" where
  "DCAware_on_remove h p d =
     (if dc (h p) = local_dc d
      then d\<lparr>local_dc_live_hosts := remove_host h (local_dc_live_hosts d) p\<rparr>
      else d\<lparr>per_remote_dc_live_hosts := remove_host_from_dc h (dc (h p)) p (per_remote_dc_live_hosts d)\<rparr>)"

definition RoundRobin_on_add :: "heap \<Rightarrow> host_ptr \<Rightarrow> round_robin \<Rightarrow> round_robin" where
  "RoundRobin_on_add h p r = r\<lparr>rr_hosts := add_host h (rr_hosts r) p\<rparr>"

definition RoundRobin_on_remove :: "heap \<Rightarrow> host_ptr \<Rightarrow> round_robin \<Rightarrow> round_robin" where
  "RoundRobin_on_remove h p r = r\<lparr>rr_hosts := remove_host h (rr_hosts r) p\<rparr>"

definition RoundRobin_on_up :: "heap \<Rightarrow> host_ptr \<Rightarrow> round_robin \<Rightarrow> round_robin" where
  "RoundRobin_on_up h p r = RoundRobin_on_add h p r"

definition RoundRobin_on_down :: "heap \<Rightarrow> host_ptr \<Rightarrow> round_robin \<Rightarrow> round_robin" where
  "RoundRobin_on_down h p r = RoundRobin_on_remove h p r"

definition DCAware_on_up :: "heap \<Rightarrow> host_ptr \<Rightarrow> dc_aware \<Rightarrow> dc_aware" where
  "DCAware_on_up h p d = DCAware_on_add h p d"

definition DCAware_on_down :: "heap \<Rightarrow> host_ptr \<Rightarrow> dc_aware \<Rightarrow> dc_aware" where
  "DCAware_on_down h p d = DCAware_on_remove h p d"

definition LatencyAware_on_add :: "environment \<Rightarrow> host_ptr \<Rightarrow> latency_aware \<Rightarrow> environment \<times> latency_aware" where
  "LatencyAware_on_add e p l =
     (let e1 = set_host p (Host_enable_latency_tracking (setting_scale_ns (settings l)) (min_measured (settings l))) e
      in (e1, l\<lparr>la_hosts := add_host (env_heap e1) (la_hosts l) p\<rparr>))"

definition LatencyAware_on_remove :: "heap \<Rightarrow> host_ptr \<Rightarrow> latency_aware \<Rightarrow> latency_aware" where
  "LatencyAware_on_remove h p l = l\<lparr>la_hosts := remove_host h (la_hosts l) p\<rparr>"

definition LatencyAware_on_up :: "heap \<Rightarrow> host_ptr \<Rightarrow> latency_aware \<Rightarrow> latency_aware" where
  "LatencyAware_on_up h p l = l\<lparr>la_hosts := add_host h (la_hosts l) p\<rparr>"

definition LatencyAware_on_down :: "heap \<Rightarrow> host_ptr \<Rightarrow> latency_aware \<Rightarrow> latency_aware" where
  "LatencyAware_on_down h p l = l\<lparr>la_hosts := remove_host h (la_hosts l) p\<rparr>"

definition HostTargeting_on_add :: "heap \<Rightarrow> host_ptr \<Rightarrow> available \<Rightarrow> available" where
  "HostTargeting_on_add h p hs = AList.update (host_address (h p)) p hs"

definition HostTargeting_on_remove :: "heap \<Rightarrow> host_ptr \<Rightarrow> available \<Rightarrow> available" where
  "HostTargeting_on_remove h p hs = AList.delete (host_address (h p)) hs"

definition HostTargeting_on_up :: "heap \<Rightarrow> host_ptr \<Rightarrow> available \<Rightarrow> available" where
  "HostTargeting_on_up h p hs = AList.update (host_address (h p)) p hs"

definition HostTargeting_on_down :: "heap \<Rightarrow> host_ptr \<Rightarrow> available \<Rightarrow> available" where
  "HostTargeting_on_down h p hs = AList.delete (host_address (h p)) hs"

text \<open>The events reach the policies of a chain from the outside to the inside. The latency-aware policy
  changes the host object.\<close>

primrec on_add :: "policy \<Rightarrow> environment \<Rightarrow> host_ptr \<Rightarrow> environment \<times> policy" where
  "on_add (RoundRobinPolicy r) e p = (e, RoundRobinPolicy (RoundRobin_on_add (env_heap e) p r))"
| "on_add (DCAwarePolicy d) e p = (e, DCAwarePolicy (DCAware_on_add (env_heap e) p d))"
| "on_add (ListPolicy k child) e p =
     (if is_valid_host e k p then apsnd (ListPolicy k) (on_add child e p) else (e, ListPolicy k child))"
| "on_add (TokenAwarePolicy t child) e p = apsnd (TokenAwarePolicy t) (on_add child e p)"
| "on_add (LatencyAwarePolicy l child) e p =
     (let (e1, l1) = LatencyAware_on_add e p l in apsnd (LatencyAwarePolicy l1) (on_add child e1 p))"
| "on_add (HostTargetingPolicy hs child) e p =
     apsnd (HostTargetingPolicy (HostTargeting_on_add (env_heap e) p hs)) (on_add child e p)"

primrec on_remove :: "policy \<Rightarrow> environment \<Rightarrow> host_ptr \<Rightarrow> policy" where
  "on_remove (RoundRobinPolicy r) e p = RoundRobinPolicy (RoundRobin_on_remove (env_heap e) p r)"
| "on_remove (DCAwarePolicy d) e p = DCAwarePolicy (DCAware_on_remove (env_heap e) p d)"
| "on_remove (ListPolicy k child) e p =
     ListPolicy k (if is_valid_host e k p then on_remove child e p else child)"
| "on_remove (TokenAwarePolicy t child) e p = TokenAwarePolicy t (on_remove child e p)"
| "on_remove (LatencyAwarePolicy l child) e p =
     LatencyAwarePolicy (LatencyAware_on_remove (env_heap e) p l) (on_remove child e p)"
| "on_remove (HostTargetingPolicy hs child) e p =
     HostTargetingPolicy (HostTargeting_on_remove (env_heap e) p hs) (on_remove child e p)"

primrec on_up :: "policy \<Rightarrow> environment \<Rightarrow> host_ptr \<Rightarrow> policy" where
  "on_up (RoundRobinPolicy r) e p = RoundRobinPolicy (RoundRobin_on_up (env_heap e) p r)"
| "on_up (DCAwarePolicy d) e p = DCAwarePolicy (DCAware_on_up (env_heap e) p d)"
| "on_up (ListPolicy k child) e p = ListPolicy k (if is_valid_host e k p then on_up child e p else child)"
| "on_up (TokenAwarePolicy t child) e p = TokenAwarePolicy t (on_up child e p)"
| "on_up (LatencyAwarePolicy l child) e p =
     LatencyAwarePolicy (LatencyAware_on_up (env_heap e) p l) (on_up child e p)"
| "on_up (HostTargetingPolicy hs child) e p =
     HostTargetingPolicy (HostTargeting_on_up (env_heap e) p hs) (on_up child e p)"

primrec on_down :: "policy \<Rightarrow> environment \<Rightarrow> host_ptr \<Rightarrow> policy" where
  "on_down (RoundRobinPolicy r) e p = RoundRobinPolicy (RoundRobin_on_down (env_heap e) p r)"
| "on_down (DCAwarePolicy d) e p = DCAwarePolicy (DCAware_on_down (env_heap e) p d)"
| "on_down (ListPolicy k child) e p = ListPolicy k (if is_valid_host e k p then on_down child e p else child)"
| "on_down (TokenAwarePolicy t child) e p = TokenAwarePolicy t (on_down child e p)"
| "on_down (LatencyAwarePolicy l child) e p =
     LatencyAwarePolicy (LatencyAware_on_down (env_heap e) p l) (on_down child e p)"
| "on_down (HostTargetingPolicy hs child) e p =
     HostTargetingPolicy (HostTargeting_on_down (env_heap e) p hs) (on_down child e p)"

text \<open>The hosts arrive in the order of their addresses, as \<open>HostMap\<close> iterates; \<open>next\<close> draws from the
  random number generator, which is absent when there is no randomisation.\<close>

definition start_index :: "(u64 \<Rightarrow> 'r \<Rightarrow> u64 \<times> 'r) \<Rightarrow> 'r option \<Rightarrow> host_ptr list \<Rightarrow> u64 \<Rightarrow> u64" where
  "start_index next random hs i =
     (case random of Some r \<Rightarrow> fst (next (of_nat (max 1 (length hs))) r) | None \<Rightarrow> i)"

definition RoundRobin_init ::
    "(u64 \<Rightarrow> 'r \<Rightarrow> u64 \<times> 'r) \<Rightarrow> 'r option \<Rightarrow> host_ptr list \<Rightarrow> round_robin \<Rightarrow> round_robin" where
  "RoundRobin_init next random hs r =
     r\<lparr>rr_hosts := rr_hosts r @ hs, rr_index := start_index next random hs (rr_index r)\<rparr>"

definition DCAware_init :: "environment \<Rightarrow> (u64 \<Rightarrow> 'r \<Rightarrow> u64 \<times> 'r) \<Rightarrow> 'r option \<Rightarrow> host_ptr option \<Rightarrow>
    host_ptr list \<Rightarrow> dc_aware \<Rightarrow> dc_aware" where
  "DCAware_init e next random connected hs d =
     (let d1 = (case connected of
                  Some c \<Rightarrow> if local_dc d = [] \<and> dc (host_of e c) \<noteq> [] then d\<lparr>local_dc := dc (host_of e c)\<rparr> else d
                | None \<Rightarrow> d);
          d2 = fold (DCAware_on_add (env_heap e)) hs d1
      in d2\<lparr>dc_index := start_index next random hs (dc_index d2)\<rparr>)"

definition valid_hosts :: "environment \<Rightarrow> list_kind \<Rightarrow> host_ptr list \<Rightarrow> host_ptr list" where
  "valid_hosts e k hs = filter (is_valid_host e k) hs"

definition TokenAware_init ::
    "(u64 \<Rightarrow> 'r \<Rightarrow> u64 \<times> 'r) \<Rightarrow> 'r option \<Rightarrow> host_ptr list \<Rightarrow> token_aware \<Rightarrow> token_aware \<times> 'r option" where
  "TokenAware_init next random hs t =
     (case random of
        None \<Rightarrow> (t, None)
      | Some r \<Rightarrow>
          if shuffle_replicas t then (t\<lparr>ta_random := True\<rparr>, random)
          else let (i, r') = next (of_nat (max 1 (length hs))) r in (t\<lparr>ta_index := i\<rparr>, Some r'))"

definition LatencyAware_init :: "environment \<Rightarrow> host_ptr list \<Rightarrow> latency_aware \<Rightarrow> environment \<times> latency_aware" where
  "LatencyAware_init e hs l =
     (fold (\<lambda>p. set_host p (Host_enable_latency_tracking (setting_scale_ns (settings l))
        (min_measured (settings l)))) hs e,
      l\<lparr>la_hosts := la_hosts l @ hs\<rparr>)"

definition HostTargeting_init :: "heap \<Rightarrow> host_ptr list \<Rightarrow> available \<Rightarrow> available" where
  "HostTargeting_init h hs = fold (\<lambda>p. AList.update (host_address (h p)) p) hs"

primrec policy_init ::
    "policy \<Rightarrow> environment \<Rightarrow> (u64 \<Rightarrow> 'r \<Rightarrow> u64 \<times> 'r) \<Rightarrow> 'r option \<Rightarrow> host_ptr option \<Rightarrow> host_ptr list \<Rightarrow>
      environment \<times> policy" where
  "policy_init (RoundRobinPolicy r) e next random connected hs =
     (e, RoundRobinPolicy (RoundRobin_init next random hs r))"
| "policy_init (DCAwarePolicy d) e next random connected hs =
     (e, DCAwarePolicy (DCAware_init e next random connected hs d))"
| "policy_init (ListPolicy k child) e next random connected hs =
     apsnd (ListPolicy k) (policy_init child e next random connected (valid_hosts e k hs))"
| "policy_init (TokenAwarePolicy t child) e next random connected hs =
     (let (t', random') = TokenAware_init next random hs t
      in apsnd (TokenAwarePolicy t') (policy_init child e next random' connected hs))"
| "policy_init (LatencyAwarePolicy l child) e next random connected hs =
     (let (e1, l1) = LatencyAware_init e hs l
      in apsnd (LatencyAwarePolicy l1) (policy_init child e1 next random connected hs))"
| "policy_init (HostTargetingPolicy available child) e next random connected hs =
     apsnd (HostTargetingPolicy (HostTargeting_init (env_heap e) hs available))
       (policy_init child e next random connected hs)"

subsection \<open>The periodic task of the latency-aware policy\<close>

text \<open>\<open>register_handles\<close> has an empty default that the chained policies do not override.\<close>

fun register_handles :: "policy \<Rightarrow> policy" where
  "register_handles (LatencyAwarePolicy l child) = LatencyAwarePolicy (l\<lparr>task_started := True\<rparr>) child"
| "register_handles pol = pol"

fun close_handles :: "policy \<Rightarrow> policy" where
  "close_handles (LatencyAwarePolicy l child) = LatencyAwarePolicy (l\<lparr>task_started := False\<rparr>) child"
| "close_handles pol = pol"

definition counted :: "u64 \<Rightarrow> latency_settings \<Rightarrow> timestamped_average \<Rightarrow> bool" where
  "counted now s a \<longleftrightarrow> 0 \<le> sint (average a) \<and> min_measured s \<le> num_measured a \<and>
     now - timestamp a \<le> retry_period_ns s"

definition CASS_INT64_MAX :: i64 where
  "CASS_INT64_MAX = 0x7FFFFFFFFFFFFFFF"

definition LatencyAware_on_work :: "environment \<Rightarrow> latency_aware \<Rightarrow> latency_aware" where
  "LatencyAware_on_work e l =
     (let new_min_average = fold (\<lambda>p m.
            let a = Host_get_current_average (host_of e p)
            in if counted (env_now e) (settings l) a \<and> sint (average a) < sint m then average a else m)
            (la_hosts l) CASS_INT64_MAX
      in if new_min_average \<noteq> CASS_INT64_MAX then l\<lparr>min_average := new_min_average\<rparr> else l)"

subsection \<open>The chain of policies of a session\<close>

definition RoundRobin_new :: round_robin where
  "RoundRobin_new = \<lparr>rr_hosts = [], rr_index = 0\<rparr>"

definition DCAware_new :: "string \<Rightarrow> nat \<Rightarrow> bool \<Rightarrow> dc_aware" where
  "DCAware_new d used skip_remote =
     \<lparr>local_dc = d, used_hosts_per_remote_dc = used, skip_remote_dcs_for_local_cl = skip_remote,
      local_dc_live_hosts = [], per_remote_dc_live_hosts = [], dc_index = 0\<rparr>"

definition TokenAware_new :: "bool \<Rightarrow> token_aware" where
  "TokenAware_new shuffle = \<lparr>ta_random = False, ta_index = 0, shuffle_replicas = shuffle\<rparr>"

definition LatencyAware_new :: "latency_settings \<Rightarrow> latency_aware" where
  "LatencyAware_new s = \<lparr>min_average = - 1, task_started = False, settings = s, la_hosts = []\<rparr>"

primrec new_instance :: "policy \<Rightarrow> policy" where
  "new_instance (RoundRobinPolicy r) = RoundRobinPolicy RoundRobin_new"
| "new_instance (DCAwarePolicy d) =
     DCAwarePolicy (DCAware_new (local_dc d) (used_hosts_per_remote_dc d) (skip_remote_dcs_for_local_cl d))"
| "new_instance (ListPolicy k child) = ListPolicy k (new_instance child)"
| "new_instance (TokenAwarePolicy t child) = TokenAwarePolicy (TokenAware_new (shuffle_replicas t)) (new_instance child)"
| "new_instance (LatencyAwarePolicy l child) = LatencyAwarePolicy (LatencyAware_new (settings l)) (new_instance child)"
| "new_instance (HostTargetingPolicy available child) = HostTargetingPolicy [] (new_instance child)"

record policy_config =
  base_policy :: policy
  blacklist :: "string list"
  whitelist :: "string list"
  blacklist_dc :: "string list"
  whitelist_dc :: "string list"
  token_aware_routing :: bool
  token_aware_routing_shuffle_replicas :: bool
  latency_aware_routing :: bool
  latency_aware_routing_settings :: latency_settings
  host_targeting :: bool

definition load_balancing_policy :: "policy_config \<Rightarrow> policy" where
  "load_balancing_policy c =
     (let chain = new_instance (base_policy c);
          chain = (if blacklist c \<noteq> [] then ListPolicy (Blacklist (blacklist c)) chain else chain);
          chain = (if whitelist c \<noteq> [] then ListPolicy (Whitelist (whitelist c)) chain else chain);
          chain = (if blacklist_dc c \<noteq> [] then ListPolicy (BlacklistDC (blacklist_dc c)) chain else chain);
          chain = (if whitelist_dc c \<noteq> [] then ListPolicy (WhitelistDC (whitelist_dc c)) chain else chain);
          chain = (if token_aware_routing c
                   then TokenAwarePolicy (TokenAware_new (token_aware_routing_shuffle_replicas c)) chain else chain);
          chain = (if latency_aware_routing c
                   then LatencyAwarePolicy (LatencyAware_new (latency_aware_routing_settings c)) chain else chain);
          chain = (if host_targeting c then HostTargetingPolicy [] chain else chain)
      in chain)"

subsection \<open>New query plans\<close>

datatype plan =
  RoundRobinQueryPlan "host_ptr list" u64 nat
| DCAwareQueryPlan cass_consistency "host_ptr list" "string list option" nat nat u64
| TokenAwareQueryPlan plan "host_ptr list" u64 nat
| LatencyAwareQueryPlan plan "host_ptr list" nat
| HostTargetingQueryPlan bool host_ptr plan
| ForwardedPlan plan

record request =
  request_consistency :: cass_consistency
  request_routable :: bool
  request_keyspace :: string
  request_routing_key :: "byte list option"
  preferred_address :: address

text \<open>\<open>lookup\<close> is the token map, absent when there is none; \<open>shuffle\<close> is the effect of
  \<open>random_shuffle\<close> on a copy of the replicas.\<close>

definition route ::
    "string \<Rightarrow> request option \<Rightarrow> (string \<Rightarrow> byte list \<Rightarrow> host_ptr list option) option \<Rightarrow> host_ptr list" where
  "route connected_keyspace handler lookup =
     (case (handler, lookup) of
        (Some r, Some get_replicas) \<Rightarrow>
          if request_routable r
          then let keyspace = (if request_keyspace r = [] then connected_keyspace else request_keyspace r)
               in case request_routing_key r of
                    Some key \<Rightarrow> if keyspace \<noteq> []
                      then (case get_replicas keyspace key of Some hs \<Rightarrow> hs | None \<Rightarrow> []) else []
                  | None \<Rightarrow> []
          else []
      | _ \<Rightarrow> [])"

definition RoundRobin_new_query_plan :: "round_robin \<Rightarrow> plan \<times> round_robin" where
  "RoundRobin_new_query_plan r =
     (RoundRobinQueryPlan (rr_hosts r) (rr_index r) (length (rr_hosts r)), r\<lparr>rr_index := rr_index r + 1\<rparr>)"

definition DCAwareQueryPlan_new :: "dc_aware \<Rightarrow> cass_consistency \<Rightarrow> u64 \<Rightarrow> plan" where
  "DCAwareQueryPlan_new d cl start =
     DCAwareQueryPlan cl (local_dc_live_hosts d) None (length (local_dc_live_hosts d)) 0 start"

definition DCAware_new_query_plan :: "dc_aware \<Rightarrow> request option \<Rightarrow> plan \<times> dc_aware" where
  "DCAware_new_query_plan d handler =
     (let cl = (case handler of Some r \<Rightarrow> request_consistency r | None \<Rightarrow> CASS_CONSISTENCY_LOCAL_ONE)
      in (DCAwareQueryPlan_new d cl (dc_index d), d\<lparr>dc_index := dc_index d + 1\<rparr>))"

definition TokenAware_new_query_plan ::
    "token_aware \<Rightarrow> string \<Rightarrow> request option \<Rightarrow> (string \<Rightarrow> byte list \<Rightarrow> host_ptr list option) option \<Rightarrow>
      (host_ptr list \<Rightarrow> host_ptr list) \<Rightarrow> plan \<Rightarrow> plan" where
  "TokenAware_new_query_plan t ks handler lookup shuffle cp =
     (let reps = route ks handler lookup
      in if reps \<noteq> []
         then let reps' = (if ta_random t then shuffle reps else reps)
              in TokenAwareQueryPlan cp reps' (ta_index t) (length reps')
         else ForwardedPlan cp)"

definition LatencyAware_new_query_plan :: "plan \<Rightarrow> plan" where
  "LatencyAware_new_query_plan cp = LatencyAwareQueryPlan cp [] 0"

definition HostTargeting_new_query_plan :: "available \<Rightarrow> request option \<Rightarrow> plan \<Rightarrow> plan" where
  "HostTargeting_new_query_plan hs handler cp =
     (case handler of
        None \<Rightarrow> ForwardedPlan cp
      | Some r \<Rightarrow>
          if \<not> Address_is_valid (preferred_address r) then ForwardedPlan cp
          else case map_of hs (preferred_address r) of
                 None \<Rightarrow> ForwardedPlan cp
               | Some p \<Rightarrow> HostTargetingQueryPlan True p cp)"

primrec new_query_plan ::
    "policy \<Rightarrow> string \<Rightarrow> request option \<Rightarrow> (string \<Rightarrow> byte list \<Rightarrow> host_ptr list option) option \<Rightarrow>
      (host_ptr list \<Rightarrow> host_ptr list) \<Rightarrow> plan \<times> policy" where
  "new_query_plan (RoundRobinPolicy r) ks handler lookup shuffle =
     apsnd RoundRobinPolicy (RoundRobin_new_query_plan r)"
| "new_query_plan (DCAwarePolicy d) ks handler lookup shuffle =
     apsnd DCAwarePolicy (DCAware_new_query_plan d handler)"
| "new_query_plan (ListPolicy k child) ks handler lookup shuffle =
     (let (cp, child') = new_query_plan child ks handler lookup shuffle in (ForwardedPlan cp, ListPolicy k child'))"
| "new_query_plan (TokenAwarePolicy t child) ks handler lookup shuffle =
     (let (cp, child') = new_query_plan child ks handler lookup shuffle
      in (TokenAware_new_query_plan t ks handler lookup shuffle cp, TokenAwarePolicy t child'))"
| "new_query_plan (LatencyAwarePolicy l child) ks handler lookup shuffle =
     (let (cp, child') = new_query_plan child ks handler lookup shuffle
      in (LatencyAware_new_query_plan cp, LatencyAwarePolicy l child'))"
| "new_query_plan (HostTargetingPolicy hs child) ks handler lookup shuffle =
     (let (cp, child') = new_query_plan child ks handler lookup shuffle
      in (HostTargeting_new_query_plan hs handler cp, HostTargetingPolicy hs child'))"

lemmas new_query_plan_defs [simp] =
  RoundRobin_new_query_plan_def DCAware_new_query_plan_def DCAwareQueryPlan_new_def TokenAware_new_query_plan_def
  LatencyAware_new_query_plan_def HostTargeting_new_query_plan_def

subsection \<open>Walking a query plan\<close>

text \<open>The loop of most plans: the next host of a vector, from an index on and around its end, that is
  good; \<open>index_\<close> is a \<open>size_t\<close> and wraps.\<close>

primrec ring_next ::
    "(host_ptr \<Rightarrow> bool) \<Rightarrow> host_ptr list \<Rightarrow> nat \<Rightarrow> u64 \<Rightarrow> host_ptr option \<times> nat \<times> u64" where
  "ring_next good hs 0 index = (None, 0, index)"
| "ring_next good hs (Suc remaining) index =
     (let p = hs ! (unat index mod length hs)
      in if good p then (Some p, remaining, index + 1) else ring_next good hs remaining (index + 1))"

text \<open>The second loop of the datacenter-aware plan: the rest of the current remote datacenter, then one
  datacenter after the other.\<close>

fun remote_next ::
    "(host_ptr \<Rightarrow> bool) \<Rightarrow> per_dc \<Rightarrow> nat \<Rightarrow> host_ptr list \<Rightarrow> nat \<Rightarrow> u64 \<Rightarrow> string list \<Rightarrow>
      host_ptr option \<times> host_ptr list \<times> string list \<times> nat \<times> u64" where
  "remote_next good m used hs remaining index [] =
     (let (r, remaining', index') = ring_next good hs remaining index in (r, hs, [], remaining', index'))"
| "remote_next good m used hs remaining index (d # dcs) =
     (case ring_next good hs remaining index of
        (Some p, remaining', index') \<Rightarrow> (Some p, hs, d # dcs, remaining', index')
      | (None, remaining', index') \<Rightarrow>
          let hs' = get_hosts d m
          in remote_next good m used hs' (min (length hs') used) index' dcs)"

definition DCAware_compute_next :: "environment \<Rightarrow> dc_aware \<Rightarrow> cass_consistency \<Rightarrow> host_ptr list \<Rightarrow>
    string list option \<Rightarrow> nat \<Rightarrow> nat \<Rightarrow> u64 \<Rightarrow> host_ptr option \<times> plan" where
  "DCAware_compute_next e d cl hs remote_dcs local_remaining remote_remaining index =
     (case ring_next (up e) hs local_remaining index of
        (Some p, local', index') \<Rightarrow> (Some p, DCAwareQueryPlan cl hs remote_dcs local' remote_remaining index')
      | (None, local', index') \<Rightarrow>
          if skip_remote_dcs_for_local_cl d \<and> is_dc_local cl
          then (None, DCAwareQueryPlan cl hs remote_dcs local' remote_remaining index')
          else let dcs = (case remote_dcs of Some ds \<Rightarrow> ds | None \<Rightarrow> copy_dcs (per_remote_dc_live_hosts d));
                   (r, hs', dcs', remote', index'') =
                     remote_next (up e) (per_remote_dc_live_hosts d) (used_hosts_per_remote_dc d)
                       hs remote_remaining index' dcs
               in (r, DCAwareQueryPlan cl hs' (Some dcs') local' remote' index''))"

text \<open>\<open>while ((host = child_plan->compute_next()))\<close>: the first host of the child plan that passes, with
  the hosts that were passed over.\<close>

partial_function (option) plan_until ::
    "('s \<Rightarrow> (host_ptr option \<times> 's) option) \<Rightarrow> (host_ptr \<Rightarrow> bool) \<Rightarrow> 's \<Rightarrow> host_ptr list \<Rightarrow>
      (host_ptr option \<times> 's \<times> host_ptr list) option" where
  "plan_until next good s skipped =
     (case next s of
        None \<Rightarrow> None
      | Some (None, s') \<Rightarrow> Some (None, s', skipped)
      | Some (Some p, s') \<Rightarrow>
          if good p then Some (Some p, s', skipped) else plan_until next good s' (skipped @ [p]))"

definition replicas_contain :: "environment \<Rightarrow> host_ptr list \<Rightarrow> address \<Rightarrow> bool" where
  "replicas_contain e reps a \<longleftrightarrow> list_ex (\<lambda>q. Address_eq (host_address (host_of e q)) a) reps"

definition fast_enough :: "environment \<Rightarrow> latency_aware \<Rightarrow> host_ptr \<Rightarrow> bool" where
  "fast_enough e l p \<longleftrightarrow>
     (let a = Host_get_current_average (host_of e p)
      in sint (min_average l) < 0 \<or> sint (average a) < 0 \<or> num_measured a < min_measured (settings l) \<or>
         env_now e - timestamp a > retry_period_ns (settings l) \<or>
         sint (average a) \<le> sint (env_exclude e (min_average l)))"

definition forwarded :: "(host_ptr option \<times> plan) option \<Rightarrow> (host_ptr option \<times> plan) option" where
  "forwarded = map_option (apsnd ForwardedPlan)"

definition RoundRobin_compute_next :: "environment \<Rightarrow> host_ptr list \<Rightarrow> u64 \<Rightarrow> nat \<Rightarrow> host_ptr option \<times> plan" where
  "RoundRobin_compute_next e hs index remaining =
     (let (p, remaining', index') = ring_next (up e) hs remaining index
      in (p, RoundRobinQueryPlan hs index' remaining'))"

definition TokenAware_compute_next ::
    "environment \<Rightarrow> (host_ptr \<Rightarrow> cass_host_distance) \<Rightarrow> (plan \<Rightarrow> (host_ptr option \<times> plan) option) \<Rightarrow>
      plan \<Rightarrow> host_ptr list \<Rightarrow> u64 \<Rightarrow> nat \<Rightarrow> (host_ptr option \<times> plan) option" where
  "TokenAware_compute_next e child_distance child_next cp reps index remaining =
     (case ring_next (\<lambda>p. up e p \<and> child_distance p = CASS_HOST_DISTANCE_LOCAL) reps remaining index of
        (Some p, remaining', index') \<Rightarrow> Some (Some p, TokenAwareQueryPlan cp reps index' remaining')
      | (None, remaining', index') \<Rightarrow>
          map_option (\<lambda>(r, cp', _). (r, TokenAwareQueryPlan cp' reps index' remaining'))
            (plan_until child_next
               (\<lambda>p. \<not> replicas_contain e reps (host_address (host_of e p)) \<or>
                    child_distance p \<noteq> CASS_HOST_DISTANCE_LOCAL) cp []))"

definition LatencyAware_compute_next ::
    "environment \<Rightarrow> latency_aware \<Rightarrow> (plan \<Rightarrow> (host_ptr option \<times> plan) option) \<Rightarrow>
      plan \<Rightarrow> host_ptr list \<Rightarrow> nat \<Rightarrow> (host_ptr option \<times> plan) option" where
  "LatencyAware_compute_next e l child_next cp skipped skipped_index =
     (case plan_until child_next (fast_enough e l) cp skipped of
        None \<Rightarrow> None
      | Some (Some p, cp', skipped') \<Rightarrow> Some (Some p, LatencyAwareQueryPlan cp' skipped' skipped_index)
      | Some (None, cp', skipped') \<Rightarrow>
          if skipped_index < length skipped'
          then Some (Some (skipped' ! skipped_index), LatencyAwareQueryPlan cp' skipped' (skipped_index + 1))
          else Some (None, LatencyAwareQueryPlan cp' skipped' skipped_index))"

definition HostTargeting_compute_next ::
    "environment \<Rightarrow> (plan \<Rightarrow> (host_ptr option \<times> plan) option) \<Rightarrow> bool \<Rightarrow> host_ptr \<Rightarrow> plan \<Rightarrow>
      (host_ptr option \<times> plan) option" where
  "HostTargeting_compute_next e child_next first preferred cp =
     (if first then Some (Some preferred, HostTargetingQueryPlan False preferred cp)
      else (case child_next cp of
              None \<Rightarrow> None
            | Some (r, cp') \<Rightarrow>
                if (case r of Some p \<Rightarrow> Address_eq (host_address (host_of e p)) (host_address (host_of e preferred))
                    | None \<Rightarrow> False)
                then map_option (apsnd (HostTargetingQueryPlan False preferred)) (child_next cp')
                else Some (r, HostTargetingQueryPlan False preferred cp')))"

text \<open>A plan made by another policy is no input of a policy; the result is then \<open>None\<close>.\<close>

primrec compute_next :: "environment \<Rightarrow> policy \<Rightarrow> plan \<Rightarrow> (host_ptr option \<times> plan) option" where
  "compute_next e (RoundRobinPolicy r) pl =
     (case pl of
        RoundRobinQueryPlan hs index remaining \<Rightarrow> Some (RoundRobin_compute_next e hs index remaining)
      | _ \<Rightarrow> None)"
| "compute_next e (DCAwarePolicy d) pl =
     (case pl of
        DCAwareQueryPlan cl hs remote_dcs local_remaining remote_remaining index \<Rightarrow>
          Some (DCAware_compute_next e d cl hs remote_dcs local_remaining remote_remaining index)
      | _ \<Rightarrow> None)"
| "compute_next e (ListPolicy k child) pl =
     (case pl of ForwardedPlan cp \<Rightarrow> forwarded (compute_next e child cp) | _ \<Rightarrow> None)"
| "compute_next e (TokenAwarePolicy t child) pl =
     (case pl of
        TokenAwareQueryPlan cp reps index remaining \<Rightarrow>
          TokenAware_compute_next e (distance e child) (compute_next e child) cp reps index remaining
      | ForwardedPlan cp \<Rightarrow> forwarded (compute_next e child cp)
      | _ \<Rightarrow> None)"
| "compute_next e (LatencyAwarePolicy l child) pl =
     (case pl of
        LatencyAwareQueryPlan cp skipped skipped_index \<Rightarrow>
          LatencyAware_compute_next e l (compute_next e child) cp skipped skipped_index
      | _ \<Rightarrow> None)"
| "compute_next e (HostTargetingPolicy hs child) pl =
     (case pl of
        HostTargetingQueryPlan first preferred cp \<Rightarrow>
          HostTargeting_compute_next e (compute_next e child) first preferred cp
      | ForwardedPlan cp \<Rightarrow> forwarded (compute_next e child cp)
      | _ \<Rightarrow> None)"

lemmas compute_next_defs [simp] =
  RoundRobin_compute_next_def TokenAware_compute_next_def LatencyAware_compute_next_def HostTargeting_compute_next_def

subsection \<open>What is left of a plan\<close>

text \<open>The contract of a plan that its users, including the plans that wrap it, rely on: \<open>left\<close> lists the
  hosts it still has, and \<open>nxt\<close> yields them one by one and then no host for ever.\<close>

locale query_plan =
  fixes nxt :: "'s \<Rightarrow> (host_ptr option \<times> 's) option" and left :: "'s \<Rightarrow> host_ptr list" and ok :: "'s \<Rightarrow> bool"
  assumes next_none: "ok s \<Longrightarrow> left s = [] \<Longrightarrow> \<exists>s'. nxt s = Some (None, s') \<and> ok s' \<and> left s' = []"
    and next_some: "ok s \<Longrightarrow> left s = p # ps \<Longrightarrow> \<exists>s'. nxt s = Some (Some p, s') \<and> ok s' \<and> left s' = ps"
begin

lemma until_none:
  "ok s \<Longrightarrow> filter good (left s) = [] \<Longrightarrow>
    \<exists>s'. plan_until nxt good s skipped = Some (None, s', skipped @ left s) \<and> ok s' \<and> left s' = []"
proof (induction "left s" arbitrary: s skipped)
  case Nil
  then show ?case using next_none [of s] by (subst plan_until.simps) auto
next
  case (Cons p ps)
  obtain s1 where s1: "nxt s = Some (Some p, s1)" "ok s1" "left s1 = ps"
    using next_some [OF Cons(3)] Cons(2) by metis
  have "\<not> good p" "filter good (left s1) = []" using Cons(2) [symmetric] Cons(4) s1(3) by (auto split: if_splits)
  then show ?case
    using Cons(1) [OF s1(3) [symmetric] s1(2), of "skipped @ [p]"] Cons(2) s1
    by (subst plan_until.simps) auto
qed

lemma until_some:
  "ok s \<Longrightarrow> filter good (left s) = p # ps \<Longrightarrow>
    \<exists>s' sk. plan_until nxt good s skipped = Some (Some p, s', skipped @ sk) \<and> ok s' \<and>
      filter good (left s') = ps \<and> filter (\<lambda>p. \<not> good p) (left s) = sk @ filter (\<lambda>p. \<not> good p) (left s')"
proof (induction "left s" arbitrary: s skipped)
  case (Cons q qs)
  obtain s1 where s1: "nxt s = Some (Some q, s1)" "ok s1" "left s1 = qs"
    using next_some [OF Cons(3)] Cons(2) by metis
  show ?case
  proof (cases "good q")
    case True
    then show ?thesis using Cons(2) [symmetric] Cons(4) s1 by (subst plan_until.simps) auto
  next
    case False
    have "filter good (left s1) = p # ps" using Cons(2,4) s1(3) False by (metis filter.simps(2))
    from Cons(1) [OF s1(3) [symmetric] s1(2) this, of "skipped @ [q]"]
    obtain s' sk where "plan_until nxt good s1 (skipped @ [q]) = Some (Some p, s', (skipped @ [q]) @ sk)" "ok s'"
      "filter good (left s') = ps" "filter (\<lambda>p. \<not> good p) (left s1) = sk @ filter (\<lambda>p. \<not> good p) (left s')"
      by blast
    then show ?thesis using Cons(2) [symmetric] False s1
      by (subst plan_until.simps) (auto intro!: exI [of _ s'] exI [of _ "q # sk"])
  qed
qed simp

end

text \<open>All hosts of a plan, by calling it until it gives no host.\<close>

partial_function (option) run_plan :: "('s \<Rightarrow> (host_ptr option \<times> 's) option) \<Rightarrow> 's \<Rightarrow> host_ptr list option" where
  "run_plan nxt s =
     (case nxt s of
        None \<Rightarrow> None
      | Some (None, s') \<Rightarrow> Some []
      | Some (Some p, s') \<Rightarrow> Option.bind (run_plan nxt s') (\<lambda>ps. Some (p # ps)))"

context query_plan
begin

lemma run_left: "ok s \<Longrightarrow> run_plan nxt s = Some (left s)"
proof (induction "left s" arbitrary: s)
  case Nil
  then show ?case using next_none [of s] by (subst run_plan.simps) auto
next
  case (Cons p ps)
  obtain s1 where s1: "nxt s = Some (Some p, s1)" "ok s1" "left s1 = ps"
    using next_some [OF Cons(3)] Cons(2) by metis
  then show ?case using Cons(1) [OF s1(3) [symmetric] s1(2)] Cons(2) by (subst run_plan.simps) auto
qed

end

definition ring_list :: "host_ptr list \<Rightarrow> u64 \<Rightarrow> nat \<Rightarrow> host_ptr list" where
  "ring_list hs index n = map (\<lambda>j. hs ! ((unat index + j) mod length hs)) [0 ..< n]"

lemma unat_plus_1: "unat (i :: u64) + 1 < 2 ^ 64 \<Longrightarrow> unat (i + 1) = unat i + 1"
  by (subst unat_add_lem [THEN iffD1]) auto

lemma ring_list_0 [simp]: "ring_list hs i 0 = []"
  by (simp add: ring_list_def)

lemma ring_list_Suc:
  "unat i + Suc n < 2 ^ 64 \<Longrightarrow> ring_list hs i (Suc n) = hs ! (unat i mod length hs) # ring_list hs (i + 1) n"
  by (simp add: ring_list_def unat_plus_1 upt_conv_Cons map_Suc_upt [symmetric] o_def del: upt_Suc)

lemma ring_next_spec:
  "unat i + n < 2 ^ 64 \<Longrightarrow> ring_next good hs n i = (r, n', i') \<Longrightarrow>
    unat i' + n' = unat i + n \<and> (r = None \<longrightarrow> n' = 0) \<and>
    filter good (ring_list hs i n) = (case r of None \<Rightarrow> [] | Some p \<Rightarrow> p # filter good (ring_list hs i' n'))"
proof (induction n arbitrary: i)
  case (Suc n)
  have i: "unat (i + 1) = unat i + 1" using Suc(2) by (intro unat_plus_1) simp
  show ?case
  proof (cases "good (hs ! (unat i mod length hs))")
    case True
    then show ?thesis using Suc(2,3) i by (auto simp: ring_list_Suc)
  next
    case False
    then have "ring_next good hs n (i + 1) = (r, n', i')" using Suc(3) by simp
    from Suc(1) [OF _ this] show ?thesis using Suc(2) i False by (simp add: ring_list_Suc)
  qed
qed auto

fun remote_list :: "per_dc \<Rightarrow> nat \<Rightarrow> host_ptr list \<Rightarrow> nat \<Rightarrow> u64 \<Rightarrow> string list \<Rightarrow> host_ptr list" where
  "remote_list m used hs n i [] = ring_list hs i n"
| "remote_list m used hs n i (d # dcs) =
     ring_list hs i n @
     remote_list m used (get_hosts d m) (min (length (get_hosts d m)) used) (i + of_nat n) dcs"

definition remote_total :: "per_dc \<Rightarrow> nat \<Rightarrow> nat \<Rightarrow> string list \<Rightarrow> nat" where
  "remote_total m used n dcs = n + (\<Sum>d \<leftarrow> dcs. min (length (get_hosts d m)) used)"

lemma u64_sum_eq: "unat i + n = unat j + k \<Longrightarrow> (i :: u64) + of_nat n = j + of_nat k"
proof -
  assume "unat i + n = unat j + k"
  then have "(of_nat (unat i + n) :: u64) = of_nat (unat j + k)" by (simp only:)
  then show ?thesis by simp
qed

lemma remote_next_spec:
  "unat i + remote_total m used n dcs < 2 ^ 64 \<Longrightarrow>
    remote_next good m used hs n i dcs = (r, hs', dcs', n', i') \<Longrightarrow>
    unat i' + remote_total m used n' dcs' \<le> unat i + remote_total m used n dcs \<and>
    filter good (remote_list m used hs n i dcs) =
      (case r of None \<Rightarrow> [] | Some p \<Rightarrow> p # filter good (remote_list m used hs' n' i' dcs')) \<and>
    (r = None \<longrightarrow> filter good (remote_list m used hs' n' i' dcs') = [])"
proof (induction good m used hs n i dcs rule: remote_next.induct)
  case (1 good m used hs n i)
  obtain q n1 i1 where rn: "ring_next good hs n i = (q, n1, i1)" by (metis prod_cases3)
  then show ?case using ring_next_spec [OF _ rn] 1 by (auto simp: remote_total_def split: option.splits)
next
  case (2 good m used hs n i d dcs)
  obtain q n1 i1 where rn: "ring_next good hs n i = (q, n1, i1)" by (metis prod_cases3)
  have small: "unat i + n < 2 ^ 64" using 2(2) by (simp add: remote_total_def)
  note s = ring_next_spec [OF small rn]
  show ?case
  proof (cases q)
    case (Some p)
    have "i + of_nat n = i1 + of_nat n1"
      using s by (intro u64_sum_eq) simp
    then show ?thesis using 2(3) rn Some s by (auto simp: remote_total_def)
  next
    case None
    then have n1: "n1 = 0" "unat i1 = unat i + n" using s by auto
    have i1: "i + of_nat n = i1" using u64_sum_eq [of i n i1 0] n1(2) by simp
    have tot: "unat i1 + remote_total m used (min (length (get_hosts d m)) used) dcs =
        unat i + remote_total m used n (d # dcs)"
      using n1 by (simp add: remote_total_def)
    have "remote_next good m used (get_hosts d m) (min (length (get_hosts d m)) used) i1 dcs = (r, hs', dcs', n', i')"
      using 2(3) rn None n1 by (simp add: Let_def)
    from 2(1) [OF rn [symmetric] None refl refl _ this] show ?thesis
      using tot 2(2) s None i1 by simp
  qed
qed

text \<open>The specification of every plan as a list.\<close>

fun targeted :: "(host_ptr \<Rightarrow> bool) \<Rightarrow> host_ptr list \<Rightarrow> host_ptr list" where
  "targeted same [] = []"
| "targeted same [p] = (if same p then [] else [p])"
| "targeted same (p # q # ps) = (if same p then q # targeted same ps else p # targeted same (q # ps))"

definition remote_part :: "environment \<Rightarrow> dc_aware \<Rightarrow> cass_consistency \<Rightarrow> host_ptr list \<Rightarrow> string list option \<Rightarrow>
    nat \<Rightarrow> u64 \<Rightarrow> host_ptr list" where
  "remote_part e d cl hs remote_dcs n i =
     (if skip_remote_dcs_for_local_cl d \<and> is_dc_local cl then []
      else filter (up e) (remote_list (per_remote_dc_live_hosts d) (used_hosts_per_remote_dc d) hs n i
        (case remote_dcs of Some ds \<Rightarrow> ds | None \<Rightarrow> copy_dcs (per_remote_dc_live_hosts d))))"

abbreviation local_replica :: "environment \<Rightarrow> policy \<Rightarrow> host_ptr \<Rightarrow> bool" where
  "local_replica e child p \<equiv> up e p \<and> distance e child p = CASS_HOST_DISTANCE_LOCAL"

abbreviation not_tried :: "environment \<Rightarrow> policy \<Rightarrow> host_ptr list \<Rightarrow> host_ptr \<Rightarrow> bool" where
  "not_tried e child reps p \<equiv> \<not> replicas_contain e reps (host_address (host_of e p)) \<or>
     distance e child p \<noteq> CASS_HOST_DISTANCE_LOCAL"

primrec plan_hosts :: "environment \<Rightarrow> policy \<Rightarrow> plan \<Rightarrow> host_ptr list" where
  "plan_hosts e (RoundRobinPolicy r) pl =
     (case pl of RoundRobinQueryPlan hs i n \<Rightarrow> filter (up e) (ring_list hs i n) | _ \<Rightarrow> [])"
| "plan_hosts e (DCAwarePolicy d) pl =
     (case pl of
        DCAwareQueryPlan cl hs remote_dcs n m i \<Rightarrow>
          filter (up e) (ring_list hs i n) @ remote_part e d cl hs remote_dcs m (i + of_nat n)
      | _ \<Rightarrow> [])"
| "plan_hosts e (ListPolicy k child) pl = (case pl of ForwardedPlan cp \<Rightarrow> plan_hosts e child cp | _ \<Rightarrow> [])"
| "plan_hosts e (TokenAwarePolicy t child) pl =
     (case pl of
        TokenAwareQueryPlan cp reps i n \<Rightarrow>
          filter (local_replica e child) (ring_list reps i n) @
          filter (not_tried e child reps) (plan_hosts e child cp)
      | ForwardedPlan cp \<Rightarrow> plan_hosts e child cp | _ \<Rightarrow> [])"
| "plan_hosts e (LatencyAwarePolicy l child) pl =
     (case pl of
        LatencyAwareQueryPlan cp skipped k \<Rightarrow>
          filter (fast_enough e l) (plan_hosts e child cp) @
          drop k (skipped @ filter (\<lambda>p. \<not> fast_enough e l p) (plan_hosts e child cp))
      | _ \<Rightarrow> [])"
| "plan_hosts e (HostTargetingPolicy available child) pl =
     (case pl of
        HostTargetingQueryPlan first p cp \<Rightarrow>
          (if first then [p] else []) @
          targeted (\<lambda>q. host_address (host_of e q) = host_address (host_of e p)) (plan_hosts e child cp)
      | ForwardedPlan cp \<Rightarrow> plan_hosts e child cp | _ \<Rightarrow> [])"

text \<open>A plan belongs to its policy, and no index runs past the end of \<open>size_t\<close>.\<close>

primrec plan_ok :: "policy \<Rightarrow> plan \<Rightarrow> bool" where
  "plan_ok (RoundRobinPolicy r) pl = (case pl of RoundRobinQueryPlan hs i n \<Rightarrow> unat i + n < 2 ^ 64 | _ \<Rightarrow> False)"
| "plan_ok (DCAwarePolicy d) pl =
     (case pl of
        DCAwareQueryPlan cl hs remote_dcs n m i \<Rightarrow>
          unat i + n + remote_total (per_remote_dc_live_hosts d) (used_hosts_per_remote_dc d) m
            (case remote_dcs of Some ds \<Rightarrow> ds | None \<Rightarrow> copy_dcs (per_remote_dc_live_hosts d)) < 2 ^ 64
      | _ \<Rightarrow> False)"
| "plan_ok (ListPolicy k child) pl = (case pl of ForwardedPlan cp \<Rightarrow> plan_ok child cp | _ \<Rightarrow> False)"
| "plan_ok (TokenAwarePolicy t child) pl =
     (case pl of
        TokenAwareQueryPlan cp reps i n \<Rightarrow> plan_ok child cp \<and> unat i + n < 2 ^ 64
      | ForwardedPlan cp \<Rightarrow> plan_ok child cp | _ \<Rightarrow> False)"
| "plan_ok (LatencyAwarePolicy l child) pl =
     (case pl of LatencyAwareQueryPlan cp skipped k \<Rightarrow> plan_ok child cp \<and> k \<le> length skipped | _ \<Rightarrow> False)"
| "plan_ok (HostTargetingPolicy available child) pl =
     (case pl of
        HostTargetingQueryPlan first p cp \<Rightarrow> plan_ok child cp
      | ForwardedPlan cp \<Rightarrow> plan_ok child cp | _ \<Rightarrow> False)"

text \<open>A step of a plan, in one formula.\<close>

definition plan_step :: "('s \<Rightarrow> (host_ptr option \<times> 's) option) \<Rightarrow> ('s \<Rightarrow> host_ptr list) \<Rightarrow> ('s \<Rightarrow> bool) \<Rightarrow> 's \<Rightarrow> bool" where
  "plan_step nxt left ok s \<longleftrightarrow> (\<exists>r s'. nxt s = Some (r, s') \<and> ok s' \<and>
     left s = (case r of None \<Rightarrow> [] | Some p \<Rightarrow> p # left s') \<and> (r = None \<longrightarrow> left s' = []))"

lemma query_planI:
  assumes "\<And>s. ok s \<Longrightarrow> plan_step nxt left ok s"
  shows "query_plan nxt left ok"
proof
  fix s p ps assume ok: "ok s"
  obtain r s' where n: "nxt s = Some (r, s')" "ok s'" "left s = (case r of None \<Rightarrow> [] | Some p \<Rightarrow> p # left s')"
    "r = None \<longrightarrow> left s' = []"
    using assms [OF ok] unfolding plan_step_def by blast
  show "\<exists>s'. nxt s = Some (None, s') \<and> ok s' \<and> left s' = []" if "left s = []"
    using n that by (cases r) auto
  show "\<exists>s'. nxt s = Some (Some p, s') \<and> ok s' \<and> left s' = ps" if "left s = p # ps"
    using n that by (cases r) auto
qed

lemma query_plan_step:
  assumes "query_plan nxt left ok" "ok s"
  shows "plan_step nxt left ok s"
proof (cases "left s")
  case Nil
  obtain s' where "nxt s = Some (None, s')" "ok s'" "left s' = []"
    using query_plan.next_none [OF assms Nil] by blast
  then show ?thesis unfolding plan_step_def using Nil by (intro exI [of _ None] exI [of _ s']) simp
next
  case (Cons p ps)
  obtain s' where "nxt s = Some (Some p, s')" "ok s'" "left s' = ps"
    using query_plan.next_some [OF assms Cons] by blast
  then show ?thesis unfolding plan_step_def using Cons by (intro exI [of _ "Some p"] exI [of _ s']) simp
qed

lemma round_robin_step: "plan_ok (RoundRobinPolicy r) pl \<Longrightarrow>
    plan_step (compute_next e (RoundRobinPolicy r)) (plan_hosts e (RoundRobinPolicy r)) (plan_ok (RoundRobinPolicy r)) pl"
proof (cases pl)
  case (RoundRobinQueryPlan hs i n)
  assume "plan_ok (RoundRobinPolicy r) pl"
  then have ok: "unat i + n < 2 ^ 64" by (simp add: RoundRobinQueryPlan)
  obtain q n' i' where rn: "ring_next (up e) hs n i = (q, n', i')" by (metis prod_cases3)
  show ?thesis using ring_next_spec [OF ok rn] ok
    by (auto simp: plan_step_def RoundRobinQueryPlan rn split: option.splits)
qed simp_all

lemma dc_aware_step: "plan_ok (DCAwarePolicy d) pl \<Longrightarrow>
    plan_step (compute_next e (DCAwarePolicy d)) (plan_hosts e (DCAwarePolicy d)) (plan_ok (DCAwarePolicy d)) pl"
proof (cases pl)
  case (DCAwareQueryPlan cl hs rd n m i)
  let ?map = "per_remote_dc_live_hosts d" and ?used = "used_hosts_per_remote_dc d"
  let ?dcs = "case rd of Some ds \<Rightarrow> ds | None \<Rightarrow> copy_dcs ?map"
  assume "plan_ok (DCAwarePolicy d) pl"
  then have ok: "unat i + n + remote_total ?map ?used m ?dcs < 2 ^ 64" by (simp add: DCAwareQueryPlan)
  then have small: "unat i + n < 2 ^ 64" by simp
  obtain q n' i' where rn: "ring_next (up e) hs n i = (q, n', i')" by (metis prod_cases3)
  note s = ring_next_spec [OF small rn]
  have i: "i + of_nat n = i' + of_nat n'" using s by (intro u64_sum_eq) simp
  obtain r hs' dcs' m' i2 where rm: "remote_next (up e) ?map ?used hs m i' ?dcs = (r, hs', dcs', m', i2)"
    by (metis prod_cases5)
  show ?thesis
  proof (cases q)
    case (Some p)
    then show ?thesis using s i ok
      by (simp add: plan_step_def DCAwareQueryPlan DCAware_compute_next_def rn remote_part_def)
  next
    case None
    then have n': "n' = 0" and tot: "unat i' + remote_total ?map ?used m ?dcs < 2 ^ 64" using s ok by auto
    have i': "i + of_nat n = i'" using i n' by simp
    have empty: "filter (up e) (ring_list hs i n) = []" using s None by simp
    show ?thesis
    proof (cases "skip_remote_dcs_for_local_cl d \<and> is_dc_local cl")
      case True
      have "compute_next e (DCAwarePolicy d) pl = Some (None, DCAwareQueryPlan cl hs rd 0 m i')"
        using True by (simp add: DCAwareQueryPlan DCAware_compute_next_def rn None n')
      then show ?thesis using True empty tot
        by (simp add: plan_step_def DCAwareQueryPlan remote_part_def)
    next
      case False
      have nx: "compute_next e (DCAwarePolicy d) pl = Some (r, DCAwareQueryPlan cl hs' (Some dcs') 0 m' i2)"
        using False unfolding DCAwareQueryPlan compute_next.simps plan.case DCAware_compute_next_def rn None n'
        by (auto simp: Let_def rm)
      have rem: "remote_part e d cl hs rd m i' = filter (up e) (remote_list ?map ?used hs m i' ?dcs)"
        "remote_part e d cl hs' (Some dcs') m' i2 = filter (up e) (remote_list ?map ?used hs' m' i2 dcs')"
        unfolding remote_part_def if_not_P [OF False] by simp_all
      show ?thesis
        using remote_next_spec [OF tot rm] tot
        unfolding plan_step_def nx by (cases r) (simp_all add: DCAwareQueryPlan empty i' rem)
    qed
  qed
qed simp_all

lemma forwarded_step:
  assumes "plan_step (compute_next e child) (plan_hosts e child) (plan_ok child) cp"
    "compute_next e pol (ForwardedPlan cp) = forwarded (compute_next e child cp)"
    "\<And>cp. plan_hosts e pol (ForwardedPlan cp) = plan_hosts e child cp"
    "\<And>cp. plan_ok pol (ForwardedPlan cp) = plan_ok child cp"
  shows "plan_step (compute_next e pol) (plan_hosts e pol) (plan_ok pol) (ForwardedPlan cp)"
proof -
  obtain r cp' where "compute_next e child cp = Some (r, cp')" "plan_ok child cp'"
    "plan_hosts e child cp = (case r of None \<Rightarrow> [] | Some p \<Rightarrow> p # plan_hosts e child cp')"
    "r = None \<longrightarrow> plan_hosts e child cp' = []"
    using assms(1) unfolding plan_step_def by blast
  then show ?thesis unfolding plan_step_def
    by (intro exI [of _ r] exI [of _ "ForwardedPlan cp'"]) (cases r; simp add: assms(2-4) forwarded_def)
qed

lemma token_aware_step:
  assumes c: "query_plan (compute_next e child) (plan_hosts e child) (plan_ok child)"
    and ok: "plan_ok (TokenAwarePolicy t child) pl"
  shows "plan_step (compute_next e (TokenAwarePolicy t child)) (plan_hosts e (TokenAwarePolicy t child))
    (plan_ok (TokenAwarePolicy t child)) pl"
proof (cases pl)
  case (TokenAwareQueryPlan cp reps i n)
  have cok: "plan_ok child cp" "unat i + n < 2 ^ 64" using ok by (simp_all add: TokenAwareQueryPlan)
  obtain q n' i' where rn: "ring_next (local_replica e child) reps n i = (q, n', i')" by (metis prod_cases3)
  note s = ring_next_spec [OF cok(2) rn]
  show ?thesis
  proof (cases q)
    case (Some p)
    then show ?thesis using s cok by (simp add: plan_step_def TokenAwareQueryPlan rn)
  next
    case None
    then have n': "n' = 0" "filter (local_replica e child) (ring_list reps i n) = []" "unat i' < 2 ^ 64"
      using s cok(2) by auto
    show ?thesis
    proof (cases "filter (not_tried e child reps) (plan_hosts e child cp)")
      case Nil
      obtain cp' where u: "plan_until (compute_next e child) (not_tried e child reps) cp [] =
          Some (None, cp', plan_hosts e child cp)" "plan_ok child cp'" "plan_hosts e child cp' = []"
        using query_plan.until_none [OF c cok(1) Nil, of "[]"] by auto
      then show ?thesis using Nil n'
        by (simp add: plan_step_def TokenAwareQueryPlan rn None)
    next
      case (Cons p ps)
      obtain cp' sk where u: "plan_until (compute_next e child) (not_tried e child reps) cp [] =
          Some (Some p, cp', sk)" "plan_ok child cp'" "filter (not_tried e child reps) (plan_hosts e child cp') = ps"
        using query_plan.until_some [OF c cok(1) Cons, of "[]"] by auto
      then show ?thesis using Cons n'
        by (simp add: plan_step_def TokenAwareQueryPlan rn None)
    qed
  qed
next
  case (ForwardedPlan cp)
  then show ?thesis using ok query_plan_step [OF c, of cp] by (simp add: forwarded_step)
qed (use ok in simp_all)

lemma latency_aware_step:
  assumes c: "query_plan (compute_next e child) (plan_hosts e child) (plan_ok child)"
    and ok: "plan_ok (LatencyAwarePolicy l child) pl"
  shows "plan_step (compute_next e (LatencyAwarePolicy l child)) (plan_hosts e (LatencyAwarePolicy l child))
    (plan_ok (LatencyAwarePolicy l child)) pl"
proof (cases pl)
  case (LatencyAwareQueryPlan cp skipped k)
  have cok: "plan_ok child cp" "k \<le> length skipped" using ok by (simp_all add: LatencyAwareQueryPlan)
  show ?thesis
  proof (cases "filter (fast_enough e l) (plan_hosts e child cp)")
    case Nil
    let ?sk = "skipped @ plan_hosts e child cp"
    obtain cp' where u: "plan_until (compute_next e child) (fast_enough e l) cp skipped =
        Some (None, cp', ?sk)" "plan_ok child cp'" "plan_hosts e child cp' = []"
      using query_plan.until_none [OF c cok(1) Nil, of skipped] by auto
    have slow: "filter (\<lambda>p. \<not> fast_enough e l p) (plan_hosts e child cp) = plan_hosts e child cp"
      using Nil by (simp add: filter_empty_conv filter_id_conv)
    have left: "plan_hosts e (LatencyAwarePolicy l child) pl = drop k ?sk"
      using Nil slow by (simp add: LatencyAwareQueryPlan)
    show ?thesis
    proof (cases "k < length ?sk")
      case True
      then show ?thesis unfolding plan_step_def left
        using u Cons_nth_drop_Suc [OF True] by (simp add: LatencyAwareQueryPlan)
    next
      case False
      then have "length (plan_hosts e child cp) = 0" "k = length skipped" using cok(2) by (simp_all only: length_append)
      then show ?thesis unfolding plan_step_def left
        using u False by (simp add: LatencyAwareQueryPlan)
    qed
  next
    case (Cons p ps)
    obtain cp' sk where u: "plan_until (compute_next e child) (fast_enough e l) cp skipped =
        Some (Some p, cp', skipped @ sk)" "plan_ok child cp'" "filter (fast_enough e l) (plan_hosts e child cp') = ps"
      "filter (\<lambda>p. \<not> fast_enough e l p) (plan_hosts e child cp) =
        sk @ filter (\<lambda>p. \<not> fast_enough e l p) (plan_hosts e child cp')"
      using query_plan.until_some [OF c cok(1) Cons, of skipped] by blast
    then show ?thesis using Cons cok(2) by (simp add: plan_step_def LatencyAwareQueryPlan)
  qed
qed (use ok in simp_all)

lemma targeted_Cons: "\<not> same p \<Longrightarrow> targeted same (p # ps) = p # targeted same ps"
  by (cases ps) auto

lemma host_targeting_step:
  assumes c: "query_plan (compute_next e child) (plan_hosts e child) (plan_ok child)"
    and ok: "plan_ok (HostTargetingPolicy av child) pl"
  shows "plan_step (compute_next e (HostTargetingPolicy av child)) (plan_hosts e (HostTargetingPolicy av child))
    (plan_ok (HostTargetingPolicy av child)) pl"
proof (cases pl)
  case (HostTargetingQueryPlan first pref cp)
  have cok: "plan_ok child cp" using ok by (simp add: HostTargetingQueryPlan)
  show ?thesis
  proof (cases first)
    case True
    then show ?thesis using cok by (simp add: plan_step_def HostTargetingQueryPlan)
  next
    case False
    obtain r cp' where n: "compute_next e child cp = Some (r, cp')" "plan_ok child cp'"
      "plan_hosts e child cp = (case r of None \<Rightarrow> [] | Some p \<Rightarrow> p # plan_hosts e child cp')"
      "r = None \<longrightarrow> plan_hosts e child cp' = []"
      using query_plan_step [OF c cok] unfolding plan_step_def by blast
    obtain r2 cp2 where n2: "compute_next e child cp' = Some (r2, cp2)" "plan_ok child cp2"
      "plan_hosts e child cp' = (case r2 of None \<Rightarrow> [] | Some p \<Rightarrow> p # plan_hosts e child cp2)"
      "r2 = None \<longrightarrow> plan_hosts e child cp2 = []"
      using query_plan_step [OF c n(2)] unfolding plan_step_def by blast
    show ?thesis
    proof (cases r)
      case None
      then show ?thesis using n False by (simp add: plan_step_def HostTargetingQueryPlan)
    next
      case (Some p)
      show ?thesis
      proof (cases "host_address (host_of e p) = host_address (host_of e pref)")
        case True
        then show ?thesis using n n2 False Some
          by (cases r2) (simp_all add: plan_step_def HostTargetingQueryPlan)
      next
        case ne: False
        then show ?thesis using n False Some
          by (simp add: plan_step_def HostTargetingQueryPlan targeted_Cons)
      qed
    qed
  qed
next
  case (ForwardedPlan cp)
  then show ?thesis using ok query_plan_step [OF c, of cp] by (simp add: forwarded_step)
qed (use ok in simp_all)

lemma list_policy_step:
  assumes c: "query_plan (compute_next e child) (plan_hosts e child) (plan_ok child)"
    and ok: "plan_ok (ListPolicy k child) pl"
  shows "plan_step (compute_next e (ListPolicy k child)) (plan_hosts e (ListPolicy k child))
    (plan_ok (ListPolicy k child)) pl"
proof (cases pl)
  case (ForwardedPlan cp)
  then show ?thesis using ok query_plan_step [OF c, of cp] by (simp add: forwarded_step)
qed (use ok in simp_all)

lemma compute_next_contract: "query_plan (compute_next e pol) (plan_hosts e pol) (plan_ok pol)"
proof (induction pol)
  case (RoundRobinPolicy r)
  then show ?case by (rule query_planI) (rule round_robin_step)
next
  case (DCAwarePolicy d)
  then show ?case by (rule query_planI) (rule dc_aware_step)
next
  case (ListPolicy k child)
  then show ?case by (intro query_planI) (rule list_policy_step)
next
  case (TokenAwarePolicy t child)
  then show ?case by (intro query_planI) (rule token_aware_step)
next
  case (LatencyAwarePolicy l child)
  then show ?case by (intro query_planI) (rule latency_aware_step)
next
  case (HostTargetingPolicy av child)
  then show ?case by (intro query_planI) (rule host_targeting_step)
qed

interpretation plans: query_plan "compute_next e pol" "plan_hosts e pol" "plan_ok pol" for e pol
  by (rule compute_next_contract)

subsection \<open>New plans\<close>

text \<open>The counters have room for the hosts of one more plan; \<open>n\<close> replicas are found for the request.\<close>

primrec has_room :: "nat \<Rightarrow> policy \<Rightarrow> bool" where
  "has_room n (RoundRobinPolicy r) \<longleftrightarrow> unat (rr_index r) + length (rr_hosts r) < 2 ^ 64"
| "has_room n (DCAwarePolicy d) \<longleftrightarrow> unat (dc_index d) + length (local_dc_live_hosts d) +
     remote_total (per_remote_dc_live_hosts d) (used_hosts_per_remote_dc d) 0 (copy_dcs (per_remote_dc_live_hosts d)) < 2 ^ 64"
| "has_room n (ListPolicy k child) \<longleftrightarrow> has_room n child"
| "has_room n (TokenAwarePolicy t child) \<longleftrightarrow> unat (ta_index t) + n < 2 ^ 64 \<and> has_room n child"
| "has_room n (LatencyAwarePolicy l child) \<longleftrightarrow> has_room n child"
| "has_room n (HostTargetingPolicy available child) \<longleftrightarrow> has_room n child"

lemma new_plan_ok:
  "has_room (length (route ks rq lookup)) pol \<Longrightarrow> (\<And>hs. length (shuffle hs) = length hs) \<Longrightarrow>
    new_query_plan pol ks rq lookup shuffle = (pl, pol') \<Longrightarrow> plan_ok pol' pl"
  by (induction pol arbitrary: pl pol')
    (auto simp: Let_def split: prod.splits if_splits option.splits)

lemma ring_list_rotate: "ring_list hs i (length hs) = rotate (unat i) hs"
  by (intro nth_equalityI) (auto simp: ring_list_def nth_rotate add.commute)

lemma length_ring_list [simp]: "length (ring_list hs i n) = n"
  by (simp add: ring_list_def)

lemma set_ring_list: "n \<le> length hs \<Longrightarrow> set (ring_list hs i n) \<subseteq> set hs"
  by (cases "hs = []") (auto simp: ring_list_def)

lemma remote_list_length: "length (remote_list m used hs n i dcs) \<le> n + length dcs * used"
  by (induction m used hs n i dcs rule: remote_list.induct) (auto intro: order_trans)

lemma remote_list_set:
  "n \<le> length hs \<Longrightarrow> p \<in> set (remote_list m used hs n i dcs) \<Longrightarrow> p \<in> set hs \<or> (\<exists>d \<in> set dcs. p \<in> set (get_hosts d m))"
proof (induction m used hs n i dcs rule: remote_list.induct)
  case (1 m used hs n i)
  then show ?case using set_ring_list [of n hs i] by auto
next
  case (2 m used hs n i d dcs)
  then show ?case using set_ring_list [of n hs i] by auto
qed

lemma remote_list_remote:
  "p \<in> set (remote_list m used hs 0 i dcs) \<Longrightarrow> \<exists>d \<in> set dcs. p \<in> set (get_hosts d m)"
proof (cases dcs)
  case (Cons d ds)
  assume "p \<in> set (remote_list m used hs 0 i dcs)"
  then show ?thesis
    using remote_list_set [of "min (length (get_hosts d m)) used" "get_hosts d m" p m used "i + of_nat 0" ds]
    by (simp add: Cons)
qed simp

text \<open>Every chain of policies, and every plan it makes: the plan ends, and gives the hosts of the
  specification in their order.\<close>

text \<open>C6. A new query plan of any chain of load balancing policies terminates when it is walked, and
  the hosts it yields are exactly the list that the policy specifies, in that order, provided no
  \<open>size_t\<close> counter overflows during the plan.\<close>

theorem query_plan_refinement:
  assumes "has_room (length (route ks rq lookup)) pol" "\<And>hs. length (shuffle hs) = length hs"
    "new_query_plan pol ks rq lookup shuffle = (pl, pol')"
  shows "run_plan (compute_next e pol') pl = Some (plan_hosts e pol' pl)"
  by (rule plans.run_left) (rule new_plan_ok [OF assms])

text \<open>Four hosts for the examples: two in each of the datacenters \<open>a\<close> and \<open>b\<close>, and host 3 is down.\<close>

definition example_env :: environment where
  "example_env = \<lparr>env_heap = (\<lambda>p. (Host_new (AddressIn 9042 (of_nat p)) False)\<lparr>
       host_state := if p = 3 then DOWN else UP, dc := if p < 4 then ''a'' else ''b''\<rparr>),
     env_now = 0, env_text = (\<lambda>_. []), env_exclude = (\<lambda>m. m)\<rparr>"

definition example_rr :: policy where
  "example_rr = RoundRobinPolicy \<lparr>rr_hosts = [2, 3, 4, 5], rr_index = 3\<rparr>"

definition example_dc :: dc_aware where
  "example_dc = \<lparr>local_dc = ''a'', used_hosts_per_remote_dc = 1, skip_remote_dcs_for_local_cl = False,
     local_dc_live_hosts = [2, 3], per_remote_dc_live_hosts = [(''b'', [4, 5])], dc_index = 1\<rparr>"

lemma example_up: "up example_env p \<longleftrightarrow> p \<noteq> 3"
  by (simp add: example_env_def Host_is_up_def)

theorem query_plan_refinement_witness:
  "let (pl, pol') = new_query_plan (ListPolicy (Blacklist []) example_rr) [] None None id
   in run_plan (compute_next example_env pol') pl = Some [5, 2, 4]"
proof -
  let ?q = "new_query_plan (ListPolicy (Blacklist []) example_rr) [] None None id"
  have r: "rotate 3 [2, 3, 4, 5 :: host_ptr] = [5, 2, 3, 4]" by (simp add: eval_nat_numeral)
  have "run_plan (compute_next example_env (snd ?q)) (fst ?q) = Some (plan_hosts example_env (snd ?q) (fst ?q))"
    by (rule query_plan_refinement [where ks = "[]" and rq = None and lookup = None and shuffle = id and
          pol = "ListPolicy (Blacklist []) example_rr"]) (simp_all add: example_rr_def route_def)
  then show ?thesis
    using ring_list_rotate [of "[2, 3, 4, 5]" 3] by (simp add: example_rr_def example_up r)
qed

text \<open>Round robin: a plan yields every live host once, starting at the host the counter names and
  going around; the next plan starts one host further.\<close>

theorem round_robin_plan:
  assumes "unat (rr_index r) + length (rr_hosts r) < 2 ^ 64"
    "new_query_plan (RoundRobinPolicy r) ks rq lookup shuffle = (pl, pol')"
  shows "run_plan (compute_next e pol') pl = Some (filter (up e) (rotate (unat (rr_index r)) (rr_hosts r))) \<and>
    pol' = RoundRobinPolicy (r\<lparr>rr_index := rr_index r + 1\<rparr>)"
proof -
  have "run_plan (compute_next e pol') pl = Some (plan_hosts e pol' pl)"
    using assms by (intro plans.run_left) auto
  then show ?thesis using assms(2) ring_list_rotate [of "rr_hosts r" "rr_index r"] by auto
qed

theorem round_robin_plan_witness:
  "let (pl, pol') = new_query_plan example_rr [] None None id
   in run_plan (compute_next example_env pol') pl = Some [5, 2, 4]"
proof -
  let ?q = "new_query_plan example_rr [] None None id"
  have r: "rotate 3 [2, 3, 4, 5 :: host_ptr] = [5, 2, 3, 4]" by (simp add: eval_nat_numeral)
  show ?thesis
    using round_robin_plan [of "\<lparr>rr_hosts = [2, 3, 4, 5], rr_index = 3\<rparr>" "[]" None None id "fst ?q" "snd ?q" example_env]
    by (simp add: example_rr_def example_up r)
qed

text \<open>C38. Datacenter-aware: the live hosts of the local datacenter come first, going around from the
  counter; then live remote hosts, no more than \<open>used_hosts_per_remote_dc\<close> for each remote datacenter,
  and none of them when remote datacenters are to be skipped for a local consistency.\<close>

theorem dc_aware_plan:
  assumes "has_room 0 (DCAwarePolicy d)" "new_query_plan (DCAwarePolicy d) ks rq lookup shuffle = (pl, pol')"
  shows "\<exists>remote. run_plan (compute_next e pol') pl =
      Some (filter (up e) (rotate (unat (dc_index d)) (local_dc_live_hosts d)) @ remote) \<and>
    length remote \<le> length (per_remote_dc_live_hosts d) * used_hosts_per_remote_dc d \<and>
    (\<forall>p. p \<in> set remote \<longrightarrow> up e p \<and>
      (\<exists>dc'. p \<in> set (get_hosts dc' (per_remote_dc_live_hosts d)) \<and> dc' \<in> fst ` set (per_remote_dc_live_hosts d))) \<and>
    (skip_remote_dcs_for_local_cl d \<and>
      is_dc_local (case rq of Some r \<Rightarrow> request_consistency r | None \<Rightarrow> CASS_CONSISTENCY_LOCAL_ONE) \<longrightarrow> remote = [])"
proof -
  let ?cl = "case rq of Some r \<Rightarrow> request_consistency r | None \<Rightarrow> CASS_CONSISTENCY_LOCAL_ONE"
  let ?hs = "local_dc_live_hosts d" and ?m = "per_remote_dc_live_hosts d"
  let ?remote = "remote_part e d ?cl ?hs None 0 (dc_index d + of_nat (length ?hs))"
  have "run_plan (compute_next e pol') pl = Some (plan_hosts e pol' pl)"
    using assms by (intro plans.run_left) auto
  then have run: "run_plan (compute_next e pol') pl =
      Some (filter (up e) (rotate (unat (dc_index d)) ?hs) @ ?remote)"
    using assms(2) by (auto simp: ring_list_rotate remote_part_def)
  have len: "length ?remote \<le> length ?m * used_hosts_per_remote_dc d"
    using remote_list_length [of ?m "used_hosts_per_remote_dc d" ?hs 0 "dc_index d + of_nat (length ?hs)" "copy_dcs ?m"]
    by (auto simp: remote_part_def copy_dcs_def intro: order_trans [OF length_filter_le])
  show ?thesis
    by (intro exI [of _ ?remote] conjI run len)
      (auto simp: remote_part_def copy_dcs_def split: if_splits dest!: remote_list_remote)
qed

theorem dc_aware_plan_witness:
  "\<exists>remote. run_plan (compute_next example_env (DCAwarePolicy (example_dc\<lparr>dc_index := 2\<rparr>)))
      (DCAwareQueryPlan CASS_CONSISTENCY_LOCAL_ONE [2, 3] None 2 0 1) = Some ([2] @ remote) \<and> length remote \<le> 1"
proof -
  have r: "rotate 1 [2, 3 :: host_ptr] = [3, 2]" by simp
  have room: "has_room 0 (DCAwarePolicy example_dc)"
    by (simp add: example_dc_def remote_total_def copy_dcs_def get_hosts_def)
  have "new_query_plan (DCAwarePolicy example_dc) [] None None id =
      (DCAwareQueryPlan CASS_CONSISTENCY_LOCAL_ONE [2, 3] None 2 0 1, DCAwarePolicy (example_dc\<lparr>dc_index := 2\<rparr>))"
    by (simp add: example_dc_def)
  from dc_aware_plan [OF room this, of example_env] show ?thesis
    by (auto simp: example_dc_def example_up r)
qed

lemma run_new_plan:
  assumes "has_room (length (route ks rq lookup)) pol" "\<And>hs. mset (shuffle hs) = mset hs"
    "new_query_plan pol ks rq lookup shuffle = (pl, pol')"
  shows "run_plan (compute_next e pol') pl = Some (plan_hosts e pol' pl)"
proof -
  have "length (shuffle hs) = length hs" for hs by (metis assms(2) size_mset)
  then show ?thesis by (intro plans.run_left) (rule new_plan_ok [OF assms(1) _ assms(3)])
qed

lemma replica_in_child:
  assumes "inj_on (\<lambda>p. host_address (host_of e p)) (set reps \<union> set hs)" "p \<in> set hs"
    "replicas_contain e reps (host_address (host_of e p))"
  shows "p \<in> set reps"
  using assms by (auto simp: replicas_contain_def list_ex_iff inj_on_def)

definition example_request :: request where
  "example_request = \<lparr>request_consistency = CASS_CONSISTENCY_ONE, request_routable = True,
     request_keyspace = ''ks'', request_routing_key = Some [1], preferred_address = AddressIn 9042 4\<rparr>"

definition example_lookup :: "(string \<Rightarrow> byte list \<Rightarrow> host_ptr list option) option" where
  "example_lookup = Some (\<lambda>_ _. Some [4, 3, 5])"

definition example_rr' :: policy where
  "example_rr' = RoundRobinPolicy \<lparr>rr_hosts = [2, 3, 4, 5], rr_index = 4\<rparr>"

definition example_rr_plan :: plan where
  "example_rr_plan = RoundRobinQueryPlan [2, 3, 4, 5] 3 4"

lemma example_rr_new: "new_query_plan example_rr ks rq lookup shuffle = (example_rr_plan, example_rr')"
  by (simp add: example_rr_def example_rr'_def example_rr_plan_def)

lemma example_rr_room: "n < 100 \<Longrightarrow> has_room n example_rr"
  by (simp add: example_rr_def)

lemma example_rr_run: "run_plan (compute_next example_env example_rr') example_rr_plan = Some [5, 2, 4]"
proof -
  have "run_plan (compute_next example_env example_rr') example_rr_plan = Some (plan_hosts example_env example_rr' example_rr_plan)"
    by (rule plans.run_left) (simp add: example_rr'_def example_rr_plan_def)
  moreover have "plan_hosts example_env example_rr' example_rr_plan = [5, 2, 4]" by code_simp
  ultimately show ?thesis by simp
qed

lemma example_route: "route [] (Some example_request) example_lookup = [4, 3, 5]"
  by (simp add: route_def example_request_def example_lookup_def)

lemma example_distance: "distance e example_rr' p = CASS_HOST_DISTANCE_LOCAL"
  by (simp add: example_rr'_def)

lemma example_addresses: "inj_on (\<lambda>p. host_address (host_of example_env p)) {2, 3, 4, 5}"
  by (simp add: example_env_def Host_new_def)



text \<open>Latency-aware: the plan yields exactly the hosts of the child's plan, those that are fast
  enough or not measured first and the slow ones after them, both in the child's order.\<close>

theorem latency_aware_plan:
  assumes "has_room (length (route ks rq lookup)) child" "\<And>hs. mset (shuffle hs) = mset hs"
    "new_query_plan child ks rq lookup shuffle = (cpl, child')"
    "run_plan (compute_next e child') cpl = Some hs"
    "new_query_plan (LatencyAwarePolicy l child) ks rq lookup shuffle = (pl, pol')"
  shows "run_plan (compute_next e pol') pl =
    Some (filter (fast_enough e l) hs @ filter (\<lambda>p. \<not> fast_enough e l p) hs)"
proof -
  have "plan_hosts e child' cpl = hs" using run_new_plan [OF assms(1-3), of e] assms(4) by simp
  moreover have "run_plan (compute_next e pol') pl = Some (plan_hosts e pol' pl)"
    by (rule run_new_plan [OF _ assms(2,5)]) (simp add: assms(1))
  ultimately show ?thesis using assms(3,5) by auto
qed

definition example_la :: latency_aware where
  "example_la = LatencyAware_new \<lparr>setting_scale_ns = 1, retry_period_ns = 1, update_rate_ms = 1, min_measured = 1\<rparr>"

theorem latency_aware_plan_witness:
  "run_plan (compute_next example_env (LatencyAwarePolicy example_la example_rr'))
     (LatencyAwareQueryPlan example_rr_plan [] 0) = Some [5, 2, 4]"
proof -
  have "fast_enough example_env example_la p" for p
    by (simp add: fast_enough_def example_la_def LatencyAware_new_def)
  then show ?thesis
    using latency_aware_plan [of "[]" None None example_rr id example_rr_plan example_rr' example_env "[5, 2, 4]"
        example_la "LatencyAwareQueryPlan example_rr_plan [] 0" "LatencyAwarePolicy example_la example_rr'"]
    by (simp add: example_rr_new example_rr_run example_rr_room route_def)
qed

lemma targeted_filter: "distinct (map f hs) \<Longrightarrow> targeted (\<lambda>q. f q = a) hs = filter (\<lambda>q. f q \<noteq> a) hs"
proof (induction "\<lambda>q. f q = a" hs rule: targeted.induct)
  case (3 p q ps)
  then show ?case by (cases "f p = a") (auto intro!: filter_True [symmetric] simp: rev_image_eqI)
qed auto

text \<open>Host targeting: when the request names an available host, the plan yields that host first
  and then the hosts of the child's plan without it.\<close>

theorem host_targeting_plan:
  assumes "has_room (length (route ks (Some r) lookup)) child" "\<And>hs. mset (shuffle hs) = mset hs"
    "new_query_plan child ks (Some r) lookup shuffle = (cpl, child')"
    "run_plan (compute_next e child') cpl = Some hs" "distinct (map (\<lambda>q. host_address (host_of e q)) hs)"
    "Address_is_valid (preferred_address r)" "map_of available (preferred_address r) = Some p"
    "new_query_plan (HostTargetingPolicy available child) ks (Some r) lookup shuffle = (pl, pol')"
  shows "run_plan (compute_next e pol') pl =
    Some (p # filter (\<lambda>q. host_address (host_of e q) \<noteq> host_address (host_of e p)) hs)"
proof -
  have c: "plan_hosts e child' cpl = hs" using run_new_plan [OF assms(1-3), of e] assms(4) by simp
  have "run_plan (compute_next e pol') pl = Some (plan_hosts e pol' pl)"
    by (rule run_new_plan [OF _ assms(2,8)]) (simp add: assms(1))
  moreover have "plan_hosts e pol' pl = p # targeted (\<lambda>q. host_address (host_of e q) = host_address (host_of e p)) hs"
    using assms(3,6-8) c by auto
  ultimately show ?thesis
    using targeted_filter [OF assms(5), of "host_address (host_of e p)"] by simp
qed

theorem host_targeting_plan_witness:
  "run_plan (compute_next example_env (HostTargetingPolicy [(AddressIn 9042 4, 4)] example_rr'))
     (HostTargetingQueryPlan True 4 example_rr_plan) = Some [4, 5, 2]"
proof -
  let ?av = "[(AddressIn 9042 4, 4)]"
  have "run_plan (compute_next example_env (HostTargetingPolicy ?av example_rr')) (HostTargetingQueryPlan True 4 example_rr_plan) =
    Some (4 # filter (\<lambda>q. host_address (host_of example_env q) \<noteq> host_address (host_of example_env 4)) [5, 2, 4])"
    by (rule host_targeting_plan [where ks = "[]" and r = example_request and lookup = example_lookup and
          shuffle = id and child = example_rr and available = ?av and cpl = example_rr_plan and child' = example_rr'])
      (simp_all add: example_route example_rr_new example_rr_run example_rr_room,
       simp_all add: example_request_def example_env_def Host_new_def Address_is_valid_def)
  then show ?thesis by (simp add: example_env_def Host_new_def)
qed

text \<open>The window of remote hosts in a plan starts at the counter, while \<open>distance\<close> calls the first
  hosts of the vector remote: a plan can yield a host that is to be ignored and has no connections.\<close>

lemma remote_plan_ignored_host:
  "run_plan (compute_next example_env (DCAwarePolicy example_dc))
     (fst (new_query_plan (DCAwarePolicy example_dc) [] None None id)) = Some [2, 5] \<and>
   distance example_env (DCAwarePolicy example_dc) 5 = CASS_HOST_DISTANCE_IGNORE \<and>
   distance example_env (DCAwarePolicy example_dc) 4 = CASS_HOST_DISTANCE_REMOTE"
proof -
  let ?pl = "fst (new_query_plan (DCAwarePolicy example_dc) [] None None id)"
  have "plan_ok (DCAwarePolicy example_dc) ?pl"
    by (simp add: example_dc_def remote_total_def copy_dcs_def get_hosts_def)
  then have "run_plan (compute_next example_env (DCAwarePolicy example_dc)) ?pl =
      Some (plan_hosts example_env (DCAwarePolicy example_dc) ?pl)"
    by (rule plans.run_left)
  moreover have "plan_hosts example_env (DCAwarePolicy example_dc) ?pl = [2, 5]" by code_simp
  ultimately show ?thesis
    by (simp add: example_dc_def) (simp add: example_env_def DCAware_distance_def get_hosts_def Host_new_def)
qed

text \<open>The chain of a session has the host-targeting policy outermost, and \<open>register_handles\<close> does not
  reach the policies inside it: the task that measures the fastest host never starts.\<close>

lemma latency_task_not_started:
  "host_targeting c \<Longrightarrow> register_handles (load_balancing_policy c) = load_balancing_policy c"
  by (simp add: load_balancing_policy_def Let_def)

end
