(* ===== verification/HashTable.thy ===== *)
theory HashTable
  imports Utils
begin

text \<open>
  The hash table over names without regard to case: \<open>CaseInsensitiveHashTable\<close> (\<open>hash_table.hpp\<close>, \<open>hash.hpp\<close>), which finds
  the columns of a result, the fields of a user type and the named values of a query.

  The entries are in a vector, and the index and the entries point to entries. A pointer is the table, the number of the
  allocation of its vector and the position in it; following a pointer of another table or of an earlier allocation is undefined, which is
  \<open>None\<close>. A \<open>char\<close> is signed. A load factor of 0.75 makes the division exact on the numbers of columns there can be.
\<close>

subsection \<open>The hash\<close>

definition fnv1a :: "string \<Rightarrow> u64" where
  "fnv1a data =
     fold (\<lambda>c h. (h XOR scast (of_char (tolower c) :: i8)) * 0x100000001b3) data 0xcbf29ce484222325"

subsection \<open>The table\<close>

datatype entry_ptr = Entry_ptr (ptr_table: nat) (ptr_alloc: nat) (ptr_position: nat)

record 'p ht_entry =
  e_name :: string
  e_payload :: 'p
  e_index :: nat
  e_next :: "entry_ptr option"

record 'p htable =
  ht_id :: nat
  ht_alloc :: nat
  ht_capacity :: nat
  ht_index_mask :: nat
  ht_index :: "entry_ptr option list"
  ht_entries :: "'p ht_entry list"

definition HashTableEntry :: "string \<Rightarrow> 'p \<Rightarrow> 'p ht_entry" where
  "HashTableEntry name payload = \<lparr>e_name = name, e_payload = payload, e_index = 0, e_next = None\<rparr>"

definition HashTable_reset :: "nat \<Rightarrow> 'p htable \<Rightarrow> 'p htable option" where
  "HashTable_reset capacity t =
     (let capacity = (if capacity < ht_capacity t then ht_capacity t else capacity)
      in case next_pow_2 (of_nat (capacity * 4 div 3 + 1)) of
           None \<Rightarrow> None
         | Some index_capacity \<Rightarrow>
             Some (t\<lparr>ht_index := replicate (unat index_capacity) None,
                     ht_alloc := (if ht_capacity t < capacity then ht_alloc t + 1 else ht_alloc t),
                     ht_capacity := capacity, ht_index_mask := unat index_capacity - 1\<rparr>))"

definition HashTable_new :: "nat \<Rightarrow> nat \<Rightarrow> 'p htable option" where
  "HashTable_new tid capacity =
     HashTable_reset capacity
       \<lparr>ht_id = tid, ht_alloc = 0, ht_capacity = 16, ht_index_mask = 0, ht_index = [], ht_entries = []\<rparr>"

definition entry_at :: "'p htable \<Rightarrow> entry_ptr \<Rightarrow> 'p ht_entry option" where
  "entry_at t p =
     (if ptr_table p = ht_id t \<and> ptr_alloc p = ht_alloc t \<and> ptr_position p < length (ht_entries t)
      then Some (ht_entries t ! ptr_position p) else None)"

definition ptr_to :: "'p htable \<Rightarrow> nat \<Rightarrow> entry_ptr" where
  "ptr_to t i = Entry_ptr (ht_id t) (ht_alloc t) i"

text \<open>Linear probing, from bucket \<open>h\<close> on until a bucket is free or has the name, or all have been seen. The first number is the rounds that are left,
  there are as many as buckets.\<close>

datatype probed = Bucket nat | All_seen | Dangling

fun probe :: "'p htable \<Rightarrow> string \<Rightarrow> nat \<Rightarrow> nat \<Rightarrow> nat \<Rightarrow> probed" where
  "probe t name start 0 h = All_seen"
| "probe t name start (Suc n) h =
     (case ht_index t ! h of
        None \<Rightarrow> Bucket h
      | Some p \<Rightarrow>
          (case entry_at t p of
             None \<Rightarrow> Dangling
           | Some e \<Rightarrow>
               if iequals name (e_name e) then Bucket h
               else let h = (h + 1) AND ht_index_mask t
                    in if h = start then All_seen else probe t name start n h))"

definition HashTable_find :: "'p htable \<Rightarrow> string \<Rightarrow> probed" where
  "HashTable_find t name =
     (let h = unat (fnv1a name AND of_nat (ht_index_mask t)) in probe t name h (length (ht_index t)) h)"

text \<open>The positions of a list of entries. A list that is longer than the table has a cycle and is never left.\<close>

fun chain :: "'p htable \<Rightarrow> nat \<Rightarrow> entry_ptr option \<Rightarrow> nat list option" where
  "chain t n None = Some []"
| "chain t 0 (Some p) = None"
| "chain t (Suc n) (Some p) =
     (case entry_at t p of
        None \<Rightarrow> None
      | Some e \<Rightarrow> map_option ((#) (ptr_position p)) (chain t n (e_next e)))"

definition HashTable_add_index :: "nat \<Rightarrow> 'p htable \<Rightarrow> 'p htable option" where
  "HashTable_add_index i t =
     (case HashTable_find t (e_name (ht_entries t ! i)) of
        All_seen \<Rightarrow> Some t
      | Dangling \<Rightarrow> None
      | Bucket h \<Rightarrow>
          (case ht_index t ! h of
             None \<Rightarrow> Some (t\<lparr>ht_index := (ht_index t)[h := Some (ptr_to t i)]\<rparr>)
           | Some p \<Rightarrow>
               (case chain t (length (ht_entries t)) (Some p) of
                  None \<Rightarrow> None
                | Some ps \<Rightarrow>
                    Some (t\<lparr>ht_entries := (ht_entries t)[last ps := (ht_entries t ! last ps)\<lparr>e_next := Some (ptr_to t i)\<rparr>]\<rparr>))))"

fun add_indices :: "nat list \<Rightarrow> 'p htable \<Rightarrow> 'p htable option" where
  "add_indices [] t = Some t"
| "add_indices (i # is) t =
     Option.bind (HashTable_add_index i (t\<lparr>ht_entries := (ht_entries t)[i := (ht_entries t ! i)\<lparr>e_index := i\<rparr>]\<rparr>))
       (add_indices is)"

definition HashTable_reindex :: "'p htable \<Rightarrow> 'p htable option" where
  "HashTable_reindex t = add_indices [0..<length (ht_entries t)] t"

definition HashTable_resize :: "nat \<Rightarrow> 'p htable \<Rightarrow> 'p htable option" where
  "HashTable_resize new_capacity t = Option.bind (HashTable_reset new_capacity t) HashTable_reindex"

definition HashTable_add :: "'p ht_entry \<Rightarrow> 'p htable \<Rightarrow> (nat \<times> 'p htable) option" where
  "HashTable_add entry t =
     (let index = length (ht_entries t)
      in Option.bind (if index \<ge> ht_capacity t then HashTable_resize (2 * ht_capacity t) t else Some t)
           (\<lambda>t. map_option (Pair index)
              (HashTable_add_index index (t\<lparr>ht_entries := ht_entries t @ [entry\<lparr>e_index := index\<rparr>]\<rparr>))))"

fun add_entries :: "'p ht_entry list \<Rightarrow> 'p htable \<Rightarrow> 'p htable option" where
  "add_entries [] t = Some t"
| "add_entries (e # es) t = Option.bind (map_option snd (HashTable_add e t)) (add_entries es)"

definition HashTable_set_entries :: "'p ht_entry list \<Rightarrow> 'p htable \<Rightarrow> 'p htable option" where
  "HashTable_set_entries entries t =
     Option.bind (HashTable_reset (length entries) (t\<lparr>ht_entries := []\<rparr>)) (add_entries entries)"

text \<open>A name in double quotes is looked up with regard to case. \<open>substr\<close> fails on a lone quote.\<close>

definition is_quoted :: "string \<Rightarrow> bool" where
  "is_quoted name \<longleftrightarrow> name \<noteq> [] \<and> hd name = CHR 0x22 \<and> last name = CHR 0x22"

definition StringRef_substr :: "nat \<Rightarrow> nat \<Rightarrow> string \<Rightarrow> string option" where
  "StringRef_substr pos n s = (if pos < length s then Some (take (min (length s - pos) n) (drop pos s)) else None)"

definition HashTable_get_indices :: "string option \<Rightarrow> 'p htable \<Rightarrow> nat list option" where
  "HashTable_get_indices name t =
     (case name of
        None \<Rightarrow> Some []
      | Some name \<Rightarrow>
          (case (if is_quoted name then StringRef_substr 1 (length name - 2) name else Some name) of
             None \<Rightarrow> None
           | Some key \<Rightarrow>
               (case HashTable_find t key of
                  All_seen \<Rightarrow> Some []
                | Dangling \<Rightarrow> None
                | Bucket h \<Rightarrow>
                    map_option
                      (\<lambda>ps. map (\<lambda>p. e_index (ht_entries t ! p))
                         (if is_quoted name then filter (\<lambda>p. key = e_name (ht_entries t ! p)) ps else ps))
                      (chain t (length (ht_entries t)) (ht_index t ! h)))))"

subsection \<open>The invariant\<close>

definition ht_key :: "'p ht_entry \<Rightarrow> string" where
  "ht_key e = map tolower (e_name e)"

definition keys_upto :: "nat \<Rightarrow> 'p htable \<Rightarrow> string list" where
  "keys_upto m t = map ht_key (take m (ht_entries t))"

definition first_of :: "string list \<Rightarrow> nat \<Rightarrow> bool" where
  "first_of K i \<longleftrightarrow> i < length K \<and> K ! i \<notin> set (take i K)"

definition same_from :: "string list \<Rightarrow> string \<Rightarrow> nat \<Rightarrow> nat list" where
  "same_from K k i = filter (\<lambda>j. K ! j = k) [i..<length K]"

definition hash_bucket :: "'p htable \<Rightarrow> string \<Rightarrow> nat \<Rightarrow> nat" where
  "hash_bucket t k j = (unat (fnv1a k) + j) mod length (ht_index t)"

definition size_ok :: "'p htable \<Rightarrow> bool" where
  "size_ok t \<longleftrightarrow> (\<exists>b \<le> 63. length (ht_index t) = 2 ^ b) \<and> ht_index_mask t = length (ht_index t) - 1 \<and>
     ht_capacity t < length (ht_index t)"

text \<open>The first entries are in the index: a bucket points to the first entry of its name, no two to the same one, and probing for the name
  of an entry ends at the bucket of that name.\<close>

definition buckets_ok :: "nat \<Rightarrow> 'p htable \<Rightarrow> bool" where
  "buckets_ok m t \<longleftrightarrow>
     (\<forall>h < length (ht_index t). \<forall>p. ht_index t ! h = Some p \<longrightarrow> (\<exists>i. p = ptr_to t i \<and> first_of (keys_upto m t) i)) \<and>
     (\<forall>h < length (ht_index t). \<forall>h' < length (ht_index t).
        ht_index t ! h = ht_index t ! h' \<longrightarrow> ht_index t ! h \<noteq> None \<longrightarrow> h = h') \<and>
     (\<forall>i. first_of (keys_upto m t) i \<longrightarrow>
        (\<exists>k < length (ht_index t). ht_index t ! hash_bucket t (keys_upto m t ! i) k = Some (ptr_to t i) \<and>
           (\<forall>j < k. ht_index t ! hash_bucket t (keys_upto m t ! i) j \<noteq> None)))"

text \<open>An entry points to the next one of the same name.\<close>

definition next_ok :: "nat \<Rightarrow> 'p htable \<Rightarrow> bool" where
  "next_ok m t \<longleftrightarrow>
     (\<forall>i < length (ht_entries t). e_next (ht_entries t ! i) =
        (if i < m then (case same_from (keys_upto m t) (keys_upto m t ! i) (Suc i) of [] \<Rightarrow> None | j # _ \<Rightarrow> Some (ptr_to t j)) else None))"

definition indexed :: "nat \<Rightarrow> 'p htable \<Rightarrow> bool" where
  "indexed m t \<longleftrightarrow> m \<le> length (ht_entries t) \<and> length (ht_entries t) \<le> ht_capacity t \<and> size_ok t \<and> buckets_ok m t \<and> next_ok m t"

lemma length_keys_upto [simp]: "length (keys_upto m t) = min m (length (ht_entries t))"
  by (simp add: keys_upto_def min.commute)

lemma keys_upto_nth [simp]: "i < m \<Longrightarrow> i < length (ht_entries t) \<Longrightarrow> keys_upto m t ! i = ht_key (ht_entries t ! i)"
  by (simp add: keys_upto_def)

lemma iequals_key: "iequals name (e_name e) \<longleftrightarrow> ht_key e = map tolower name"
  by (auto simp: iequals_def ht_key_def)

subsection \<open>Hashing\<close>

lemma is_upper_tolower [simp]: "tolower (tolower c) = tolower c"
proof -
  have "\<not> is_upper_char (char_of (of_char c + 32 :: nat))" if "is_upper_char c"
    using that by (auto simp: is_upper_char_def)
  then show ?thesis by (simp add: tolower_def)
qed

lemma fnv1a_tolower [simp]: "fnv1a (map tolower name) = fnv1a name"
  by (simp add: fnv1a_def fold_map o_def)

lemma and_mask_mod:
  assumes "n = 2 ^ b" "b \<le> 63"
  shows "unat ((w :: u64) AND of_nat (n - 1)) = unat w mod n" "(x :: nat) AND (n - 1) = x mod n"
proof -
  have "(of_nat (n - 1) :: u64) = mask b" using assms by (simp add: mask_eq_exp_minus_1 of_nat_diff)
  moreover have "unat (w AND mask b) = take_bit b (unat w)" by (simp only: take_bit_eq_mask [symmetric] unsigned_take_bit_eq)
  ultimately show "unat (w AND of_nat (n - 1)) = unat w mod n" using assms by (simp add: take_bit_eq_mod)
  have "n - 1 = (mask b :: nat)" using assms by (simp add: mask_eq_exp_minus_1)
  then show "x AND (n - 1) = x mod n" using assms by (simp add: take_bit_eq_mod flip: take_bit_eq_mask)
qed

subsection \<open>Probing\<close>

definition stops_at :: "'p htable \<Rightarrow> string \<Rightarrow> nat \<Rightarrow> bool" where
  "stops_at t name h \<longleftrightarrow> (case ht_index t ! h of None \<Rightarrow> True
     | Some p \<Rightarrow> (\<exists>e. entry_at t p = Some e \<and> iequals name (e_name e)))"

definition passes :: "'p htable \<Rightarrow> string \<Rightarrow> nat \<Rightarrow> bool" where
  "passes t name h \<longleftrightarrow> (\<exists>p e. ht_index t ! h = Some p \<and> entry_at t p = Some e \<and> \<not> iequals name (e_name e))"

lemma mod_add_no_wrap:
  assumes "(start :: nat) < L" "0 < m" "m < L"
  shows "(start + m) mod L \<noteq> start"
  using assms by (cases "start + m < L") (simp_all add: le_mod_geq not_less)

lemma probe_stops:
  assumes size: "size_ok t" and start: "start < length (ht_index t)" and k: "k < length (ht_index t)"
    and stop: "stops_at t name ((start + k) mod length (ht_index t))"
    and pass: "\<And>j. j < k \<Longrightarrow> passes t name ((start + j) mod length (ht_index t))"
    and m: "m \<le> k" "k - m < n"
  shows "probe t name start n ((start + m) mod length (ht_index t)) = Bucket ((start + k) mod length (ht_index t))"
  using m
proof (induction n arbitrary: m)
  case (Suc n)
  let ?L = "length (ht_index t)"
  show ?case
  proof (cases "m = k")
    case True
    then show ?thesis using stop by (auto simp: stops_at_def split: option.splits)
  next
    case False
    then have m: "m < k" "Suc m \<le> k" "k - Suc m < n" using Suc.prems by auto
    obtain b where b: "?L = 2 ^ b" "b \<le> 63" and mask: "ht_index_mask t = ?L - 1" using size by (auto simp: size_ok_def)
    have h: "((start + m) mod ?L + 1) AND ht_index_mask t = (start + Suc m) mod ?L"
      unfolding mask and_mask_mod(2) [OF b] by (simp add: mod_simps)
    have "(start + Suc m) mod ?L \<noteq> start" using start m(2) k by (intro mod_add_no_wrap) auto
    moreover obtain p e where "ht_index t ! ((start + m) mod ?L) = Some p" "entry_at t p = Some e" "\<not> iequals name (e_name e)"
      using pass [OF m(1)] by (auto simp: passes_def)
    ultimately show ?thesis using Suc.IH [OF m(2,3)] h by (simp add: Let_def)
  qed
qed simp

lemma find_bucket:
  assumes size: "size_ok t" and k: "k < length (ht_index t)" and stop: "stops_at t name (hash_bucket t (map tolower name) k)"
    and pass: "\<And>j. j < k \<Longrightarrow> passes t name (hash_bucket t (map tolower name) j)"
  shows "HashTable_find t name = Bucket (hash_bucket t (map tolower name) k)"
proof -
  let ?L = "length (ht_index t)"
  obtain b where b: "?L = 2 ^ b" "b \<le> 63" and mask: "ht_index_mask t = ?L - 1" using size by (auto simp: size_ok_def)
  define start where "start = unat (fnv1a name AND of_nat (ht_index_mask t))"
  have s: "start = unat (fnv1a name) mod ?L" unfolding start_def mask by (rule and_mask_mod(1) [OF b])
  have bucket: "hash_bucket t (map tolower name) j = (start + j) mod ?L" for j
    by (simp add: hash_bucket_def s mod_add_left_eq)
  have "start < ?L" unfolding s using k by (intro mod_less_divisor) linarith
  then have "probe t name start ?L ((start + 0) mod ?L) = Bucket ((start + k) mod ?L)"
    using stop pass k unfolding bucket by (intro probe_stops [OF size]) auto
  then show ?thesis using \<open>start < ?L\<close> by (simp add: HashTable_find_def Let_def bucket flip: start_def)
qed

lemma entry_at_ptr [simp]: "i < length (ht_entries t) \<Longrightarrow> entry_at t (ptr_to t i) = Some (ht_entries t ! i)"
  by (simp add: entry_at_def ptr_to_def)

lemma ptr_to_inj [simp]: "ptr_to t i = ptr_to t j \<longleftrightarrow> i = j"
  by (simp add: ptr_to_def)

lemma some_of: "x \<noteq> None \<Longrightarrow> \<exists>y. x = Some y"
  by (cases x) auto

lemma first_of_less: "first_of K i \<Longrightarrow> i < length K"
  by (simp add: first_of_def)

lemma first_of_unique: "first_of K i \<Longrightarrow> first_of K j \<Longrightarrow> K ! i = K ! j \<Longrightarrow> i = j"
proof (rule ccontr)
  assume f: "first_of K i" "first_of K j" "K ! i = K ! j" and "i \<noteq> j"
  then consider "i < j" | "j < i" by linarith
  then show False
  proof cases
    case 1
    then have "K ! i \<in> set (take j K)" using f(2) by (auto simp: in_set_conv_nth first_of_def intro!: exI [of _ i])
    then show False using f by (simp add: first_of_def)
  next
    case 2
    then have "K ! j \<in> set (take i K)" using f(1) by (auto simp: in_set_conv_nth first_of_def intro!: exI [of _ j])
    then show False using f by (simp add: first_of_def)
  qed
qed

lemma first_of_exists:
  assumes "k \<in> set K"
  shows "\<exists>i. first_of K i \<and> K ! i = k"
proof -
  define i where "i = (LEAST i. i < length K \<and> K ! i = k)"
  have ex: "\<exists>i. i < length K \<and> K ! i = k" using assms by (auto simp: in_set_conv_nth)
  have i: "i < length K" "K ! i = k" using LeastI_ex [OF ex] by (simp_all add: i_def)
  have "K ! j \<noteq> k" if "j < i" for j
    using not_less_Least [of j "\<lambda>i. i < length K \<and> K ! i = k"] that i(1) unfolding i_def [symmetric] by auto
  then have "k \<notin> set (take i K)" using i(1) by (auto simp: in_set_conv_nth)
  then show ?thesis using i by (auto simp: first_of_def)
qed

lemma hash_bucket_less: "size_ok t \<Longrightarrow> hash_bucket t k j < length (ht_index t)"
  unfolding hash_bucket_def size_ok_def by (intro mod_less_divisor) linarith

lemma hash_bucket_onto:
  assumes "size_ok t" "h < length (ht_index t)"
  shows "\<exists>k < length (ht_index t). hash_bucket t key k = h"
proof -
  let ?L = "length (ht_index t)" and ?x = "unat (fnv1a key) mod length (ht_index t)"
  have x: "?x < ?L" using assms(2) by (intro mod_less_divisor) linarith
  have "(?x + (h + ?L - ?x) mod ?L) mod ?L = h"
    using x assms(2) by (simp add: mod_add_right_eq)
  then have "hash_bucket t key ((h + ?L - ?x) mod ?L) = h" by (simp add: hash_bucket_def mod_simps)
  moreover have "(h + ?L - ?x) mod ?L < ?L" using assms(2) by (intro mod_less_divisor) linarith
  ultimately show ?thesis by blast
qed

text \<open>There is always a free bucket.\<close>

lemma free_bucket:
  assumes "indexed m t"
  shows "\<exists>h < length (ht_index t). ht_index t ! h = None"
proof (rule ccontr)
  assume no: "\<not> ?thesis"
  let ?L = "length (ht_index t)"
  define f where "f h = ptr_position (the (ht_index t ! h))" for h
  have some: "\<exists>i. ht_index t ! h = Some (ptr_to t i) \<and> i < m" if h: "h < ?L" for h
  proof -
    have "ht_index t ! h \<noteq> None" using no h by simp
    then obtain p where "ht_index t ! h = Some p" by (cases "ht_index t ! h") auto
    then obtain i where "p = ptr_to t i" "first_of (keys_upto m t) i"
      using assms h unfolding indexed_def buckets_ok_def by blast
    then show ?thesis using \<open>ht_index t ! h = Some p\<close> first_of_less [of "keys_upto m t" i] by auto
  qed
  have "inj_on f {..<?L}"
  proof (rule inj_onI)
    fix h h' assume hh: "h \<in> {..<?L}" "h' \<in> {..<?L}" "f h = f h'"
    obtain i where i: "ht_index t ! h = Some (ptr_to t i)" using some hh(1) by blast
    obtain i' where i': "ht_index t ! h' = Some (ptr_to t i')" using some hh(2) by blast
    have "i = i'" using hh(3) i i' by (simp add: f_def ptr_to_def)
    moreover have "\<forall>h < ?L. \<forall>h' < ?L. ht_index t ! h = ht_index t ! h' \<longrightarrow> ht_index t ! h \<noteq> None \<longrightarrow> h = h'"
      using assms unfolding indexed_def buckets_ok_def by blast
    ultimately show "h = h'" using hh(1,2) i i' by simp
  qed
  moreover have "f ` {..<?L} \<subseteq> {..<m}"
  proof
    fix y assume "y \<in> f ` {..<?L}"
    then obtain h where "h < ?L" "y = f h" by auto
    moreover obtain i where "ht_index t ! h = Some (ptr_to t i)" "i < m" using some [OF \<open>h < ?L\<close>] by blast
    ultimately show "y \<in> {..<m}" by (simp add: f_def ptr_to_def)
  qed
  ultimately have "?L \<le> m" using card_inj_on_le [of f "{..<?L}" "{..<m}"] by simp
  moreover have "m \<le> ht_capacity t" "ht_capacity t < ?L" using assms by (simp_all add: indexed_def size_ok_def)
  ultimately show False by simp
qed

lemma bucket_entry:
  assumes ok: "indexed m t" and h: "h < length (ht_index t)" "ht_index t ! h = Some p"
  shows "\<exists>i < m. p = ptr_to t i \<and> first_of (keys_upto m t) i \<and> entry_at t p = Some (ht_entries t ! i) \<and>
    keys_upto m t ! i = ht_key (ht_entries t ! i)"
proof -
  obtain i where i: "p = ptr_to t i" "first_of (keys_upto m t) i" using assms unfolding indexed_def buckets_ok_def by blast
  then have "i < m" "i < length (ht_entries t)" using first_of_less [of "keys_upto m t" i] by auto
  then show ?thesis using i by auto
qed

lemma find_present:
  assumes ok: "indexed m t" and i: "first_of (keys_upto m t) i" "map tolower name = keys_upto m t ! i"
  shows "\<exists>h < length (ht_index t). HashTable_find t name = Bucket h \<and> ht_index t ! h = Some (ptr_to t i)"
proof -
  let ?key = "map tolower name"
  have size: "size_ok t" using ok by (simp add: indexed_def)
  have less: "i < m" "i < length (ht_entries t)" using first_of_less [OF i(1)] by auto
  obtain k where k: "k < length (ht_index t)" "ht_index t ! hash_bucket t ?key k = Some (ptr_to t i)"
    "\<forall>j < k. ht_index t ! hash_bucket t ?key j \<noteq> None"
    using ok i(1) unfolding indexed_def buckets_ok_def i(2) by blast
  have stop: "stops_at t name (hash_bucket t ?key k)" using k(2) less i(2) by (auto simp: stops_at_def iequals_key)
  define k' where "k' = (LEAST k. stops_at t name (hash_bucket t ?key k))"
  have k': "stops_at t name (hash_bucket t ?key k')" "k' \<le> k"
    using LeastI [of "\<lambda>k. stops_at t name (hash_bucket t ?key k)", OF stop] Least_le [of "\<lambda>k. stops_at t name (hash_bucket t ?key k)", OF stop]
    by (simp_all add: k'_def)
  have some: "ht_index t ! hash_bucket t ?key j \<noteq> None" if "j \<le> k" for j using that k(2,3) by (cases "j = k") auto
  have pass: "passes t name (hash_bucket t ?key j)" if "j < k'" for j
  proof -
    have "j \<le> k" using that k'(2) by simp
    then obtain p where p: "ht_index t ! hash_bucket t ?key j = Some p" using some_of [OF some] by blast
    have "\<not> stops_at t name (hash_bucket t ?key j)" using that not_less_Least unfolding k'_def by blast
    then show ?thesis using p bucket_entry [OF ok hash_bucket_less [OF size] p] by (auto simp: stops_at_def passes_def)
  qed
  have find: "HashTable_find t name = Bucket (hash_bucket t ?key k')"
    using find_bucket [OF size _ k'(1) pass] k'(2) k(1) by simp
  obtain p where p: "ht_index t ! hash_bucket t ?key k' = Some p" using some_of [OF some [OF k'(2)]] by blast
  obtain j where j: "p = ptr_to t j" "first_of (keys_upto m t) j" "entry_at t p = Some (ht_entries t ! j)" "keys_upto m t ! j = ht_key (ht_entries t ! j)"
    using bucket_entry [OF ok hash_bucket_less [OF size] p] by blast
  then have "keys_upto m t ! j = keys_upto m t ! i" using k'(1) p i(2) by (simp add: stops_at_def iequals_key)
  then have "j = i" using first_of_unique [OF j(2) i(1)] by simp
  then show ?thesis using find p j hash_bucket_less [OF size] by blast
qed

lemma find_absent:
  assumes ok: "indexed m t" and absent: "map tolower name \<notin> set (keys_upto m t)"
  shows "\<exists>k < length (ht_index t). HashTable_find t name = Bucket (hash_bucket t (map tolower name) k) \<and>
    ht_index t ! hash_bucket t (map tolower name) k = None \<and>
    (\<forall>j < k. ht_index t ! hash_bucket t (map tolower name) j \<noteq> None)"
proof -
  let ?key = "map tolower name"
  have size: "size_ok t" using ok by (simp add: indexed_def)
  have "\<exists>k. k < length (ht_index t) \<and> ht_index t ! hash_bucket t ?key k = None"
    using free_bucket [OF ok] hash_bucket_onto [OF size, of _ ?key] by blast
  then obtain k where k: "k < length (ht_index t)" "ht_index t ! hash_bucket t ?key k = None"
    "\<And>j. j < k \<Longrightarrow> \<not> (j < length (ht_index t) \<and> ht_index t ! hash_bucket t ?key j = None)"
    using exists_least_iff [of "\<lambda>k. k < length (ht_index t) \<and> ht_index t ! hash_bucket t ?key k = None"] by auto
  have pass: "passes t name (hash_bucket t ?key j)" if "j < k" for j
  proof -
    have "j < length (ht_index t)" using that k(1) by simp
    then have "ht_index t ! hash_bucket t ?key j \<noteq> None" using k(3) [OF that] by simp
    then obtain p where p: "ht_index t ! hash_bucket t ?key j = Some p" using some_of by blast
    obtain i where i: "first_of (keys_upto m t) i" "entry_at t p = Some (ht_entries t ! i)" "keys_upto m t ! i = ht_key (ht_entries t ! i)"
      using bucket_entry [OF ok hash_bucket_less [OF size] p] by blast
    then have "keys_upto m t ! i \<in> set (keys_upto m t)" using first_of_less by (intro nth_mem) blast
    then have "ht_key (ht_entries t ! i) \<noteq> ?key" using absent i(3) by auto
    then show ?thesis using p i by (auto simp: passes_def iequals_key)
  qed
  moreover have "stops_at t name (hash_bucket t ?key k)" using k(2) by (simp add: stops_at_def)
  ultimately have "HashTable_find t name = Bucket (hash_bucket t ?key k)" using find_bucket [OF size k(1)] by blast
  then show ?thesis using k by auto
qed

subsection \<open>Lists of entries with the same name\<close>

lemma filter_upt_Cons:
  "filter P [a..<b] = j # js \<Longrightarrow> P j \<and> a \<le> j \<and> j < b \<and> js = filter P [Suc j..<b]"
proof (induction "b - a" arbitrary: a)
  case (Suc n)
  then have "[a..<b] = a # [Suc a..<b]" by (simp add: upt_conv_Cons)
  moreover have "n = b - Suc a" using Suc(2) by simp
  ultimately show ?case using Suc(1) [of "Suc a"] Suc(2,3) by (cases "P a") auto
qed simp

lemma same_from_Cons:
  "same_from K k i = j # js \<Longrightarrow> K ! j = k \<and> i \<le> j \<and> j < length K \<and> js = same_from K k (Suc j)"
  unfolding same_from_def by (drule filter_upt_Cons) auto

lemma same_from_at: "i < length K \<Longrightarrow> same_from K (K ! i) i = i # same_from K (K ! i) (Suc i)"
  by (simp add: same_from_def upt_conv_Cons)

lemma same_from_snoc:
  assumes "i \<le> length K"
  shows "same_from (K @ [k]) x i = same_from K x i @ (if k = x then [length K] else [])"
proof -
  have "filter (\<lambda>j. (K @ [k]) ! j = x) [i..<length K] = filter (\<lambda>j. K ! j = x) [i..<length K]"
    by (rule filter_cong) (simp_all add: nth_append)
  then show ?thesis using assms by (simp add: same_from_def)
qed

lemma same_from_last:
  assumes "i < length K" "K ! i = k" "l = last (same_from K k i)"
  shows "l < length K" "K ! l = k" "same_from K k (Suc l) = []"
    "i' < length K \<Longrightarrow> K ! i' = k \<Longrightarrow> i \<le> i' \<Longrightarrow> i' \<noteq> l \<Longrightarrow> same_from K k (Suc i') \<noteq> []"
proof -
  have ne: "same_from K k i \<noteq> []" using same_from_at [OF assms(1)] assms(2) by simp
  then have l: "l \<in> set (same_from K k i)" using assms(3) by simp
  then show "l < length K" "K ! l = k" by (auto simp: same_from_def)
  have sorted: "sorted (same_from K k i)" unfolding same_from_def by (rule sorted_wrt_filter) simp
  have max: "j \<le> l" if "j \<in> set (same_from K k i)" for j
  proof -
    have "same_from K k i = butlast (same_from K k i) @ [l]" using ne assms(3) by simp
    then show ?thesis using sorted that by (metis sorted_wrt_append list.set_intros(1) Un_iff set_append empty_iff empty_set set_ConsD order_refl)
  qed
  show "same_from K k (Suc l) = []"
  proof (cases "same_from K k (Suc l)")
    case (Cons j js)
    then have "j \<in> set (same_from K k i)" using same_from_Cons [OF Cons] l by (auto simp: same_from_def)
    then show ?thesis using max same_from_Cons [OF Cons] by fastforce
  qed
  assume i': "i' < length K" "K ! i' = k" "i \<le> i'" "i' \<noteq> l"
  then have "i' \<in> set (same_from K k i)" by (simp add: same_from_def)
  then have "i' < l" using max i'(4) by fastforce
  then have "l \<in> set (same_from K k (Suc i'))" using l by (auto simp: same_from_def)
  then show "same_from K k (Suc i') \<noteq> []" by auto
qed

lemma chain_ok:
  assumes ok: "indexed m t"
  shows "i < m \<Longrightarrow> m - i \<le> n \<Longrightarrow> chain t n (Some (ptr_to t i)) = Some (same_from (keys_upto m t) (keys_upto m t ! i) i)"
proof (induction n arbitrary: i)
  case (Suc n)
  let ?K = "keys_upto m t"
  have le: "m \<le> length (ht_entries t)" using ok by (simp add: indexed_def)
  then have i: "i < length (ht_entries t)" "i < length ?K" using Suc.prems by simp_all
  have nx: "e_next (ht_entries t ! i) = (case same_from ?K (?K ! i) (Suc i) of [] \<Rightarrow> None | j # _ \<Rightarrow> Some (ptr_to t j))"
    using ok i(1) Suc.prems(1) by (simp add: indexed_def next_ok_def)
  have "chain t n (e_next (ht_entries t ! i)) = Some (same_from ?K (?K ! i) (Suc i))"
  proof (cases "same_from ?K (?K ! i) (Suc i)")
    case Nil
    then show ?thesis using nx by simp
  next
    case (Cons j js)
    note j = same_from_Cons [OF Cons]
    have "chain t n (Some (ptr_to t j)) = Some (same_from ?K (?K ! j) j)"
      using j Suc.prems by (intro Suc.IH) auto
    moreover have "same_from ?K (?K ! j) j = j # js" using same_from_at [of j ?K] j by simp
    ultimately show ?thesis using nx Cons by simp
  qed
  then show ?case using i same_from_at [OF i(2)] by (simp add: ptr_to_def [symmetric]) (simp add: ptr_to_def)
qed simp

subsection \<open>Adding an entry\<close>

lemma keys_upto_Suc:
  "m < length (ht_entries t) \<Longrightarrow> keys_upto (Suc m) t = keys_upto m t @ [ht_key (ht_entries t ! m)]"
  by (simp add: keys_upto_def take_Suc_conv_app_nth)

lemma first_of_snoc: "first_of (K @ [k]) i \<longleftrightarrow> first_of K i \<or> (i = length K \<and> k \<notin> set K)"
  by (auto simp: first_of_def nth_append less_Suc_eq)

text \<open>What adding an entry to the index leaves alone.\<close>

definition same_table :: "'p htable \<Rightarrow> 'p htable \<Rightarrow> bool" where
  "same_table t t' \<longleftrightarrow> ht_id t' = ht_id t \<and> ht_alloc t' = ht_alloc t \<and> ht_capacity t' = ht_capacity t \<and>
     length (ht_entries t') = length (ht_entries t) \<and>
     (\<forall>i < length (ht_entries t). e_name (ht_entries t' ! i) = e_name (ht_entries t ! i) \<and>
        e_payload (ht_entries t' ! i) = e_payload (ht_entries t ! i) \<and> e_index (ht_entries t' ! i) = e_index (ht_entries t ! i))"

lemma same_table_keys: "same_table t t' \<Longrightarrow> keys_upto m t' = keys_upto m t"
  by (rule nth_equalityI) (auto simp: same_table_def ht_key_def)

lemma same_table_ptr: "same_table t t' \<Longrightarrow> ptr_to t' i = ptr_to t i"
  by (simp add: same_table_def ptr_to_def)

lemma indexed_bound: "indexed m t \<Longrightarrow> m \<le> length (ht_entries t)"
  by (simp add: indexed_def)

lemma place_first_ok:
  assumes ok: "indexed m t" and m: "m < length (ht_entries t)" and absent: "ht_key (ht_entries t ! m) \<notin> set (keys_upto m t)"
    and k: "k < length (ht_index t)" "h = hash_bucket t (ht_key (ht_entries t ! m)) k" "ht_index t ! h = None"
      "\<forall>j < k. ht_index t ! hash_bucket t (ht_key (ht_entries t ! m)) j \<noteq> None"
    and t': "t' = t\<lparr>ht_index := (ht_index t)[h := Some (ptr_to t m)]\<rparr>"
  shows "buckets_ok (Suc m) t'"
proof -
  let ?K = "keys_upto m t" and ?key = "ht_key (ht_entries t ! m)"
  have same: "same_table t t'" by (simp add: same_table_def t')
  have size: "size_ok t" using ok by (simp add: indexed_def)
  have h: "h < length (ht_index t)" using hash_bucket_less [OF size] by (simp add: k(2))
  have K: "keys_upto (Suc m) t' = ?K @ [?key]" using keys_upto_Suc [OF m] same_table_keys [OF same] by simp
  have len: "length ?K = m" using m by simp
  have bucket: "hash_bucket t' x j = hash_bucket t x j" for x j by (simp add: hash_bucket_def t')
  have at: "ht_index t' ! g = (if g = h then Some (ptr_to t m) else ht_index t ! g)" if "g < length (ht_index t)" for g
    using that by (simp add: t')
  have ptr: "ptr_to t' i = ptr_to t i" for i by (rule same_table_ptr [OF same])
  have old: "ht_index t ! g \<noteq> Some (ptr_to t m)" if g: "g < length (ht_index t)" for g
    using bucket_entry [OF ok g, of "ptr_to t m"] by auto
  have L: "length (ht_index t') = length (ht_index t)" by (simp add: t')
  show ?thesis
    unfolding buckets_ok_def K ptr L bucket first_of_snoc len
  proof (intro conjI allI impI)
    fix g p assume g: "g < length (ht_index t)" "ht_index t' ! g = Some p"
    show "\<exists>i. p = ptr_to t i \<and> (first_of ?K i \<or> i = m \<and> ?key \<notin> set ?K)"
      using g at [OF g(1)] absent bucket_entry [OF ok g(1)] by (cases "g = h") auto
  next
    fix g g' assume g: "g < length (ht_index t)" "g' < length (ht_index t)" "ht_index t' ! g = ht_index t' ! g'" "ht_index t' ! g \<noteq> None"
    have inj: "ht_index t ! g = ht_index t ! g' \<Longrightarrow> ht_index t ! g \<noteq> None \<Longrightarrow> g = g'"
      using ok g(1,2) unfolding indexed_def buckets_ok_def by blast
    show "g = g'"
      using g(3,4) inj at [OF g(1)] at [OF g(2)] old [OF g(1)] old [OF g(2)] by (cases "g = h"; cases "g' = h") simp_all
  next
    fix i assume i: "first_of ?K i \<or> i = m \<and> ?key \<notin> set ?K"
    show "\<exists>k<length (ht_index t). ht_index t' ! hash_bucket t ((?K @ [?key]) ! i) k = Some (ptr_to t i) \<and>
      (\<forall>j<k. ht_index t' ! hash_bucket t ((?K @ [?key]) ! i) j \<noteq> None)"
    proof (cases "i = m")
      case True
      then have "(?K @ [?key]) ! i = ?key" using len by (metis nth_append_length)
      then show ?thesis using k at hash_bucket_less [OF size] True by (intro exI [of _ k]) simp
    next
      case False
      then have first: "first_of ?K i" using i by simp
      then have "(?K @ [?key]) ! i = ?K ! i" using first_of_less [OF first] by (simp add: nth_append)
      moreover obtain k' where k': "k' < length (ht_index t)" "ht_index t ! hash_bucket t (?K ! i) k' = Some (ptr_to t i)"
        "\<forall>j < k'. ht_index t ! hash_bucket t (?K ! i) j \<noteq> None"
        using ok first unfolding indexed_def buckets_ok_def by blast
      moreover have "hash_bucket t (?K ! i) k' \<noteq> h" using k'(2) k(3) by auto
      ultimately show ?thesis using at hash_bucket_less [OF size] by (intro exI [of _ k']) simp
    qed
  qed
qed

lemma next_old: "indexed m t \<Longrightarrow> i < length (ht_entries t) \<Longrightarrow> e_next (ht_entries t ! i) =
    (if i < m then (case same_from (keys_upto m t) (keys_upto m t ! i) (Suc i) of [] \<Rightarrow> None | j # _ \<Rightarrow> Some (ptr_to t j)) else None)"
  by (simp add: indexed_def next_ok_def)

lemma first_next_ok:
  assumes ok: "indexed m t" and m: "m < length (ht_entries t)" and absent: "ht_key (ht_entries t ! m) \<notin> set (keys_upto m t)"
    and same: "same_table t t'" "ht_entries t' = ht_entries t"
  shows "next_ok (Suc m) t'"
proof -
  let ?K = "keys_upto m t" and ?key = "ht_key (ht_entries t ! m)"
  have K: "keys_upto (Suc m) t' = ?K @ [?key]" using keys_upto_Suc [OF m] same_table_keys [OF same(1)] by simp
  have len: "length ?K = m" using m by simp
  show ?thesis
    unfolding next_ok_def K same(2) same_table_ptr [OF same(1)]
  proof (intro allI impI)
    fix i assume i: "i < length (ht_entries t)"
    have ne: "?K ! i \<noteq> ?key" if "i < m" using absent that len nth_mem [of i ?K] by metis
    show "e_next (ht_entries t ! i) = (if i < Suc m
      then (case same_from (?K @ [?key]) ((?K @ [?key]) ! i) (Suc i) of [] \<Rightarrow> None | j # _ \<Rightarrow> Some (ptr_to t j)) else None)"
    proof (cases "i < m")
      case True
      then have "same_from (?K @ [?key]) ((?K @ [?key]) ! i) (Suc i) = same_from ?K (?K ! i) (Suc i)"
        using same_from_snoc [of "Suc i" ?K ?key "?K ! i"] ne len by (simp add: nth_append)
      then show ?thesis using True next_old [OF ok i] by simp
    next
      case False
      then show ?thesis using next_old [OF ok i] len by (simp add: same_from_def)
    qed
  qed
qed

lemma add_index_absent:
  assumes ok: "indexed m t" and m: "m < length (ht_entries t)" and absent: "ht_key (ht_entries t ! m) \<notin> set (keys_upto m t)"
  shows "\<exists>t'. HashTable_add_index m t = Some t' \<and> indexed (Suc m) t' \<and> same_table t t'"
proof -
  obtain k where k: "k < length (ht_index t)"
    "HashTable_find t (e_name (ht_entries t ! m)) = Bucket (hash_bucket t (ht_key (ht_entries t ! m)) k)"
    "ht_index t ! hash_bucket t (ht_key (ht_entries t ! m)) k = None"
    "\<forall>j < k. ht_index t ! hash_bucket t (ht_key (ht_entries t ! m)) j \<noteq> None"
    using find_absent [OF ok, of "e_name (ht_entries t ! m)"] absent unfolding ht_key_def by blast
  define t' where "t' = t\<lparr>ht_index := (ht_index t)[hash_bucket t (ht_key (ht_entries t ! m)) k := Some (ptr_to t m)]\<rparr>"
  have same: "same_table t t'" by (simp add: same_table_def t'_def)
  have "buckets_ok (Suc m) t'" using place_first_ok [OF ok m absent k(1) refl k(3,4)] by (simp add: t'_def)
  moreover have "next_ok (Suc m) t'" using first_next_ok [OF ok m absent same] by (simp add: t'_def)
  moreover have "size_ok t'" using ok by (simp add: indexed_def size_ok_def t'_def)
  ultimately have "indexed (Suc m) t'" using ok m by (simp add: indexed_def t'_def)
  then show ?thesis using k same by (simp add: HashTable_add_index_def t'_def)
qed

text \<open>A later entry of a name is appended to the list of its first one.\<close>

lemma linked_next_ok:
  assumes ok: "indexed m t" and m: "m < length (ht_entries t)" and first: "first_of (keys_upto m t) i"
    and key: "ht_key (ht_entries t ! m) = keys_upto m t ! i" and l: "l = last (same_from (keys_upto m t) (keys_upto m t ! i) i)"
    and t': "t' = t\<lparr>ht_entries := (ht_entries t)[l := (ht_entries t ! l)\<lparr>e_next := Some (ptr_to t m)\<rparr>]\<rparr>"
  shows "next_ok (Suc m) t' \<and> same_table t t'"
proof -
  let ?K = "keys_upto m t" and ?key = "ht_key (ht_entries t ! m)"
  have len: "length ?K = m" using m by simp
  have i: "i < length ?K" by (rule first_of_less [OF first])
  have lm: "l < m" "l < length (ht_entries t)" using same_from_last(1) [OF i refl l] m len by simp_all
  have same: "same_table t t'"
    using lm unfolding same_table_def t' by (auto simp: nth_list_update)
  have K: "keys_upto (Suc m) t' = ?K @ [?key]" using keys_upto_Suc [OF m] same_table_keys [OF same] by simp
  have "next_ok (Suc m) t'"
    unfolding next_ok_def K same_table_ptr [OF same]
  proof (intro allI impI)
    fix a assume "a < length (ht_entries t')"
    then have a: "a < length (ht_entries t)" by (simp add: t')
    have at: "e_next (ht_entries t' ! a) = (if a = l then Some (ptr_to t m) else e_next (ht_entries t ! a))"
      using a lm by (simp add: t' nth_list_update)
    have after: "same_from (?K @ [?key]) (?K ! a) (Suc a) = same_from ?K (?K ! a) (Suc a) @ (if ?key = ?K ! a then [m] else [])" if "a < m"
      using same_from_snoc [of "Suc a" ?K ?key "?K ! a"] that len by simp
    show "e_next (ht_entries t' ! a) = (if a < Suc m
      then (case same_from (?K @ [?key]) ((?K @ [?key]) ! a) (Suc a) of [] \<Rightarrow> None | j # _ \<Rightarrow> Some (ptr_to t j)) else None)"
    proof (cases "a < m")
      case False
      then show ?thesis using at lm next_old [OF ok a] len by (simp add: same_from_def)
    next
      case True
      then have nth: "(?K @ [?key]) ! a = ?K ! a" using len by (simp add: nth_append)
      show ?thesis
      proof (cases "?K ! a = ?key")
        case same_key: True
        have lower: "i \<le> a"
        proof (rule ccontr)
          assume "\<not> i \<le> a"
          then have "?K ! a \<in> set (take i ?K)" using True len i by (auto simp: in_set_conv_nth intro!: exI [of _ a])
          then show False using first same_key key by (simp add: first_of_def)
        qed
        show ?thesis
        proof (cases "a = l")
          case True
          then have "same_from ?K (?K ! a) (Suc a) = []" using same_from_last(3) [OF i refl l] same_key key by simp
          then show ?thesis using at True after [OF \<open>a < m\<close>] nth same_key lm(1) by simp
        next
          case False
          then have "same_from ?K (?K ! a) (Suc a) \<noteq> []"
            using same_from_last(4) [OF i refl l, of a] True len same_key key lower by simp
          then obtain j js where "same_from ?K (?K ! a) (Suc a) = j # js" by (cases "same_from ?K (?K ! a) (Suc a)") auto
          then show ?thesis using at False after [OF True] nth next_old [OF ok a] True by simp
        qed
      next
        case False
        then have "a \<noteq> l" using same_from_last(2) [OF i refl l] key by auto
        then show ?thesis using at after [OF True] nth next_old [OF ok a] True False by simp
      qed
    qed
  qed
  then show ?thesis using same by simp
qed

lemma add_index_present:
  assumes ok: "indexed m t" and m: "m < length (ht_entries t)" and first: "first_of (keys_upto m t) i"
    and key: "ht_key (ht_entries t ! m) = keys_upto m t ! i"
  shows "\<exists>t'. HashTable_add_index m t = Some t' \<and> indexed (Suc m) t' \<and> same_table t t'"
proof -
  let ?K = "keys_upto m t" and ?key = "ht_key (ht_entries t ! m)"
  define l where "l = last (same_from ?K (?K ! i) i)"
  define t' where "t' = t\<lparr>ht_entries := (ht_entries t)[l := (ht_entries t ! l)\<lparr>e_next := Some (ptr_to t m)\<rparr>]\<rparr>"
  note linked = linked_next_ok [OF ok m first key l_def t'_def]
  have im: "i < m" using first_of_less [OF first] by simp
  obtain h where h: "h < length (ht_index t)" "HashTable_find t (e_name (ht_entries t ! m)) = Bucket h"
    "ht_index t ! h = Some (ptr_to t i)"
    using find_present [OF ok first] key unfolding ht_key_def by blast
  have "chain t (length (ht_entries t)) (Some (ptr_to t i)) = Some (same_from ?K (?K ! i) i)"
    using m im by (intro chain_ok [OF ok]) simp_all
  then have add: "HashTable_add_index m t = Some t'"
    using h by (simp add: HashTable_add_index_def t'_def l_def)
  have K: "keys_upto (Suc m) t' = ?K @ [?key]" using keys_upto_Suc [OF m] linked same_table_keys [of t t'] by simp
  have "?key \<in> set ?K" using key first_of_less [OF first] nth_mem by metis
  then have "first_of (keys_upto (Suc m) t') a \<longleftrightarrow> first_of ?K a" for a by (simp add: K first_of_snoc)
  moreover have "keys_upto (Suc m) t' ! a = ?K ! a" if "first_of ?K a" for a
    unfolding K using first_of_less [OF that] by (simp add: nth_append)
  moreover have "ptr_to t' a = ptr_to t a" for a using linked same_table_ptr by blast
  moreover have "ht_index t' = ht_index t" "hash_bucket t' x j = hash_bucket t x j" for x j
    by (simp_all add: t'_def hash_bucket_def)
  moreover have "buckets_ok m t" using ok by (simp add: indexed_def)
  ultimately have "buckets_ok (Suc m) t'" unfolding buckets_ok_def by simp
  moreover have "size_ok t'" using ok by (simp add: indexed_def size_ok_def t'_def)
  ultimately have "indexed (Suc m) t'" using ok m linked by (simp add: indexed_def same_table_def)
  then show ?thesis using add linked by simp
qed

lemma add_index_ok:
  assumes "indexed m t" "m < length (ht_entries t)"
  shows "\<exists>t'. HashTable_add_index m t = Some t' \<and> indexed (Suc m) t' \<and> same_table t t'"
proof (cases "ht_key (ht_entries t ! m) \<in> set (keys_upto m t)")
  case True
  then obtain i where "first_of (keys_upto m t) i" "keys_upto m t ! i = ht_key (ht_entries t ! m)"
    using first_of_exists by blast
  then show ?thesis using add_index_present [OF assms] by simp
qed (rule add_index_absent [OF assms])

definition numbered :: "'p htable \<Rightarrow> bool" where
  "numbered t \<longleftrightarrow> (\<forall>i < length (ht_entries t). e_index (ht_entries t ! i) = i)"

text \<open>A table is sound when all of its entries are in the index.\<close>

definition htable_ok :: "'p htable \<Rightarrow> bool" where
  "htable_ok t \<longleftrightarrow> indexed (length (ht_entries t)) t \<and> numbered t"

definition ht_names :: "'p htable \<Rightarrow> string list" where
  "ht_names t = map e_name (ht_entries t)"

lemma same_table_names: "same_table t t' \<Longrightarrow> ht_names t' = ht_names t"
  by (rule nth_equalityI) (auto simp: same_table_def ht_names_def)

lemma same_table_numbered: "same_table t t' \<Longrightarrow> numbered t' = numbered t"
  by (auto simp: same_table_def numbered_def)

lemma indexed_append:
  assumes ok: "htable_ok t" and room: "length (ht_entries t) < ht_capacity t" and e: "e_next e = None"
  shows "indexed (length (ht_entries t)) (t\<lparr>ht_entries := ht_entries t @ [e]\<rparr>)"
proof -
  let ?t = "t\<lparr>ht_entries := ht_entries t @ [e]\<rparr>" and ?n = "length (ht_entries t)"
  have ix: "indexed ?n t" using ok by (simp add: htable_ok_def)
  have K: "keys_upto ?n ?t = keys_upto ?n t" by (simp add: keys_upto_def)
  have frame: "ptr_to ?t i = ptr_to t i" "hash_bucket ?t x j = hash_bucket t x j" for i x j by (simp_all add: ptr_to_def hash_bucket_def)
  have "buckets_ok ?n ?t" using ix unfolding indexed_def buckets_ok_def K frame by simp
  moreover have "next_ok ?n ?t" unfolding next_ok_def K frame
    using next_old [OF ix] e by (auto simp: nth_append less_Suc_eq)
  ultimately show ?thesis using ix room by (simp add: indexed_def size_ok_def)
qed

lemma add_within_capacity:
  assumes ok: "htable_ok t" and room: "length (ht_entries t) < ht_capacity t" and e: "e_next e = None"
  shows "\<exists>t'. HashTable_add e t = Some (length (ht_entries t), t') \<and> htable_ok t' \<and> ht_names t' = ht_names t @ [e_name e] \<and>
    ht_capacity t' = ht_capacity t"
proof -
  let ?n = "length (ht_entries t)"
  let ?t = "t\<lparr>ht_entries := ht_entries t @ [e\<lparr>e_index := ?n\<rparr>]\<rparr>"
  have "indexed ?n ?t" using indexed_append [OF ok room] e by simp
  then obtain t' where t': "HashTable_add_index ?n ?t = Some t'" "indexed (Suc ?n) t'" "same_table ?t t'"
    using add_index_ok [of ?n ?t] by auto
  have "numbered ?t" using ok by (auto simp: htable_ok_def numbered_def nth_append less_Suc_eq)
  then have "htable_ok t'" using t' same_table_numbered [OF t'(3)] by (simp add: htable_ok_def same_table_def)
  moreover have "ht_names t' = ht_names t @ [e_name e]" using same_table_names [OF t'(3)] by (simp add: ht_names_def)
  moreover have "ht_capacity t' = ht_capacity t" using t'(3) by (simp add: same_table_def)
  ultimately show ?thesis using t'(1) room by (simp add: HashTable_add_def Let_def)
qed

subsection \<open>Looking up a name\<close>

text \<open>The specification: all entries with the name, in the order in which they were added.\<close>

definition matching :: "string list \<Rightarrow> string \<Rightarrow> nat list" where
  "matching names name =
     (if is_quoted name then filter (\<lambda>i. names ! i = butlast (tl name)) [0..<length names]
      else filter (\<lambda>i. iequals name (names ! i)) [0..<length names])"

lemma same_from_first:
  assumes "first_of K i"
  shows "same_from K (K ! i) i = filter (\<lambda>j. K ! j = K ! i) [0..<length K]"
proof -
  have i: "i < length K" by (rule first_of_less [OF assms])
  have "K ! j \<noteq> K ! i" if "j < i" for j
  proof
    assume "K ! j = K ! i"
    then have "K ! i \<in> set (take i K)" using that i by (auto simp: in_set_conv_nth intro!: exI [of _ j])
    then show False using assms by (simp add: first_of_def)
  qed
  then have "filter (\<lambda>j. K ! j = K ! i) [0..<i] = []" by (simp add: filter_empty_conv)
  moreover have "[0..<length K] = [0..<i] @ [i..<length K]" using i upt_add_eq_append [of 0 i "length K - i"] by simp
  ultimately show ?thesis by (simp add: same_from_def)
qed

lemma all_keys: "keys_upto (length (ht_entries t)) t = map (map tolower) (ht_names t)"
  by (simp add: keys_upto_def ht_names_def ht_key_def)

lemma find_all:
  assumes ok: "htable_ok t"
  shows "\<exists>h. HashTable_find t key = Bucket h \<and>
    chain t (length (ht_entries t)) (ht_index t ! h) = Some (filter (\<lambda>i. iequals key (ht_names t ! i)) [0..<length (ht_names t)])"
proof -
  let ?n = "length (ht_entries t)" and ?K = "keys_upto (length (ht_entries t)) t"
  have ix: "indexed ?n t" using ok by (simp add: htable_ok_def)
  have len: "length ?K = ?n" "length (ht_names t) = ?n" by (simp_all add: ht_names_def)
  have eq: "filter (\<lambda>i. iequals key (ht_names t ! i)) [0..<?n] = filter (\<lambda>i. ?K ! i = map tolower key) [0..<?n]"
    unfolding all_keys by (rule filter_cong) (auto simp: iequals_def len(2))
  show ?thesis
  proof (cases "map tolower key \<in> set ?K")
    case True
    then obtain i where i: "first_of ?K i" "?K ! i = map tolower key" using first_of_exists by blast
    obtain h where h: "HashTable_find t key = Bucket h" "ht_index t ! h = Some (ptr_to t i)"
      using find_present [OF ix i(1)] i(2) by auto
    have "chain t ?n (Some (ptr_to t i)) = Some (same_from ?K (?K ! i) i)"
      using first_of_less [OF i(1)] len by (intro chain_ok [OF ix]) simp_all
    moreover have "same_from ?K (?K ! i) i = filter (\<lambda>j. ?K ! j = map tolower key) [0..<?n]"
      using same_from_first [OF i(1)] i(2) len(1) by simp
    ultimately show ?thesis using h eq len(2) by (intro exI [of _ h]) simp
  next
    case False
    then obtain h where h: "HashTable_find t key = Bucket h" "ht_index t ! h = None" using find_absent [OF ix] by blast
    have "filter (\<lambda>i. ?K ! i = map tolower key) [0..<?n] = []"
      using False len(1) by (auto simp: filter_empty_conv in_set_conv_nth)
    then show ?thesis using h eq len by (intro exI [of _ h]) simp
  qed
qed

lemma get_indices_ok:
  assumes ok: "htable_ok t" and name: "name \<noteq> [CHR 0x22]"
  shows "HashTable_get_indices (Some name) t = Some (matching (ht_names t) name)"
proof -
  have index: "map (\<lambda>p. e_index (ht_entries t ! p)) ps = ps" if "\<forall>p \<in> set ps. p < length (ht_entries t)" for ps
    using ok that by (auto simp: htable_ok_def numbered_def intro!: map_idI)
  have nth: "ht_names t ! i = e_name (ht_entries t ! i)" if "i < length (ht_entries t)" for i using that by (simp add: ht_names_def)
  have len: "length (ht_names t) = length (ht_entries t)" by (simp add: ht_names_def)
  show ?thesis
  proof (cases "is_quoted name")
    case True
    then obtain r where r: "name = CHR 0x22 # r" by (cases name) (auto simp: is_quoted_def)
    then obtain c r' where "r = c # r'" using name by (cases r) auto
    with r have key: "StringRef_substr 1 (length name - 2) name = Some (butlast (tl name))"
      by (simp add: StringRef_substr_def butlast_conv_take min_def)
    obtain h where h: "HashTable_find t (butlast (tl name)) = Bucket h"
      "chain t (length (ht_entries t)) (ht_index t ! h) =
         Some (filter (\<lambda>i. iequals (butlast (tl name)) (ht_names t ! i)) [0..<length (ht_names t)])"
      using find_all [OF ok] by blast
    have "filter (\<lambda>p. butlast (tl name) = e_name (ht_entries t ! p))
        (filter (\<lambda>i. iequals (butlast (tl name)) (ht_names t ! i)) [0..<length (ht_names t)]) = matching (ht_names t) name"
      using True len by (auto simp: matching_def nth iequals_def intro!: filter_cong)
    moreover have "\<forall>p \<in> set (matching (ht_names t) name). p < length (ht_entries t)" by (auto simp: matching_def len)
    ultimately show ?thesis using True key h index by (simp add: HashTable_get_indices_def)
  next
    case False
    obtain h where h: "HashTable_find t name = Bucket h"
      "chain t (length (ht_entries t)) (ht_index t ! h) =
         Some (filter (\<lambda>i. iequals name (ht_names t ! i)) [0..<length (ht_names t)])"
      using find_all [OF ok] by blast
    have "\<forall>p \<in> set (matching (ht_names t) name). p < length (ht_entries t)" by (auto simp: matching_def len)
    then show ?thesis using False h index by (simp add: HashTable_get_indices_def matching_def)
  qed
qed

subsection \<open>Making and growing a table\<close>

lemma reset_ok:
  assumes "max capacity (ht_capacity t) < 2 ^ 60"
  shows "\<exists>t'. HashTable_reset capacity t = Some t' \<and> size_ok t' \<and> ht_entries t' = ht_entries t \<and>
    ht_capacity t' = max capacity (ht_capacity t) \<and> (\<forall>h < length (ht_index t'). ht_index t' ! h = None)"
proof -
  let ?c = "max capacity (ht_capacity t)"
  have c: "(if capacity < ht_capacity t then ht_capacity t else capacity) = ?c" by simp
  have "x * 4 div 3 + 1 < (2 :: nat) ^ 62" if "x < 2 ^ 60" for x using that by simp
  from this [OF assms] have small: "?c * 4 div 3 + 1 < 2 ^ 62" .
  then have num: "unat (of_nat (?c * 4 div 3 + 1) :: size_t) = ?c * 4 div 3 + 1" by (intro of_nat_word_nat) simp
  then have "unat (of_nat (?c * 4 div 3 + 1) :: size_t) \<le> 2 ^ 63" using small by simp
  then obtain k where k: "k \<le> 63" "next_pow_2 (of_nat (?c * 4 div 3 + 1)) = Some (2 ^ k)" "?c * 4 div 3 + 1 \<le> 2 ^ k"
    using next_pow_2_Some [of "of_nat (?c * 4 div 3 + 1)"] num by (auto simp: not_less)
  have "?c < 2 ^ k" using k(3) by linarith
  then show ?thesis
    using k by (auto simp: HashTable_reset_def Let_def c size_ok_def max_def)
qed

definition unlinked :: "'p htable \<Rightarrow> bool" where
  "unlinked t \<longleftrightarrow> (\<forall>i < length (ht_entries t). e_next (ht_entries t ! i) = None)"

lemma indexed_empty:
  assumes "size_ok t" "\<forall>h < length (ht_index t). ht_index t ! h = None" "length (ht_entries t) \<le> ht_capacity t" "unlinked t"
  shows "indexed 0 t"
  using assms by (simp add: indexed_def buckets_ok_def next_ok_def unlinked_def first_of_def)

lemma new_ok:
  assumes "capacity < 2 ^ 60"
  shows "\<exists>t :: 'p htable. HashTable_new tid capacity = Some t \<and> htable_ok t \<and> ht_names t = [] \<and> ht_capacity t = max capacity 16"
proof -
  let ?t = "\<lparr>ht_id = tid, ht_alloc = 0, ht_capacity = 16, ht_index_mask = 0, ht_index = [], ht_entries = []\<rparr> :: 'p htable"
  have "max capacity (ht_capacity ?t) < 2 ^ 60" using assms by simp
  then obtain t where t: "HashTable_reset capacity ?t = Some t" "size_ok t" "ht_entries t = []" "ht_capacity t = max capacity 16"
    "\<forall>h < length (ht_index t). ht_index t ! h = None"
    using reset_ok [of capacity ?t] by auto
  then have "indexed 0 t" by (intro indexed_empty) (simp_all add: unlinked_def)
  then show ?thesis using t by (intro exI [of _ t]) (simp add: HashTable_new_def htable_ok_def numbered_def ht_names_def)
qed

lemma renumber_indexed:
  assumes "indexed m t" "i < length (ht_entries t)"
  shows "indexed m (t\<lparr>ht_entries := (ht_entries t)[i := (ht_entries t ! i)\<lparr>e_index := i\<rparr>]\<rparr>)"
proof -
  let ?t = "t\<lparr>ht_entries := (ht_entries t)[i := (ht_entries t ! i)\<lparr>e_index := i\<rparr>]\<rparr>"
  have K: "keys_upto m ?t = keys_upto m t"
    using assms(2) by - (rule nth_equalityI, auto simp: nth_list_update ht_key_def)
  have frame: "ptr_to ?t j = ptr_to t j" "hash_bucket ?t x j = hash_bucket t x j" for j x by (simp_all add: ptr_to_def hash_bucket_def)
  have "buckets_ok m ?t" using assms unfolding indexed_def buckets_ok_def K frame by simp
  moreover have "next_ok m ?t" unfolding next_ok_def K frame using next_old [OF assms(1)] assms(2) by (simp add: nth_list_update)
  ultimately show ?thesis using assms by (simp add: indexed_def size_ok_def)
qed

lemma add_indices_ok:
  assumes "indexed m t" "n = length (ht_entries t)" "\<forall>i < m. e_index (ht_entries t ! i) = i"
  shows "\<exists>t'. add_indices [m..<n] t = Some t' \<and> htable_ok t' \<and> ht_names t' = ht_names t \<and> ht_capacity t' = ht_capacity t"
  using assms
proof (induction "n - m" arbitrary: m t)
  case 0
  then show ?case by (auto simp: htable_ok_def numbered_def indexed_def)
next
  case (Suc d)
  let ?t = "t\<lparr>ht_entries := (ht_entries t)[m := (ht_entries t ! m)\<lparr>e_index := m\<rparr>]\<rparr>"
  have m: "m < length (ht_entries t)" using Suc(2,4) by simp
  have "indexed m ?t" by (rule renumber_indexed [OF Suc(3) m])
  then obtain u where u: "HashTable_add_index m ?t = Some u" "indexed (Suc m) u" "same_table ?t u"
    using add_index_ok [of m ?t] m by auto
  have len: "length (ht_entries u) = n" using u(3) Suc(4) by (simp add: same_table_def)
  have "\<forall>i < Suc m. e_index (ht_entries u ! i) = i"
    using u(3) Suc(5) m by (auto simp: same_table_def nth_list_update less_Suc_eq)
  moreover have "d = n - Suc m" using Suc(2) by simp
  ultimately obtain t' where "add_indices [Suc m..<n] u = Some t'" "htable_ok t'" "ht_names t' = ht_names u" "ht_capacity t' = ht_capacity u"
    using Suc(1) [OF _ u(2)] len by blast
  moreover have "ht_names u = ht_names t"
    using same_table_names [OF u(3)] m by (simp add: ht_names_def map_update list_update_same_conv)
  moreover have "ht_capacity u = ht_capacity t" using u(3) by (simp add: same_table_def)
  moreover have "[m..<n] = m # [Suc m..<n]" using Suc(2) by (simp add: upt_conv_Cons)
  ultimately show ?case using u(1) by auto
qed

lemma distinct_unlinked:
  assumes "htable_ok t" "distinct (map (map tolower) (ht_names t))"
  shows "unlinked t"
proof -
  let ?n = "length (ht_entries t)" and ?K = "keys_upto (length (ht_entries t)) t"
  have "same_from ?K (?K ! i) (Suc i) = []" if "i < ?n" for i
  proof (cases "same_from ?K (?K ! i) (Suc i)")
    case (Cons j js)
    then have "?K ! j = ?K ! i" "i < j" "j < ?n" using same_from_Cons [OF Cons] by auto
    moreover have "distinct ?K" using assms(2) by (simp add: all_keys)
    ultimately show ?thesis using that nth_eq_iff_index_eq [of ?K j i] by simp
  qed
  then show ?thesis
    using next_old [of ?n t] assms(1) by (simp add: unlinked_def htable_ok_def)
qed

lemma resize_ok:
  assumes "htable_ok t" "distinct (map (map tolower) (ht_names t))" "capacity < 2 ^ 60" "ht_capacity t \<le> capacity"
  shows "\<exists>t'. HashTable_resize capacity t = Some t' \<and> htable_ok t' \<and> ht_names t' = ht_names t \<and> ht_capacity t' = capacity"
proof -
  obtain u where u: "HashTable_reset capacity t = Some u" "size_ok u" "ht_entries u = ht_entries t" "ht_capacity u = capacity"
    "\<forall>h < length (ht_index u). ht_index u ! h = None"
    using reset_ok [of capacity t] assms(3,4) by (auto simp: max_def)
  have "length (ht_entries t) \<le> ht_capacity t" using assms(1) by (simp add: htable_ok_def indexed_def)
  then have "indexed 0 u"
    using u assms(4) distinct_unlinked [OF assms(1,2)] by (intro indexed_empty) (simp_all add: unlinked_def)
  then show ?thesis
    using add_indices_ok [of 0 u "length (ht_entries u)"] u by (simp add: HashTable_resize_def HashTable_reindex_def ht_names_def)
qed

lemma add_ok:
  assumes ok: "htable_ok t" and e: "e_next e = None" and cap: "16 \<le> ht_capacity t" "ht_capacity t < 2 ^ 59"
    and grow: "length (ht_entries t) < ht_capacity t \<or> distinct (map (map tolower) (ht_names t))"
  shows "\<exists>t'. HashTable_add e t = Some (length (ht_entries t), t') \<and> htable_ok t' \<and> ht_names t' = ht_names t @ [e_name e] \<and>
    ht_capacity t' = (if length (ht_entries t) < ht_capacity t then ht_capacity t else 2 * ht_capacity t)"
proof (cases "length (ht_entries t) < ht_capacity t")
  case True
  then show ?thesis using add_within_capacity [OF ok True e] by auto
next
  case False
  then obtain u where u: "HashTable_resize (2 * ht_capacity t) t = Some u" "htable_ok u" "ht_names u = ht_names t" "ht_capacity u = 2 * ht_capacity t"
    using resize_ok [OF ok, of "2 * ht_capacity t"] grow cap by auto
  have "length (ht_entries t) \<le> ht_capacity t" using ok by (simp add: htable_ok_def indexed_def)
  moreover have len: "length (ht_entries u) = length (ht_entries t)" using arg_cong [OF u(3), of length] by (simp add: ht_names_def)
  ultimately have room: "length (ht_entries u) < ht_capacity u" using u(4) cap(1) by simp
  then have "HashTable_add e t = HashTable_add e u" using u(1) False len by (simp add: HashTable_add_def Let_def)
  then show ?thesis using add_within_capacity [OF u(2) room e] u(3,4) len False by simp
qed

lemma add_entries_ok:
  assumes "htable_ok t" "16 \<le> ht_capacity t" "ht_capacity t < 2 ^ 59" "length (ht_names t @ map e_name es) < 2 ^ 58"
    and "\<forall>e \<in> set es. e_next e = None"
    and "length (ht_names t @ map e_name es) \<le> ht_capacity t \<or> distinct (map (map tolower) (ht_names t @ map e_name es))"
  shows "\<exists>t'. add_entries es t = Some t' \<and> htable_ok t' \<and> ht_names t' = ht_names t @ map e_name es"
  using assms
proof (induction es arbitrary: t)
  case (Cons e es)
  have len: "length (ht_entries t) = length (ht_names t)" by (simp add: ht_names_def)
  have grow: "length (ht_entries t) < ht_capacity t \<or> distinct (map (map tolower) (ht_names t))" using Cons.prems(6) len by auto
  obtain u where u: "HashTable_add e t = Some (length (ht_entries t), u)" "htable_ok u" "ht_names u = ht_names t @ [e_name e]"
    "ht_capacity u = (if length (ht_entries t) < ht_capacity t then ht_capacity t else 2 * ht_capacity t)"
    using add_ok [OF Cons.prems(1) _ Cons.prems(2,3) grow] Cons.prems(5) by auto
  have le: "length (ht_entries t) \<le> ht_capacity t" using Cons.prems(1) by (simp add: htable_ok_def indexed_def)
  have "\<exists>t'. add_entries es u = Some t' \<and> htable_ok t' \<and> ht_names t' = ht_names u @ map e_name es"
  proof (rule Cons.IH [OF u(2)])
    show "16 \<le> ht_capacity u" using u(4) Cons.prems(2) by simp
    show "ht_capacity u < 2 ^ 59" using u(4) Cons.prems(3,4) le len by simp
    show "length (ht_names u @ map e_name es) \<le> ht_capacity u \<or> distinct (map (map tolower) (ht_names u @ map e_name es))"
      using Cons.prems(6) u(3,4) len by auto
  qed (use Cons.prems u in simp_all)
  then show ?case using u(1,3) by auto
qed simp



subsection \<open>Where the table differs from what is meant\<close>

text \<open>When a table outgrows its capacity all entries are added to the index again, but they keep the pointers to the next entry of their name, which point into the
  vector that has been freed: with two entries of one name, the next time one is added the old pointer is followed.\<close>

lemma growing_follows_freed_entries:
  "Option.bind (HashTable_new 1 16)
     (add_entries (map (\<lambda>c. HashTableEntry [c] ()) (''aA'' @ ''bcdefghijklmnop''))) = None"
  by code_simp

text \<open>The copy of a table, as \<open>UserType::copy\<close> makes it, starts with the pointers of the original.\<close>

lemma copy_follows_entries_of_original:
  "Option.bind (Option.bind (HashTable_new 1 2) (add_entries [HashTableEntry ''a'' (), HashTableEntry ''A'' ()]))
     (\<lambda>t. Option.bind (HashTable_new 2 2) (HashTable_set_entries (ht_entries t))) = None"
  by code_simp

end
