(* ===== verification/Collections.thy ===== *)
theory Collections
  imports DataType HashTable
begin

text \<open>
  Composite values that are bound to statements: \<open>Collection\<close> (\<open>collection.hpp\<close>, \<open>collection.cpp\<close>), \<open>Tuple\<close> (\<open>tuple.hpp\<close>,
  \<open>tuple.cpp\<close>), \<open>AbstractData\<close> (\<open>abstract_data.hpp\<close>, \<open>abstract_data.cpp\<close>) and \<open>UserTypeValue\<close> (\<open>user_type_value.hpp\<close>), and which
  values fit a data type (\<open>IsValidDataType\<close>).

  An element of a statement or a user type keeps a pointer to its collection, which is encoded only when it is sent; a pointer
  is a number and \<open>heap\<close> is what it points to. Items of collections and tuples are encoded when they are added. A call through a null
  pointer, an index outside a vector and a write outside a buffer are undefined, which is \<open>None\<close>.
\<close>

subsection \<open>Values\<close>

datatype cass_error =
  CASS_OK | CASS_ERROR_LIB_INDEX_OUT_OF_BOUNDS | CASS_ERROR_LIB_INVALID_VALUE_TYPE | CASS_ERROR_LIB_INVALID_ITEM_COUNT
| CASS_ERROR_LIB_NAME_DOES_NOT_EXIST | CASS_ERROR_LIB_BAD_PARAMS | CASS_ERROR_LIB_NULL_VALUE | CASS_ERROR_LIB_NOT_ENOUGH_DATA
| CASS_ERROR_LIB_INVALID_DATA | CASS_ERROR_LIB_PARAMETER_UNSET | CASS_ERROR_LIB_NO_PAGING_STATE

record collection =
  cl_type :: data_type
  cl_items :: "buffer list"

record tuple_value =
  tv_type :: data_type
  tv_items :: "buffer list"

datatype element = Unset_element | Null_element buffer | Buffer_element buffer | Collection_element nat

record user_value =
  uv_type :: data_type
  uv_elements :: "element list"

datatype bound_value =
  Bound_null | Bound_value cass_value | Bound_custom string "byte list" | Bound_collection nat | Bound_tuple tuple_value
| Bound_user_type user_value

definition is_int64_type :: "value_type \<Rightarrow> bool" where
  "is_int64_type t \<longleftrightarrow> t = 0x02 \<or> t = 0x05 \<or> t = 0x0B \<or> t = 0x12"

definition is_string_type :: "value_type \<Rightarrow> bool" where
  "is_string_type t \<longleftrightarrow> t = 0x01 \<or> t = CASS_VALUE_TYPE_TEXT \<or> t = CASS_VALUE_TYPE_VARCHAR"

definition is_bytes_type :: "value_type \<Rightarrow> bool" where
  "is_bytes_type t \<longleftrightarrow> t = 0x03 \<or> t = 0x0E \<or> t = CASS_VALUE_TYPE_CUSTOM"

definition is_uuid_type :: "value_type \<Rightarrow> bool" where
  "is_uuid_type t \<longleftrightarrow> t = 0x0F \<or> t = 0x0C"

text \<open>Which type of the protocol a value of the interface has. Custom values carry their class name and are not bound through \<open>CCustom\<close>.\<close>

fun value_has_type :: "cass_value \<Rightarrow> value_type \<Rightarrow> bool option" where
  "value_has_type (CInt8 _) t = Some (t = 0x14)"
| "value_has_type (CInt16 _) t = Some (t = 0x13)"
| "value_has_type (CInt32 _) t = Some (t = 0x09)"
| "value_has_type (CUInt32 _) t = Some (t = 0x11)"
| "value_has_type (CInt64 _) t = Some (is_int64_type t)"
| "value_has_type (CFloat _) t = Some (t = 0x08)"
| "value_has_type (CDouble _) t = Some (t = 0x07)"
| "value_has_type (CBool _) t = Some (t = 0x04)"
| "value_has_type (CString _) t = Some (is_string_type t \<or> is_bytes_type t)"
| "value_has_type (CBytes _) t = Some (is_bytes_type t)"
| "value_has_type (CCustom _) t = None"
| "value_has_type (CUuid _) t = Some (is_uuid_type t)"
| "value_has_type (CInet _ _) t = Some (t = 0x10)"
| "value_has_type (CDecimal _ _) t = Some (t = 0x06)"
| "value_has_type (CDuration _) t = Some (t = 0x15)"

definition custom_has_type :: "string \<Rightarrow> data_type \<Rightarrow> bool option" where
  "custom_has_type class_name t =
     (if value_type_of t \<noteq> CASS_VALUE_TYPE_CUSTOM then Some False
      else case t of CustomType c \<Rightarrow> Some (class_name = c) | _ \<Rightarrow> None)"

definition IsValidDataType :: "(nat \<Rightarrow> collection) \<Rightarrow> bound_value \<Rightarrow> data_type option \<Rightarrow> bool option" where
  "IsValidDataType heap v t =
     (case v of
        Bound_null \<Rightarrow> Some True
      | Bound_value v \<Rightarrow> Option.bind t (\<lambda>t. value_has_type v (value_type_of t))
      | Bound_custom c _ \<Rightarrow> Option.bind t (custom_has_type c)
      | Bound_collection p \<Rightarrow> DataType_equals (cl_type (heap p)) t
      | Bound_tuple tv \<Rightarrow> DataType_equals (tv_type tv) t
      | Bound_user_type uv \<Rightarrow> DataType_equals (uv_type uv) t)"

definition CASS_HIGHEST_SUPPORTED_PROTOCOL_VERSION :: int where
  "CASS_HIGHEST_SUPPORTED_PROTOCOL_VERSION = 4"

text \<open>A copy of the cells of another buffer.\<close>

definition copy_cells :: "buffer \<Rightarrow> nat \<Rightarrow> buffer \<Rightarrow> (buffer \<times> nat) option" where
  "copy_cells buf pos cells =
     (if pos + length cells \<le> length buf
      then Some (take pos buf @ cells @ drop (pos + length cells) buf, pos + length cells) else None)"

subsection \<open>Collections\<close>

fun composite_types :: "data_type \<Rightarrow> data_type option list" where
  "composite_types (CollectionType _ types _) = types"
| "composite_types (TupleType types _) = types"
| "composite_types _ = []"

definition Collection_new :: "value_type \<Rightarrow> collection" where
  "Collection_new t = \<lparr>cl_type = CollectionType t [] False, cl_items = []\<rparr>"

definition Collection_from_data_type :: "data_type \<Rightarrow> collection option" where
  "Collection_from_data_type t = (if is_collection t then Some \<lparr>cl_type = t, cl_items = []\<rparr> else None)"

definition Collection_check :: "(nat \<Rightarrow> collection) \<Rightarrow> collection \<Rightarrow> bound_value \<Rightarrow> cass_error option" where
  "Collection_check heap c v =
     (let types = composite_types (cl_type c);
          valid = (\<lambda>t. map_option (\<lambda>ok. if ok then CASS_OK else CASS_ERROR_LIB_INVALID_VALUE_TYPE) (IsValidDataType heap v t))
      in if value_type_of (cl_type c) = CASS_VALUE_TYPE_MAP
         then if length types = 2 then valid (types ! (length (cl_items c) mod 2)) else Some CASS_OK
         else if value_type_of (cl_type c) = CASS_VALUE_TYPE_LIST \<or> value_type_of (cl_type c) = CASS_VALUE_TYPE_SET
         then if length types = 1 then valid (types ! 0) else Some CASS_OK
         else Some CASS_OK)"

definition get_count :: "collection \<Rightarrow> i32" where
  "get_count c =
     of_nat (if value_type_of (cl_type c) = CASS_VALUE_TYPE_MAP then length (cl_items c) div 2 else length (cl_items c))"

definition get_items_size :: "nat \<Rightarrow> buffer list \<Rightarrow> nat" where
  "get_items_size num_bytes_for_size items = sum_list (map (\<lambda>i. num_bytes_for_size + length i) items)"

fun encode_items_int32 :: "buffer list \<Rightarrow> buffer \<Rightarrow> nat \<Rightarrow> (buffer \<times> nat) option" where
  "encode_items_int32 [] buf pos = Some (buf, pos)"
| "encode_items_int32 (i # is) buf pos =
     do { (buf, pos) \<leftarrow> Buffer_encode_int32 buf pos (of_nat (length i));
          (buf, pos) \<leftarrow> copy_cells buf pos i;
          encode_items_int32 is buf pos }"

fun encode_items_uint16 :: "buffer list \<Rightarrow> buffer \<Rightarrow> nat \<Rightarrow> (buffer \<times> nat) option" where
  "encode_items_uint16 [] buf pos = Some (buf, pos)"
| "encode_items_uint16 (i # is) buf pos =
     do { (buf, pos) \<leftarrow> Buffer_encode_uint16 buf pos (of_nat (length i));
          (buf, pos) \<leftarrow> copy_cells buf pos i;
          encode_items_uint16 is buf pos }"

definition Collection_get_size_with_length :: "int \<Rightarrow> collection \<Rightarrow> nat" where
  "Collection_get_size_with_length version c =
     (if version \<ge> 3 then 4 + (4 + get_items_size 4 (cl_items c)) else 4 + (2 + get_items_size 2 (cl_items c)))"

definition Collection_encode :: "collection \<Rightarrow> buffer option" where
  "Collection_encode c =
     do { (buf, pos) \<leftarrow> Buffer_encode_int32 (Buffer_of_size (4 + get_items_size 4 (cl_items c))) 0 (get_count c);
          (buf, pos) \<leftarrow> encode_items_int32 (cl_items c) buf pos;
          Some buf }"

definition Collection_encode_with_length :: "int \<Rightarrow> collection \<Rightarrow> buffer option" where
  "Collection_encode_with_length version c =
     (let internal_size = (if version \<ge> 3 then 4 + get_items_size 4 (cl_items c) else 2 + get_items_size 2 (cl_items c))
      in do { (buf, pos) \<leftarrow> Buffer_encode_int32 (Buffer_of_size (4 + internal_size)) 0 (of_nat internal_size);
              (buf, pos) \<leftarrow>
                (if version \<ge> 3
                 then do { (buf, pos) \<leftarrow> Buffer_encode_int32 buf pos (get_count c);
                           encode_items_int32 (cl_items c) buf pos }
                 else do { (buf, pos) \<leftarrow> Buffer_encode_uint16 buf pos (ucast (get_count c));
                           encode_items_uint16 (cl_items c) buf pos });
              Some buf })"

subsection \<open>Tuples\<close>

definition Tuple_new :: "nat \<Rightarrow> tuple_value" where
  "Tuple_new item_count = \<lparr>tv_type = TupleType [] False, tv_items = replicate item_count []\<rparr>"

definition Tuple_from_data_type :: "data_type \<Rightarrow> tuple_value option" where
  "Tuple_from_data_type t =
     (if value_type_of t = CASS_VALUE_TYPE_TUPLE
      then Some \<lparr>tv_type = t, tv_items = replicate (length (composite_types t)) []\<rparr> else None)"

definition Tuple_check :: "(nat \<Rightarrow> collection) \<Rightarrow> tuple_value \<Rightarrow> nat \<Rightarrow> bound_value \<Rightarrow> cass_error option" where
  "Tuple_check heap tv index v =
     (if index > length (tv_items tv) then Some CASS_ERROR_LIB_INDEX_OUT_OF_BOUNDS
      else if index < length (composite_types (tv_type tv))
      then map_option (\<lambda>ok. if ok then CASS_OK else CASS_ERROR_LIB_INVALID_VALUE_TYPE)
             (IsValidDataType heap v (composite_types (tv_type tv) ! index))
      else Some CASS_OK)"

definition tuple_buffers_size :: "buffer list \<Rightarrow> nat" where
  "tuple_buffers_size items = sum_list (map (\<lambda>i. if i \<noteq> [] then length i else 4) items)"

fun tuple_encode_buffers :: "buffer list \<Rightarrow> nat \<Rightarrow> buffer \<Rightarrow> buffer option" where
  "tuple_encode_buffers [] pos buf = Some buf"
| "tuple_encode_buffers (i # is) pos buf =
     do { (buf, pos) \<leftarrow> (if i \<noteq> [] then copy_cells buf pos i else Buffer_encode_int32 buf pos (- 1));
          tuple_encode_buffers is pos buf }"

definition Tuple_encode :: "tuple_value \<Rightarrow> buffer option" where
  "Tuple_encode tv = tuple_encode_buffers (tv_items tv) 0 (Buffer_of_size (tuple_buffers_size (tv_items tv)))"

definition Tuple_encode_with_length :: "tuple_value \<Rightarrow> buffer option" where
  "Tuple_encode_with_length tv =
     (let buffers_size = tuple_buffers_size (tv_items tv)
      in do { (buf, pos) \<leftarrow> Buffer_encode_int32 (Buffer_of_size (4 + buffers_size)) 0 (of_nat buffers_size);
              tuple_encode_buffers (tv_items tv) pos buf })"

subsection \<open>Elements of statements and user types\<close>

definition element_is_unset :: "element \<Rightarrow> bool" where
  "element_is_unset e \<longleftrightarrow> e = Unset_element \<or> e = Buffer_element []"

definition element_is_null :: "element \<Rightarrow> bool" where
  "element_is_null e \<longleftrightarrow> (case e of Null_element _ \<Rightarrow> True | _ \<Rightarrow> False)"

text \<open>The assertion on the type of an element is the case of \<open>Unset_element\<close>.\<close>

definition element_get_size :: "(nat \<Rightarrow> collection) \<Rightarrow> int \<Rightarrow> element \<Rightarrow> nat option" where
  "element_get_size heap version e =
     (case e of
        Collection_element p \<Rightarrow> Some (Collection_get_size_with_length version (heap p))
      | Buffer_element buf \<Rightarrow> Some (length buf)
      | Null_element buf \<Rightarrow> Some (length buf)
      | Unset_element \<Rightarrow> None)"

definition element_copy_buffer :: "(nat \<Rightarrow> collection) \<Rightarrow> int \<Rightarrow> element \<Rightarrow> nat \<Rightarrow> buffer \<Rightarrow> (buffer \<times> nat) option" where
  "element_copy_buffer heap version e pos buf =
     (case e of
        Collection_element p \<Rightarrow> do { encoded \<leftarrow> Collection_encode_with_length version (heap p); copy_cells buf pos encoded }
      | Buffer_element cells \<Rightarrow> copy_cells buf pos cells
      | Null_element cells \<Rightarrow> copy_cells buf pos cells
      | Unset_element \<Rightarrow> None)"

type_synonym encoding_cache = "nat \<rightharpoonup> buffer"

definition element_get_buffer_cached ::
    "(nat \<Rightarrow> collection) \<Rightarrow> int \<Rightarrow> encoding_cache \<Rightarrow> bool \<Rightarrow> element \<Rightarrow> (buffer \<times> encoding_cache) option" where
  "element_get_buffer_cached heap version cache add_to_cache e =
     (case e of
        Collection_element p \<Rightarrow>
          (case cache p of
             Some buf \<Rightarrow> Some (buf, cache)
           | None \<Rightarrow>
               do { buf \<leftarrow> Collection_encode_with_length version (heap p);
                    Some (buf, if add_to_cache then cache(p \<mapsto> buf) else cache) })
      | Buffer_element buf \<Rightarrow> Some (buf, cache)
      | Null_element buf \<Rightarrow> Some (buf, cache)
      | Unset_element \<Rightarrow> None)"

fun get_buffers_size :: "(nat \<Rightarrow> collection) \<Rightarrow> element list \<Rightarrow> nat option" where
  "get_buffers_size heap [] = Some 0"
| "get_buffers_size heap (e # es) =
     do { n \<leftarrow> (if \<not> element_is_unset e then element_get_size heap CASS_HIGHEST_SUPPORTED_PROTOCOL_VERSION e else Some 4);
          m \<leftarrow> get_buffers_size heap es;
          Some (n + m) }"

fun encode_buffers :: "(nat \<Rightarrow> collection) \<Rightarrow> element list \<Rightarrow> nat \<Rightarrow> buffer \<Rightarrow> buffer option" where
  "encode_buffers heap [] pos buf = Some buf"
| "encode_buffers heap (e # es) pos buf =
     do { (buf, pos) \<leftarrow>
            (if \<not> element_is_unset e then element_copy_buffer heap CASS_HIGHEST_SUPPORTED_PROTOCOL_VERSION e pos buf
             else Buffer_encode_int32 buf pos (- 1));
          encode_buffers heap es pos buf }"

definition AbstractData_encode :: "(nat \<Rightarrow> collection) \<Rightarrow> element list \<Rightarrow> buffer option" where
  "AbstractData_encode heap es = do { n \<leftarrow> get_buffers_size heap es; encode_buffers heap es 0 (Buffer_of_size n) }"

definition AbstractData_encode_with_length :: "(nat \<Rightarrow> collection) \<Rightarrow> element list \<Rightarrow> buffer option" where
  "AbstractData_encode_with_length heap es =
     do { n \<leftarrow> get_buffers_size heap es;
          (buf, pos) \<leftarrow> Buffer_encode_int32 (Buffer_of_size (4 + n)) 0 (of_nat n);
          encode_buffers heap es pos buf }"

subsection \<open>Adding and setting values\<close>

definition collection_item :: "(nat \<Rightarrow> collection) \<Rightarrow> bound_value \<Rightarrow> buffer option" where
  "collection_item heap v =
     (case v of
        Bound_null \<Rightarrow> Some []
      | Bound_value v \<Rightarrow> encode v
      | Bound_custom _ bytes \<Rightarrow> encode (CCustom bytes)
      | Bound_collection p \<Rightarrow> Collection_encode (heap p)
      | Bound_tuple tv \<Rightarrow> Tuple_encode tv
      | Bound_user_type uv \<Rightarrow> AbstractData_encode heap (uv_elements uv))"

definition Collection_append :: "(nat \<Rightarrow> collection) \<Rightarrow> bound_value \<Rightarrow> collection \<Rightarrow> (cass_error \<times> collection) option" where
  "Collection_append heap v c =
     do { rc \<leftarrow> Collection_check heap c v;
          if rc \<noteq> CASS_OK then Some (rc, c)
          else do { item \<leftarrow> collection_item heap v; Some (CASS_OK, c\<lparr>cl_items := cl_items c @ [item]\<rparr>) } }"

definition value_with_length :: "(nat \<Rightarrow> collection) \<Rightarrow> bound_value \<Rightarrow> buffer option" where
  "value_with_length heap v =
     (case v of
        Bound_null \<Rightarrow> encode_with_length_null
      | Bound_value v \<Rightarrow> encode_with_length v
      | Bound_custom _ bytes \<Rightarrow> encode_with_length (CCustom bytes)
      | Bound_collection p \<Rightarrow> Collection_encode_with_length CASS_HIGHEST_SUPPORTED_PROTOCOL_VERSION (heap p)
      | Bound_tuple tv \<Rightarrow> Tuple_encode_with_length tv
      | Bound_user_type uv \<Rightarrow> AbstractData_encode_with_length heap (uv_elements uv))"

definition Tuple_set :: "(nat \<Rightarrow> collection) \<Rightarrow> nat \<Rightarrow> bound_value \<Rightarrow> tuple_value \<Rightarrow> (cass_error \<times> tuple_value) option" where
  "Tuple_set heap index v tv =
     do { rc \<leftarrow> Tuple_check heap tv index v;
          if rc \<noteq> CASS_OK then Some (rc, tv)
          else do { item \<leftarrow> value_with_length heap v;
                    if index < length (tv_items tv) then Some (CASS_OK, tv\<lparr>tv_items := (tv_items tv)[index := item]\<rparr>) else None } }"

text \<open>The elements of a statement or a user type; \<open>get_type\<close> is the virtual method of the two.\<close>

definition AbstractData_check ::
    "(nat \<Rightarrow> collection) \<Rightarrow> (nat \<Rightarrow> data_type option) \<Rightarrow> element list \<Rightarrow> nat \<Rightarrow> bound_value \<Rightarrow> cass_error option" where
  "AbstractData_check heap get_type es index v =
     (if index \<ge> length es then Some CASS_ERROR_LIB_INDEX_OUT_OF_BOUNDS
      else if get_type index = None then Some CASS_OK
      else map_option (\<lambda>ok. if ok then CASS_OK else CASS_ERROR_LIB_INVALID_VALUE_TYPE) (IsValidDataType heap v (get_type index)))"

definition AbstractData_set ::
    "(nat \<Rightarrow> collection) \<Rightarrow> (nat \<Rightarrow> data_type option) \<Rightarrow> nat \<Rightarrow> bound_value \<Rightarrow> element list \<Rightarrow> (cass_error \<times> element list) option" where
  "AbstractData_set heap get_type index v es =
     do { rc \<leftarrow> AbstractData_check heap get_type es index v;
          if rc \<noteq> CASS_OK then Some (rc, es)
          else case v of
                 Bound_null \<Rightarrow> map_option (\<lambda>buf. (CASS_OK, es[index := Null_element buf])) encode_with_length_null
               | Bound_collection p \<Rightarrow>
                   Some (if value_type_of (cl_type (heap p)) = CASS_VALUE_TYPE_MAP \<and> length (cl_items (heap p)) mod 2 \<noteq> 0
                         then (CASS_ERROR_LIB_INVALID_ITEM_COUNT, es)
                         else (CASS_OK, es[index := Collection_element p]))
               | _ \<Rightarrow> map_option (\<lambda>buf. (CASS_OK, es[index := Buffer_element buf])) (value_with_length heap v) }"

fun AbstractData_set_all ::
    "(nat \<Rightarrow> collection) \<Rightarrow> (nat \<Rightarrow> data_type option) \<Rightarrow> nat list \<Rightarrow> bound_value \<Rightarrow> element list \<Rightarrow> (cass_error \<times> element list) option" where
  "AbstractData_set_all heap get_type [] v es = Some (CASS_OK, es)"
| "AbstractData_set_all heap get_type (i # is) v es =
     do { (rc, es) \<leftarrow> AbstractData_set heap get_type i v es;
          if rc \<noteq> CASS_OK then Some (rc, es) else AbstractData_set_all heap get_type is v es }"

text \<open>\<open>set\<close> by name, with the indices that \<open>get_indices\<close> found.\<close>

definition AbstractData_set_by_name ::
    "(nat \<Rightarrow> collection) \<Rightarrow> (nat \<Rightarrow> data_type option) \<Rightarrow> nat list \<Rightarrow> bound_value \<Rightarrow> element list \<Rightarrow> (cass_error \<times> element list) option" where
  "AbstractData_set_by_name heap get_type indices v es =
     (if indices = [] then Some (CASS_ERROR_LIB_NAME_DOES_NOT_EXIST, es) else AbstractData_set_all heap get_type indices v es)"

definition AbstractData_reset :: "nat \<Rightarrow> element list" where
  "AbstractData_reset count = replicate count Unset_element"

fun user_type_fields :: "data_type \<Rightarrow> (string \<times> data_type option) list" where
  "user_type_fields (UserType _ _ fs _) = fs"
| "user_type_fields _ = []"

definition UserTypeValue_new :: "data_type \<Rightarrow> user_value option" where
  "UserTypeValue_new t =
     (if value_type_of t = CASS_VALUE_TYPE_UDT
      then Some \<lparr>uv_type = t, uv_elements = replicate (length (user_type_fields t)) Unset_element\<rparr> else None)"

definition UserTypeValue_get_type :: "user_value \<Rightarrow> nat \<Rightarrow> data_type option" where
  "UserTypeValue_get_type uv index = snd (user_type_fields (uv_type uv) ! index)"

definition UserTypeValue_set :: "(nat \<Rightarrow> collection) \<Rightarrow> nat \<Rightarrow> bound_value \<Rightarrow> user_value \<Rightarrow> (cass_error \<times> user_value) option" where
  "UserTypeValue_set heap index v uv =
     map_option (\<lambda>(rc, es). (rc, uv\<lparr>uv_elements := es\<rparr>))
       (AbstractData_set heap (UserTypeValue_get_type uv) index v (uv_elements uv))"

subsection \<open>What is written\<close>

text \<open>Buffers that have been written to the end.\<close>

definition full :: "buffer \<Rightarrow> bool" where
  "full buf \<longleftrightarrow> None \<notin> set buf"

definition buffer_bytes :: "buffer \<Rightarrow> byte list" where
  "buffer_bytes buf = map the buf"

lemma full_bytes: "full buf \<Longrightarrow> map Some (buffer_bytes buf) = buf"
  by (induction buf) (auto simp: full_def buffer_bytes_def)

lemma full_some [simp]: "full (map Some bs)" "buffer_bytes (map Some bs) = bs"
  by (auto simp: full_def buffer_bytes_def o_def)

lemma length_buffer_bytes [simp]: "length (buffer_bytes buf) = length buf"
  by (simp add: buffer_bytes_def)

lemma copy_cells_filled:
  assumes "full cells" "length cells \<le> n" "pos = length xs"
  shows "copy_cells (filled_to xs n) pos cells = Some (filled_to (xs @ buffer_bytes cells) (n - length cells), pos + length cells)"
  using assms full_bytes [OF assms(1)] by (simp add: copy_cells_def filled_to_def)

definition bytes32 :: "byte list \<Rightarrow> byte list" where
  "bytes32 b = encode_int32 (of_nat (length b)) @ b"

definition bytes16 :: "byte list \<Rightarrow> byte list" where
  "bytes16 b = encode_uint16 (of_nat (length b)) @ b"

lemma length_bytes_items:
  "length (concat (map (\<lambda>i. bytes32 (buffer_bytes i)) items)) = get_items_size 4 items"
  "length (concat (map (\<lambda>i. bytes16 (buffer_bytes i)) items)) = get_items_size 2 items"
  by (simp_all add: get_items_size_def length_concat o_def bytes32_def bytes16_def codec_length)

lemma encode_items_int32_filled:
  assumes "\<forall>i \<in> set items. full i" "get_items_size 4 items \<le> n"
  shows "encode_items_int32 items (filled_to xs n) (length xs) =
    Some (filled_to (xs @ concat (map (\<lambda>i. bytes32 (buffer_bytes i)) items)) (n - get_items_size 4 items), length xs + get_items_size 4 items)"
  using assms
proof (induction items arbitrary: xs n)
  case (Cons i items)
  let ?l = "encode_int32 (of_nat (length i))"
  have l: "length ?l = 4" by (simp add: codec_length)
  have n: "4 + length i \<le> n" "get_items_size 4 items \<le> n - 4 - length i" using Cons.prems(2) by (simp_all add: get_items_size_def)
  have "Buffer_encode_int32 (filled_to xs n) (length xs) (of_nat (length i)) = Some (filled_to (xs @ ?l) (n - 4), length xs + 4)"
    using n(1) l by (simp add: Buffer_encode_int32_def Buffer_copy_filled)
  moreover have "copy_cells (filled_to (xs @ ?l) (n - 4)) (length xs + 4) i =
      Some (filled_to (xs @ bytes32 (buffer_bytes i)) (n - 4 - length i), length xs + 4 + length i)"
    using copy_cells_filled [of i "n - 4" "length xs + 4" "xs @ ?l"] Cons.prems(1) n(1) l by (simp add: bytes32_def)
  moreover have "encode_items_int32 items (filled_to (xs @ bytes32 (buffer_bytes i)) (n - 4 - length i)) (length (xs @ bytes32 (buffer_bytes i))) =
      Some (filled_to ((xs @ bytes32 (buffer_bytes i)) @ concat (map (\<lambda>i. bytes32 (buffer_bytes i)) items)) (n - 4 - length i - get_items_size 4 items),
        length (xs @ bytes32 (buffer_bytes i)) + get_items_size 4 items)"
    using Cons.prems(1) n(2) by (intro Cons.IH) simp_all
  ultimately show ?case using l by (simp add: get_items_size_def bytes32_def add.assoc)
qed (simp add: get_items_size_def)

lemma encode_items_uint16_filled:
  assumes "\<forall>i \<in> set items. full i" "get_items_size 2 items \<le> n"
  shows "encode_items_uint16 items (filled_to xs n) (length xs) =
    Some (filled_to (xs @ concat (map (\<lambda>i. bytes16 (buffer_bytes i)) items)) (n - get_items_size 2 items), length xs + get_items_size 2 items)"
  using assms
proof (induction items arbitrary: xs n)
  case (Cons i items)
  let ?l = "encode_uint16 (of_nat (length i))"
  have l: "length ?l = 2" by (simp add: codec_length)
  have n: "2 + length i \<le> n" "get_items_size 2 items \<le> n - 2 - length i" using Cons.prems(2) by (simp_all add: get_items_size_def)
  have "Buffer_encode_uint16 (filled_to xs n) (length xs) (of_nat (length i)) = Some (filled_to (xs @ ?l) (n - 2), length xs + 2)"
    using n(1) l by (simp add: Buffer_encode_uint16_def Buffer_copy_filled)
  moreover have "copy_cells (filled_to (xs @ ?l) (n - 2)) (length xs + 2) i =
      Some (filled_to (xs @ bytes16 (buffer_bytes i)) (n - 2 - length i), length xs + 2 + length i)"
    using copy_cells_filled [of i "n - 2" "length xs + 2" "xs @ ?l"] Cons.prems(1) n(1) l by (simp add: bytes16_def)
  moreover have "encode_items_uint16 items (filled_to (xs @ bytes16 (buffer_bytes i)) (n - 2 - length i)) (length (xs @ bytes16 (buffer_bytes i))) =
      Some (filled_to ((xs @ bytes16 (buffer_bytes i)) @ concat (map (\<lambda>i. bytes16 (buffer_bytes i)) items)) (n - 2 - length i - get_items_size 2 items),
        length (xs @ bytes16 (buffer_bytes i)) + get_items_size 2 items)"
    using Cons.prems(1) n(2) by (intro Cons.IH) simp_all
  ultimately show ?case using l by (simp add: get_items_size_def bytes16_def add.assoc)
qed (simp add: get_items_size_def)

text \<open>The body of a collection: the count and the items, each with its size, in the format of the protocol version.\<close>

definition collection_body :: "int \<Rightarrow> collection \<Rightarrow> byte list" where
  "collection_body version c =
     (if version \<ge> 3 then encode_int32 (get_count c) @ concat (map (\<lambda>i. bytes32 (buffer_bytes i)) (cl_items c))
      else encode_uint16 (ucast (get_count c)) @ concat (map (\<lambda>i. bytes16 (buffer_bytes i)) (cl_items c)))"

lemma length_collection_body:
  "length (collection_body version c) = (if version \<ge> 3 then 4 + get_items_size 4 (cl_items c) else 2 + get_items_size 2 (cl_items c))"
  by (simp add: collection_body_def length_bytes_items codec_length)

lemma Collection_encode_eq:
  assumes "\<forall>i \<in> set (cl_items c). full i"
  shows "Collection_encode c = Some (map Some (collection_body 3 c))"
  using encode_items_int32_filled [OF assms, of "get_items_size 4 (cl_items c)" "encode_int32 (get_count c)"]
  by (simp add: Collection_encode_def Buffer_write_simps collection_body_def codec_length)

lemma Collection_encode_with_length_eq:
  assumes "\<forall>i \<in> set (cl_items c). full i"
  shows "Collection_encode_with_length version c = Some (map Some (bytes32 (collection_body version c)))"
proof (cases "version \<ge> 3")
  case True
  let ?h = "encode_int32 (of_nat (4 + get_items_size 4 (cl_items c))) @ encode_int32 (get_count c)"
  show ?thesis
    using True encode_items_int32_filled [OF assms, of "get_items_size 4 (cl_items c)" ?h] length_collection_body [of version c]
    by (simp add: Collection_encode_with_length_def Buffer_write_simps bytes32_def codec_length collection_body_def)
next
  case False
  let ?h = "encode_int32 (of_nat (2 + get_items_size 2 (cl_items c))) @ encode_uint16 (ucast (get_count c))"
  show ?thesis
    using False encode_items_uint16_filled [OF assms, of "get_items_size 2 (cl_items c)" ?h] length_collection_body [of version c]
    by (simp add: Collection_encode_with_length_def Buffer_write_simps bytes32_def codec_length collection_body_def)
qed

lemma encode_int32_filled:
  "4 \<le> n \<Longrightarrow> Buffer_encode_int32 (filled_to xs n) (length xs) v = Some (filled_to (xs @ encode_int32 v) (n - 4), length xs + 4)"
  by (simp add: Buffer_encode_int32_def Buffer_copy_filled codec_length)

definition tuple_item_bytes :: "buffer \<Rightarrow> byte list" where
  "tuple_item_bytes i = (if i \<noteq> [] then buffer_bytes i else encode_int32 (- 1))"

lemma length_tuple_items: "length (concat (map tuple_item_bytes items)) = tuple_buffers_size items"
  by (simp add: tuple_buffers_size_def length_concat o_def tuple_item_bytes_def codec_length if_distrib cong: if_cong)

lemma tuple_encode_buffers_filled:
  assumes "\<forall>i \<in> set items. full i" "tuple_buffers_size items \<le> n"
  shows "tuple_encode_buffers items (length xs) (filled_to xs n) =
    Some (filled_to (xs @ concat (map tuple_item_bytes items)) (n - tuple_buffers_size items))"
  using assms
proof (induction items arbitrary: xs n)
  case (Cons i items)
  let ?s = "if i \<noteq> [] then length i else 4"
  have n: "?s \<le> n" "tuple_buffers_size items \<le> n - ?s" using Cons.prems(2) by (simp_all add: tuple_buffers_size_def)
  have len: "length (tuple_item_bytes i) = ?s" by (simp add: tuple_item_bytes_def codec_length)
  have "(if i \<noteq> [] then copy_cells (filled_to xs n) (length xs) i else Buffer_encode_int32 (filled_to xs n) (length xs) (- 1)) =
      Some (filled_to (xs @ tuple_item_bytes i) (n - ?s), length (xs @ tuple_item_bytes i))"
    using n(1) Cons.prems(1)
    by (cases "i = []") (simp_all add: copy_cells_filled encode_int32_filled tuple_item_bytes_def codec_length)
  moreover have "tuple_encode_buffers items (length (xs @ tuple_item_bytes i)) (filled_to (xs @ tuple_item_bytes i) (n - ?s)) =
      Some (filled_to ((xs @ tuple_item_bytes i) @ concat (map tuple_item_bytes items)) (n - ?s - tuple_buffers_size items))"
    using Cons.prems(1) n(2) by (intro Cons.IH) simp_all
  ultimately show ?case by (simp add: tuple_buffers_size_def)
qed (simp add: tuple_buffers_size_def)

lemma Tuple_encode_eq:
  assumes "\<forall>i \<in> set (tv_items tv). full i"
  shows "Tuple_encode tv = Some (map Some (concat (map tuple_item_bytes (tv_items tv))))"
    "Tuple_encode_with_length tv = Some (map Some (bytes32 (concat (map tuple_item_bytes (tv_items tv)))))"
proof -
  let ?n = "tuple_buffers_size (tv_items tv)"
  show "Tuple_encode tv = Some (map Some (concat (map tuple_item_bytes (tv_items tv))))"
    using tuple_encode_buffers_filled [OF assms, of ?n "[]"] by (simp add: Tuple_encode_def Buffer_of_size_filled)
  show "Tuple_encode_with_length tv = Some (map Some (bytes32 (concat (map tuple_item_bytes (tv_items tv)))))"
    using tuple_encode_buffers_filled [OF assms, of ?n "encode_int32 (of_nat ?n)"] length_tuple_items [of "tv_items tv"]
    by (simp add: Tuple_encode_with_length_def Buffer_write_simps bytes32_def codec_length)
qed

subsection \<open>Elements\<close>

definition element_full :: "(nat \<Rightarrow> collection) \<Rightarrow> element \<Rightarrow> bool" where
  "element_full heap e \<longleftrightarrow>
     (case e of Unset_element \<Rightarrow> True | Null_element b \<Rightarrow> full b | Buffer_element b \<Rightarrow> full b
      | Collection_element p \<Rightarrow> (\<forall>i \<in> set (cl_items (heap p)). full i))"

definition element_bytes :: "(nat \<Rightarrow> collection) \<Rightarrow> int \<Rightarrow> element \<Rightarrow> byte list" where
  "element_bytes heap version e =
     (if element_is_unset e then encode_int32 (- 1)
      else case e of Null_element b \<Rightarrow> buffer_bytes b | Buffer_element b \<Rightarrow> buffer_bytes b
           | Collection_element p \<Rightarrow> bytes32 (collection_body version (heap p)) | Unset_element \<Rightarrow> [])"

lemma element_size:
  "\<not> element_is_unset e \<Longrightarrow> element_get_size heap version e = Some (length (element_bytes heap version e))"
  by (cases e) (auto simp: element_get_size_def element_bytes_def element_is_unset_def bytes32_def codec_length
    Collection_get_size_with_length_def length_collection_body)

lemma element_copy:
  assumes "\<not> element_is_unset e" "element_full heap e" "length (element_bytes heap version e) \<le> n"
  shows "element_copy_buffer heap version e (length xs) (filled_to xs n) =
    Some (filled_to (xs @ element_bytes heap version e) (n - length (element_bytes heap version e)),
      length xs + length (element_bytes heap version e))"
proof (cases e)
  case (Collection_element p)
  then have "\<forall>i \<in> set (cl_items (heap p)). full i" using assms(2) by (simp add: element_full_def)
  then show ?thesis
    using Collection_element assms(1,3) copy_cells_filled [of "map Some (bytes32 (collection_body version (heap p)))" n "length xs" xs]
    by (simp add: element_copy_buffer_def Collection_encode_with_length_eq element_bytes_def)
qed (use assms copy_cells_filled [where xs = xs and n = n] in \<open>auto simp: element_copy_buffer_def element_bytes_def element_full_def element_is_unset_def\<close>)

lemma element_cached:
  assumes "\<not> element_is_unset e" "element_full heap e" "\<And>p. e = Collection_element p \<Longrightarrow> cache p = None"
  shows "\<exists>cache'. element_get_buffer_cached heap version cache add e = Some (map Some (element_bytes heap version e), cache')"
  using assms by (cases e) (auto simp: element_get_buffer_cached_def element_bytes_def element_full_def element_is_unset_def
    Collection_encode_with_length_eq full_bytes)

abbreviation elements_bytes :: "(nat \<Rightarrow> collection) \<Rightarrow> element list \<Rightarrow> byte list" where
  "elements_bytes heap es \<equiv> concat (map (element_bytes heap CASS_HIGHEST_SUPPORTED_PROTOCOL_VERSION) es)"

lemma get_buffers_size_eq: "get_buffers_size heap es = Some (length (elements_bytes heap es))"
proof (induction es)
  case (Cons e es)
  then show ?case
    by (cases "element_is_unset e") (simp_all add: element_size, simp add: element_bytes_def codec_length)
qed simp

lemma encode_buffers_filled:
  assumes "\<forall>e \<in> set es. element_full heap e" "length (elements_bytes heap es) \<le> n"
  shows "encode_buffers heap es (length xs) (filled_to xs n) =
    Some (filled_to (xs @ elements_bytes heap es) (n - length (elements_bytes heap es)))"
  using assms
proof (induction es arbitrary: xs n)
  case (Cons e es)
  let ?v = CASS_HIGHEST_SUPPORTED_PROTOCOL_VERSION
  let ?b = "element_bytes heap ?v e"
  have n: "length ?b \<le> n" "length (elements_bytes heap es) \<le> n - length ?b" using Cons.prems(2) by simp_all
  have "(if \<not> element_is_unset e then element_copy_buffer heap ?v e (length xs) (filled_to xs n)
      else Buffer_encode_int32 (filled_to xs n) (length xs) (- 1)) = Some (filled_to (xs @ ?b) (n - length ?b), length (xs @ ?b))"
  proof (cases "element_is_unset e")
    case True
    then have "?b = encode_int32 (- 1)" by (simp add: element_bytes_def)
    then show ?thesis using True n(1) by (simp add: encode_int32_filled codec_length)
  next
    case False
    then show ?thesis using element_copy [OF False _ n(1)] Cons.prems(1) by simp
  qed
  moreover have "encode_buffers heap es (length (xs @ ?b)) (filled_to (xs @ ?b) (n - length ?b)) =
      Some (filled_to ((xs @ ?b) @ elements_bytes heap es) (n - length ?b - length (elements_bytes heap es)))"
    using Cons.prems(1) n(2) by (intro Cons.IH) simp_all
  ultimately show ?case by simp
qed simp

lemma AbstractData_encode_eq:
  assumes "\<forall>e \<in> set es. element_full heap e"
  shows "AbstractData_encode heap es = Some (map Some (elements_bytes heap es))"
    "AbstractData_encode_with_length heap es = Some (map Some (bytes32 (elements_bytes heap es)))"
proof -
  let ?n = "length (elements_bytes heap es)"
  show "AbstractData_encode heap es = Some (map Some (elements_bytes heap es))"
    using encode_buffers_filled [OF assms, of ?n "[]"] by (simp add: AbstractData_encode_def get_buffers_size_eq Buffer_of_size_filled)
  show "AbstractData_encode_with_length heap es = Some (map Some (bytes32 (elements_bytes heap es)))"
    using encode_buffers_filled [OF assms, of ?n "encode_int32 (of_nat ?n)"]
    by (simp add: AbstractData_encode_with_length_def get_buffers_size_eq Buffer_write_simps bytes32_def codec_length)
qed

subsection \<open>Bound values\<close>

definition wf_bound :: "(nat \<Rightarrow> collection) \<Rightarrow> bound_value \<Rightarrow> bool" where
  "wf_bound heap v \<longleftrightarrow>
     (case v of
        Bound_value v \<Rightarrow> wf_value v
      | Bound_collection p \<Rightarrow> (\<forall>i \<in> set (cl_items (heap p)). full i)
      | Bound_tuple tv \<Rightarrow> (\<forall>i \<in> set (tv_items tv). full i)
      | Bound_user_type uv \<Rightarrow> (\<forall>e \<in> set (uv_elements uv). element_full heap e)
      | _ \<Rightarrow> True)"

definition payload :: "(nat \<Rightarrow> collection) \<Rightarrow> bound_value \<Rightarrow> byte list" where
  "payload heap v =
     (case v of
        Bound_null \<Rightarrow> []
      | Bound_value v \<Rightarrow> value_bytes v
      | Bound_custom _ bytes \<Rightarrow> bytes
      | Bound_collection p \<Rightarrow> collection_body CASS_HIGHEST_SUPPORTED_PROTOCOL_VERSION (heap p)
      | Bound_tuple tv \<Rightarrow> concat (map tuple_item_bytes (tv_items tv))
      | Bound_user_type uv \<Rightarrow> elements_bytes heap (uv_elements uv))"

lemma collection_body_3: "collection_body 3 c = collection_body CASS_HIGHEST_SUPPORTED_PROTOCOL_VERSION c"
  by (simp add: collection_body_def CASS_HIGHEST_SUPPORTED_PROTOCOL_VERSION_def)

lemma value_with_length_eq:
  "wf_bound heap v \<Longrightarrow> value_with_length heap v =
     Some (map Some (if v = Bound_null then encode_int32 (- 1) else bytes32 (payload heap v)))"
  by (cases v) (simp_all add: value_with_length_def wf_bound_def payload_def encode_null_unset encode_with_length_eq bytes32_def
    Collection_encode_with_length_eq Tuple_encode_eq(2) AbstractData_encode_eq(2) Buffer_write_simps codec_length)

lemma collection_item_eq: "wf_bound heap v \<Longrightarrow> collection_item heap v = Some (map Some (payload heap v))"
  by (cases v) (simp_all add: collection_item_def wf_bound_def payload_def encode_eq Collection_encode_eq collection_body_3 Tuple_encode_eq(1)
    AbstractData_encode_eq(1) Buffer_write_simps)

lemma Collection_append_full:
  assumes "wf_bound heap v" "\<forall>i \<in> set (cl_items c). full i" "Collection_append heap v c = Some (rc, c')"
  shows "(\<forall>i \<in> set (cl_items c'). full i) \<and> cl_type c' = cl_type c \<and>
    cl_items c' = cl_items c @ (if rc = CASS_OK then [map Some (payload heap v)] else [])"
proof -
  obtain rc' where rc: "Collection_check heap c v = Some rc'"
    using assms(3) by (cases "Collection_check heap c v") (auto simp: Collection_append_def)
  show ?thesis
    using assms rc by (cases "rc' = CASS_OK") (auto simp: Collection_append_def collection_item_eq)
qed

lemma Tuple_set_full:
  assumes "wf_bound heap v" "\<forall>i \<in> set (tv_items tv). full i" "Tuple_set heap index v tv = Some (rc, tv')"
  shows "\<forall>i \<in> set (tv_items tv'). full i"
  using assms
  by (auto simp: Tuple_set_def value_with_length_eq bind_eq_Some_conv split: if_splits dest!: subsetD [OF set_update_subset_insert])

text \<open>The element that a bound value becomes.\<close>

definition element_of :: "(nat \<Rightarrow> collection) \<Rightarrow> bound_value \<Rightarrow> element" where
  "element_of heap v =
     (case v of
        Bound_null \<Rightarrow> Null_element (map Some (encode_int32 (- 1)))
      | Bound_collection p \<Rightarrow> Collection_element p
      | _ \<Rightarrow> Buffer_element (map Some (bytes32 (payload heap v))))"

text \<open>A collection that may be bound: a map has as many values as keys.\<close>

definition complete_map :: "(nat \<Rightarrow> collection) \<Rightarrow> bound_value \<Rightarrow> bool" where
  "complete_map heap v \<longleftrightarrow>
     (case v of Bound_collection p \<Rightarrow> value_type_of (cl_type (heap p)) = CASS_VALUE_TYPE_MAP \<longrightarrow> even (length (cl_items (heap p)))
      | _ \<Rightarrow> True)"

lemma AbstractData_set_cases:
  assumes "wf_bound heap v" "AbstractData_set heap get_type index v es = Some (rc, es')"
  shows "es' = (if rc = CASS_OK then es[index := element_of heap v] else es)"
    "rc = CASS_OK \<longleftrightarrow> index < length es \<and> complete_map heap v \<and>
       (get_type index \<noteq> None \<longrightarrow> IsValidDataType heap v (get_type index) = Some True)"
    "index \<ge> length es \<longleftrightarrow> rc = CASS_ERROR_LIB_INDEX_OUT_OF_BOUNDS"
  using assms value_with_length_eq [OF assms(1)]
  by (cases v; force simp: AbstractData_set_def AbstractData_check_def bind_eq_Some_conv element_of_def complete_map_def encode_null_unset
    even_iff_mod_2_eq_zero split: if_splits option.splits)+

subsection \<open>Elements have the type of their place\<close>

definition element_typed :: "(nat \<Rightarrow> collection) \<Rightarrow> data_type option \<Rightarrow> element \<Rightarrow> bool" where
  "element_typed heap t e \<longleftrightarrow> e = Unset_element \<or>
     (\<exists>v. wf_bound heap v \<and> complete_map heap v \<and> (t \<noteq> None \<longrightarrow> IsValidDataType heap v t = Some True) \<and> e = element_of heap v)"

text \<open>A sequence of bindings, whatever they return.\<close>

fun bind_all ::
    "(nat \<Rightarrow> collection) \<Rightarrow> (nat \<Rightarrow> data_type option) \<Rightarrow> (nat \<times> bound_value) list \<Rightarrow> element list \<Rightarrow> element list option" where
  "bind_all heap get_type [] es = Some es"
| "bind_all heap get_type ((i, v) # bs) es =
     (case AbstractData_set heap get_type i v es of None \<Rightarrow> None | Some (rc, es) \<Rightarrow> bind_all heap get_type bs es)"

lemma set_typed:
  assumes "wf_bound heap v" "AbstractData_set heap get_type i v es = Some (rc, es')"
    and "\<forall>j < length es. element_typed heap (get_type j) (es ! j)"
  shows "length es' = length es \<and> (\<forall>j < length es. element_typed heap (get_type j) (es' ! j))"
  using assms AbstractData_set_cases(1,2) [OF assms(1,2)] by (auto simp: nth_list_update element_typed_def)

lemma bind_all_typed:
  assumes "\<forall>(i, v) \<in> set bs. wf_bound heap v" "bind_all heap get_type bs es = Some es'"
    and "\<forall>j < length es. element_typed heap (get_type j) (es ! j)"
  shows "length es' = length es \<and> (\<forall>j < length es. element_typed heap (get_type j) (es' ! j))"
  using assms
proof (induction bs arbitrary: es)
  case (Cons b bs)
  obtain i v where b: "b = (i, v)" by (cases b)
  obtain rc u where u: "AbstractData_set heap get_type i v es = Some (rc, u)" "bind_all heap get_type bs u = Some es'"
    using Cons.prems(2) b by (auto split: option.splits prod.splits)
  have "length u = length es \<and> (\<forall>j < length es. element_typed heap (get_type j) (u ! j))"
    using set_typed [OF _ u(1) Cons.prems(3)] Cons.prems(1) b by auto
  then show ?case using Cons.IH [OF _ u(2)] Cons.prems(1) by auto
qed simp



text \<open>C29. Everything that can be bound is written completely and inside its buffer: with its length before it for statements, tuples and user types, and without
  for the items of collections, at any nesting. A null is the length -1 in the former.\<close>

theorem bound_values_written:
  assumes "wf_bound heap v"
  shows "value_with_length heap v = Some (map Some (if v = Bound_null then encode_int32 (- 1) else bytes32 (payload heap v))) \<and>
    collection_item heap v = Some (map Some (payload heap v))"
  using value_with_length_eq [OF assms] collection_item_eq [OF assms] by simp

theorem bound_values_written_witness:
  "let c = \<lparr>cl_type = CollectionType CASS_VALUE_TYPE_LIST [] False, cl_items = [map Some [1], map Some [2, 3]]\<rparr>
   in value_with_length (\<lambda>_. c) (Bound_collection 0) = Some (map Some (bytes32 (payload (\<lambda>_. c) (Bound_collection 0)))) \<and>
      payload (\<lambda>_. c) (Bound_collection 0) = [0, 0, 0, 2, 0, 0, 0, 1, 1, 0, 0, 0, 2, 2, 3]"
proof -
  let ?c = "\<lparr>cl_type = CollectionType CASS_VALUE_TYPE_LIST [] False, cl_items = [map Some [1], map Some [2, 3]]\<rparr>"
  have "payload (\<lambda>_. ?c) (Bound_collection 0) = [0, 0, 0, 2, 0, 0, 0, 1, 1, 0, 0, 0, 2, 2, 3]" by code_simp
  then show ?thesis using bound_values_written [of "\<lambda>_. ?c" "Bound_collection 0"] by (simp add: wf_bound_def full_def Let_def)
qed

subsection \<open>Where the values differ from what is meant\<close>

text \<open>The index of a tuple may be one past its last item: the item is written outside the vector.\<close>

lemma tuple_set_past_end:
  "Tuple_set heap n Bound_null (Tuple_new n) = None"
  by (simp add: Tuple_set_def Tuple_check_def Tuple_new_def encode_null_unset value_with_length_def)

text \<open>A null in a collection is an item of size zero, not of size -1: it is read back as an empty value.\<close>

lemma null_item_is_empty:
  "map_option snd (Collection_append heap Bound_null (Collection_new CASS_VALUE_TYPE_LIST)) =
     Some \<lparr>cl_type = CollectionType CASS_VALUE_TYPE_LIST [] False, cl_items = [[]]\<rparr>"
  by (simp add: Collection_append_def Collection_check_def Collection_new_def collection_item_def)

end
