(* ===== verification/Values.thy ===== *)
theory Values
  imports Responses Collections
begin

text \<open>
  Reading the values of a result: \<open>Value\<close> (\<open>value.hpp\<close>, \<open>value.cpp\<close>), the iterators (\<open>collection_iterator\<close>, \<open>map_iterator\<close>,
  \<open>user_type_field_iterator\<close>, \<open>row_iterator.hpp\<close>, \<open>result_iterator.hpp\<close>), rows (\<open>row.cpp\<close>) and the accessors of a result
  (\<open>result_response.cpp\<close>).

  A method that returns a truth value gives it as the outcome of the reads it makes; a call through a null pointer is a read
  outside any allocation. The multiplication of an item count wraps around.
\<close>

subsection \<open>Values\<close>

record value_view =
  vl_type :: "data_type option"
  vl_count :: i32
  vl_decoder :: decoder
  vl_is_null :: bool

definition no_decoder :: decoder where
  "no_decoder = Decoder_new [] 0 (- 1)"

definition Value_none :: value_view where
  "Value_none = \<lparr>vl_type = None, vl_count = 0, vl_decoder = no_decoder, vl_is_null = False\<rparr>"

definition Value_null :: "data_type option \<Rightarrow> value_view" where
  "Value_null t = \<lparr>vl_type = t, vl_count = 0, vl_decoder = no_decoder, vl_is_null = True\<rparr>"

definition Value_regular :: "data_type \<Rightarrow> decoder \<Rightarrow> value_view" where
  "Value_regular t d =
     \<lparr>vl_type = Some t,
      vl_count = (if value_type_of t = CASS_VALUE_TYPE_TUPLE then of_nat (length (composite_types t))
                  else if value_type_of t = CASS_VALUE_TYPE_UDT then of_nat (length (user_type_fields t)) else 0),
      vl_decoder = d, vl_is_null = False\<rparr>"

definition Value_collection :: "data_type \<Rightarrow> i32 \<Rightarrow> decoder \<Rightarrow> value_view" where
  "Value_collection t count d = \<lparr>vl_type = Some t, vl_count = count, vl_decoder = d, vl_is_null = False\<rparr>"

text \<open>\<open>Decoder::decode_value\<close> with the value that it makes.\<close>

definition decode_value :: "data_type option \<Rightarrow> bool \<Rightarrow> value_view reader" where
  "decode_value t is_inside_collection =
     and_then (Decoder_decode_value (case t of None \<Rightarrow> False | Some t \<Rightarrow> is_collection t) is_inside_collection)
       (\<lambda>v d. case v of
                Null_value \<Rightarrow> (Done (Value_null t), d)
              | Regular_value inner \<Rightarrow>
                  (case t of None \<Rightarrow> (Out_of_bounds, d) | Some t \<Rightarrow> (Done (Value_regular t inner), d))
              | Collection_value count inner \<Rightarrow>
                  (case t of None \<Rightarrow> (Out_of_bounds, d) | Some t \<Rightarrow> (Done (Value_collection t count inner), d)))"

definition Value_value_type :: "value_view \<Rightarrow> value_type" where
  "Value_value_type v = (case vl_type v of None \<Rightarrow> CASS_VALUE_TYPE_UNKNOWN | Some t \<Rightarrow> value_type_of t)"

definition Value_is_collection :: "value_view \<Rightarrow> bool" where
  "Value_is_collection v \<longleftrightarrow> (case vl_type v of None \<Rightarrow> False | Some t \<Rightarrow> is_collection t)"

definition Value_is_map :: "value_view \<Rightarrow> bool" where
  "Value_is_map v \<longleftrightarrow> (case vl_type v of None \<Rightarrow> False | Some t \<Rightarrow> value_type_of t = CASS_VALUE_TYPE_MAP)"

definition Value_is_tuple :: "value_view \<Rightarrow> bool" where
  "Value_is_tuple v \<longleftrightarrow> (case vl_type v of None \<Rightarrow> False | Some t \<Rightarrow> value_type_of t = CASS_VALUE_TYPE_TUPLE)"

definition Value_is_user_type :: "value_view \<Rightarrow> bool" where
  "Value_is_user_type v \<longleftrightarrow> (case vl_type v of None \<Rightarrow> False | Some t \<Rightarrow> value_type_of t = CASS_VALUE_TYPE_UDT)"

definition primary_data_type :: "value_view \<Rightarrow> data_type option" where
  "primary_data_type v =
     (case vl_type v of
        None \<Rightarrow> None
      | Some t \<Rightarrow> if \<not> is_collection t then None
                  else if length (composite_types t) < 1 then None else composite_types t ! 0)"

definition secondary_data_type :: "value_view \<Rightarrow> data_type option" where
  "secondary_data_type v =
     (case vl_type v of
        None \<Rightarrow> None
      | Some t \<Rightarrow> if value_type_of t \<noteq> CASS_VALUE_TYPE_MAP then None
                  else if length (composite_types t) < 2 then None else composite_types t ! 1)"

definition primary_value_type :: "value_view \<Rightarrow> value_type" where
  "primary_value_type v = (case primary_data_type v of None \<Rightarrow> CASS_VALUE_TYPE_UNKNOWN | Some t \<Rightarrow> value_type_of t)"

definition secondary_value_type :: "value_view \<Rightarrow> value_type" where
  "secondary_value_type v = (case secondary_data_type v of None \<Rightarrow> CASS_VALUE_TYPE_UNKNOWN | Some t \<Rightarrow> value_type_of t)"

definition Value_size :: "value_view \<Rightarrow> i64" where
  "Value_size v = (if vl_is_null v then - 1 else d_remaining (vl_decoder v))"

definition Value_to_string :: "value_view \<Rightarrow> byte list outcome" where
  "Value_to_string v = (if vl_is_null v then Done [] else Decoder_as_string (vl_decoder v))"

subsection \<open>Getters\<close>

text \<open>The value is a null pointer when it was not found. The first argument says which types fit.\<close>

definition checked_get ::
    "(value_view \<Rightarrow> bool) \<Rightarrow> (decoder \<Rightarrow> 'a outcome) \<Rightarrow> value_view option \<Rightarrow> (cass_error + 'a) outcome" where
  "checked_get fits view v =
     (case v of
        None \<Rightarrow> Done (Inl CASS_ERROR_LIB_NULL_VALUE)
      | Some v \<Rightarrow>
          if vl_is_null v then Done (Inl CASS_ERROR_LIB_NULL_VALUE)
          else if \<not> fits v then Done (Inl CASS_ERROR_LIB_INVALID_VALUE_TYPE)
          else case view (vl_decoder v) of
                 Done x \<Rightarrow> Done (Inr x)
               | Rejected \<Rightarrow> Done (Inl CASS_ERROR_LIB_NOT_ENOUGH_DATA)
               | Out_of_bounds \<Rightarrow> Out_of_bounds
               | Length_error \<Rightarrow> Length_error)"

definition cass_value_get_int8 :: "value_view option \<Rightarrow> (cass_error + i8) outcome" where
  "cass_value_get_int8 = checked_get (\<lambda>v. Value_value_type v = 0x14) Decoder_as_int8"

definition cass_value_get_int16 :: "value_view option \<Rightarrow> (cass_error + i16) outcome" where
  "cass_value_get_int16 = checked_get (\<lambda>v. Value_value_type v = 0x13) Decoder_as_int16"

definition cass_value_get_int32 :: "value_view option \<Rightarrow> (cass_error + i32) outcome" where
  "cass_value_get_int32 = checked_get (\<lambda>v. Value_value_type v = 0x09) Decoder_as_int32"

definition cass_value_get_uint32 :: "value_view option \<Rightarrow> (cass_error + u32) outcome" where
  "cass_value_get_uint32 = checked_get (\<lambda>v. Value_value_type v = 0x11) Decoder_as_uint32"

definition cass_value_get_int64 :: "value_view option \<Rightarrow> (cass_error + i64) outcome" where
  "cass_value_get_int64 = checked_get (\<lambda>v. is_int64_type (Value_value_type v)) Decoder_as_int64"

definition cass_value_get_float :: "value_view option \<Rightarrow> (cass_error + 32 word) outcome" where
  "cass_value_get_float = checked_get (\<lambda>v. Value_value_type v = 0x08) Decoder_as_float"

definition cass_value_get_double :: "value_view option \<Rightarrow> (cass_error + 64 word) outcome" where
  "cass_value_get_double = checked_get (\<lambda>v. Value_value_type v = 0x07) Decoder_as_double"

definition cass_value_get_bool :: "value_view option \<Rightarrow> (cass_error + bool) outcome" where
  "cass_value_get_bool = checked_get (\<lambda>v. Value_value_type v = 0x04) Decoder_as_bool"

definition cass_value_get_uuid :: "value_view option \<Rightarrow> (cass_error + cass_uuid) outcome" where
  "cass_value_get_uuid = checked_get (\<lambda>v. is_uuid_type (Value_value_type v)) Decoder_as_uuid"

text \<open>An address that cannot be read is invalid data; its size is cut to 8 bits.\<close>

definition cass_value_get_inet :: "value_view option \<Rightarrow> (cass_error + byte list \<times> u8) outcome" where
  "cass_value_get_inet v =
     map_outcome (\<lambda>r. case r of Inl CASS_ERROR_LIB_NOT_ENOUGH_DATA \<Rightarrow> Inl CASS_ERROR_LIB_INVALID_DATA | r \<Rightarrow> r)
       (checked_get (\<lambda>v. Value_value_type v = 0x10) (\<lambda>d. Decoder_as_inet (ucast (d_remaining d)) d) v)"

definition cass_value_get_string :: "value_view option \<Rightarrow> (cass_error + byte list) outcome" where
  "cass_value_get_string = checked_get (\<lambda>_. True) Decoder_as_string"

definition cass_value_get_bytes :: "value_view option \<Rightarrow> (cass_error + byte list) outcome" where
  "cass_value_get_bytes = checked_get (\<lambda>_. True) Decoder_as_string"

text \<open>\<open>cass_value_is_duration\<close> asks the data type, which may be a null pointer.\<close>

definition cass_value_get_duration :: "value_view option \<Rightarrow> (cass_error + i32 \<times> i32 \<times> i64) outcome" where
  "cass_value_get_duration v =
     (case v of
        Some v' \<Rightarrow> if \<not> vl_is_null v' \<and> vl_type v' = None then Out_of_bounds
                   else checked_get (\<lambda>v. Value_value_type v = 0x15) Decoder_as_duration v
      | None \<Rightarrow> Done (Inl CASS_ERROR_LIB_NULL_VALUE))"

definition cass_value_get_decimal :: "value_view option \<Rightarrow> (cass_error + byte list \<times> i32) outcome" where
  "cass_value_get_decimal = checked_get (\<lambda>v. Value_value_type v = 0x06) Decoder_as_decimal"

text \<open>The methods that the driver itself uses. The first argument says whether assertions are compiled in: the bytes are read inside of
  an \<open>assert\<close>, so otherwise they are not read at all. A failed assertion is \<open>None\<close>.\<close>

definition asserted_as :: "bool \<Rightarrow> (value_view \<Rightarrow> bool) \<Rightarrow> (decoder \<Rightarrow> 'a outcome) \<Rightarrow> 'a \<Rightarrow> value_view \<Rightarrow> 'a option" where
  "asserted_as assertions fits view unread v =
     (if assertions
      then if vl_is_null v \<or> \<not> fits v then None else case view (vl_decoder v) of Done x \<Rightarrow> Some x | _ \<Rightarrow> None
      else Some unread)"

definition Value_as_bool :: "bool \<Rightarrow> value_view \<Rightarrow> bool option" where
  "Value_as_bool assertions = asserted_as assertions (\<lambda>v. Value_value_type v = 0x04) Decoder_as_bool False"

definition Value_as_int32 :: "bool \<Rightarrow> value_view \<Rightarrow> i32 option" where
  "Value_as_int32 assertions = asserted_as assertions (\<lambda>v. Value_value_type v = 0x09) Decoder_as_int32 0"

definition Value_as_uuid :: "bool \<Rightarrow> value_view \<Rightarrow> cass_uuid option" where
  "Value_as_uuid assertions =
     asserted_as assertions (\<lambda>v. is_uuid_type (Value_value_type v)) Decoder_as_uuid \<lparr>time_and_version = 0, clock_seq_and_node = 0\<rparr>"

subsection \<open>Iterators over the parts of a value\<close>

record value_iterator =
  vi_decoder :: decoder
  vi_value :: value_view

record collection_iterator = value_iterator +
  ci_collection :: value_view
  ci_index :: i32
  ci_count :: i32

definition CollectionIterator_new :: "value_view \<Rightarrow> collection_iterator" where
  "CollectionIterator_new v =
     \<lparr>vi_decoder = vl_decoder v, vi_value = Value_none, ci_collection = v, ci_index = - 1,
      ci_count = (if Value_value_type v = CASS_VALUE_TYPE_MAP then 2 * vl_count v else vl_count v)\<rparr>"

text \<open>What a read that returns a truth value returns.\<close>

definition returned :: "'a outcome \<Rightarrow> bool outcome" where
  "returned r = (case r of Done _ \<Rightarrow> Done True | Rejected \<Rightarrow> Done False | Out_of_bounds \<Rightarrow> Out_of_bounds | Length_error \<Rightarrow> Length_error)"

definition decode_into ::
    "data_type option \<Rightarrow> bool \<Rightarrow> ('b value_iterator_scheme) \<Rightarrow> bool outcome \<times> ('b value_iterator_scheme)" where
  "decode_into t inside it =
     (case decode_value t inside (vi_decoder it) of
        (Done v, d) \<Rightarrow> (Done True, it\<lparr>vi_decoder := d, vi_value := v\<rparr>)
      | (r, d) \<Rightarrow> (returned r, it\<lparr>vi_decoder := d\<rparr>))"

definition CollectionIterator_item_type :: "value_view \<Rightarrow> i32 \<Rightarrow> data_type option" where
  "CollectionIterator_item_type collection index =
     (if Value_value_type collection = CASS_VALUE_TYPE_MAP
      then if sint index mod 2 = 0 then primary_data_type collection else secondary_data_type collection
      else primary_data_type collection)"

definition CollectionIterator_next :: "collection_iterator \<Rightarrow> bool outcome \<times> collection_iterator" where
  "CollectionIterator_next it =
     (if ci_count it <=s ci_index it + 1 then (Done False, it)
      else let it = it\<lparr>ci_index := ci_index it + 1\<rparr> in decode_into (CollectionIterator_item_type (ci_collection it) (ci_index it)) True it)"

record tuple_iterator = value_iterator +
  ti_next :: "data_type option list"

definition TupleIterator_new :: "value_view \<Rightarrow> tuple_iterator" where
  "TupleIterator_new v =
     \<lparr>vi_decoder = vl_decoder v, vi_value = Value_none, ti_next = (case vl_type v of Some t \<Rightarrow> composite_types t | None \<Rightarrow> [])\<rparr>"

definition TupleIterator_next :: "tuple_iterator \<Rightarrow> bool outcome \<times> tuple_iterator" where
  "TupleIterator_next it =
     (case ti_next it of [] \<Rightarrow> (Done False, it) | t # ts \<Rightarrow> decode_into t False (it\<lparr>ti_next := ts\<rparr>))"

record map_iterator = value_iterator +
  mi_map :: value_view
  mi_key :: value_view
  mi_index :: i32
  mi_count :: i32

definition MapIterator_new :: "value_view \<Rightarrow> map_iterator" where
  "MapIterator_new v =
     \<lparr>vi_decoder = vl_decoder v, vi_value = Value_none, mi_map = v, mi_key = Value_none, mi_index = - 1, mi_count = vl_count v\<rparr>"

definition MapIterator_decode_pair :: "map_iterator \<Rightarrow> bool outcome \<times> map_iterator" where
  "MapIterator_decode_pair it =
     (case decode_value (primary_data_type (mi_map it)) True (vi_decoder it) of
        (Done k, d) \<Rightarrow> decode_into (secondary_data_type (mi_map it)) True (it\<lparr>vi_decoder := d, mi_key := k\<rparr>)
      | (r, d) \<Rightarrow> (returned r, it\<lparr>vi_decoder := d\<rparr>))"

definition MapIterator_next :: "map_iterator \<Rightarrow> bool outcome \<times> map_iterator" where
  "MapIterator_next it =
     (if mi_count it <=s mi_index it + 1 then (Done False, it)
      else MapIterator_decode_pair (it\<lparr>mi_index := mi_index it + 1\<rparr>))"

text \<open>\<open>current_ != end_\<close>, which is asserted, holds after every successful call of \<open>next\<close>.\<close>

record user_type_field_iterator = value_iterator +
  fi_current :: string
  fi_next :: "(string \<times> data_type option) list"

definition UserTypeFieldIterator_new :: "value_view \<Rightarrow> user_type_field_iterator" where
  "UserTypeFieldIterator_new v =
     \<lparr>vi_decoder = vl_decoder v, vi_value = Value_none, fi_current = '''',
      fi_next = (case vl_type v of Some t \<Rightarrow> user_type_fields t | None \<Rightarrow> [])\<rparr>"

definition UserTypeFieldIterator_next :: "user_type_field_iterator \<Rightarrow> bool outcome \<times> user_type_field_iterator" where
  "UserTypeFieldIterator_next it =
     (case fi_next it of
        [] \<Rightarrow> (Done False, it)
      | (name, t) # fs \<Rightarrow> decode_into t False (it\<lparr>fi_current := name, fi_next := fs\<rparr>))"

text \<open>A null pointer where the value does not fit.\<close>

definition cass_iterator_from_collection :: "value_view \<Rightarrow> collection_iterator option" where
  "cass_iterator_from_collection v =
     (if vl_is_null v \<or> \<not> Value_is_collection v then None else Some (CollectionIterator_new v))"

definition cass_iterator_from_tuple :: "value_view \<Rightarrow> tuple_iterator option" where
  "cass_iterator_from_tuple v = (if vl_is_null v \<or> \<not> Value_is_tuple v then None else Some (TupleIterator_new v))"

definition cass_iterator_from_map :: "value_view \<Rightarrow> map_iterator option" where
  "cass_iterator_from_map v = (if vl_is_null v \<or> \<not> Value_is_map v then None else Some (MapIterator_new v))"

definition cass_iterator_fields_from_user_type :: "value_view \<Rightarrow> user_type_field_iterator option" where
  "cass_iterator_fields_from_user_type v =
     (if vl_is_null v \<or> \<not> Value_is_user_type v then None else Some (UserTypeFieldIterator_new v))"

subsection \<open>Results and rows\<close>

text \<open>The table of the columns is built by adding the columns in order; it belongs to table \<open>0\<close>. A value of a row has the type of its column.\<close>

definition ResultMetadata_table :: "column_definition list \<Rightarrow> column_definition htable option" where
  "ResultMetadata_table columns =
     Option.bind (HashTable_new 0 (length columns)) (add_entries (map (\<lambda>c. HashTableEntry (byte_string (cd_name c)) c) columns))"

definition ResultMetadata_get_indices :: "column_definition list \<Rightarrow> string option \<Rightarrow> nat list option" where
  "ResultMetadata_get_indices columns name = Option.bind (ResultMetadata_table columns) (HashTable_get_indices name)"

primrec Value_of :: "data_type \<Rightarrow> decoded_value \<Rightarrow> value_view" where
  "Value_of t Null_value = Value_null (Some t)"
| "Value_of t (Regular_value d) = Value_regular t d"
| "Value_of t (Collection_value count d) = Value_collection t count d"

type_synonym row = "value_view list"

definition row_of :: "column_definition list \<Rightarrow> decoded_value list \<Rightarrow> row" where
  "row_of columns vs = map2 (\<lambda>c v. Value_of (cd_type c) v) columns vs"

definition ResultResponse_columns :: "result_response \<Rightarrow> column_definition list" where
  "ResultResponse_columns r = (case rr_metadata r of Some cs \<Rightarrow> cs | None \<Rightarrow> [])"

definition ResultResponse_first_row :: "result_response \<Rightarrow> row" where
  "ResultResponse_first_row r = row_of (ResultResponse_columns r) (rr_first_row r)"

text \<open>Metadata that came with the prepared statement, for a response without.\<close>

definition ResultResponse_set_metadata :: "column_definition list \<Rightarrow> result_response \<Rightarrow> result_response outcome" where
  "ResultResponse_set_metadata columns r = ResultResponse_decode_first_row (r\<lparr>rr_metadata := Some columns\<rparr>)"

definition cass_row_get_column :: "row \<Rightarrow> nat \<Rightarrow> value_view option" where
  "cass_row_get_column row index = (if index \<ge> length row then None else Some (row ! index))"

text \<open>Without metadata the table of columns is a null pointer. A row with fewer values than columns is read outside its vector.\<close>

definition Row_get_by_name :: "result_response \<Rightarrow> row \<Rightarrow> string option \<Rightarrow> value_view option outcome" where
  "Row_get_by_name r row name =
     (case Option.bind (rr_metadata r) (\<lambda>columns. ResultMetadata_get_indices columns name) of
        None \<Rightarrow> Out_of_bounds
      | Some [] \<Rightarrow> Done None
      | Some (i # _) \<Rightarrow> if i < length row then Done (Some (row ! i)) else Out_of_bounds)"

definition Row_get_string_by_name :: "result_response \<Rightarrow> row \<Rightarrow> string option \<Rightarrow> byte list option outcome" where
  "Row_get_string_by_name r row name =
     (case Row_get_by_name r row name of
        Done None \<Rightarrow> Done None
      | Done (Some v) \<Rightarrow> if vl_is_null v then Done None else map_outcome Some (Decoder_as_string (vl_decoder v))
      | _ \<Rightarrow> Out_of_bounds)"

record row_iterator =
  ri_row :: row
  ri_index :: i32

definition RowIterator_new :: "row \<Rightarrow> row_iterator" where
  "RowIterator_new row = \<lparr>ri_row = row, ri_index = - 1\<rparr>"

definition RowIterator_next :: "row_iterator \<Rightarrow> bool \<times> row_iterator" where
  "RowIterator_next it =
     (if length (ri_row it) \<le> unat (scast (ri_index it + 1) :: size_t) then (False, it)
      else (True, it\<lparr>ri_index := ri_index it + 1\<rparr>))"

definition RowIterator_column :: "row_iterator \<Rightarrow> value_view option" where
  "RowIterator_column it =
     (if 0 \<le> sint (ri_index it) \<and> nat (sint (ri_index it)) < length (ri_row it) then Some (ri_row it ! nat (sint (ri_index it))) else None)"

record result_iterator =
  rs_result :: result_response
  rs_decoder :: decoder
  rs_index :: i32
  rs_row :: row

definition ResultIterator_new :: "result_response \<Rightarrow> result_iterator" where
  "ResultIterator_new r = \<lparr>rs_result = r, rs_decoder = rr_decoder r, rs_index = - 1, rs_row = []\<rparr>"

text \<open>\<open>decode_row\<close> into a row: the values before one that cannot be read are in the row.\<close>

primrec decode_row_into :: "column_definition list \<Rightarrow> decoder \<Rightarrow> bool outcome \<times> row \<times> decoder" where
  "decode_row_into [] d = (Done True, [], d)"
| "decode_row_into (c # cs) d =
     (case decode_value (Some (cd_type c)) False d of
        (Done v, d) \<Rightarrow> (case decode_row_into cs d of (r, vs, d) \<Rightarrow> (r, v # vs, d))
      | (r, d) \<Rightarrow> (returned r, [], d))"

definition ResultIterator_next :: "result_iterator \<Rightarrow> bool outcome \<times> result_iterator" where
  "ResultIterator_next it =
     (if rr_row_count (rs_result it) <=s rs_index it + 1 then (Done False, it)
      else let it = it\<lparr>rs_index := rs_index it + 1\<rparr>
           in if sint (rs_index it) > 0
              then case decode_row_into (ResultResponse_columns (rs_result it)) (rs_decoder it) of
                     (r, row, d) \<Rightarrow> (r, it\<lparr>rs_decoder := d, rs_row := row\<rparr>)
              else (Done True, it))"

definition ResultIterator_row :: "result_iterator \<Rightarrow> row option" where
  "ResultIterator_row it =
     (if 0 \<le> sint (rs_index it) \<and> sint (rs_index it) < sint (rr_row_count (rs_result it))
      then Some (if sint (rs_index it) > 0 then rs_row it else ResultResponse_first_row (rs_result it)) else None)"

subsection \<open>Accessors of a result\<close>

definition cass_result_row_count :: "result_response \<Rightarrow> size_t" where
  "cass_result_row_count r = (if rr_kind r = CASS_RESULT_KIND_ROWS then scast (rr_row_count r) else 0)"

definition cass_result_column_count :: "result_response \<Rightarrow> nat" where
  "cass_result_column_count r = (if rr_kind r = CASS_RESULT_KIND_ROWS then ResultResponse_column_count r else 0)"

text \<open>The columns are asked before the kind; a result that has none is a call through a null pointer.\<close>

definition cass_result_column_name :: "result_response \<Rightarrow> nat \<Rightarrow> (cass_error + byte list) outcome" where
  "cass_result_column_name r index =
     (case rr_metadata r of
        None \<Rightarrow> Out_of_bounds
      | Some columns \<Rightarrow>
          if index \<ge> length columns then Done (Inl CASS_ERROR_LIB_INDEX_OUT_OF_BOUNDS)
          else if rr_kind r \<noteq> CASS_RESULT_KIND_ROWS then Done (Inl CASS_ERROR_LIB_BAD_PARAMS)
          else Done (Inr (cd_name (columns ! index))))"

definition cass_result_column_data_type :: "result_response \<Rightarrow> nat \<Rightarrow> data_type option outcome" where
  "cass_result_column_data_type r index =
     (if rr_kind r = CASS_RESULT_KIND_ROWS
      then case rr_metadata r of
             None \<Rightarrow> Out_of_bounds
           | Some columns \<Rightarrow> Done (if index < length columns then Some (cd_type (columns ! index)) else None)
      else Done None)"

definition cass_result_column_type :: "result_response \<Rightarrow> nat \<Rightarrow> value_type outcome" where
  "cass_result_column_type r index =
     map_outcome (\<lambda>t. case t of Some t \<Rightarrow> value_type_of t | None \<Rightarrow> CASS_VALUE_TYPE_UNKNOWN) (cass_result_column_data_type r index)"

definition cass_result_first_row :: "result_response \<Rightarrow> row option" where
  "cass_result_first_row r =
     (if rr_kind r = CASS_RESULT_KIND_ROWS \<and> sint (rr_row_count r) > 0 then Some (ResultResponse_first_row r) else None)"

definition cass_result_paging_state_token :: "result_response \<Rightarrow> cass_error + byte list" where
  "cass_result_paging_state_token r =
     (if \<not> rr_has_more_pages r then Inl CASS_ERROR_LIB_NO_PAGING_STATE else Inr (rr_paging_state r))"

subsection \<open>Cells\<close>

text \<open>A cell is what is between two sizes on the wire: null or some bytes. The size of an item of a collection has two bytes in the first two versions of the
  protocol, where items cannot be null.\<close>

definition short_size :: "bool \<Rightarrow> int \<Rightarrow> bool" where
  "short_size inside version \<longleftrightarrow> inside \<and> version < 3"

definition size_bytes :: "bool \<Rightarrow> int \<Rightarrow> nat \<Rightarrow> byte list" where
  "size_bytes inside version n = (if short_size inside version then encode_uint16 (of_nat n) else encode_int32 (of_nat n))"

definition size_fits :: "bool \<Rightarrow> int \<Rightarrow> nat \<Rightarrow> bool" where
  "size_fits inside version n \<longleftrightarrow> (if short_size inside version then n < 2 ^ 16 else n < 2 ^ 31)"

type_synonym cell = "byte list option"

definition cell_bytes :: "bool \<Rightarrow> int \<Rightarrow> cell \<Rightarrow> byte list" where
  "cell_bytes inside version c =
     (case c of None \<Rightarrow> encode_int32 (- 1) | Some b \<Rightarrow> size_bytes inside version (length b) @ b)"

definition cells_bytes :: "bool \<Rightarrow> int \<Rightarrow> cell list \<Rightarrow> byte list" where
  "cells_bytes inside version cs = concat (map (cell_bytes inside version) cs)"

text \<open>A cell that a column or an item of the type can have.\<close>

definition cell_ok :: "bool \<Rightarrow> int \<Rightarrow> data_type option \<times> cell \<Rightarrow> bool" where
  "cell_ok inside version tc \<longleftrightarrow>
     (case snd tc of
        None \<Rightarrow> \<not> short_size inside version
      | Some b \<Rightarrow> size_fits inside version (length b) \<and>
          (case fst tc of None \<Rightarrow> False | Some t \<Rightarrow> is_collection t \<longrightarrow> length (size_bytes True version 0) \<le> length b))"

text \<open>The value that is read from a cell that is followed by the bytes \<open>tail\<close>.\<close>

definition cell_decoder :: "int \<Rightarrow> byte list \<Rightarrow> byte list \<Rightarrow> decoder" where
  "cell_decoder version b tail = Decoder_new (b @ tail) (of_nat (length b)) version"

definition view_of :: "int \<Rightarrow> data_type option \<times> cell \<Rightarrow> byte list \<Rightarrow> value_view" where
  "view_of version tc tail =
     (case snd tc of
        None \<Rightarrow> Value_null (fst tc)
      | Some b \<Rightarrow>
          (case fst tc of
             None \<Rightarrow> Value_none
           | Some t \<Rightarrow>
               if is_collection t
               then case Decoder_decode_size (cell_decoder version b tail) of
                      (Done count, d) \<Rightarrow> Value_collection t count d
                    | _ \<Rightarrow> Value_none
               else Value_regular t (cell_decoder version b tail)))"

definition holds :: "int \<Rightarrow> data_type option \<times> cell \<Rightarrow> value_view \<Rightarrow> bool" where
  "holds version tc v \<longleftrightarrow> (\<exists>tail. v = view_of version tc tail)"

lemma length_size_bytes [simp]: "length (size_bytes inside version n) = (if short_size inside version then 2 else 4)"
  by (simp add: size_bytes_def codec_length)

lemma small_ucast: "n < 2 ^ 16 \<Longrightarrow> ucast (of_nat n :: u16) = (of_nat n :: i32)"
  by (rule word_unat_eq_iff [THEN iffD2]) (simp add: unat_ucast_up unat_of_nat)

lemma read_size:
  assumes "d_protocol_version d = version" "d_input d = size_bytes inside version n @ rest"
    and "length (size_bytes inside version n) \<le> unat (d_remaining d)" "size_fits inside version n"
  shows "(if inside then Decoder_decode_size else Decoder_decode_int32) d =
    (Done (of_nat n), advanced d (length (size_bytes inside version n)))"
proof (cases "short_size inside version")
  case True
  then have v: "inside" "version < 3" "n < 2 ^ 16" using assms(4) by (auto simp: short_size_def size_fits_def)
  have u: "decode_uint16 (d_input d) = Some (of_nat n, rest)" using assms(2) True uint16_codec.dec_enc by (simp add: size_bytes_def)
  show ?thesis using v assms u True
    by (simp add: Decoder_decode_size_def checked_read_def and_then_def check_remaining_def read_with_def decode_size_def
      word_less_nat_alt advanced_def size_bytes_def small_ucast codec_length)
next
  case False
  have u: "decode_int32 (d_input d) = Some (of_nat n, rest)" using assms(2) False int32_codec.dec_enc by (simp add: size_bytes_def)
  show ?thesis
  proof (cases inside)
    case True
    then have "\<not> version < 3" using False by (simp add: short_size_def)
    then show ?thesis using assms u True False
      by (simp add: Decoder_decode_size_def checked_read_def and_then_def check_remaining_def read_with_def decode_size_def
        word_less_nat_alt advanced_def size_bytes_def codec_length)
  next
    case f: False
    then show ?thesis using assms u False
      by (simp add: Decoder_decode_int32_def checked_read_def and_then_def check_remaining_def read_with_def
        word_less_nat_alt advanced_def size_bytes_def codec_length)
  qed
qed

lemma read_null_size:
  assumes "d_protocol_version d = version" "d_input d = encode_int32 (- 1) @ rest" "4 \<le> unat (d_remaining d)" "\<not> short_size inside version"
  shows "(if inside then Decoder_decode_size else Decoder_decode_int32) d = (Done (- 1), advanced d 4)"
proof -
  have u: "decode_int32 (d_input d) = Some (- 1, rest)" using assms(2) int32_codec.dec_enc by simp
  have r: "drop 4 (d_input d) = rest" using assms(2) by (simp add: codec_length)
  show ?thesis
  proof (cases inside)
    case True
    then have "\<not> version < 3" using assms(4) by (simp add: short_size_def)
    then show ?thesis using assms u r True
      by (simp add: Decoder_decode_size_def checked_read_def and_then_def check_remaining_def read_with_def decode_size_def word_less_nat_alt advanced_def)
  next
    case False
    then show ?thesis using assms u r
      by (simp add: Decoder_decode_int32_def checked_read_def and_then_def check_remaining_def read_with_def word_less_nat_alt advanced_def)
  qed
qed

text \<open>A collection that is long enough has a count.\<close>

lemma count_read:
  assumes "length (size_bytes True version 0) \<le> length b" "length b < 2 ^ 31"
  shows "\<exists>count d. Decoder_decode_size (cell_decoder version b tail) = (Done count, d)"
proof (cases "version < 3")
  case True
  then have "2 \<le> length b" using assms by (simp add: short_size_def)
  moreover from this obtain n where "decode_uint16 (b @ tail) = Some (n, drop 2 (b @ tail))"
    using uint16_codec.dec_enough [of "b @ tail"] by auto
  moreover have "unat (of_nat (length b) :: size_t) = length b" using assms(2) by (simp add: unat_of_nat)
  ultimately show ?thesis using True
    by (simp add: Decoder_decode_size_def cell_decoder_def Decoder_new_def checked_read_def and_then_def check_remaining_def read_with_def
      decode_size_def word_less_nat_alt)
next
  case False
  then have "4 \<le> length b" using assms by (simp add: short_size_def)
  moreover from this obtain n where "decode_int32 (b @ tail) = Some (n, drop 4 (b @ tail))"
    using int32_codec.dec_enough [of "b @ tail"] by auto
  moreover have "unat (of_nat (length b) :: size_t) = length b" using assms(2) by (simp add: unat_of_nat)
  ultimately show ?thesis using False
    by (simp add: Decoder_decode_size_def cell_decoder_def Decoder_new_def checked_read_def and_then_def check_remaining_def read_with_def
      decode_size_def word_less_nat_alt)
qed

lemma size_fits_nonneg: "size_fits inside version n \<Longrightarrow> sint (of_nat n :: i32) = int n"
  by (rule sint_of_nat_small) (auto simp: size_fits_def split: if_splits)

lemma size_fits_scast:
  assumes "size_fits inside version n"
  shows "scast (of_nat n :: i32) = (of_nat n :: size_t)"
proof -
  have "sint (of_nat n :: i32) = int n" by (rule size_fits_nonneg [OF assms])
  then show ?thesis by (metis scast_eq of_int_of_nat_eq)
qed

lemma decode_value_cell:
  assumes ok: "cell_ok inside version tc" and v: "d_protocol_version d = version"
    and i: "d_input d = cell_bytes inside version (snd tc) @ tail" and r: "length (cell_bytes inside version (snd tc)) \<le> unat (d_remaining d)"
  shows "decode_value (fst tc) inside d = (Done (view_of version tc tail), advanced d (length (cell_bytes inside version (snd tc))))"
proof (cases "snd tc")
  case None
  have "(if inside then Decoder_decode_size else Decoder_decode_int32) d = (Done (- 1), advanced d 4)"
    using ok i r None v by (intro read_null_size [of d version tail]) (auto simp: cell_ok_def cell_bytes_def codec_length)
  then show ?thesis using None
    by (cases tc) (auto simp: decode_value_def Decoder_decode_value_def and_then_def view_of_def cell_bytes_def codec_length)
next
  case (Some b)
  let ?n = "length b" and ?s = "size_bytes inside version (length b)"
  obtain t where t: "fst tc = Some t" and fits: "size_fits inside version ?n" and col: "is_collection t \<Longrightarrow> length (size_bytes True version 0) \<le> ?n"
    using ok Some by (auto simp: cell_ok_def split: option.splits)
  have n31: "?n < 2 ^ 31" using fits by (auto simp: size_fits_def split: if_splits)
  have sz: "(if inside then Decoder_decode_size else Decoder_decode_int32) d = (Done (of_nat ?n), advanced d (length ?s))"
    using v i r Some fits by (intro read_size [where rest = "b @ tail"]) (auto simp: cell_bytes_def)
  have in1: "d_input (advanced d (length ?s)) = b @ tail" using i Some by (simp add: cell_bytes_def)
  have u: "unat (of_nat ?n :: size_t) = ?n" using n31 by (simp add: unat_of_nat)
  have nn: "0 \<le> sint (of_nat ?n :: i32)" using size_fits_nonneg [OF fits] by simp
  have adv: "advanced d (length ?s) \<lparr>d_input := drop ?n (b @ tail), d_remaining := d_remaining (advanced d (length ?s)) - of_nat ?n\<rparr> =
      advanced d (length (cell_bytes inside version (snd tc)))"
    using i Some by (simp add: advanced_def cell_bytes_def)
  have tc: "tc = (Some t, Some b)" using t Some by (cases tc) auto
  show ?thesis
  proof (cases "is_collection t")
    case True
    obtain count d' where c: "Decoder_decode_size (cell_decoder version b tail) = (Done count, d')"
      using count_read [OF col [OF True] n31] by blast
    then show ?thesis using sz in1 u nn adv True t v tc size_fits_scast [OF fits]
      by (simp add: decode_value_def Decoder_decode_value_def and_then_def Let_def view_of_def cell_decoder_def)
  next
    case False
    then show ?thesis using sz in1 u nn adv t v tc size_fits_scast [OF fits]
      by (simp add: decode_value_def Decoder_decode_value_def and_then_def Let_def view_of_def cell_decoder_def)
  qed
qed

subsection \<open>Calling an iterator until it ends\<close>

text \<open>The loop \<open>while (iterator.next()) use(iterator.value())\<close>, with a bound on its rounds. It fails when the bound is reached or when the iterator reads outside
  its bytes.\<close>

primrec drain :: "nat \<Rightarrow> ('it \<Rightarrow> bool outcome \<times> 'it) \<Rightarrow> ('it \<Rightarrow> 'v) \<Rightarrow> 'it \<Rightarrow> 'v list option" where
  "drain 0 step current it = None"
| "drain (Suc n) step current it =
     (case step it of
        (Done True, it') \<Rightarrow> map_option ((#) (current it')) (drain n step current it')
      | (Done False, _) \<Rightarrow> Some []
      | _ \<Rightarrow> None)"

text \<open>The contract of an iterator: as long as it has something to yield a call is successful and moves to the first of it.\<close>

locale sequence_iterator =
  fixes step :: "'it \<Rightarrow> bool outcome \<times> 'it" and current :: "'it \<Rightarrow> 'v" and yields :: "'it \<Rightarrow> 'v list \<Rightarrow> bool"
  assumes yields_nil: "yields it [] \<Longrightarrow> \<exists>it'. step it = (Done False, it')"
    and yields_cons: "yields it (v # vs) \<Longrightarrow> \<exists>it'. step it = (Done True, it') \<and> current it' = v \<and> yields it' vs"
begin

lemma drain_all: "yields it vs \<Longrightarrow> drain (Suc (length vs) + extra) step current it = Some vs"
proof (induction vs arbitrary: it)
  case Nil
  then show ?case using yields_nil by fastforce
next
  case (Cons v vs)
  then obtain it' where "step it = (Done True, it')" "current it' = v" "yields it' vs" using yields_cons by blast
  then show ?case using Cons.IH [of it'] by simp
qed

end

primrec views :: "bool \<Rightarrow> int \<Rightarrow> (data_type option \<times> cell) list \<Rightarrow> byte list \<Rightarrow> value_view list" where
  "views inside version [] tail = []"
| "views inside version (tc # tcs) tail =
     view_of version tc (cells_bytes inside version (map snd tcs) @ tail) # views inside version tcs tail"

lemma length_views [simp]: "length (views inside version tcs tail) = length tcs"
  by (induction tcs) simp_all

lemma views_nil [simp]: "[] = views inside version tcs tail \<longleftrightarrow> tcs = []" "views inside version tcs tail = [] \<longleftrightarrow> tcs = []"
  by (cases tcs; simp)+

lemma views_hold: "list_all2 (holds version) tcs (views inside version tcs tail)"
  by (induction tcs) (auto simp: holds_def)

definition cells_ahead :: "bool \<Rightarrow> (data_type option \<times> cell) list \<Rightarrow> byte list \<Rightarrow> decoder \<Rightarrow> bool" where
  "cells_ahead inside tcs tail d \<longleftrightarrow>
     d_input d = cells_bytes inside (d_protocol_version d) (map snd tcs) @ tail \<and>
     length (cells_bytes inside (d_protocol_version d) (map snd tcs)) \<le> unat (d_remaining d) \<and>
     (\<forall>tc \<in> set tcs. cell_ok inside (d_protocol_version d) tc)"

lemma cells_ahead_step:
  assumes "cells_ahead inside (tc # tcs) tail d"
  shows "\<exists>d'. decode_value (fst tc) inside d =
      (Done (view_of (d_protocol_version d) tc (cells_bytes inside (d_protocol_version d) (map snd tcs) @ tail)), d') \<and>
    cells_ahead inside tcs tail d' \<and> d_protocol_version d' = d_protocol_version d"
proof -
  let ?c = "cell_bytes inside (d_protocol_version d) (snd tc)"
  have i: "d_input d = ?c @ cells_bytes inside (d_protocol_version d) (map snd tcs) @ tail"
    and r: "length ?c + length (cells_bytes inside (d_protocol_version d) (map snd tcs)) \<le> unat (d_remaining d)"
    and ok: "cell_ok inside (d_protocol_version d) tc" "\<forall>tc \<in> set tcs. cell_ok inside (d_protocol_version d) tc"
    using assms by (auto simp: cells_ahead_def cells_bytes_def)
  have "decode_value (fst tc) inside d =
      (Done (view_of (d_protocol_version d) tc (cells_bytes inside (d_protocol_version d) (map snd tcs) @ tail)), advanced d (length ?c))"
    using i r by (intro decode_value_cell [OF ok(1)]) auto
  moreover have "cells_ahead inside tcs tail (advanced d (length ?c))"
    using i r ok(2) by (auto simp: cells_ahead_def unat_remaining_advanced)
  ultimately show ?thesis by auto
qed

lemma decode_into_ahead:
  assumes "cells_ahead inside (tc # tcs) tail (vi_decoder it)"
  shows "\<exists>d'. decode_into (fst tc) inside it = (Done True, it\<lparr>vi_decoder := d',
      vi_value := view_of (d_protocol_version (vi_decoder it)) tc (cells_bytes inside (d_protocol_version (vi_decoder it)) (map snd tcs) @ tail)\<rparr>) \<and>
    cells_ahead inside tcs tail d' \<and> d_protocol_version d' = d_protocol_version (vi_decoder it)"
  using cells_ahead_step [OF assms] by (auto simp: decode_into_def)

text \<open>The index of an iterator when \<open>n\<close> of \<open>count\<close> are left.\<close>

definition items_left :: "i32 \<Rightarrow> i32 \<Rightarrow> nat \<Rightarrow> bool" where
  "items_left index count n \<longleftrightarrow> - 1 \<le> sint index \<and> sint count = sint index + 1 + int n"

lemma sint_plus_one:
  assumes "sint index + 1 < 2 ^ 31"
  shows "sint (index + 1 :: i32) = sint index + 1"
proof -
  have "- (2 ^ 31) \<le> sint index" using sint_ge [of index] by simp
  then have "signed_take_bit 31 (sint index + 1) = sint index + 1" using assms by (intro signed_take_bit_int_eq_self) simp_all
  moreover have "sint (word_of_int (sint index + 1) :: i32) = signed_take_bit 31 (sint index + 1)"
    by (subst signed_of_int) simp
  ultimately show ?thesis by simp
qed

lemma items_left_simps:
  assumes "items_left index count n"
  shows "sint (index + 1) = sint index + 1" "count <=s index + 1 \<longleftrightarrow> n = 0" "n = Suc m \<Longrightarrow> items_left (index + 1) count m"
proof -
  have "sint count < 2 ^ 31" using sint_less [of count] by simp
  then have "sint index + 1 < 2 ^ 31" using assms by (simp add: items_left_def)
  then show s: "sint (index + 1) = sint index + 1" by (rule sint_plus_one)
  show "count <=s index + 1 \<longleftrightarrow> n = 0" using assms s by (simp add: word_sle_eq items_left_def)
  show "items_left (index + 1) count m" if "n = Suc m" using assms s that by (simp add: items_left_def)
qed

subsection \<open>Collections\<close>

definition collection_yields :: "collection_iterator \<Rightarrow> value_view list \<Rightarrow> bool" where
  "collection_yields it vs \<longleftrightarrow>
     (\<exists>tcs tail. vs = views True (d_protocol_version (vi_decoder it)) tcs tail \<and> cells_ahead True tcs tail (vi_decoder it) \<and>
        items_left (ci_index it) (ci_count it) (length tcs) \<and>
        (\<forall>j < length tcs. fst (tcs ! j) = CollectionIterator_item_type (ci_collection it) (ci_index it + 1 + of_nat j)))"

interpretation collection_items: sequence_iterator CollectionIterator_next vi_value collection_yields
proof
  fix it assume "collection_yields it []"
  then obtain tcs where "items_left (ci_index it) (ci_count it) (length tcs)" "tcs = []"
    by (auto simp: collection_yields_def)
  then show "\<exists>it'. CollectionIterator_next it = (Done False, it')"
    using items_left_simps(2) by (auto simp: CollectionIterator_next_def)
next
  fix it v vs assume "collection_yields it (v # vs)"
  then obtain tc tcs tail where h: "v # vs = views True (d_protocol_version (vi_decoder it)) (tc # tcs) tail"
      "cells_ahead True (tc # tcs) tail (vi_decoder it)" "items_left (ci_index it) (ci_count it) (Suc (length tcs))"
      "\<forall>j < Suc (length tcs). fst ((tc # tcs) ! j) = CollectionIterator_item_type (ci_collection it) (ci_index it + 1 + of_nat j)"
    unfolding collection_yields_def by (metis length_Cons neq_Nil_conv views.simps(1) list.distinct(1))
  let ?it = "it\<lparr>ci_index := ci_index it + 1\<rparr>"
  have t: "fst tc = CollectionIterator_item_type (ci_collection it) (ci_index it + 1)" using h(4) [rule_format, of 0] by simp
  have more: "\<not> ci_count it <=s ci_index it + 1" using items_left_simps(2) [OF h(3)] by simp
  obtain d' where d': "decode_into (fst tc) True ?it = (Done True, ?it\<lparr>vi_decoder := d',
      vi_value := view_of (d_protocol_version (vi_decoder ?it)) tc (cells_bytes True (d_protocol_version (vi_decoder ?it)) (map snd tcs) @ tail)\<rparr>)"
      "cells_ahead True tcs tail d'" "d_protocol_version d' = d_protocol_version (vi_decoder it)"
    using decode_into_ahead [of True tc tcs tail ?it] h(2) by auto
  have rest: "\<forall>j < length tcs. fst (tcs ! j) = CollectionIterator_item_type (ci_collection it) (ci_index it + 1 + 1 + of_nat j)"
  proof (intro allI impI)
    fix j assume "j < length tcs"
    then show "fst (tcs ! j) = CollectionIterator_item_type (ci_collection it) (ci_index it + 1 + 1 + of_nat j)"
      using h(4) [rule_format, of "Suc j"] by (simp add: algebra_simps)
  qed
  show "\<exists>it'. CollectionIterator_next it = (Done True, it') \<and> vi_value it' = v \<and> collection_yields it' vs"
    using d' h(1) rest items_left_simps(3) [OF h(3) refl] more t
    by (auto simp: CollectionIterator_next_def collection_yields_def)
qed

lemma views_cons_cases:
  assumes "v # vs = views inside version tcs tail"
  obtains tc tcs' where "tcs = tc # tcs'" "v = view_of version tc (cells_bytes inside version (map snd tcs') @ tail)" "vs = views inside version tcs' tail"
  using assms that by (cases tcs) auto

subsection \<open>Tuples, user types and maps\<close>

definition tuple_yields :: "tuple_iterator \<Rightarrow> value_view list \<Rightarrow> bool" where
  "tuple_yields it vs \<longleftrightarrow>
     (\<exists>tcs tail. vs = views False (d_protocol_version (vi_decoder it)) tcs tail \<and> cells_ahead False tcs tail (vi_decoder it) \<and>
        ti_next it = map fst tcs)"

interpretation tuple_items: sequence_iterator TupleIterator_next vi_value tuple_yields
proof
  fix it assume "tuple_yields it []"
  then show "\<exists>it'. TupleIterator_next it = (Done False, it')" by (auto simp: tuple_yields_def TupleIterator_next_def)
next
  fix it v vs assume "tuple_yields it (v # vs)"
  then obtain tc tcs tail where h: "v = view_of (d_protocol_version (vi_decoder it)) tc (cells_bytes False (d_protocol_version (vi_decoder it)) (map snd tcs) @ tail)"
      "vs = views False (d_protocol_version (vi_decoder it)) tcs tail" "cells_ahead False (tc # tcs) tail (vi_decoder it)" "ti_next it = map fst (tc # tcs)"
    unfolding tuple_yields_def by (auto elim!: views_cons_cases)
  let ?it = "it\<lparr>ti_next := map fst tcs\<rparr>"
  obtain d' where d': "decode_into (fst tc) False ?it = (Done True, ?it\<lparr>vi_decoder := d', vi_value := v\<rparr>)"
      "cells_ahead False tcs tail d'" "d_protocol_version d' = d_protocol_version (vi_decoder it)"
    using decode_into_ahead [of False tc tcs tail ?it] h(1,3) by auto
  have "tuple_yields (?it\<lparr>vi_decoder := d', vi_value := v\<rparr>) vs"
    unfolding tuple_yields_def using d'(2,3) h(2) by (intro exI [of _ tcs] exI [of _ tail]) simp
  then show "\<exists>it'. TupleIterator_next it = (Done True, it') \<and> vi_value it' = v \<and> tuple_yields it' vs"
    using d'(1) h(4) by (simp add: TupleIterator_next_def)
qed

definition field_of :: "user_type_field_iterator \<Rightarrow> string \<times> value_view" where
  "field_of it = (fi_current it, vi_value it)"

definition field_yields :: "user_type_field_iterator \<Rightarrow> (string \<times> value_view) list \<Rightarrow> bool" where
  "field_yields it vs \<longleftrightarrow>
     (\<exists>tcs tail. map snd vs = views False (d_protocol_version (vi_decoder it)) tcs tail \<and> cells_ahead False tcs tail (vi_decoder it) \<and>
        map fst vs = map fst (fi_next it) \<and> map snd (fi_next it) = map fst tcs)"

interpretation user_type_items: sequence_iterator UserTypeFieldIterator_next field_of field_yields
proof
  fix it assume "field_yields it []"
  then show "\<exists>it'. UserTypeFieldIterator_next it = (Done False, it')" by (auto simp: field_yields_def UserTypeFieldIterator_next_def)
next
  fix it v vs assume "field_yields it (v # vs)"
  then obtain tcs0 tail where y: "map snd (v # vs) = views False (d_protocol_version (vi_decoder it)) tcs0 tail" "cells_ahead False tcs0 tail (vi_decoder it)"
      "map fst (v # vs) = map fst (fi_next it)" "map snd (fi_next it) = map fst tcs0"
    unfolding field_yields_def by blast
  from y(1) obtain tc tcs where tcs: "tcs0 = tc # tcs" and h: "snd v = view_of (d_protocol_version (vi_decoder it)) tc (cells_bytes False (d_protocol_version (vi_decoder it)) (map snd tcs) @ tail)"
      "map snd vs = views False (d_protocol_version (vi_decoder it)) tcs tail"
    by (auto elim!: views_cons_cases)
  from y(3) obtain f fs where fs: "fi_next it = f # fs" by (cases "fi_next it") auto
  have n: "fst f = fst v" "map fst fs = map fst vs" "snd f = fst tc" "map snd fs = map fst tcs" using y(3,4) fs tcs by auto
  let ?it = "it\<lparr>fi_current := fst f, fi_next := fs\<rparr>"
  obtain d' where d': "decode_into (fst tc) False ?it = (Done True, ?it\<lparr>vi_decoder := d', vi_value := snd v\<rparr>)"
      "cells_ahead False tcs tail d'" "d_protocol_version d' = d_protocol_version (vi_decoder it)"
    using decode_into_ahead [of False tc tcs tail ?it] y(2) tcs h(1) by auto
  have "UserTypeFieldIterator_next it = (Done True, ?it\<lparr>vi_decoder := d', vi_value := snd v\<rparr>)"
    using d'(1) n fs by (cases f) (simp add: UserTypeFieldIterator_next_def)
  moreover have "field_yields (?it\<lparr>vi_decoder := d', vi_value := snd v\<rparr>) vs"
    unfolding field_yields_def using d'(2,3) n h(2) by (intro exI [of _ tcs] exI [of _ tail]) simp
  ultimately show "\<exists>it'. UserTypeFieldIterator_next it = (Done True, it') \<and> field_of it' = v \<and> field_yields it' vs"
    using n(1) by (simp add: field_of_def)
qed

definition flat_pairs :: "('a \<times> 'a) list \<Rightarrow> 'a list" where
  "flat_pairs ps = concat (map (\<lambda>(a, b). [a, b]) ps)"

lemma flat_pairs_simps [simp]: "flat_pairs [] = []" "flat_pairs ((a, b) # ps) = a # b # flat_pairs ps"
  by (simp_all add: flat_pairs_def)

definition pair_of :: "map_iterator \<Rightarrow> value_view \<times> value_view" where
  "pair_of it = (mi_key it, vi_value it)"

definition map_yields :: "map_iterator \<Rightarrow> (value_view \<times> value_view) list \<Rightarrow> bool" where
  "map_yields it ps \<longleftrightarrow>
     (\<exists>tcs tail. flat_pairs ps = views True (d_protocol_version (vi_decoder it)) tcs tail \<and> cells_ahead True tcs tail (vi_decoder it) \<and>
        items_left (mi_index it) (mi_count it) (length ps) \<and>
        map fst tcs = flat_pairs (replicate (length ps) (primary_data_type (mi_map it), secondary_data_type (mi_map it))))"

interpretation map_items: sequence_iterator MapIterator_next pair_of map_yields
proof
  fix it assume "map_yields it []"
  then have "items_left (mi_index it) (mi_count it) 0" by (auto simp: map_yields_def)
  then show "\<exists>it'. MapIterator_next it = (Done False, it')" using items_left_simps(2) by (auto simp: MapIterator_next_def)
next
  fix it p ps assume "map_yields it (p # ps)"
  then obtain tcs0 tail where y: "flat_pairs (p # ps) = views True (d_protocol_version (vi_decoder it)) tcs0 tail" "cells_ahead True tcs0 tail (vi_decoder it)"
      "items_left (mi_index it) (mi_count it) (Suc (length ps))"
      "map fst tcs0 = flat_pairs (replicate (Suc (length ps)) (primary_data_type (mi_map it), secondary_data_type (mi_map it)))"
    unfolding map_yields_def length_Cons by blast
  obtain k v where p: "p = (k, v)" by (cases p)
  let ?ver = "d_protocol_version (vi_decoder it)"
  from y(1) p obtain tk tv tcs where tcs: "tcs0 = tk # tv # tcs"
      and kv: "k = view_of ?ver tk (cells_bytes True ?ver (map snd (tv # tcs)) @ tail)" "v = view_of ?ver tv (cells_bytes True ?ver (map snd tcs) @ tail)"
      and r: "flat_pairs ps = views True ?ver tcs tail"
    by (auto elim!: views_cons_cases)
  have t: "fst tk = primary_data_type (mi_map it)" "fst tv = secondary_data_type (mi_map it)"
      "map fst tcs = flat_pairs (replicate (length ps) (primary_data_type (mi_map it), secondary_data_type (mi_map it)))"
    using y(4) tcs by simp_all
  obtain d1 where d1: "decode_value (fst tk) True (vi_decoder it) = (Done k, d1)" "cells_ahead True (tv # tcs) tail d1" "d_protocol_version d1 = ?ver"
    using cells_ahead_step y(2) tcs kv(1) by blast
  let ?it = "it\<lparr>mi_index := mi_index it + 1\<rparr>\<lparr>vi_decoder := d1, mi_key := k\<rparr>"
  obtain d2 where d2: "decode_into (fst tv) True ?it = (Done True, ?it\<lparr>vi_decoder := d2, vi_value := v\<rparr>)"
      "cells_ahead True tcs tail d2" "d_protocol_version d2 = ?ver"
    using decode_into_ahead [of True tv tcs tail ?it] d1(2,3) kv(2) by auto
  have "MapIterator_next it = (Done True, ?it\<lparr>vi_decoder := d2, vi_value := v\<rparr>)"
    using items_left_simps(2) [OF y(3)] d1(1) d2(1) t(1,2) by (simp add: MapIterator_next_def MapIterator_decode_pair_def)
  moreover have "map_yields (?it\<lparr>vi_decoder := d2, vi_value := v\<rparr>) ps"
    unfolding map_yields_def using d2(2,3) r t(3) items_left_simps(3) [OF y(3) refl]
    by (intro exI [of _ tcs] exI [of _ tail]) simp
  ultimately show "\<exists>it'. MapIterator_next it = (Done True, it') \<and> pair_of it' = p \<and> map_yields it' ps"
    using p by (simp add: pair_of_def)
qed

subsection \<open>What was bound is read back\<close>

definition item_type :: "data_type \<Rightarrow> nat \<Rightarrow> data_type option" where
  "item_type t j =
     (let k = (if value_type_of t = CASS_VALUE_TYPE_MAP \<and> odd j then 1 else 0)
      in if k < length (composite_types t) then composite_types t ! k else None)"

definition item_cells :: "collection \<Rightarrow> (data_type option \<times> cell) list" where
  "item_cells c = map (\<lambda>j. (item_type (cl_type c) j, Some (buffer_bytes (cl_items c ! j)))) [0..<length (cl_items c)]"

definition item_count :: "collection \<Rightarrow> nat" where
  "item_count c = (if value_type_of (cl_type c) = CASS_VALUE_TYPE_MAP then length (cl_items c) div 2 else length (cl_items c))"

definition sendable :: "int \<Rightarrow> collection \<Rightarrow> bool" where
  "sendable version c \<longleftrightarrow>
     is_collection (cl_type c) \<and> (\<forall>tc \<in> set (item_cells c). cell_ok True version tc) \<and>
     length (cl_items c) < 2 ^ 31 \<and> size_fits True version (item_count c) \<and> length (collection_body version c) < 2 ^ 31 \<and>
     (value_type_of (cl_type c) = CASS_VALUE_TYPE_MAP \<longrightarrow> even (length (cl_items c)))"

lemma length_item_cells [simp]: "length (item_cells c) = length (cl_items c)"
  by (simp add: item_cells_def)

lemma item_cells_bytes: "map snd (item_cells c) = map (\<lambda>i. Some (buffer_bytes i)) (cl_items c)"
proof -
  have "map snd (item_cells c) = map (\<lambda>j. Some (buffer_bytes (cl_items c ! j))) [0..<length (cl_items c)]"
    by (simp add: item_cells_def o_def)
  also have "\<dots> = map (\<lambda>i. Some (buffer_bytes i)) (map ((!) (cl_items c)) [0..<length (cl_items c)])" by simp
  finally show ?thesis by (simp only: map_nth)
qed

lemma collection_body_cells:
  assumes "size_fits True version (item_count c)"
  shows "collection_body version c = size_bytes True version (item_count c) @ cells_bytes True version (map snd (item_cells c))"
proof -
  have n: "get_count c = of_nat (item_count c)" by (simp add: get_count_def item_count_def)
  show ?thesis
  proof (cases "version < 3")
    case True
    have "ucast (of_nat (item_count c) :: i32) = (of_nat (item_count c) :: u16)" by (rule bit_word_eqI) (simp add: bit_simps)
    then show ?thesis using True n
      by (simp add: collection_body_def size_bytes_def short_size_def item_cells_bytes cells_bytes_def cell_bytes_def bytes16_def o_def)
  next
    case False
    then show ?thesis using n
      by (simp add: collection_body_def size_bytes_def short_size_def item_cells_bytes cells_bytes_def cell_bytes_def bytes32_def o_def)
  qed
qed

lemma collection_view:
  assumes "sendable version c" "holds version (Some (cl_type c), Some (collection_body version c)) v"
  shows "\<exists>d tail. v = Value_collection (cl_type c) (of_nat (item_count c)) d \<and> d_protocol_version d = version \<and> cells_ahead True (item_cells c) tail d"
proof -
  obtain tail where tail: "v = view_of version (Some (cl_type c), Some (collection_body version c)) tail" using assms(2) by (auto simp: holds_def)
  let ?b = "collection_body version c" and ?s = "size_bytes True version (item_count c)"
  let ?d = "cell_decoder version ?b tail"
  have b: "?b = ?s @ cells_bytes True version (map snd (item_cells c))" using assms(1) by (intro collection_body_cells) (simp add: sendable_def)
  have d: "d_protocol_version ?d = version" "d_input ?d = ?s @ cells_bytes True version (map snd (item_cells c)) @ tail"
    using b by (simp_all add: cell_decoder_def Decoder_new_def)
  have r: "unat (d_remaining ?d) = length ?b" using assms(1) by (simp add: cell_decoder_def Decoder_new_def sendable_def unat_of_nat)
  have le: "length ?s \<le> unat (d_remaining ?d)" unfolding r using b by simp
  have "Decoder_decode_size ?d = (Done (of_nat (item_count c)), advanced ?d (length ?s))"
    using read_size [OF d le] assms(1) by (simp add: sendable_def)
  then have "v = Value_collection (cl_type c) (of_nat (item_count c)) (advanced ?d (length ?s))"
    using tail assms(1) by (simp add: view_of_def sendable_def)
  moreover have "cells_ahead True (item_cells c) tail (advanced ?d (length ?s))"
    using d assms(1) r b unat_remaining_advanced [OF le] by (simp add: cells_ahead_def sendable_def del: length_size_bytes)
  ultimately show ?thesis using d(1) by (intro exI conjI) (assumption | simp)+
qed

lemma item_type_here:
  assumes "j < length (cl_items c)" "length (cl_items c) < 2 ^ 31" "is_collection (cl_type c)"
  shows "CollectionIterator_item_type (Value_collection (cl_type c) n d) (of_nat j) = item_type (cl_type c) j"
proof -
  have "sint (of_nat j :: i32) = int j" using assms by (intro sint_of_nat_small) simp
  then have "sint (of_nat j :: i32) mod 2 = 0 \<longleftrightarrow> even j" by presburger
  then show ?thesis using assms(3)
    by (auto simp: CollectionIterator_item_type_def item_type_def Value_collection_def Value_value_type_def primary_data_type_def secondary_data_type_def)
qed

lemma item_count_left:
  assumes "sendable version c"
  shows "items_left (- 1) (if value_type_of (cl_type c) = CASS_VALUE_TYPE_MAP then 2 * of_nat (item_count c) else of_nat (item_count c)) (length (cl_items c))"
    and "items_left (- 1) (of_nat (item_count c)) (item_count c)"
proof -
  have l: "length (cl_items c) < 2 ^ 31" "value_type_of (cl_type c) = CASS_VALUE_TYPE_MAP \<Longrightarrow> even (length (cl_items c))"
    using assms by (auto simp: sendable_def)
  have "(if value_type_of (cl_type c) = CASS_VALUE_TYPE_MAP then 2 * of_nat (item_count c) else of_nat (item_count c)) = (of_nat (length (cl_items c)) :: i32)"
  proof (cases "value_type_of (cl_type c) = CASS_VALUE_TYPE_MAP")
    case True
    then have "2 * item_count c = length (cl_items c)" using l(2) by (simp add: item_count_def)
    then have "of_nat (2 * item_count c) = (of_nat (length (cl_items c)) :: i32)" by simp
    then show ?thesis using True by simp
  qed (simp add: item_count_def)
  moreover have "sint (of_nat (length (cl_items c)) :: i32) = int (length (cl_items c))" using l by (intro sint_of_nat_small) simp
  ultimately show "items_left (- 1) (if value_type_of (cl_type c) = CASS_VALUE_TYPE_MAP then 2 * of_nat (item_count c) else of_nat (item_count c)) (length (cl_items c))"
    by (simp add: items_left_def)
  have "item_count c \<le> length (cl_items c)" by (simp add: item_count_def)
  then have "item_count c < 2 ^ 31" using l(1) by linarith
  then have "sint (of_nat (item_count c) :: i32) = int (item_count c)" by (intro sint_of_nat_small) simp
  then show "items_left (- 1) (of_nat (item_count c)) (item_count c)" by (simp add: items_left_def)
qed

lemma value_collection_simps [simp]:
  "vl_type (Value_collection t n d) = Some t" "vl_count (Value_collection t n d) = n" "vl_decoder (Value_collection t n d) = d"
  "vl_is_null (Value_collection t n d) = False"
  by (simp_all add: Value_collection_def)

lemma collection_iterated:
  assumes s: "sendable version c" and v: "v = Value_collection (cl_type c) (of_nat (item_count c)) d" "d_protocol_version d = version"
    and a: "cells_ahead True (item_cells c) tail d"
  shows "Option.bind (cass_iterator_from_collection v) (drain (Suc (length (cl_items c))) CollectionIterator_next vi_value) =
    Some (views True version (item_cells c) tail)"
proof -
  let ?it = "CollectionIterator_new v"
  have col: "is_collection (cl_type c)" using s by (simp add: sendable_def)
  have "collection_yields ?it (views True version (item_cells c) tail)"
    unfolding collection_yields_def
  proof (intro exI conjI)
    show "views True version (item_cells c) tail = views True (d_protocol_version (vi_decoder ?it)) (item_cells c) tail"
      using v by (simp add: CollectionIterator_new_def)
    show "cells_ahead True (item_cells c) tail (vi_decoder ?it)" using v a by (simp add: CollectionIterator_new_def)
    show "items_left (ci_index ?it) (ci_count ?it) (length (item_cells c))"
      using item_count_left(1) [OF s] v by (simp add: CollectionIterator_new_def Value_value_type_def split: if_splits)
    show "\<forall>j < length (item_cells c). fst (item_cells c ! j) = CollectionIterator_item_type (ci_collection ?it) (ci_index ?it + 1 + of_nat j)"
      using s v(1) item_type_here [of _ c "of_nat (item_count c)" d] by (simp add: CollectionIterator_new_def item_cells_def sendable_def)
  qed
  from collection_items.drain_all [OF this, of 0] show ?thesis
    using v col by (simp add: cass_iterator_from_collection_def Value_is_collection_def)
qed

lemma split_pairs: "length xs = 2 * n \<Longrightarrow> \<exists>ps. flat_pairs ps = xs \<and> length ps = n"
proof (induction n arbitrary: xs)
  case (Suc n)
  then obtain a b ys where "xs = a # b # ys" "length ys = 2 * n" by (auto simp: length_Suc_conv)
  moreover then obtain ps where "flat_pairs ps = ys" "length ps = n" using Suc.IH by blast
  ultimately show ?case by (intro exI [of _ "(a, b) # ps"]) simp
qed simp

lemma item_types_pairs:
  assumes "value_type_of t = CASS_VALUE_TYPE_MAP"
  shows "map (item_type t) [0..<2 * n] = flat_pairs (replicate n (item_type t 0, item_type t 1))"
proof (induction n)
  case (Suc n)
  have "flat_pairs (replicate (Suc n) p) = flat_pairs (replicate n p) @ [fst p, snd p]" for p :: "data_type option \<times> data_type option"
    by (induction n) (simp_all add: flat_pairs_def split_def)
  moreover have "item_type t (2 * n) = item_type t 0" "item_type t (Suc (2 * n)) = item_type t 1"
    using assms by (simp_all add: item_type_def)
  ultimately show ?case using Suc by simp
qed simp

lemma map_iterated:
  assumes s: "sendable version c" and m: "value_type_of (cl_type c) = CASS_VALUE_TYPE_MAP"
    and v: "v = Value_collection (cl_type c) (of_nat (item_count c)) d" "d_protocol_version d = version"
    and a: "cells_ahead True (item_cells c) tail d"
  shows "\<exists>ps. flat_pairs ps = views True version (item_cells c) tail \<and>
    Option.bind (cass_iterator_from_map v) (drain (Suc (length ps)) MapIterator_next pair_of) = Some ps"
proof -
  let ?it = "MapIterator_new v"
  have l: "length (cl_items c) = 2 * item_count c" using s m by (simp add: sendable_def item_count_def)
  obtain ps where ps: "flat_pairs ps = views True version (item_cells c) tail" "length ps = item_count c"
    using split_pairs [of "views True version (item_cells c) tail" "item_count c"] l by auto
  have t: "map fst (item_cells c) = flat_pairs (replicate (item_count c) (item_type (cl_type c) 0, item_type (cl_type c) 1))"
    using m l by (simp add: item_cells_def o_def item_types_pairs [OF m])
  have "map_yields ?it ps"
    unfolding map_yields_def
  proof (intro exI conjI)
    show "flat_pairs ps = views True (d_protocol_version (vi_decoder ?it)) (item_cells c) tail" using ps v by (simp add: MapIterator_new_def)
    show "cells_ahead True (item_cells c) tail (vi_decoder ?it)" using v a by (simp add: MapIterator_new_def)
    show "items_left (mi_index ?it) (mi_count ?it) (length ps)" using item_count_left(2) [OF s] v ps(2) by (simp add: MapIterator_new_def)
    show "map fst (item_cells c) = flat_pairs (replicate (length ps) (primary_data_type (mi_map ?it), secondary_data_type (mi_map ?it)))"
      using t ps(2) v s m by (auto simp: MapIterator_new_def primary_data_type_def secondary_data_type_def item_type_def sendable_def)
  qed
  from map_items.drain_all [OF this, of 0] show ?thesis
    using ps v m by (intro exI [of _ ps]) (simp add: cass_iterator_from_map_def Value_is_map_def)
qed

text \<open>C30. What an application puts into a list, set or map is what an application that gets it from a result reads: on a value that holds the encoding of a collection the
  iterator ends and has yielded exactly its items, each with the type of its place, and for a map the iterator over pairs yields
  them two by two. Items that are collections can be read the same way.\<close>

theorem collections_read_back:
  assumes "sendable version c" "holds version (Some (cl_type c), Some (collection_body version c)) v"
  shows "\<exists>vs. Option.bind (cass_iterator_from_collection v) (drain (Suc (length (cl_items c))) CollectionIterator_next vi_value) = Some vs \<and>
    list_all2 (holds version) (item_cells c) vs \<and>
    (value_type_of (cl_type c) = CASS_VALUE_TYPE_MAP \<longrightarrow>
      (\<exists>ps. flat_pairs ps = vs \<and> Option.bind (cass_iterator_from_map v) (drain (Suc (length ps)) MapIterator_next pair_of) = Some ps))"
proof -
  obtain d tail where v: "v = Value_collection (cl_type c) (of_nat (item_count c)) d" "d_protocol_version d = version"
      and a: "cells_ahead True (item_cells c) tail d"
    using collection_view [OF assms] by blast
  show ?thesis using collection_iterated [OF assms(1) v a] map_iterated [OF assms(1) _ v a] views_hold [of version "item_cells c" True tail]
    by (intro exI [of _ "views True version (item_cells c) tail"]) simp
qed

theorem collections_read_back_witness:
  "let c = \<lparr>cl_type = CollectionType CASS_VALUE_TYPE_LIST [Some (SimpleType 0x09 False)] False,
            cl_items = [map Some [0, 0, 0, 1], map Some [0, 0, 0, 2]]\<rparr>;
       v = view_of 4 (Some (cl_type c), Some (collection_body 4 c)) [9]
   in \<exists>vs. Option.bind (cass_iterator_from_collection v) (drain 3 CollectionIterator_next vi_value) = Some vs \<and>
        list_all2 (holds 4) (item_cells c) vs"
proof -
  let ?c = "\<lparr>cl_type = CollectionType CASS_VALUE_TYPE_LIST [Some (SimpleType 0x09 False)] False,
            cl_items = [map Some [0, 0, 0, 1], map Some [0, 0, 0, 2]]\<rparr> :: collection"
  have "sendable 4 ?c"
    by (simp add: sendable_def item_cells_def item_type_def cell_ok_def size_fits_def short_size_def item_count_def is_collection_def
      collection_body_def bytes32_def codec_length)
  moreover have "holds 4 (Some (cl_type ?c), Some (collection_body 4 ?c)) (view_of 4 (Some (cl_type ?c), Some (collection_body 4 ?c)) [9])"
    by (auto simp: holds_def)
  ultimately have r: "\<exists>vs. Option.bind (cass_iterator_from_collection (view_of 4 (Some (cl_type ?c), Some (collection_body 4 ?c)) [9]))
      (drain (Suc (length (cl_items ?c))) CollectionIterator_next vi_value) = Some vs \<and> list_all2 (holds 4) (item_cells ?c) vs"
    using collections_read_back [of 4 ?c] by blast
  have three: "Suc (length (cl_items ?c)) = 3" by simp
  from r show ?thesis unfolding Let_def three .
qed

lemma regular_view:
  assumes "holds version (Some t, Some b) v" "\<not> is_collection t" "b = cells_bytes False version cells" "length b < 2 ^ 31"
    and "length cells = length types" "\<forall>tc \<in> set (zip types cells). cell_ok False version tc"
  shows "\<exists>d tail. v = Value_regular t d \<and> d_protocol_version d = version \<and> cells_ahead False (zip types cells) tail d"
proof -
  obtain tail where "v = Value_regular t (cell_decoder version b tail)" using assms(1,2) by (auto simp: holds_def view_of_def)
  moreover have "cells_ahead False (zip types cells) tail (cell_decoder version b tail)" "d_protocol_version (cell_decoder version b tail) = version"
    using assms(3-) by (simp_all add: cells_ahead_def cell_decoder_def Decoder_new_def unat_of_nat)
  ultimately show ?thesis by blast
qed

lemma value_regular_simps [simp]:
  "vl_type (Value_regular t d) = Some t" "vl_decoder (Value_regular t d) = d" "vl_is_null (Value_regular t d) = False"
  by (simp_all add: Value_regular_def)

text \<open>The items of a tuple are yielded with their types, null for those that were not set.\<close>

lemma tuples_read_back:
  assumes "tv_type tv = TupleType types frozen" "map tuple_item_bytes (tv_items tv) = map (cell_bytes False version) cells"
    and "length cells = length types" "\<forall>tc \<in> set (zip types cells). cell_ok False version tc"
    and "length (payload heap (Bound_tuple tv)) < 2 ^ 31" "holds version (Some (tv_type tv), Some (payload heap (Bound_tuple tv))) v"
  shows "\<exists>vs. Option.bind (cass_iterator_from_tuple v) (drain (Suc (length types)) TupleIterator_next vi_value) = Some vs \<and>
    list_all2 (holds version) (zip types cells) vs"
proof -
  have b: "payload heap (Bound_tuple tv) = cells_bytes False version cells" using assms(2) by (simp add: payload_def cells_bytes_def)
  obtain d tail where v: "v = Value_regular (tv_type tv) d" "d_protocol_version d = version" "cells_ahead False (zip types cells) tail d"
    using regular_view [OF assms(6) _ b assms(5,3,4)] assms(1) by (auto simp: is_collection_def)
  have "tuple_yields (TupleIterator_new v) (views False version (zip types cells) tail)"
    unfolding tuple_yields_def
    using v assms(1,3) by (intro exI [of _ "zip types cells"] exI [of _ tail]) (simp add: TupleIterator_new_def)
  from tuple_items.drain_all [OF this, of 0] show ?thesis
    using v assms(1,3) views_hold [of version "zip types cells" False tail]
    by (auto simp: cass_iterator_from_tuple_def Value_is_tuple_def)
qed

text \<open>C31. The fields of a user type that was bound are what an application reads from a value of that type: the iterator over its fields yields all names with their values, null for
  fields that were not set, and ends.\<close>

theorem user_types_read_back:
  assumes "uv_type uv = UserType keyspace name fs frozen" "map (element_bytes heap CASS_HIGHEST_SUPPORTED_PROTOCOL_VERSION) (uv_elements uv) = map (cell_bytes False version) cells"
    and "length cells = length fs" "\<forall>tc \<in> set (zip (map snd fs) cells). cell_ok False version tc"
    and "length (payload heap (Bound_user_type uv)) < 2 ^ 31" "holds version (Some (uv_type uv), Some (payload heap (Bound_user_type uv))) v"
  shows "\<exists>vs. Option.bind (cass_iterator_fields_from_user_type v) (drain (Suc (length fs)) UserTypeFieldIterator_next field_of) = Some (zip (map fst fs) vs) \<and>
    list_all2 (holds version) (zip (map snd fs) cells) vs"
proof -
  let ?tcs = "zip (map snd fs) cells"
  have b: "payload heap (Bound_user_type uv) = cells_bytes False version cells" using assms(2) by (simp add: payload_def cells_bytes_def)
  obtain d tail where v: "v = Value_regular (uv_type uv) d" "d_protocol_version d = version" "cells_ahead False ?tcs tail d"
    using regular_view [OF assms(6) _ b assms(5) _ assms(4)] assms(1,3) by (auto simp: is_collection_def)
  let ?vs = "views False version ?tcs tail"
  have "field_yields (UserTypeFieldIterator_new v) (zip (map fst fs) ?vs)"
    unfolding field_yields_def
    using v assms(1,3) by (intro exI [of _ ?tcs] exI [of _ tail]) (simp add: UserTypeFieldIterator_new_def)
  from user_type_items.drain_all [OF this, of 0] show ?thesis
    using v assms(1,3) views_hold [of version ?tcs False tail]
    by (intro exI [of _ ?vs]) (simp add: cass_iterator_fields_from_user_type_def Value_is_user_type_def)
qed

theorem user_types_read_back_witness:
  "let uv = \<lparr>uv_type = UserType ''ks'' ''point'' [(''x'', Some (SimpleType 0x09 False)), (''y'', Some (SimpleType 0x09 False))] False,
             uv_elements = [Buffer_element (map Some [0, 0, 0, 4, 0, 0, 0, 7]), Unset_element]\<rparr>;
       heap = (\<lambda>_. Collection_new CASS_VALUE_TYPE_LIST);
       v = view_of 4 (Some (uv_type uv), Some (payload heap (Bound_user_type uv))) []
   in \<exists>vs. Option.bind (cass_iterator_fields_from_user_type v) (drain 3 UserTypeFieldIterator_next field_of) = Some (zip [''x'', ''y''] vs) \<and>
        list_all2 (holds 4) [(Some (SimpleType 0x09 False), Some [0, 0, 0, 7]), (Some (SimpleType 0x09 False), None)] vs"
proof -
  let ?fs = "[(''x'', Some (SimpleType 0x09 False)), (''y'', Some (SimpleType 0x09 False))]"
  let ?uv = "\<lparr>uv_type = UserType ''ks'' ''point'' ?fs False, uv_elements = [Buffer_element (map Some [0, 0, 0, 4, 0, 0, 0, 7]), Unset_element]\<rparr>"
  let ?heap = "\<lambda>_ :: nat. Collection_new CASS_VALUE_TYPE_LIST"
  let ?v = "view_of 4 (Some (uv_type ?uv), Some (payload ?heap (Bound_user_type ?uv))) []"
  have four: "encode_int32 4 = [0, 0, 0, 4]" by code_simp
  have e: "map (element_bytes ?heap CASS_HIGHEST_SUPPORTED_PROTOCOL_VERSION) (uv_elements ?uv) = map (cell_bytes False 4) [Some [0, 0, 0, 7], None]"
    using four by (simp add: element_bytes_def element_is_unset_def cell_bytes_def size_bytes_def short_size_def buffer_bytes_def)
  have ok: "\<forall>tc \<in> set (zip (map snd ?fs) [Some [0, 0, 0, 7], None]). cell_ok False 4 tc"
    by (simp add: cell_ok_def size_fits_def short_size_def is_collection_def)
  have l: "length (payload ?heap (Bound_user_type ?uv)) < 2 ^ 31"
    by (simp add: payload_def element_bytes_def element_is_unset_def buffer_bytes_def codec_length)
  have h: "holds 4 (Some (uv_type ?uv), Some (payload ?heap (Bound_user_type ?uv))) ?v" by (auto simp: holds_def)
  have t: "uv_type ?uv = UserType ''ks'' ''point'' ?fs False" by (simp only: user_value.simps)
  have n: "length [Some [0, 0, 0, 7 :: byte], None] = length ?fs" by (simp only: list.size)
  have eqs: "map fst ?fs = [''x'', ''y'']" "Suc (length ?fs) = 3"
      "zip (map snd ?fs) [Some [0, 0, 0, 7 :: byte], None] = [(Some (SimpleType 0x09 False), Some [0, 0, 0, 7]), (Some (SimpleType 0x09 False), None)]"
    by simp_all
  from user_types_read_back [OF t e n ok l h] show ?thesis unfolding Let_def eqs .
qed

subsection \<open>Rows\<close>

definition row_step :: "row_iterator \<Rightarrow> bool outcome \<times> row_iterator" where
  "row_step it = (let (b, it') = RowIterator_next it in (Done b, it'))"

definition row_yields :: "row_iterator \<Rightarrow> value_view option list \<Rightarrow> bool" where
  "row_yields it vs \<longleftrightarrow>
     - 1 \<le> sint (ri_index it) \<and> sint (ri_index it) + 1 \<le> int (length (ri_row it)) \<and> length (ri_row it) < 2 ^ 31 \<and>
     vs = map Some (drop (nat (sint (ri_index it) + 1)) (ri_row it))"

lemma row_index:
  assumes "row_yields it vs"
  shows "sint (ri_index it + 1) = sint (ri_index it) + 1" "unat (scast (ri_index it + 1) :: size_t) = nat (sint (ri_index it) + 1)"
proof -
  show s: "sint (ri_index it + 1) = sint (ri_index it) + 1" using assms by (intro sint_plus_one) (simp add: row_yields_def)
  show "unat (scast (ri_index it + 1) :: size_t) = nat (sint (ri_index it) + 1)"
    unfolding s [symmetric] by (rule unat_scast_nonneg) (use s assms in \<open>auto simp: row_yields_def\<close>)
qed

interpretation row_items: sequence_iterator row_step RowIterator_column row_yields
proof
  fix it assume y: "row_yields it []"
  then have "length (ri_row it) \<le> nat (sint (ri_index it) + 1)" by (simp add: row_yields_def)
  then show "\<exists>it'. row_step it = (Done False, it')" using row_index(2) [OF y] by (simp add: row_step_def RowIterator_next_def)
next
  fix it v vs assume y: "row_yields it (v # vs)"
  let ?k = "nat (sint (ri_index it) + 1)" and ?it = "it\<lparr>ri_index := ri_index it + 1\<rparr>"
  have vs: "v # vs = map Some (drop ?k (ri_row it))" using y by (simp add: row_yields_def)
  then have k: "?k < length (ri_row it)" by (metis drop_eq_Nil2 leI list.simps(8) neq_Nil_conv)
  then have d: "v = Some (ri_row it ! ?k)" "vs = map Some (drop (Suc ?k) (ri_row it))" using vs by (simp_all add: Cons_nth_drop_Suc [symmetric])
  have n: "0 \<le> sint (ri_index it) + 1" using y by (simp add: row_yields_def)
  have "row_step it = (Done True, ?it)" using k row_index(2) [OF y] by (simp add: row_step_def RowIterator_next_def)
  moreover have "RowIterator_column ?it = v" using d(1) k n row_index(1) [OF y] by (simp add: RowIterator_column_def)
  moreover have "row_yields ?it vs"
    using y d(2) k n row_index(1) [OF y] by (simp add: row_yields_def nat_add_distrib Suc_nat_eq_nat_zadd1 add.commute)
  ultimately show "\<exists>it'. row_step it = (Done True, it') \<and> RowIterator_column it' = v \<and> row_yields it' vs" by blast
qed

lemma row_columns_read:
  assumes "length row < 2 ^ 31"
  shows "drain (Suc (length row)) row_step RowIterator_column (RowIterator_new row) = Some (map Some row)"
proof -
  have "row_yields (RowIterator_new row) (map Some row)" using assms by (simp add: row_yields_def RowIterator_new_def)
  from row_items.drain_all [OF this, of 0] show ?thesis by simp
qed

text \<open>A name finds the first column that has it.\<close>

lemma row_by_name:
  assumes "rr_metadata r = Some columns" "length columns < 2 ^ 58" "length row = length columns" "name \<noteq> [CHR 0x22]"
  shows "Row_get_by_name r row (Some name) =
    Done (case matching (map (\<lambda>c. byte_string (cd_name c)) columns) name of [] \<Rightarrow> None | i # _ \<Rightarrow> Some (row ! i))"
proof -
  let ?es = "map (\<lambda>c. HashTableEntry (byte_string (cd_name c)) c) columns"
  obtain t :: "column_definition htable" where t: "HashTable_new 0 (length columns) = Some t" "htable_ok t" "ht_names t = []" "ht_capacity t = max (length columns) 16"
    using new_ok [of "length columns" 0] assms(2) by auto
  obtain t' where t': "add_entries ?es t = Some t'" "htable_ok t'" "ht_names t' = map (\<lambda>c. byte_string (cd_name c)) columns"
    using add_entries_ok [OF t(2), of ?es] t(3,4) assms(2) by (auto simp: o_def HashTableEntry_def)
  have g: "ResultMetadata_get_indices columns (Some name) = Some (matching (map (\<lambda>c. byte_string (cd_name c)) columns) name)"
    using t(1) t'(1) get_indices_ok [OF t'(2) assms(4)] t'(3) by (simp add: ResultMetadata_get_indices_def ResultMetadata_table_def)
  have "set (matching (map (\<lambda>c. byte_string (cd_name c)) columns) name) \<subseteq> {..<length columns}" by (auto simp: matching_def)
  then show ?thesis using g assms(1,3) by (auto simp: Row_get_by_name_def split: list.splits)
qed

subsection \<open>Results\<close>

definition typed :: "column_definition list \<Rightarrow> cell list \<Rightarrow> (data_type option \<times> cell) list" where
  "typed columns cs = zip (map (\<lambda>c. Some (cd_type c)) columns) cs"

lemma views_append: "views inside version (a @ b) tail = views inside version a (cells_bytes inside version (map snd b) @ tail) @ views inside version b tail"
  by (induction a) (simp_all add: cells_bytes_def)

lemma cells_ahead_append:
  assumes "cells_ahead False (typed columns cs @ later) tail d" "length cs = length columns"
  shows "\<exists>d'. decode_row_into columns d =
      (Done True, views False (d_protocol_version d) (typed columns cs) (cells_bytes False (d_protocol_version d) (map snd later) @ tail), d') \<and>
    cells_ahead False later tail d' \<and> d_protocol_version d' = d_protocol_version d"
  using assms
proof (induction columns arbitrary: cs d)
  case Nil
  then show ?case by (simp add: typed_def)
next
  case (Cons c columns)
  then obtain x cs' where cs: "cs = x # cs'" "length cs' = length columns" by (cases cs) auto
  let ?v = "d_protocol_version d"
  have "cells_ahead False ((Some (cd_type c), x) # (typed columns cs' @ later)) tail d" using Cons.prems(1) cs by (simp add: typed_def)
  from cells_ahead_step [OF this] obtain d1 where d1: "decode_value (Some (cd_type c)) False d =
      (Done (view_of ?v (Some (cd_type c), x) (cells_bytes False ?v (map snd (typed columns cs' @ later)) @ tail)), d1)"
      "cells_ahead False (typed columns cs' @ later) tail d1" "d_protocol_version d1 = ?v"
    by auto
  from Cons.IH [OF d1(2) cs(2)] d1(3) obtain d2 where d2: "decode_row_into columns d1 =
      (Done True, views False ?v (typed columns cs') (cells_bytes False ?v (map snd later) @ tail), d2)" "cells_ahead False later tail d2" "d_protocol_version d2 = ?v"
    by auto
  then show ?case using d1(1) cs by (simp add: typed_def cells_bytes_def)
qed

lemma decode_value_unfolded:
  assumes "decode_value (Some t) inside d = (Done v, d')"
  shows "\<exists>dv. Decoder_decode_value (is_collection t) inside d = (Done dv, d') \<and> v = Value_of t dv"
  using assms by (auto simp: decode_value_def and_then_def split: prod.splits outcome.splits decoded_value.splits)

lemma decode_row_into_row:
  "decode_row_into columns d = (Done True, row, d') \<Longrightarrow> \<exists>dvs. decode_row columns d = (Done dvs, d') \<and> row = row_of columns dvs"
proof (induction columns arbitrary: d row)
  case Nil
  then show ?case by (simp add: succeed_def row_of_def)
next
  case (Cons c columns)
  obtain r d1 where r: "decode_value (Some (cd_type c)) False d = (r, d1)" by (cases "decode_value (Some (cd_type c)) False d")
  from Cons.prems r obtain v vs where v: "r = Done v" "decode_row_into columns d1 = (Done True, vs, d')" "row = v # vs"
    by (cases r) (auto simp: returned_def split: prod.splits)
  obtain dv where "Decoder_decode_value (is_collection (cd_type c)) False d = (Done dv, d1)" "v = Value_of (cd_type c) dv"
    using decode_value_unfolded r v(1) by blast
  moreover obtain dvs where "decode_row columns d1 = (Done dvs, d')" "vs = row_of columns dvs" using Cons.IH [OF v(2)] by blast
  ultimately show ?case using v(3) by (simp add: and_then_def succeed_def row_of_def)
qed

primrec row_views :: "int \<Rightarrow> column_definition list \<Rightarrow> cell list list \<Rightarrow> byte list \<Rightarrow> row list" where
  "row_views version columns [] tail = []"
| "row_views version columns (cs # rows) tail =
     views False version (typed columns cs) (cells_bytes False version (map snd (concat (map (typed columns) rows))) @ tail) #
     row_views version columns rows tail"

lemma length_row_views [simp]: "length (row_views version columns rows tail) = length rows"
  by (induction rows) simp_all

lemma row_views_hold: "list_all2 (\<lambda>cs. list_all2 (holds version) (typed columns cs)) rows (row_views version columns rows tail)"
  by (induction rows) (simp_all add: views_hold)

definition rows_before :: "result_iterator \<Rightarrow> row list" where
  "rows_before it = (if sint (rs_index it) = - 1 \<and> 0 < sint (rr_row_count (rs_result it)) then [ResultResponse_first_row (rs_result it)] else [])"

definition result_yields :: "result_iterator \<Rightarrow> row option list \<Rightarrow> bool" where
  "result_yields it vs \<longleftrightarrow>
     (\<exists>rows tail. let columns = ResultResponse_columns (rs_result it) in
        cells_ahead False (concat (map (typed columns) rows)) tail (rs_decoder it) \<and> (\<forall>cs \<in> set rows. length cs = length columns) \<and>
        items_left (rs_index it) (rr_row_count (rs_result it)) (length vs) \<and>
        vs = map Some (rows_before it @ row_views (d_protocol_version (rs_decoder it)) columns rows tail))"

interpretation result_items: sequence_iterator ResultIterator_next ResultIterator_row result_yields
proof
  fix it assume "result_yields it []"
  then have "items_left (rs_index it) (rr_row_count (rs_result it)) 0" by (auto simp: result_yields_def Let_def)
  then show "\<exists>it'. ResultIterator_next it = (Done False, it')" using items_left_simps(2) by (auto simp: ResultIterator_next_def)
next
  fix it v vs assume "result_yields it (v # vs)"
  then obtain rows tail where y: "cells_ahead False (concat (map (typed (ResultResponse_columns (rs_result it))) rows)) tail (rs_decoder it)"
      "\<forall>cs \<in> set rows. length cs = length (ResultResponse_columns (rs_result it))"
      "items_left (rs_index it) (rr_row_count (rs_result it)) (Suc (length vs))"
      "v # vs = map Some (rows_before it @ row_views (d_protocol_version (rs_decoder it)) (ResultResponse_columns (rs_result it)) rows tail)"
    by (auto simp: result_yields_def Let_def)
  let ?it = "it\<lparr>rs_index := rs_index it + 1\<rparr>" and ?cols = "ResultResponse_columns (rs_result it)" and ?v = "d_protocol_version (rs_decoder it)"
  note left = items_left_simps [OF y(3)]
  have go: "\<not> rr_row_count (rs_result it) <=s rs_index it + 1" using left(2) by simp
  have range: "0 \<le> sint (rs_index it + 1)" "sint (rs_index it + 1) < sint (rr_row_count (rs_result it))"
    using left(1) y(3) by (simp_all add: items_left_def)
  show "\<exists>it'. ResultIterator_next it = (Done True, it') \<and> ResultIterator_row it' = v \<and> result_yields it' vs"
  proof (cases "sint (rs_index it) = - 1")
    case True
    then have "rows_before it = [ResultResponse_first_row (rs_result it)]" using y(3) by (simp add: rows_before_def items_left_def)
    then have v: "v = Some (ResultResponse_first_row (rs_result it))" "vs = map Some (row_views ?v ?cols rows tail)" using y(4) by simp_all
    have z: "sint (rs_index it + 1) = 0" using True left(1) by simp
    have "ResultIterator_next it = (Done True, ?it)" using go z by (simp add: ResultIterator_next_def)
    moreover have "ResultIterator_row ?it = v" using v(1) z range by (simp add: ResultIterator_row_def)
    moreover have "result_yields ?it vs"
      unfolding result_yields_def Let_def using y(1,2) v(2) left(3) [OF refl] z
      by (intro exI [of _ rows] exI [of _ tail]) (simp add: rows_before_def)
    ultimately show ?thesis by blast
  next
    case False
    then have "rows_before it = []" by (simp add: rows_before_def)
    with y(4) obtain cs rows' where r: "rows = cs # rows'" by (cases rows) auto
    have v: "v = Some (views False ?v (typed ?cols cs) (cells_bytes False ?v (map snd (concat (map (typed ?cols) rows'))) @ tail))"
        "vs = map Some (row_views ?v ?cols rows' tail)" using y(4) r \<open>rows_before it = []\<close> by simp_all
    have pos: "0 < sint (rs_index it + 1)" using False left(1) y(3) by (simp add: items_left_def)
    obtain d' where d': "decode_row_into ?cols (rs_decoder it) = (Done True, the v, d')"
        "cells_ahead False (concat (map (typed ?cols) rows')) tail d'" "d_protocol_version d' = ?v"
      using cells_ahead_append [of ?cols cs "concat (map (typed ?cols) rows')" tail "rs_decoder it"] y(1,2) r v(1) by auto
    let ?it' = "?it\<lparr>rs_decoder := d', rs_row := the v\<rparr>"
    have "ResultIterator_next it = (Done True, ?it')" using go pos d'(1) by (simp add: ResultIterator_next_def)
    moreover have "ResultIterator_row ?it' = v" using v(1) pos range by (simp add: ResultIterator_row_def)
    moreover have "result_yields ?it' vs"
      unfolding result_yields_def Let_def using y(2) r v(2) left(3) [OF refl] pos d'(2,3)
      by (intro exI [of _ rows'] exI [of _ tail]) (simp add: rows_before_def)
    ultimately show ?thesis by blast
  qed
qed

definition rows_ahead :: "column_definition list \<Rightarrow> cell list list \<Rightarrow> byte list \<Rightarrow> decoder \<Rightarrow> bool" where
  "rows_ahead columns rows tail d \<longleftrightarrow>
     cells_ahead False (concat (map (typed columns) rows)) tail d \<and> (\<forall>cs \<in> set rows. length cs = length columns) \<and> length rows < 2 ^ 31"

lemma first_row_read:
  assumes "rows_ahead columns (cs # rows) tail (rr_decoder r)" "rr_metadata r = Some columns" "rr_first_row r = []" "0 < sint (rr_row_count r)"
  shows "\<exists>dvs d'. ResultResponse_decode_first_row r = Done (r\<lparr>rr_decoder := d', rr_first_row := dvs\<rparr>) \<and>
    row_of columns dvs = views False (d_protocol_version (rr_decoder r)) (typed columns cs)
      (cells_bytes False (d_protocol_version (rr_decoder r)) (map snd (concat (map (typed columns) rows))) @ tail) \<and>
    rows_ahead columns rows tail d' \<and> d_protocol_version d' = d_protocol_version (rr_decoder r)"
proof -
  let ?v = "d_protocol_version (rr_decoder r)"
  obtain d' where d': "decode_row_into columns (rr_decoder r) =
      (Done True, views False ?v (typed columns cs) (cells_bytes False ?v (map snd (concat (map (typed columns) rows))) @ tail), d')"
      "cells_ahead False (concat (map (typed columns) rows)) tail d'" "d_protocol_version d' = ?v"
    using cells_ahead_append [of columns cs "concat (map (typed columns) rows)" tail "rr_decoder r"] assms(1) by (auto simp: rows_ahead_def)
  obtain dvs where dvs: "decode_row columns (rr_decoder r) = (Done dvs, d')"
      "views False ?v (typed columns cs) (cells_bytes False ?v (map snd (concat (map (typed columns) rows))) @ tail) = row_of columns dvs"
    using decode_row_into_row [OF d'(1)] by blast
  have "ResultResponse_decode_first_row r = Done (r\<lparr>rr_decoder := d', rr_first_row := dvs\<rparr>)"
    using dvs(1) assms(2-) by (simp add: ResultResponse_decode_first_row_def)
  moreover have "rows_ahead columns rows tail d'" using assms(1) d'(2) by (simp add: rows_ahead_def)
  ultimately show ?thesis using dvs(2) d'(3) by (intro exI [of _ dvs] exI [of _ d']) simp
qed

text \<open>C32. Iterating over a result reads exactly its rows: when the bytes after the number of rows are the cells of that many rows, then decoding the first row succeeds, the
  iterator ends after the last row, and each row it yields has one value for each column that holds its cell and has its type. This is also so for
  metadata that is set later, from a prepared statement.\<close>

theorem result_rows_read:
  assumes "rows_ahead columns rows tail (rr_decoder r)" "rr_row_count r = of_nat (length rows)" "rr_first_row r = []"
  shows "\<exists>r' vs. ResultResponse_set_metadata columns r = Done r' \<and>
    drain (Suc (length rows)) ResultIterator_next ResultIterator_row (ResultIterator_new r') = Some (map Some vs) \<and>
    list_all2 (\<lambda>cs. list_all2 (holds (d_protocol_version (rr_decoder r))) (typed columns cs)) rows vs"
proof -
  let ?r = "r\<lparr>rr_metadata := Some columns\<rparr>" and ?v = "d_protocol_version (rr_decoder r)"
  have n: "sint (rr_row_count r) = int (length rows)" 
    unfolding assms(2) by (rule sint_of_nat_small) (use assms(1) in \<open>simp add: rows_ahead_def\<close>)
  have "\<exists>r'. ResultResponse_set_metadata columns r = Done r' \<and> result_yields (ResultIterator_new r') (map Some (row_views ?v columns rows tail))"
  proof (cases rows)
    case Nil
    then have "ResultResponse_set_metadata columns r = Done ?r" using n by (simp add: ResultResponse_set_metadata_def ResultResponse_decode_first_row_def)
    moreover have "result_yields (ResultIterator_new ?r) []"
      unfolding result_yields_def Let_def using assms(1) n Nil
      by (intro exI [of _ "[]"] exI [of _ tail]) (simp add: ResultIterator_new_def rows_before_def items_left_def rows_ahead_def)
    ultimately show ?thesis using Nil by simp
  next
    case (Cons cs rows')
    then obtain dvs d' where f: "ResultResponse_decode_first_row ?r = Done (?r\<lparr>rr_decoder := d', rr_first_row := dvs\<rparr>)"
        "row_of columns dvs # row_views ?v columns rows' tail = row_views ?v columns rows tail" "rows_ahead columns rows' tail d'" "d_protocol_version d' = ?v"
      using first_row_read [of columns cs rows' tail ?r] assms(1,3) n by auto
    let ?r' = "?r\<lparr>rr_decoder := d', rr_first_row := dvs\<rparr>"
    have "result_yields (ResultIterator_new ?r') (map Some (row_views ?v columns rows tail))"
      unfolding result_yields_def Let_def f(2) [symmetric] using f(3,4) n Cons
      by (intro exI [of _ rows'] exI [of _ tail])
        (simp add: ResultIterator_new_def rows_before_def items_left_def rows_ahead_def ResultResponse_columns_def ResultResponse_first_row_def)
    then show ?thesis using f(1) by (auto simp: ResultResponse_set_metadata_def)
  qed
  then obtain r' where r': "ResultResponse_set_metadata columns r = Done r'" "result_yields (ResultIterator_new r') (map Some (row_views ?v columns rows tail))" by blast
  from result_items.drain_all [OF r'(2), of 0] r'(1) show ?thesis
    by (intro exI [of _ r'] exI [of _ "row_views ?v columns rows tail"]) (simp add: row_views_hold)
qed

theorem result_rows_read_witness:
  "let columns = [\<lparr>cd_name = [107], cd_keyspace = [], cd_table = [], cd_type = SimpleType 0x09 False\<rparr>];
       r = ResultResponse_new\<lparr>rr_kind := 2, rr_row_count := 2,
             rr_decoder := Decoder_new (cells_bytes False 4 [Some [0, 0, 0, 1], None]) 12 4\<rparr>
   in \<exists>r' vs. ResultResponse_set_metadata columns r = Done r' \<and>
        drain 3 ResultIterator_next ResultIterator_row (ResultIterator_new r') = Some (map Some vs) \<and>
        list_all2 (\<lambda>cs. list_all2 (holds 4) (typed columns cs)) [[Some [0, 0, 0, 1]], [None]] vs"
proof -
  let ?columns = "[\<lparr>cd_name = [107], cd_keyspace = [], cd_table = [], cd_type = SimpleType 0x09 False\<rparr>]"
  let ?r = "ResultResponse_new\<lparr>rr_kind := 2, rr_row_count := 2,
      rr_decoder := Decoder_new (cells_bytes False 4 [Some [0, 0, 0, 1], None]) 12 4\<rparr>"
  have a: "rows_ahead ?columns [[Some [0, 0, 0, 1]], [None]] [] (rr_decoder ?r)"
    by (simp add: rows_ahead_def cells_ahead_def typed_def cells_bytes_def cell_bytes_def Decoder_new_def codec_length cell_ok_def size_fits_def
      short_size_def is_collection_def)
  have c: "rr_row_count ?r = of_nat (length [[Some [0, 0, 0, 1 :: byte]], [None]])" by simp
  have f: "rr_first_row ?r = []" by (simp add: ResultResponse_new_def)
  have eqs: "Suc (length [[Some [0, 0, 0, 1 :: byte]], [None]]) = 3" "d_protocol_version (rr_decoder ?r) = 4"
    by (simp_all add: Decoder_new_def)
  from result_rows_read [OF a c f] show ?thesis unfolding Let_def eqs .
qed

subsection \<open>Lists of strings\<close>

text \<open>A list that is a null value or has items of another type is an assertion.\<close>

definition Value_as_stringlist :: "value_view \<Rightarrow> byte list outcome list option" where
  "Value_as_stringlist v =
     (if \<not> vl_is_null v \<and> (Value_value_type v = CASS_VALUE_TYPE_LIST \<or> Value_value_type v = CASS_VALUE_TYPE_SET) \<and> primary_value_type v = 0x0D
      then drain (Suc (nat (sint (vl_count v)))) CollectionIterator_next (\<lambda>it. Value_to_string (vi_value it)) (CollectionIterator_new v)
      else None)"

lemma drain_map: "drain n step (\<lambda>it. f (current it)) it = map_option (map f) (drain n step current it)"
  by (induction n arbitrary: it) (auto simp: option.map_comp o_def split: prod.splits outcome.splits bool.splits)

text \<open>All strings of a list are returned, in order.\<close>

lemma stringlist_read:
  assumes "sendable version c" "value_type_of (cl_type c) \<in> {CASS_VALUE_TYPE_LIST, CASS_VALUE_TYPE_SET}" "item_type (cl_type c) 0 = Some (SimpleType 0x0D frozen)"
    and "holds version (Some (cl_type c), Some (collection_body version c)) v"
  shows "Value_as_stringlist v = Some (map (\<lambda>i. Done (buffer_bytes i)) (cl_items c))"
proof -
  have nm: "value_type_of (cl_type c) \<noteq> CASS_VALUE_TYPE_MAP" using assms(2) by auto
  obtain d tail where v: "v = Value_collection (cl_type c) (of_nat (item_count c)) d" "d_protocol_version d = version"
      and a: "cells_ahead True (item_cells c) tail d"
    using collection_view [OF assms(1,4)] by blast
  have n: "nat (sint (of_nat (item_count c) :: i32)) = length (cl_items c)"
    using item_count_left(2) [OF assms(1)] nm by (simp add: items_left_def item_count_def)
  have p: "primary_value_type v = 0x0D"
    using v assms(1,3) nm by (auto simp: primary_value_type_def primary_data_type_def item_type_def sendable_def split: if_splits)
  have col: "is_collection (cl_type c)" using assms(1) by (simp add: sendable_def)
  have it: "drain (Suc (length (cl_items c))) CollectionIterator_next vi_value (CollectionIterator_new v) = Some (views True version (item_cells c) tail)"
    using collection_iterated [OF assms(1) v a] v(1) col by (simp add: cass_iterator_from_collection_def Value_is_collection_def)
  have "Value_to_string (view_of version (Some (SimpleType 0x0D frozen), Some b) t) = Done b" if "length b < 2 ^ 31" for b t
    using that by (simp add: view_of_def is_collection_def Value_to_string_def cell_decoder_def Decoder_as_string_def Decoder_new_def unat_of_nat)
  then have each: "Value_to_string w = Done (the (snd tc))"
    if "holds version tc w" "tc \<in> set (item_cells c)" for w tc
    using that assms(1,3) nm by (auto simp: holds_def item_cells_def item_type_def sendable_def cell_ok_def size_fits_def split: if_splits)
  have "map Value_to_string (views True version (item_cells c) tail) = map (\<lambda>tc. Done (the (snd tc))) (item_cells c)"
    using views_hold [of version "item_cells c" True tail] each
    by - (rule nth_equalityI, auto simp: list_all2_conv_all_nth)
  also have "\<dots> = map (\<lambda>i. Done (buffer_bytes i)) (cl_items c)"
    using arg_cong [OF item_cells_bytes [of c], of "map (\<lambda>b. Done (the b))"] by (simp add: o_def)
  finally show ?thesis
    using v nm n p assms(2) it drain_map [where f = Value_to_string and current = vi_value and step = CollectionIterator_next]
    by (auto simp: Value_as_stringlist_def Value_value_type_def)
qed

subsection \<open>Where reading differs from what is meant\<close>

text \<open>The name of a column is asked for through a null pointer when the result has no columns, although another kind of result is an error code.\<close>

lemma column_name_of_void_result: "cass_result_column_name ResultResponse_new index = Out_of_bounds"
  by (simp add: cass_result_column_name_def ResultResponse_new_def)

text \<open>The read is inside of an assertion: without assertions every number of the system tables is zero.\<close>

lemma number_needs_assertions:
  "let v = view_of 4 (Some (SimpleType 0x09 False), Some [0, 0, 0, 7]) []
   in Value_as_int32 True v = Some 7 \<and> Value_as_int32 False v = Some 0"
  by code_simp

end
