(* ===== verification/Spec2Isabelle.thy ===== *)
theory Spec2Isabelle
  imports ConnectionInvariant RequestRuns PoolRuns LoadBalancing Values
begin

text \<open>
  A verification development for the DataStax C/C++ driver for Apache Cassandra and DataStax Enterprise
  (\<open>src/cpp-driver/src\<close>, and \<open>src/src\<close> for what DSE adds).

  \<^bold>\<open>The program.\<close> An application hands a request to a \<^emph>\<open>session\<close>, which asks its \<^emph>\<open>load balancing policy\<close> for a
  query plan and queues the request to an \<^emph>\<open>I/O worker\<close>. The \<^emph>\<open>request handler\<close> starts \<^emph>\<open>executions\<close> of the request;
  each borrows a connection from the \<^emph>\<open>pool\<close> of a host of the plan. A \<^emph>\<open>connection\<close> gives the request a \<^emph>\<open>stream id\<close>, encodes it
  and writes it to the socket; it cuts the bytes that come back into \<^emph>\<open>frames\<close>, \<^emph>\<open>decodes\<close> their bodies and finishes the request with the
  stream id of the response. On an error the \<^emph>\<open>retry policy\<close> says whether the request is sent again. Token-aware plans
  use the \<^emph>\<open>token map\<close>, which hashes partition keys with a \<^emph>\<open>partitioner\<close> and knows the \<^emph>\<open>replicas\<close> of
  every range of tokens.

  \<^bold>\<open>The model.\<close> Classes are records, enumerations are datatypes, methods are total functions on the records, and an N-bit integer is
  an N-bit word wherever its width can be seen. Failed assertions, reads outside a buffer and errors are values. Calls
  that leave a component are written to a log of notices in the record, or are arguments that say what the callee answers. Runs of stateful components are
  inductive step relations, and what holds in all runs is proved by induction over them.
  Log output and metrics are left out everywhere.

  \<^bold>\<open>The wire format.\<close>
  \<^item> \<open>Prelude\<close>: machine types, the collections of simplification rules, shared facts on bytes and lists.
  \<^item> \<open>Serialization\<close> (\<open>serialization.hpp\<close>): the fixed-width primitives. Locale \<open>fixed_codec\<close> states what an encoder and a
    decoder owe each other and is interpreted for ten pairs.
  \<^item> \<open>Utils\<close> (\<open>utils.hpp\<close>, \<open>utils.cpp\<close>): bit counts, sizes of variable-length integers, identifiers.
  \<^item> \<open>Encode\<close> (\<open>buffer.hpp\<close>, \<open>encode.hpp\<close>, \<open>encode.cpp\<close>): buffers as cells, None where nothing was written, and all encoders of values.
  \<^item> \<open>Decoder\<close> (\<open>decoder.hpp\<close>, \<open>decoder.cpp\<close>): every method of the reader, with its bounds checks and the byte
    accesses it makes.
  \<^item> \<open>Codec\<close>: memory safety of the decoder and round trips between the encoders and the decoders.
  \<^item> \<open>DataType\<close> (\<open>data_type.hpp\<close>, \<open>data_type.cpp\<close>): data types, their equality, and their wire format, read back at any nesting
    depth. The decoder takes the depth as fuel; the length of the encoding is enough, since every level takes at
    least two bytes.
  \<^item> \<open>Responses\<close> (\<open>*_response.hpp\<close>, \<open>*_response.cpp\<close>): the bodies of responses, and where their decoders leave the buffer.
  \<^item> \<open>HashTable\<close> (\<open>hash_table.hpp\<close>, \<open>hash.hpp\<close>): the table from names to the places they have, with its pointers between entries; a lookup
    in it is a search of the list of names.
  \<^item> \<open>Collections\<close> (\<open>abstract_data.*\<close>, \<open>collection.*\<close>, \<open>tuple.*\<close>, \<open>user_type_value.*\<close>): the values an application binds, their check against data
    types, and what is written for them.
  \<^item> \<open>Values\<close> (\<open>value.*\<close>, \<open>row.*\<close>, the iterators and \<open>result_response.cpp\<close>): what an application reads from a result. Locale \<open>sequence_iterator\<close> is the contract of
    an iterator, interpreted for the six that there are; what was bound is read back, item by item and row by row. The loop over an iterator has a bound on its rounds,
    one more than there are items is enough.
  \<^item> \<open>Frame\<close> (\<open>response.hpp\<close>, \<open>response.cpp\<close>): a stream of frames gives the same responses however it is cut into reads.

  \<^bold>\<open>Requests.\<close>
  \<^item> \<open>StreamManager\<close> (\<open>stream_manager.hpp\<close>): stream ids in a bit set of 64-bit words. Locale \<open>stream_allocator\<close> has the laws a connection
    relies on.
  \<^item> \<open>Connection\<close> (\<open>connection.hpp\<close>, \<open>connection.cpp\<close>, \<open>request_callback.hpp\<close>, \<open>request_callback.cpp\<close>): requests and writes in flight,
    startup, heartbeats, closing. \<open>ConnectionInvariant\<close> proves that every request is finished exactly once. The loop that finishes the pending writes
    has the number of pending writes as fuel, each round removes one.
  \<^item> \<open>RetryPolicy\<close> (\<open>retry_policy.hpp\<close>, \<open>retry_policy.cpp\<close>): the four policies.
  \<^item> \<open>RequestHandler\<close> (\<open>request_handler.hpp\<close>, \<open>request_handler.cpp\<close>, \<open>speculative_execution.hpp\<close>, parts of \<open>io_worker.cpp\<close>,
    \<open>pool.cpp\<close> and \<open>session.cpp\<close>): a request and its executions. \<open>RequestRuns\<close> proves that the
    future is set exactly once, that a request is never lost, and what is retried.
  \<^item> \<open>Pool\<close> (\<open>pool.hpp\<close>, \<open>pool.cpp\<close>): the connections to a host. \<open>PoolRuns\<close> proves that their number is bounded, what the I/O worker is told of a
    pool, and that closing ends.

  \<^bold>\<open>Routing.\<close>
  \<^item> \<open>Murmur3\<close> (\<open>murmur3.cpp\<close>) and \<open>Md5\<close> (\<open>md5.cpp\<close>): the two hashes, equal to reference definitions.
  \<^item> \<open>Partitioner\<close> (\<open>token_map_impl.cpp\<close>): tokens and their text, with locale \<open>partitioner\<close>.
  \<^item> \<open>Address\<close>, \<open>Host\<close> (\<open>address.hpp\<close>, \<open>host.hpp\<close>): addresses, hosts and vectors of hosts (locale \<open>host_vector\<close>).
  \<^item> \<open>Replication\<close> (\<open>token_map_impl.hpp\<close>): the replicas of a token, with locale \<open>replication\<close> for what all strategies share.
  \<^item> \<open>TokenMap\<close> (\<open>token_map_impl.hpp\<close>, \<open>token_map.cpp\<close>): the ring, its owners and its lookups.
  \<^item> \<open>LoadBalancing\<close> (\<open>load_balancing.hpp\<close> and the policies): the policies, their plans and the lists of hosts these stand for (locale
    \<open>query_plan\<close>).

  \<^bold>\<open>Not modelled.\<close> Threads, the event loop, sockets, timers and name resolution (libuv); encryption (OpenSSL) and GSSAPI; JSON (RapidJSON); metrics (a
  histogram library); logging; reference counting and allocation. The C interface converts between classes and opaque pointers. Where
  the code relies on such a part, what it answers is an argument of the model.
\<close>

end
